(* ===== verification/PyFloat.thy ===== *)
theory PyFloat
  imports Complex_Main Prelude
begin

section \<open>Python floats\<close>

text \<open>
  The expression language computes with Python's \<open>int\<close> and \<open>float\<close>.  A float is an IEEE
  binary64 value: a finite value is held as the rational it denotes (the rational \<open>0\<close> is
  positive zero), and every operation rounds the exact result to 53 significant bits, ties
  to even, with the subnormal range and overflow to infinity.  Comparisons between numbers
  are exact, as Python's are, also between \<open>int\<close> and \<open>float\<close>.
\<close>

datatype pyfloat = FFin rat | FNegZero | FInf | FNegInf | FNan

subsection \<open>Rounding\<close>

fun ilog2 :: "nat \<Rightarrow> nat" where
  "ilog2 n = (if n < 2 then 0 else Suc (ilog2 (n div 2)))"

declare ilog2.simps [simp del]

definition pow_int :: "rat \<Rightarrow> int \<Rightarrow> rat" where
  "pow_int b e = (if 0 \<le> e then b ^ nat e else 1 / b ^ nat (- e))"

definition round_half_even :: "rat \<Rightarrow> int" where
  "round_half_even x =
     (let f = \<lfloor>x\<rfloor>; r = x - of_int f in
      if r < 1 / 2 \<or> (r = 1 / 2 \<and> even f) then f else f + 1)"

definition bin_exp :: "rat \<Rightarrow> int" where
  "bin_exp a =
     (let (n, d) = quotient_of a; k = int (ilog2 (nat n)) - int (ilog2 (nat d)) in
      if a < pow_int 2 k then k - 1 else k)"

definition double_of :: "bool \<Rightarrow> rat \<Rightarrow> pyfloat" where
  "double_of neg x =
     (if x = 0 then (if neg then FNegZero else FFin 0)
      else let a = \<bar>x\<bar>; q = max (bin_exp a - 52) (- 1074);
               v = of_int (round_half_even (a / pow_int 2 q)) * pow_int 2 q in
        if pow_int 2 1024 \<le> v then (if x < 0 then FNegInf else FInf)
        else if v = 0 then (if x < 0 then FNegZero else FFin 0)
        else FFin (if x < 0 then - v else v))"

subsection \<open>Exact comparison\<close>

datatype xnum = XFin rat | XPos | XNeg | XNan

fun xval :: "pyfloat \<Rightarrow> xnum" where
  "xval (FFin r) = XFin r"
| "xval FNegZero = XFin 0"
| "xval FInf = XPos"
| "xval FNegInf = XNeg"
| "xval FNan = XNan"

fun xeq :: "xnum \<Rightarrow> xnum \<Rightarrow> bool" where
  "xeq (XFin a) (XFin b) = (a = b)"
| "xeq XPos XPos = True"
| "xeq XNeg XNeg = True"
| "xeq _ _ = False"

fun xless :: "xnum \<Rightarrow> xnum \<Rightarrow> bool" where
  "xless (XFin a) (XFin b) = (a < b)"
| "xless (XFin a) XPos = True"
| "xless XNeg (XFin b) = True"
| "xless XNeg XPos = True"
| "xless _ _ = False"

lemma xless_irrefl [simp]: "\<not> xless a a"
  by (cases a) auto

lemma xless_trans: "xless a b \<Longrightarrow> xless b c \<Longrightarrow> xless a c"
  by (cases a; cases b; cases c) auto

lemma xeq_sym: "xeq a b \<longleftrightarrow> xeq b a"
  by (cases a; cases b) auto

lemma xless_linear: "a \<noteq> XNan \<Longrightarrow> b \<noteq> XNan \<Longrightarrow> xless a b \<or> xeq a b \<or> xless b a"
  by (cases a; cases b) auto

subsection \<open>Arithmetic\<close>

fun fneg_sign :: "pyfloat \<Rightarrow> bool" where
  "fneg_sign (FFin r) = (r < 0)"
| "fneg_sign FNegZero = True"
| "fneg_sign FNegInf = True"
| "fneg_sign _ = False"

fun ffinite :: "pyfloat \<Rightarrow> rat option" where
  "ffinite (FFin r) = Some r"
| "ffinite FNegZero = Some 0"
| "ffinite _ = None"

definition finf :: "bool \<Rightarrow> pyfloat" where
  "finf neg = (if neg then FNegInf else FInf)"

fun fneg :: "pyfloat \<Rightarrow> pyfloat" where
  "fneg (FFin r) = (if r = 0 then FNegZero else FFin (- r))"
| "fneg FNegZero = FFin 0"
| "fneg FInf = FNegInf"
| "fneg FNegInf = FInf"
| "fneg FNan = FNan"

definition fadd :: "pyfloat \<Rightarrow> pyfloat \<Rightarrow> pyfloat" where
  "fadd a b =
     (case (ffinite a, ffinite b) of
        (Some x, Some y) \<Rightarrow> double_of (a = FNegZero \<and> b = FNegZero) (x + y)
      | (Some _, None) \<Rightarrow> b
      | (None, Some _) \<Rightarrow> a
      | (None, None) \<Rightarrow> if a = b then a else FNan)"

definition fsub :: "pyfloat \<Rightarrow> pyfloat \<Rightarrow> pyfloat" where
  "fsub a b = fadd a (fneg b)"

definition fmul :: "pyfloat \<Rightarrow> pyfloat \<Rightarrow> pyfloat" where
  "fmul a b =
     (let neg = (fneg_sign a \<noteq> fneg_sign b) in
      if a = FNan \<or> b = FNan then FNan
      else case (ffinite a, ffinite b) of
        (Some x, Some y) \<Rightarrow> double_of neg (x * y)
      | (Some x, None) \<Rightarrow> if x = 0 then FNan else finf neg
      | (None, Some y) \<Rightarrow> if y = 0 then FNan else finf neg
      | (None, None) \<Rightarrow> finf neg)"

text \<open>Division by a non-zero divisor (the code has already refused a zero one).\<close>

definition fdiv :: "pyfloat \<Rightarrow> pyfloat \<Rightarrow> pyfloat" where
  "fdiv a b =
     (let neg = (fneg_sign a \<noteq> fneg_sign b) in
      if a = FNan \<or> b = FNan then FNan
      else case (ffinite a, ffinite b) of
        (Some x, Some y) \<Rightarrow> double_of neg (x / y)
      | (Some x, None) \<Rightarrow> double_of neg 0
      | (None, Some y) \<Rightarrow> finf neg
      | (None, None) \<Rightarrow> FNan)"

text \<open>
  \<open>float(n)\<close> of an integer, and the true quotient of two integers, are correctly rounded;
  where the result leaves the finite range Python raises \<open>OverflowError\<close> (\<^const>\<open>None\<close>).
\<close>

definition finite_or_none :: "pyfloat \<Rightarrow> pyfloat option" where
  "finite_or_none f = (if ffinite f = None then None else Some f)"

definition float_of_int :: "int \<Rightarrow> pyfloat option" where
  "float_of_int n = finite_or_none (double_of False (of_int n))"

definition int_true_div :: "int \<Rightarrow> int \<Rightarrow> pyfloat option" where
  "int_true_div m n = finite_or_none (double_of False (of_int m / of_int n))"

subsection \<open>Rendering\<close>

text \<open>\<open>repr\<close> of a float: the shortest decimal that rounds back to the same value.\<close>

definition dec_exp :: "rat \<Rightarrow> int" where
  "dec_exp a =
     (if 1 \<le> a then int (length (nat_str (nat \<lfloor>a\<rfloor>))) - 1
      else let k = length (nat_str (nat \<lfloor>1 / a\<rfloor>)) - 1 in
        if 1 / a = 10 ^ k then - int k else - int (Suc k))"

definition dec_digits :: "rat \<Rightarrow> nat \<Rightarrow> int \<times> rat" where
  "dec_digits a p =
     (let s = pow_int 10 (dec_exp a - int p + 1); m = round_half_even (a / s) in (m, of_int m * s))"

definition shortest_prec :: "rat \<Rightarrow> nat" where
  "shortest_prec a =
     (case find (\<lambda>p. double_of False (snd (dec_digits a p)) = FFin a) [1..<17] of
        Some p \<Rightarrow> p | None \<Rightarrow> 17)"

definition strip_zeros :: "string \<Rightarrow> string" where
  "strip_zeros s = rev (dropWhile (\<lambda>c. c = CHR ''0'') (rev s))"

definition float_repr_pos :: "rat \<Rightarrow> string" where
  "float_repr_pos a =
     (let p = shortest_prec a; m = fst (dec_digits a p); raw = nat_str (nat m);
          ds = strip_zeros raw; decpt = dec_exp a + 1 + int (length raw) - int p in
      if - 4 < decpt \<and> decpt \<le> 16 then
        (if decpt \<le> 0 then ''0.'' @ replicate (nat (- decpt)) CHR ''0'' @ ds
         else if int (length ds) \<le> decpt
           then ds @ replicate (nat decpt - length ds) CHR ''0'' @ ''.0''
         else take (nat decpt) ds @ ''.'' @ drop (nat decpt) ds)
      else
        (let e = decpt - 1; es = nat_str (nat \<bar>e\<bar>) in
         take 1 ds @ (if length ds = 1 then [] else CHR ''.'' # drop 1 ds)
           @ (if e < 0 then ''e-'' else ''e+'')
           @ (if length es < 2 then CHR ''0'' # es else es)))"

fun float_repr :: "pyfloat \<Rightarrow> string" where
  "float_repr (FFin r) =
     (if r = 0 then ''0.0''
      else if r < 0 then CHR ''-'' # float_repr_pos (- r) else float_repr_pos r)"
| "float_repr FNegZero = ''-0.0''"
| "float_repr FInf = ''inf''"
| "float_repr FNegInf = ''-inf''"
| "float_repr FNan = ''nan''"

text \<open>Adding is commutative, and negation is an involution.\<close>

lemma fadd_commute: "fadd a b = fadd b a"
  by (cases "ffinite a"; cases "ffinite b") (auto simp: fadd_def add.commute conj_commute)

lemma fneg_fneg [simp]: "fneg (fneg f) = f"
  by (cases f) auto

end
