(* ===== verification/PyValue.thy ===== *)
theory PyValue
  imports PyFloat
begin

section \<open>Python values\<close>

text \<open>
  The values a pipeline context holds: \<open>None\<close>, booleans, unbounded integers, floats, strings,
  lists and dictionaries with string keys (what JSON, the expression language and the canonical
  tool results produce).  Equality, truthiness, ordering and \<open>str\<close>/\<open>repr\<close> are Python's.
\<close>

datatype pyval =
    VNone
  | VBool bool
  | VInt int
  | VFloat pyfloat
  | VStr string
  | VList "pyval list"
  | VDict "(string \<times> pyval) list"

type_synonym ctx = "pyval dict"

subsection \<open>Types\<close>

fun type_name :: "pyval \<Rightarrow> string" where
  "type_name VNone = ''NoneType''"
| "type_name (VBool _) = ''bool''"
| "type_name (VInt _) = ''int''"
| "type_name (VFloat _) = ''float''"
| "type_name (VStr _) = ''str''"
| "type_name (VList _) = ''list''"
| "type_name (VDict _) = ''dict''"

fun is_bool :: "pyval \<Rightarrow> bool" where
  "is_bool (VBool _) = True" | "is_bool _ = False"

fun is_int :: "pyval \<Rightarrow> bool" where
  "is_int (VBool _) = True" | "is_int (VInt _) = True" | "is_int _ = False"

fun is_float :: "pyval \<Rightarrow> bool" where
  "is_float (VFloat _) = True" | "is_float _ = False"

fun is_str :: "pyval \<Rightarrow> bool" where
  "is_str (VStr _) = True" | "is_str _ = False"

fun is_list :: "pyval \<Rightarrow> bool" where
  "is_list (VList _) = True" | "is_list _ = False"

fun is_dict :: "pyval \<Rightarrow> bool" where
  "is_dict (VDict _) = True" | "is_dict _ = False"

fun as_dict :: "pyval \<Rightarrow> pyval dict option" where
  "as_dict (VDict d) = Some d" | "as_dict _ = None"

fun as_list :: "pyval \<Rightarrow> pyval list option" where
  "as_list (VList xs) = Some xs" | "as_list _ = None"

fun as_str :: "pyval \<Rightarrow> string option" where
  "as_str (VStr s) = Some s" | "as_str _ = None"

lemma as_dict_Some [simp]: "as_dict v = Some d \<longleftrightarrow> v = VDict d" by (cases v) auto
lemma as_list_Some [simp]: "as_list v = Some d \<longleftrightarrow> v = VList d" by (cases v) auto
lemma as_str_Some [simp]: "as_str v = Some d \<longleftrightarrow> v = VStr d" by (cases v) auto

lemma is_dict_iff: "is_dict v \<longleftrightarrow> (\<exists>d. v = VDict d)" by (cases v) auto
lemma is_list_iff: "is_list v \<longleftrightarrow> (\<exists>d. v = VList d)" by (cases v) auto
lemma is_str_iff: "is_str v \<longleftrightarrow> (\<exists>d. v = VStr d)" by (cases v) auto

text \<open>The keyed lookup \<open>value.get(k)\<close> on a value that may not be a dictionary.\<close>

definition vget :: "pyval \<Rightarrow> string \<Rightarrow> pyval option" where
  "vget v k = (case v of VDict d \<Rightarrow> dget d k | _ \<Rightarrow> None)"

lemma vget_VDict [simp]: "vget (VDict d) k = dget d k"
  by (simp add: vget_def)

lemma dget_size: "dget d k = Some v \<Longrightarrow> size v < size (VDict d)"
proof -
  assume "dget d k = Some v"
  then have "(k, v) \<in> set d" by (rule dget_mem)
  then have "size_prod (\<lambda>_. 0) size (k, v) \<le> size_list (size_prod (\<lambda>_. 0) size) d"
    by (rule size_list_estimation') simp
  then show ?thesis by simp
qed

lemma list_mem_size: "v \<in> set vs \<Longrightarrow> size v < size (VList vs)"
proof -
  assume "v \<in> set vs"
  then have "size v \<le> size_list size vs" by (rule size_list_estimation') simp
  then show ?thesis by simp
qed

lemma vget_size: "vget d k = Some v \<Longrightarrow> size v < size d"
  by (cases d) (auto simp: vget_def dest: dget_size)

subsection \<open>Truthiness, numbers and equality\<close>

fun truthy :: "pyval \<Rightarrow> bool" where
  "truthy VNone = False"
| "truthy (VBool b) = b"
| "truthy (VInt i) = (i \<noteq> 0)"
| "truthy (VFloat f) = (f \<noteq> FFin 0 \<and> f \<noteq> FNegZero)"
| "truthy (VStr s) = (s \<noteq> [])"
| "truthy (VList xs) = (xs \<noteq> [])"
| "truthy (VDict d) = (d \<noteq> [])"

fun num_of :: "pyval \<Rightarrow> xnum option" where
  "num_of (VBool b) = Some (XFin (if b then 1 else 0))"
| "num_of (VInt i) = Some (XFin (of_int i))"
| "num_of (VFloat f) = Some (xval f)"
| "num_of _ = None"

fun py_eq :: "pyval \<Rightarrow> pyval \<Rightarrow> bool" where
  "py_eq VNone w = (w = VNone)"
| "py_eq (VBool b) w = (case num_of w of Some y \<Rightarrow> xeq (XFin (if b then 1 else 0)) y | None \<Rightarrow> False)"
| "py_eq (VInt i) w = (case num_of w of Some y \<Rightarrow> xeq (XFin (of_int i)) y | None \<Rightarrow> False)"
| "py_eq (VFloat f) w = (case num_of w of Some y \<Rightarrow> xeq (xval f) y | None \<Rightarrow> False)"
| "py_eq (VStr s) w = (w = VStr s)"
| "py_eq (VList xs) w = (case w of VList ys \<Rightarrow> list_all2 py_eq xs ys | _ \<Rightarrow> False)"
| "py_eq (VDict d) w =
     (case w of
        VDict e \<Rightarrow> length d = length e
          \<and> list_all (\<lambda>(k, v). case dget e k of Some w \<Rightarrow> py_eq v w | None \<Rightarrow> False) d
      | _ \<Rightarrow> False)"

text \<open>\<open>left < right\<close> where the language allows it: two numbers or two strings.\<close>

definition numeric :: "pyval \<Rightarrow> bool" where
  "numeric v \<longleftrightarrow> num_of v \<noteq> None"

definition is_number :: "pyval \<Rightarrow> bool" where
  "is_number v \<longleftrightarrow> numeric v \<and> \<not> is_bool v"

fun str_less :: "string \<Rightarrow> string \<Rightarrow> bool" where
  "str_less [] t = (t \<noteq> [])"
| "str_less (c # s) [] = False"
| "str_less (c # s) (d # t) =
     (if c = d then str_less s t else (of_char c :: nat) < of_char d)"

definition py_less :: "pyval \<Rightarrow> pyval \<Rightarrow> bool" where
  "py_less a b =
     (case (a, b) of
        (VStr s, VStr t) \<Rightarrow> str_less s t
      | _ \<Rightarrow> (case (num_of a, num_of b) of (Some x, Some y) \<Rightarrow> xless x y | _ \<Rightarrow> False))"

definition py_leq :: "pyval \<Rightarrow> pyval \<Rightarrow> bool" where
  "py_leq a b =
     (case (a, b) of
        (VStr s, VStr t) \<Rightarrow> \<not> str_less t s
      | _ \<Rightarrow> (case (num_of a, num_of b) of (Some x, Some y) \<Rightarrow> xless x y \<or> xeq x y | _ \<Rightarrow> False))"

lemma str_less_irrefl [simp]: "\<not> str_less s s"
  by (induction s) auto

lemma str_less_trans: "str_less a b \<Longrightarrow> str_less b c \<Longrightarrow> str_less a c"
proof (induction a b arbitrary: c rule: str_less.induct)
  case (1 t)
  then show ?case by (cases c; cases t) auto
next
  case (3 x s y t)
  then show ?case by (cases c) (auto split: if_splits)
qed simp

lemma str_less_linear: "str_less a b \<or> a = b \<or> str_less b a"
proof (induction a b rule: str_less.induct)
  case (3 c s d t)
  have "c \<noteq> d \<Longrightarrow> (of_char c :: nat) < of_char d \<or> (of_char d :: nat) < of_char c"
    by (metis char_of_char linorder_neqE_nat)
  with 3 show ?case by auto
qed auto

lemma dget_self: "distinct (dkeys d) \<Longrightarrow> (k, v) \<in> set d \<Longrightarrow> dget d k = Some v"
  by (simp add: dkeys_def)

text \<open>A value whose dictionaries have distinct keys and which holds no NaN equals itself.\<close>

fun val_ok :: "pyval \<Rightarrow> bool" where
  "val_ok (VFloat f) = (f \<noteq> FNan)"
| "val_ok (VList xs) = list_all val_ok xs"
| "val_ok (VDict d) = (distinct (dkeys d) \<and> list_all (\<lambda>(k, v). val_ok v) d)"
| "val_ok _ = True"

lemma xeq_refl [simp]: "xeq x x \<longleftrightarrow> x \<noteq> XNan"
  by (cases x) auto

lemma xval_nan [simp]: "xval f = XNan \<longleftrightarrow> f = FNan"
  by (cases f) auto

lemma py_eq_refl: "val_ok v \<Longrightarrow> py_eq v v"
proof (induction v)
  case (VList xs)
  then show ?case by (auto simp: list_all_iff list_all2_conv_all_nth)
next
  case (VDict d)
  have "case dget d k of Some w \<Rightarrow> py_eq v w | None \<Rightarrow> False" if "(k, v) \<in> set d" for k v
    using VDict dget_self [OF _ that] that by (fastforce simp: list_all_iff)
  with VDict show ?case by (auto simp: list_all_iff)
qed auto

subsection \<open>Rendering\<close>

text \<open>
  \<open>repr\<close> and \<open>str\<close> of a value, as Python's containers print them.  A byte of a multi-byte
  UTF-8 sequence is kept as it is (Python escapes the few non-ASCII characters that are not
  printable; those are rendered raw here).
\<close>

definition int_str :: "int \<Rightarrow> string" where
  "int_str i = (if i < 0 then CHR ''-'' # nat_str (nat (- i)) else nat_str (nat i))"

definition hex_char :: "nat \<Rightarrow> char" where
  "hex_char d = (if d < 10 then digit_char d else char_of (87 + d))"

definition repr_char :: "char \<Rightarrow> char \<Rightarrow> string" where
  "repr_char q c =
     (let n = of_char c :: nat in
      if c = q \<or> n = 92 then [CHR 0x5C, c]
      else if n = 10 then [CHR 0x5C, CHR ''n'']
      else if n = 13 then [CHR 0x5C, CHR ''r'']
      else if n = 9 then [CHR 0x5C, CHR ''t'']
      else if n < 32 \<or> n = 127 then [CHR 0x5C, CHR ''x'', hex_char (n div 16), hex_char (n mod 16)]
      else [c])"

definition str_repr :: "string \<Rightarrow> string" where
  "str_repr s =
     (let q = (if CHR 0x27 \<in> set s \<and> CHR 0x22 \<notin> set s then CHR 0x22 else CHR 0x27) in
      [q] @ concat (map (repr_char q) s) @ [q])"

fun py_repr :: "pyval \<Rightarrow> string" where
  "py_repr VNone = ''None''"
| "py_repr (VBool b) = (if b then ''True'' else ''False'')"
| "py_repr (VInt i) = int_str i"
| "py_repr (VFloat f) = float_repr f"
| "py_repr (VStr s) = str_repr s"
| "py_repr (VList xs) = ''['' @ str_join '', '' (map py_repr xs) @ '']''"
| "py_repr (VDict d) =
     ''{'' @ str_join '', '' (map (\<lambda>(k, v). str_repr k @ '': '' @ py_repr v) d) @ ''}''"

fun py_str :: "pyval \<Rightarrow> string" where
  "py_str (VStr s) = s"
| "py_str v = py_repr v"

end
