(* ===== verification/PyJson.thy ===== *)
theory PyJson
  imports PyValue
begin

section \<open>\<open>json.loads\<close>\<close>

text \<open>
  The standard library's decoder, which \<open>parse_json\<close> in the expression language and the
  canonical layer call: a recursive descent over the text with the extensions Python accepts
  (\<open>NaN\<close>, \<open>Infinity\<close>), duplicate keys keeping the last value, surrogate pairs joined and lone
  surrogates kept, and integers of more than 4300 digits refused with a plain \<open>ValueError\<close>
  (\<open>JIntDigits\<close>), which is not a \<open>JSONDecodeError\<close> (\<open>JDecode\<close>).  The recursion runs on fuel;
  \<open>json_loads\<close> supplies enough of it, so \<open>JFuel\<close> never is the answer.
\<close>

datatype json_err = JDecode | JIntDigits | JFuel

definition max_int_digits :: nat where
  "max_int_digits = 4300"

definition json_ws :: "char \<Rightarrow> bool" where
  "json_ws c \<longleftrightarrow> c \<in> {CHR '' '', CHR 0x09, CHR 0x0A, CHR 0x0D}"

definition skip_ws :: "string \<Rightarrow> string" where
  "skip_ws s = dropWhile json_ws s"

subsection \<open>Strings\<close>

definition utf8 :: "nat \<Rightarrow> string" where
  "utf8 n =
     (if n < 0x80 then [char_of n]
      else if n < 0x800 then [char_of (0xC0 + n div 64), char_of (0x80 + n mod 64)]
      else if n < 0x10000 then
        [char_of (0xE0 + n div 4096), char_of (0x80 + (n div 64) mod 64), char_of (0x80 + n mod 64)]
      else
        [char_of (0xF0 + n div 262144), char_of (0x80 + (n div 4096) mod 64),
         char_of (0x80 + (n div 64) mod 64), char_of (0x80 + n mod 64)])"

definition hex_val :: "char \<Rightarrow> nat option" where
  "hex_val c =
     (let n = of_char c :: nat in
      if 48 \<le> n \<and> n \<le> 57 then Some (n - 48)
      else if 65 \<le> n \<and> n \<le> 70 then Some (n - 55)
      else if 97 \<le> n \<and> n \<le> 102 then Some (n - 87)
      else None)"

definition hex4 :: "string \<Rightarrow> (nat \<times> string) option" where
  "hex4 s =
     (case map hex_val (take 4 s) of
        [Some a, Some b, Some c, Some d] \<Rightarrow> Some (4096 * a + 256 * b + 16 * c + d, drop 4 s)
      | _ \<Rightarrow> None)"

definition unicode_escape :: "string \<Rightarrow> (string \<times> string) option" where
  "unicode_escape s =
     (case hex4 s of
        None \<Rightarrow> None
      | Some (u, r) \<Rightarrow>
          (if 0xD800 \<le> u \<and> u \<le> 0xDBFF \<and> take 2 r = [CHR 0x5C, CHR ''u''] then
             (case hex4 (drop 2 r) of
                Some (v, r') \<Rightarrow>
                  if 0xDC00 \<le> v \<and> v \<le> 0xDFFF
                  then Some (utf8 (0x10000 + 1024 * (u - 0xD800) + (v - 0xDC00)), r')
                  else Some (utf8 u, r)
              | None \<Rightarrow> Some (utf8 u, r))
           else Some (utf8 u, r)))"

definition simple_escape :: "char \<Rightarrow> char option" where
  "simple_escape c =
     map_of [(CHR 0x22, CHR 0x22), (CHR 0x5C, CHR 0x5C), (CHR ''/'', CHR ''/''),
             (CHR ''b'', CHR 0x08), (CHR ''f'', CHR 0x0C), (CHR ''n'', CHR 0x0A),
             (CHR ''r'', CHR 0x0D), (CHR ''t'', CHR 0x09)] c"

lemma hex4_length: "hex4 s = Some (u, r) \<Longrightarrow> length r \<le> length s"
  by (auto simp: hex4_def split: list.splits option.splits)

lemma unicode_escape_length: "unicode_escape s = Some (t, r) \<Longrightarrow> length r \<le> length s"
  by (force simp: unicode_escape_def split: option.splits if_splits dest: hex4_length)

function json_string :: "string \<Rightarrow> (string \<times> string) option" where
  "json_string s =
     (case s of
        [] \<Rightarrow> None
      | c # r \<Rightarrow>
          if c = CHR 0x22 then Some ([], r)
          else if (of_char c :: nat) < 32 then None
          else if c \<noteq> CHR 0x5C then map_option (map_prod ((#) c) id) (json_string r)
          else (case r of
              [] \<Rightarrow> None
            | e # r' \<Rightarrow>
                if e = CHR ''u'' then
                  (case unicode_escape r' of
                     None \<Rightarrow> None
                   | Some (t, q) \<Rightarrow> map_option (map_prod ((@) t) id) (json_string q))
                else (case simple_escape e of
                     None \<Rightarrow> None
                   | Some x \<Rightarrow> map_option (map_prod ((#) x) id) (json_string r'))))"
  by pat_completeness auto
termination
  by (relation "measure length") (auto dest!: unicode_escape_length)

declare json_string.simps [simp del]

lemma json_string_length: "json_string s = Some (t, r) \<Longrightarrow> length r < length s"
proof (induction "length s" arbitrary: s t r rule: less_induct)
  case less
  have IH: "length u < length v" if "json_string v = Some (w, u)" "length v < length s" for u v w
    using less.hyps that by blast
  show ?case
    using less.prems
    by (subst (asm) json_string.simps)
      (auto split: list.splits if_splits option.splits dest!: unicode_escape_length IH)
qed

subsection \<open>Numbers\<close>

definition span_digits :: "string \<Rightarrow> string \<times> string" where
  "span_digits s = (takeWhile is_digit s, dropWhile is_digit s)"

definition decimal_float :: "bool \<Rightarrow> string \<Rightarrow> string \<Rightarrow> int \<Rightarrow> pyfloat" where
  "decimal_float neg ip fp e =
     (let m = of_nat (str_nat (ip @ fp)); x = m * pow_int 10 (e - int (length fp)) in
      double_of neg (if neg then - x else x))"

definition json_frac :: "string \<Rightarrow> string \<times> string" where
  "json_frac s =
     (case s of
        c # r \<Rightarrow> if c = CHR ''.'' \<and> fst (span_digits r) \<noteq> [] then span_digits r else ([], s)
      | [] \<Rightarrow> ([], s))"

definition json_exp :: "string \<Rightarrow> int option \<times> string" where
  "json_exp s =
     (case s of
        [] \<Rightarrow> (None, s)
      | c # r \<Rightarrow>
          if c = CHR ''e'' \<or> c = CHR ''E'' then
            (let (sg, r1) = (case r of
                 d # r' \<Rightarrow> if d = CHR ''-'' then (- 1, r') else if d = CHR ''+'' then (1, r') else (1, r)
               | [] \<Rightarrow> (1, r));
               (ds, r2) = span_digits r1 in
             if ds = [] then (None, s) else (Some (sg * int (str_nat ds)), r2))
          else (None, s))"

definition json_number :: "bool \<Rightarrow> string \<Rightarrow> json_err + (pyval \<times> string)" where
  "json_number neg s =
     (let (ds, r0) = span_digits s;
          (ip, r1) = (if take 1 ds = ''0'' then (''0'', drop 1 s) else (ds, r0));
          (fp, r2) = json_frac r1; (ex, r3) = json_exp r2 in
      if ip = [] then Inl JDecode
      else if fp = [] \<and> ex = None then
        (if length ip > max_int_digits then Inl JIntDigits
         else Inr (VInt (if neg then - int (str_nat ip) else int (str_nat ip)), r3))
      else Inr (VFloat (decimal_float neg ip fp (case ex of None \<Rightarrow> 0 | Some e \<Rightarrow> e)), r3))"

lemma span_digits_length: "span_digits s = (a, b) \<Longrightarrow> length b \<le> length s"
  by (auto simp: span_digits_def length_dropWhile_le)

lemma json_frac_length: "json_frac s = (a, b) \<Longrightarrow> length b \<le> length s"
  by (auto simp: json_frac_def split: list.splits if_splits dest!: span_digits_length)

lemma json_exp_length: "json_exp s = (a, b) \<Longrightarrow> length b \<le> length s"
  by (auto simp: json_exp_def Let_def split: list.splits if_splits prod.splits dest!: span_digits_length)

lemma span_digits_shorter: "span_digits s = (d # ds, r) \<Longrightarrow> length r < length s"
proof -
  assume "span_digits s = (d # ds, r)"
  then have "takeWhile is_digit s = d # ds" "dropWhile is_digit s = r"
    by (simp_all add: span_digits_def)
  then have "s = (d # ds) @ r" by (metis takeWhile_dropWhile_id)
  then show ?thesis by simp
qed

lemma json_number_length: "json_number neg s = Inr (v, r) \<Longrightarrow> length r < length s"
proof -
  assume a: "json_number neg s = Inr (v, r)"
  obtain ds r0 where d: "span_digits s = (ds, r0)" by force
  obtain ip r1 where i: "(if take 1 ds = ''0'' then (''0'', drop 1 s) else (ds, r0)) = (ip, r1)" by force
  obtain fp r2 where f: "json_frac r1 = (fp, r2)" by force
  obtain ex r3 where e: "json_exp r2 = (ex, r3)" by force
  from a have "ip \<noteq> []" and r: "r = r3"
    unfolding json_number_def Let_def d prod.case i f e by (auto split: if_splits)
  moreover have "length r1 < length s" if "ip \<noteq> []"
  proof (cases ds)
    case (Cons x xs)
    then have "length r0 < length s" using d span_digits_shorter by simp
    with i Cons show ?thesis by (cases s) (auto split: if_splits)
  qed (use i that in auto)
  ultimately show ?thesis
    using json_frac_length [OF f] json_exp_length [OF e] by simp
qed

subsection \<open>Values\<close>

definition json_lit :: "string \<Rightarrow> pyval \<Rightarrow> string \<Rightarrow> json_err + (pyval \<times> string)" where
  "json_lit w v s = (if starts_with s w then Inr (v, drop (length w) s) else Inl JDecode)"

definition json_key :: "string \<Rightarrow> json_err + (string \<times> string)" where
  "json_key s =
     (case s of
        [] \<Rightarrow> Inl JDecode
      | c # r \<Rightarrow>
          if c \<noteq> CHR 0x22 then Inl JDecode
          else (case json_string r of
              None \<Rightarrow> Inl JDecode
            | Some (k, r1) \<Rightarrow>
                (case skip_ws r1 of
                   [] \<Rightarrow> Inl JDecode
                 | d # r2 \<Rightarrow> if d = CHR '':'' then Inr (k, skip_ws r2) else Inl JDecode)))"

text \<open>
  \<open>json_value\<close> is the scanner's \<open>scan_once\<close>; \<open>json_array\<close> reads the elements up to the
  closing bracket, \<open>json_object\<close> the members up to the closing brace.
\<close>

fun json_value :: "nat \<Rightarrow> string \<Rightarrow> json_err + (pyval \<times> string)"
  and json_array :: "nat \<Rightarrow> string \<Rightarrow> json_err + (pyval list \<times> string)"
  and json_object :: "nat \<Rightarrow> string \<Rightarrow> json_err + ((string \<times> pyval) list \<times> string)" where
  "json_value 0 s = Inl JFuel"
| "json_value (Suc n) s =
     (case s of
        [] \<Rightarrow> Inl JDecode
      | c # r \<Rightarrow>
          if c = CHR 0x22 then
            (case json_string r of None \<Rightarrow> Inl JDecode | Some (t, q) \<Rightarrow> Inr (VStr t, q))
          else if c = CHR ''{'' then
            (let r1 = skip_ws r in
             if take 1 r1 = ''}'' then Inr (VDict [], drop 1 r1)
             else rbind (json_object n r1) (\<lambda>(ps, q). Inr (VDict (dict_of ps), q)))
          else if c = CHR ''['' then
            (let r1 = skip_ws r in
             if take 1 r1 = '']'' then Inr (VList [], drop 1 r1)
             else rbind (json_array n r1) (\<lambda>(vs, q). Inr (VList vs, q)))
          else if c = CHR ''n'' then json_lit ''null'' VNone s
          else if c = CHR ''t'' then json_lit ''true'' (VBool True) s
          else if c = CHR ''f'' then json_lit ''false'' (VBool False) s
          else if c = CHR ''N'' then json_lit ''NaN'' (VFloat FNan) s
          else if c = CHR ''I'' then json_lit ''Infinity'' (VFloat FInf) s
          else if c = CHR ''-'' then
            (if starts_with s ''-Infinity'' then json_lit ''-Infinity'' (VFloat FNegInf) s
             else json_number True r)
          else json_number False s)"
| "json_array 0 s = Inl JFuel"
| "json_array (Suc n) s =
     rbind (json_value n s) (\<lambda>(v, r).
       case skip_ws r of
         [] \<Rightarrow> Inl JDecode
       | c # r1 \<Rightarrow>
           if c = CHR '']'' then Inr ([v], r1)
           else if c = CHR '','' then
             rbind (json_array n (skip_ws r1)) (\<lambda>(vs, q). Inr (v # vs, q))
           else Inl JDecode)"
| "json_object 0 s = Inl JFuel"
| "json_object (Suc n) s =
     rbind (json_key s) (\<lambda>(k, r0).
     rbind (json_value n r0) (\<lambda>(v, r).
       case skip_ws r of
         [] \<Rightarrow> Inl JDecode
       | c # r1 \<Rightarrow>
           if c = CHR ''}'' then Inr ([(k, v)], r1)
           else if c = CHR '','' then
             rbind (json_object n (skip_ws r1)) (\<lambda>(ps, q). Inr ((k, v) # ps, q))
           else Inl JDecode))"

definition json_loads :: "string \<Rightarrow> json_err + pyval" where
  "json_loads s =
     (if starts_with s [CHR 0xEF, CHR 0xBB, CHR 0xBF] then Inl JDecode
      else rbind (json_value (2 * length s + 1) (skip_ws s)) (\<lambda>(v, r).
        if skip_ws r = [] then Inr v else Inl JDecode))"

subsection \<open>The fuel suffices\<close>

lemma skip_ws_length: "length (skip_ws s) \<le> length s"
  by (simp add: skip_ws_def length_dropWhile_le)

lemma skip_ws_Cons_length: "skip_ws s = c # r \<Longrightarrow> length r < length s"
  using skip_ws_length [of s] by simp

lemma json_lit_length: "json_lit w v s = Inr (x, r) \<Longrightarrow> w \<noteq> [] \<Longrightarrow> s \<noteq> [] \<Longrightarrow> length r < length s"
  by (auto simp: json_lit_def split: if_splits)

lemma json_key_length: "json_key s = Inr (k, r) \<Longrightarrow> length r < length s"
proof -
  assume "json_key s = Inr (k, r)"
  then obtain c r0 r1 d r2
    where s: "s = c # r0" and j: "json_string r0 = Some (k, r1)"
      and w: "skip_ws r1 = d # r2" and r: "r = skip_ws r2"
    by (auto simp: json_key_def split: list.splits if_splits option.splits)
  show ?thesis
    using json_string_length [OF j] skip_ws_Cons_length [OF w] skip_ws_length [of r2] by (simp add: s r)
qed

lemma skip_ws_less: "skip_ws s = c # r \<Longrightarrow> length s < n \<Longrightarrow> length (skip_ws r) < n"
  using skip_ws_Cons_length [of s c r] skip_ws_length [of r] by linarith

lemma json_value_cases:
  assumes "json_value (Suc n) (c # t) = Inr (v, r)"
  shows "(\<exists>x. json_string t = Some (x, r)) \<or> r = drop 1 (skip_ws t)
    \<or> (\<exists>x. json_object n (skip_ws t) = Inr (x, r)) \<or> (\<exists>x. json_array n (skip_ws t) = Inr (x, r))
    \<or> (\<exists>w x. json_lit w x (c # t) = Inr (v, r) \<and> w \<noteq> [])
    \<or> json_number True t = Inr (v, r) \<or> json_number False (c # t) = Inr (v, r)"
  using assms
  by (simp add: Let_def split: if_split_asm option.splits prod.splits) (blast | fastforce)+

lemma json_array_cases:
  assumes "json_array (Suc n) s = Inr (vs, r)"
  obtains x q c t where "json_value n s = Inr (x, q)" "skip_ws q = c # t"
    "t = r \<or> (\<exists>ws. json_array n (skip_ws t) = Inr (ws, r))"
proof -
  from assms obtain x q where v: "json_value n s = Inr (x, q)" by auto
  with assms show ?thesis
    by (cases "skip_ws q") (auto split: if_split_asm intro: that [OF v])
qed

lemma json_object_cases:
  assumes "json_object (Suc n) s = Inr (ps, r)"
  obtains k s' x q c t where "json_key s = Inr (k, s')" "json_value n s' = Inr (x, q)" "skip_ws q = c # t"
    "t = r \<or> (\<exists>ws. json_object n (skip_ws t) = Inr (ws, r))"
proof -
  from assms obtain k s' x q where k: "json_key s = Inr (k, s')" and v: "json_value n s' = Inr (x, q)"
    by auto
  with assms show ?thesis
    by (cases "skip_ws q") (auto split: if_split_asm intro: that [OF k v])
qed

lemma json_shorter:
  "json_value n s = Inr (v, r) \<Longrightarrow> length r < length s"
  "json_array n s = Inr (vs, r) \<Longrightarrow> length r < length s"
  "json_object n s = Inr (ps, r) \<Longrightarrow> length r < length s"
proof (induction n arbitrary: s v vs ps r)
  case 0
  { case 1 then show ?case by simp next case 2 then show ?case by simp next case 3 then show ?case by simp }
next
  case (Suc n)
  {
    case 1
    obtain c t where s: "s = c # t"
    proof (cases s)
      case Nil
      with 1 show ?thesis by simp
    qed
    have w: "length (skip_ws t) \<le> length t" by (rule skip_ws_length)
    have d: "length (skip_ws t) - 1 \<le> length t" using w by simp
    show ?case
      unfolding s using json_value_cases [OF 1 [unfolded s]]
    proof (elim disjE exE conjE)
      fix x assume "json_string t = Some (x, r)"
      then show "length r < length (c # t)" using json_string_length by fastforce
    next
      assume "r = drop 1 (skip_ws t)"
      then show "length r < length (c # t)" using d by simp
    next
      fix x assume "json_object n (skip_ws t) = Inr (x, r)"
      then show "length r < length (c # t)" using Suc.IH(3) w by fastforce
    next
      fix x assume "json_array n (skip_ws t) = Inr (x, r)"
      then show "length r < length (c # t)" using Suc.IH(2) w by fastforce
    next
      fix u x assume "json_lit u x (c # t) = Inr (v, r)" "u \<noteq> []"
      then show "length r < length (c # t)" using json_lit_length by blast
    next
      assume "json_number True t = Inr (v, r)"
      then show "length r < length (c # t)" using json_number_length by fastforce
    next
      assume "json_number False (c # t) = Inr (v, r)"
      then show "length r < length (c # t)" using json_number_length by blast
    qed
  next
    case 2
    then obtain x q c t where x: "json_value n s = Inr (x, q)" and q: "skip_ws q = c # t"
      and o: "t = r \<or> (\<exists>ws. json_array n (skip_ws t) = Inr (ws, r))"
      by (rule json_array_cases)
    have "length t < length s" using Suc.IH(1) [OF x] skip_ws_Cons_length [OF q] by simp
    with o show ?case using Suc.IH(2) [of "skip_ws t" _ r] skip_ws_length [of t] by fastforce
  next
    case 3
    then obtain k s' x q c t where k: "json_key s = Inr (k, s')" and x: "json_value n s' = Inr (x, q)"
      and q: "skip_ws q = c # t"
      and o: "t = r \<or> (\<exists>ws. json_object n (skip_ws t) = Inr (ws, r))"
      by (rule json_object_cases)
    have "length t < length s"
      using json_key_length [OF k] Suc.IH(1) [OF x] skip_ws_Cons_length [OF q] by simp
    with o show ?case using Suc.IH(3) [of "skip_ws t" _ r] skip_ws_length [of t] by fastforce
  }
qed

lemma json_fuel:
  "2 * length s + 1 \<le> n \<Longrightarrow> json_value n s \<noteq> Inl JFuel"
  "2 * length s + 2 \<le> n \<Longrightarrow> json_array n s \<noteq> Inl JFuel"
  "2 * length s + 2 \<le> n \<Longrightarrow> json_object n s \<noteq> Inl JFuel"
proof (induction n arbitrary: s)
  case 0
  { case 1 then show ?case by simp next case 2 then show ?case by simp next case 3 then show ?case by simp }
next
  case (Suc n)
  {
    case 1
    have num: "json_number neg t \<noteq> Inl JFuel" and lit: "json_lit w v t \<noteq> Inl JFuel" for neg t w v
      by (auto simp: json_number_def json_lit_def Let_def split: prod.splits)
    show ?case
    proof (cases s)
      case (Cons c t)
      have l: "2 * length (skip_ws t) + 2 \<le> n"
        using 1 skip_ws_length [of t] by (simp add: Cons)
      show ?thesis
        using Suc.IH(2) [OF l] Suc.IH(3) [OF l] num lit
        by (auto simp: Cons Let_def rbind_eq_Inl split: option.splits)
    qed simp
  next
    case 2
    have v: "json_value n s \<noteq> Inl JFuel" using 2 Suc.IH(1) by simp
    have "json_array n (skip_ws t) \<noteq> Inl JFuel"
      if "json_value n s = Inr (x, q)" "skip_ws q = c # t" for x q c t
      using json_shorter(1) [OF that(1)] skip_ws_less [OF that(2)] 2 Suc.IH(2) [of "skip_ws t"]
      by fastforce
    with v show ?case by (auto simp: rbind_eq_Inl split: list.splits if_splits)
  next
    case 3
    have k: "json_key s \<noteq> Inl JFuel"
      by (auto simp: json_key_def split: list.splits option.splits)
    have v: "json_value n s' \<noteq> Inl JFuel" if "json_key s = Inr (x, s')" for x s'
      using json_key_length [OF that] 3 Suc.IH(1) [of s'] by simp
    have "json_object n (skip_ws t) \<noteq> Inl JFuel"
      if "json_key s = Inr (y, s')" "json_value n s' = Inr (x, q)" "skip_ws q = c # t" for y s' x q c t
      using json_key_length [OF that(1)] json_shorter(1) [OF that(2)] skip_ws_less [OF that(3)]
        3 Suc.IH(3) [of "skip_ws t"]
      by fastforce
    with k v show ?case by (auto simp: rbind_eq_Inl split: list.splits if_splits)
  }
qed

lemma json_loads_fuel: "json_loads s \<noteq> Inl JFuel"
  using json_fuel(1) [of "skip_ws s" "2 * length s + 1"] skip_ws_length [of s]
  by (auto simp: json_loads_def rbind_eq_Inl split: if_splits)

lemma json_loads_cases:
  obtains v where "json_loads s = Inr v" | "json_loads s = Inl JDecode" | "json_loads s = Inl JIntDigits"
  using json_loads_fuel [of s] by (cases "json_loads s"; (metis json_err.exhaust)?)

end
