(* ===== verification/Expr.thy ===== *)
theory Expr
  imports PyJson
begin

section \<open>The expression language: syntax and evaluation\<close>

text \<open>
  The AST and the evaluator of \<open>src/reyn/core/pipeline/expr.py\<close>.  \<open>evaluate\<close> is a total
  function on the AST: it returns a value or one of the exceptions the Python code lets escape.
  A context is a dictionary of values; \<open>_ChildContext\<close>, which overlays one lambda binding on a
  base mapping, is the base with the binding in front of it.  The functions that call back into
  \<open>evaluate\<close> take it as their first argument.
\<close>

subsection \<open>Syntax\<close>

datatype expr =
    Literal pyval
  | Path "string list"
  | ListLit "expr list"
  | ObjectLit "(string \<times> expr) list"
  | Unary string expr
  | Binary string expr expr
  | Lambda string expr
  | Combinator string "expr list"

definition COMBINATOR_NAMES :: "string list" where
  "COMBINATOR_NAMES =
     [''map'', ''filter'', ''all'', ''any'', ''count'', ''sum'', ''find'', ''join'', ''get'', ''parse_json'']"

definition LAMBDA_COMBINATORS :: "string list" where
  "LAMBDA_COMBINATORS = [''map'', ''filter'', ''all'', ''any'', ''find'']"

subsection \<open>Exceptions\<close>

text \<open>
  Why an \<open>ExprEvalError\<close> was raised.  \<open>AbsentField\<close> carries the path, the part of it that was
  consumed, and whether the text has the addendum of \<open>_missing_structured_hint\<close>.
\<close>

datatype eval_reason =
    AbsentField "string list" "string list" bool
  | NotAnObject "string list" "string list" string
  | BareLambda
  | UnaryType string
  | CompareType string string string
  | ArithType string string string
  | DivisionByZero
  | RequiresList string string
  | SumElement string
  | JoinSeparator string
  | JoinElement string
  | ParseJsonType string
  | ParseJsonDecode
  | UnknownOperator string

datatype expr_exc =
    ExprEvalError eval_reason
  | PyOverflowError
  | PyValueError
  | PyIndexError
  | PyAssertionError

type_synonym 'a ev = "expr_exc + 'a"
type_synonym evaluator = "expr \<Rightarrow> ctx \<Rightarrow> pyval ev"

subsection \<open>Iteration over a list, in order\<close>

fun filter_res :: "('a \<Rightarrow> 'e + bool) \<Rightarrow> 'a list \<Rightarrow> 'e + 'a list" where
  "filter_res f [] = Inr []"
| "filter_res f (x # xs) =
     rbind (f x) (\<lambda>b. rbind (filter_res f xs) (\<lambda>ys. Inr (if b then x # ys else ys)))"

fun all_res :: "('a \<Rightarrow> 'e + bool) \<Rightarrow> 'a list \<Rightarrow> 'e + bool" where
  "all_res f [] = Inr True"
| "all_res f (x # xs) = rbind (f x) (\<lambda>b. if b then all_res f xs else Inr False)"

fun any_res :: "('a \<Rightarrow> 'e + bool) \<Rightarrow> 'a list \<Rightarrow> 'e + bool" where
  "any_res f [] = Inr False"
| "any_res f (x # xs) = rbind (f x) (\<lambda>b. if b then Inr True else any_res f xs)"

fun find_res :: "('a \<Rightarrow> 'e + bool) \<Rightarrow> 'a list \<Rightarrow> 'e + 'a option" where
  "find_res f [] = Inr None"
| "find_res f (x # xs) = rbind (f x) (\<lambda>b. if b then Inr (Some x) else find_res f xs)"

subsection \<open>Paths\<close>

definition missing_structured_hint :: "string \<Rightarrow> pyval dict \<Rightarrow> bool" where
  "missing_structured_hint part current \<longleftrightarrow> part = ''structured'' \<and> has_key current ''text''"

fun resolve_path_from :: "string list \<Rightarrow> string list \<Rightarrow> string list \<Rightarrow> pyval \<Rightarrow> pyval ev" where
  "resolve_path_from full consumed [] current = Inr current"
| "resolve_path_from full consumed (part # parts) current =
     (case current of
        VDict d \<Rightarrow>
          (case dget d part of
             None \<Rightarrow> Inl (ExprEvalError (AbsentField full (consumed @ [part]) (missing_structured_hint part d)))
           | Some v \<Rightarrow> resolve_path_from full (consumed @ [part]) parts v)
      | _ \<Rightarrow> Inl (ExprEvalError (NotAnObject full consumed part)))"

definition resolve_path :: "string list \<Rightarrow> ctx \<Rightarrow> pyval ev" where
  "resolve_path parts context = resolve_path_from parts [] parts (VDict context)"

fun resolve_path_safe :: "string list \<Rightarrow> pyval \<Rightarrow> pyval \<Rightarrow> pyval" where
  "resolve_path_safe [] current dflt = current"
| "resolve_path_safe (part # parts) current dflt =
     (case vget current part of
        Some v \<Rightarrow> resolve_path_safe parts v dflt
      | None \<Rightarrow> dflt)"

subsection \<open>Operators\<close>

definition eval_unary :: "string \<Rightarrow> pyval \<Rightarrow> pyval ev" where
  "eval_unary op value =
     (if op = ''not'' then Inr (VBool (\<not> truthy value))
      else if op = ''-'' then
        (case value of
           VInt i \<Rightarrow> Inr (VInt (- i))
         | VFloat f \<Rightarrow> Inr (VFloat (fneg f))
         | _ \<Rightarrow> Inl (ExprEvalError (UnaryType (type_name value))))
      else Inl (ExprEvalError (UnknownOperator op)))"

definition CMP_SYMBOLS :: "string list" where
  "CMP_SYMBOLS = [''=='', ''!='', ''<'', ''>'', ''<='', ''>='']"

definition NUMERIC_OPS :: "string list" where
  "NUMERIC_OPS = [''+'', ''-'', ''*'', ''/'']"

definition eval_comparison :: "string \<Rightarrow> pyval \<Rightarrow> pyval \<Rightarrow> pyval ev" where
  "eval_comparison op left right =
     (if op = ''=='' then Inr (VBool (py_eq left right))
      else if op = ''!='' then Inr (VBool (\<not> py_eq left right))
      else if \<not> (numeric left \<and> numeric right \<or> is_str left \<and> is_str right)
        then Inl (ExprEvalError (CompareType op (type_name left) (type_name right)))
      else if op = ''<'' then Inr (VBool (py_less left right))
      else if op = ''>'' then Inr (VBool (py_less right left))
      else if op = ''<='' then Inr (VBool (py_leq left right))
      else if op = ''>='' then Inr (VBool (py_leq right left))
      else Inl (ExprEvalError (UnknownOperator op)))"

text \<open>
  Arithmetic on two numbers: exact on integers, IEEE on floats; a mixed operation converts the
  integer first, which overflows for an integer beyond the finite floats.
\<close>

definition to_float :: "pyval \<Rightarrow> pyfloat ev" where
  "to_float v =
     (case v of
        VInt i \<Rightarrow> (case float_of_int i of None \<Rightarrow> Inl PyOverflowError | Some f \<Rightarrow> Inr f)
      | VFloat f \<Rightarrow> Inr f
      | _ \<Rightarrow> Inl PyValueError)"

definition float_op :: "(pyfloat \<Rightarrow> pyfloat \<Rightarrow> pyfloat) \<Rightarrow> pyval \<Rightarrow> pyval \<Rightarrow> pyval ev" where
  "float_op f a b = rbind (to_float a) (\<lambda>x. rbind (to_float b) (\<lambda>y. Inr (VFloat (f x y))))"

definition num_add :: "pyval \<Rightarrow> pyval \<Rightarrow> pyval ev" where
  "num_add a b = (case (a, b) of (VInt i, VInt j) \<Rightarrow> Inr (VInt (i + j)) | _ \<Rightarrow> float_op fadd a b)"

definition num_sub :: "pyval \<Rightarrow> pyval \<Rightarrow> pyval ev" where
  "num_sub a b = (case (a, b) of (VInt i, VInt j) \<Rightarrow> Inr (VInt (i - j)) | _ \<Rightarrow> float_op fsub a b)"

definition num_mul :: "pyval \<Rightarrow> pyval \<Rightarrow> pyval ev" where
  "num_mul a b = (case (a, b) of (VInt i, VInt j) \<Rightarrow> Inr (VInt (i * j)) | _ \<Rightarrow> float_op fmul a b)"

definition num_div :: "pyval \<Rightarrow> pyval \<Rightarrow> pyval ev" where
  "num_div a b =
     (case (a, b) of
        (VInt i, VInt j) \<Rightarrow>
          (case int_true_div i j of
             None \<Rightarrow> Inl PyOverflowError
           | Some q \<Rightarrow> Inr (if i mod j = 0 then VInt (i div j) else VFloat q))
      | _ \<Rightarrow> float_op fdiv a b)"

definition eval_arithmetic :: "string \<Rightarrow> pyval \<Rightarrow> pyval \<Rightarrow> pyval ev" where
  "eval_arithmetic op left right =
     (case (op = ''+'', left, right) of
        (True, VStr s, VStr t) \<Rightarrow> Inr (VStr (s @ t))
      | (True, VList xs, VList ys) \<Rightarrow> Inr (VList (xs @ ys))
      | _ \<Rightarrow>
          if \<not> (is_number left \<and> is_number right)
            then Inl (ExprEvalError (ArithType op (type_name left) (type_name right)))
          else if op = ''+'' then num_add left right
          else if op = ''-'' then num_sub left right
          else if op = ''*'' then num_mul left right
          else if op = ''/'' then
            (if py_eq right (VInt 0) then Inl (ExprEvalError DivisionByZero) else num_div left right)
          else Inl (ExprEvalError (UnknownOperator op)))"

definition eval_binary :: "evaluator \<Rightarrow> string \<Rightarrow> expr \<Rightarrow> expr \<Rightarrow> ctx \<Rightarrow> pyval ev" where
  "eval_binary ev op left right context =
     (if op = ''and'' then
        rbind (ev left context) (\<lambda>l. if truthy l then ev right context else Inr l)
      else if op = ''or'' then
        rbind (ev left context) (\<lambda>l. if truthy l then Inr l else ev right context)
      else
        rbind (ev left context) (\<lambda>l.
        rbind (ev right context) (\<lambda>r.
          if op \<in> set CMP_SYMBOLS then eval_comparison op l r
          else if op \<in> set NUMERIC_OPS then eval_arithmetic op l r
          else Inl (ExprEvalError (UnknownOperator op)))))"

subsection \<open>Combinators\<close>

definition require_list :: "pyval \<Rightarrow> string \<Rightarrow> pyval list ev" where
  "require_list value combinator =
     (case value of
        VList xs \<Rightarrow> Inr xs
      | _ \<Rightarrow> Inl (ExprEvalError (RequiresList combinator (type_name value))))"

fun sum_from :: "pyval \<Rightarrow> pyval list \<Rightarrow> pyval ev" where
  "sum_from acc [] = Inr acc"
| "sum_from acc (item # items) =
     (if \<not> is_number item then Inl (ExprEvalError (SumElement (type_name item)))
      else rbind (num_add acc item) (\<lambda>t. sum_from t items))"

fun join_parts :: "pyval list \<Rightarrow> string list ev" where
  "join_parts [] = Inr []"
| "join_parts (item # items) =
     (case item of
        VStr s \<Rightarrow> rbind (join_parts items) (\<lambda>ss. Inr (s # ss))
      | _ \<Rightarrow> Inl (ExprEvalError (JoinElement (type_name item))))"

definition eval_lambda_combinator :: "evaluator \<Rightarrow> string \<Rightarrow> expr list \<Rightarrow> ctx \<Rightarrow> pyval ev" where
  "eval_lambda_combinator ev name args context =
     (case args of
        [list_node, lam] \<Rightarrow>
          rbind (ev list_node context) (\<lambda>v.
          rbind (require_list v name) (\<lambda>items.
            case lam of
              Lambda param body \<Rightarrow>
                (let body_at = \<lambda>item. ev body ((param, item) # context);
                     test = \<lambda>item. rbind (body_at item) (\<lambda>r. Inr (truthy r)) in
                 if name = ''map'' then rbind (traverse body_at items) (\<lambda>vs. Inr (VList vs))
                 else if name = ''filter'' then rbind (filter_res test items) (\<lambda>vs. Inr (VList vs))
                 else if name = ''all'' then rbind (all_res test items) (\<lambda>b. Inr (VBool b))
                 else if name = ''any'' then rbind (any_res test items) (\<lambda>b. Inr (VBool b))
                 else rbind (find_res test items) (\<lambda>r. Inr (case r of None \<Rightarrow> VNone | Some v \<Rightarrow> v)))
            | _ \<Rightarrow> Inl PyAssertionError))
      | _ \<Rightarrow> Inl PyValueError)"

definition eval_get :: "evaluator \<Rightarrow> expr list \<Rightarrow> ctx \<Rightarrow> pyval ev" where
  "eval_get ev args context =
     (case args of
        [] \<Rightarrow> Inl PyIndexError
      | base_node # rest \<Rightarrow>
          rbind (ev base_node context) (\<lambda>base.
            case rest of
              [] \<Rightarrow> Inl PyIndexError
            | Literal (VStr p) # more \<Rightarrow>
                rbind (case more of [] \<Rightarrow> Inr VNone | d # _ \<Rightarrow> ev d context) (\<lambda>dflt.
                  Inr (resolve_path_safe (split_on CHR ''.'' p) base dflt))
            | _ \<Rightarrow> Inl PyAssertionError))"

definition eval_parse_json :: "pyval \<Rightarrow> pyval ev" where
  "eval_parse_json value =
     (case value of
        VStr s \<Rightarrow>
          (case json_loads s of
             Inr v \<Rightarrow> Inr v
           | Inl JDecode \<Rightarrow> Inl (ExprEvalError ParseJsonDecode)
           | Inl _ \<Rightarrow> Inl PyValueError)
      | _ \<Rightarrow> Inl (ExprEvalError (ParseJsonType (type_name value))))"

definition eval_combinator :: "evaluator \<Rightarrow> string \<Rightarrow> expr list \<Rightarrow> ctx \<Rightarrow> pyval ev" where
  "eval_combinator ev name args context =
     (if name \<in> set LAMBDA_COMBINATORS then eval_lambda_combinator ev name args context
      else if name = ''count'' then
        (case args of
           [] \<Rightarrow> Inl PyIndexError
         | a # _ \<Rightarrow> rbind (ev a context) (\<lambda>v. rbind (require_list v name) (\<lambda>items.
             Inr (VInt (int (length items))))))
      else if name = ''sum'' then
        (case args of
           [] \<Rightarrow> Inl PyIndexError
         | a # _ \<Rightarrow> rbind (ev a context) (\<lambda>v. rbind (require_list v name) (sum_from (VInt 0))))
      else if name = ''join'' then
        (case args of
           [list_node, sep_node] \<Rightarrow>
             rbind (ev list_node context) (\<lambda>v.
             rbind (require_list v name) (\<lambda>items.
             rbind (ev sep_node context) (\<lambda>sep.
               case sep of
                 VStr s \<Rightarrow> rbind (join_parts items) (\<lambda>ss. Inr (VStr (str_join s ss)))
               | _ \<Rightarrow> Inl (ExprEvalError (JoinSeparator (type_name sep))))))
         | _ \<Rightarrow> Inl PyValueError)
      else if name = ''get'' then eval_get ev args context
      else if name = ''parse_json'' then
        (case args of
           [] \<Rightarrow> Inl PyIndexError
         | a # _ \<Rightarrow> rbind (ev a context) eval_parse_json)
      else Inl (ExprEvalError (UnknownOperator name)))"

subsection \<open>Evaluation\<close>

lemma filter_res_cong [fundef_cong]:
  assumes "xs = ys" and "\<And>x. x \<in> set ys \<Longrightarrow> f x = g x"
  shows "filter_res f xs = filter_res g ys"
  unfolding assms(1) using assms(2) by (induction ys) auto

lemma all_res_cong [fundef_cong]:
  assumes "xs = ys" and "\<And>x. x \<in> set ys \<Longrightarrow> f x = g x"
  shows "all_res f xs = all_res g ys"
  unfolding assms(1) using assms(2) by (induction ys) (auto cong: rbind_cong if_cong)

lemma any_res_cong [fundef_cong]:
  assumes "xs = ys" and "\<And>x. x \<in> set ys \<Longrightarrow> f x = g x"
  shows "any_res f xs = any_res g ys"
  unfolding assms(1) using assms(2) by (induction ys) (auto cong: rbind_cong if_cong)

lemma find_res_cong [fundef_cong]:
  assumes "xs = ys" and "\<And>x. x \<in> set ys \<Longrightarrow> f x = g x"
  shows "find_res f xs = find_res g ys"
  unfolding assms(1) using assms(2) by (induction ys) (auto cong: rbind_cong if_cong)

lemma eval_binary_cong [fundef_cong]:
  assumes "op = op'" "l = l'" "r = r'" "c = c'"
    and "\<And>e k. e = l' \<or> e = r' \<Longrightarrow> ev e k = ev' e k"
  shows "eval_binary ev op l r c = eval_binary ev' op' l' r' c'"
  using assms by (simp add: eval_binary_def cong: if_cong)

lemma eval_lambda_combinator_cong:
  assumes "\<And>e k. size e < size_list size args \<Longrightarrow> ev e k = ev' e k"
  shows "eval_lambda_combinator ev name args c = eval_lambda_combinator ev' name args c"
  using assms by (auto simp: eval_lambda_combinator_def Let_def split: list.splits expr.splits intro!: rbind_cong)

lemma eval_combinator_cong [fundef_cong]:
  assumes "name = name'" "args = args'" "c = c'"
    and "\<And>e k. size e < size_list size args' \<Longrightarrow> ev e k = ev' e k"
  shows "eval_combinator ev name args c = eval_combinator ev' name' args' c'"
proof -
  have "eval_get ev args' c = eval_get ev' args' c"
    using assms(4) by (auto simp: eval_get_def split: list.splits expr.splits pyval.splits intro!: rbind_cong)
  then show ?thesis
    using eval_lambda_combinator_cong [of args' ev ev'] assms
    by (auto simp: eval_combinator_def split: list.splits)
qed

fun evaluate :: "expr \<Rightarrow> ctx \<Rightarrow> pyval ev" where
  "evaluate (Literal v) context = Inr v"
| "evaluate (Path parts) context = resolve_path parts context"
| "evaluate (ListLit items) context =
     rbind (traverse (\<lambda>e. evaluate e context) items) (\<lambda>vs. Inr (VList vs))"
| "evaluate (ObjectLit fields) context =
     rbind (traverse (\<lambda>(k, e). rbind (evaluate e context) (\<lambda>v. Inr (k, v))) fields)
       (\<lambda>kvs. Inr (VDict (dict_of kvs)))"
| "evaluate (Unary op operand) context = rbind (evaluate operand context) (eval_unary op)"
| "evaluate (Binary op left right) context = eval_binary evaluate op left right context"
| "evaluate (Combinator name args) context = eval_combinator evaluate name args context"
| "evaluate (Lambda param body) context = Inl (ExprEvalError BareLambda)"

subsection \<open>What an expression reads\<close>

text \<open>
  The context keys an evaluation can look at: the roots of its paths, less the lambda
  parameters that bind them.  An absent root called \<open>structured\<close> also looks whether \<open>text\<close>
  is there, for the addendum of the error.
\<close>

fun reads :: "expr \<Rightarrow> string list" where
  "reads (Literal v) = []"
| "reads (Path parts) =
     (case parts of [] \<Rightarrow> [] | p # _ \<Rightarrow> if p = ''structured'' then [p, ''text''] else [p])"
| "reads (ListLit items) = concat (map reads items)"
| "reads (ObjectLit fields) = concat (map (\<lambda>(k, e). reads e) fields)"
| "reads (Unary op e) = reads e"
| "reads (Binary op l r) = reads l @ reads r"
| "reads (Lambda p b) = removeAll p (reads b)"
| "reads (Combinator name args) = concat (map reads args)"

text \<open>
  The shape the parser produces: non-empty paths, a lambda only as the second argument of a
  lambda combinator, the literal path of \<open>get\<close>, the arities of the grammar, known operators.
\<close>

inductive wf_expr :: "expr \<Rightarrow> bool" where
  wf_Literal: "wf_expr (Literal v)"
| wf_Path: "parts \<noteq> [] \<Longrightarrow> wf_expr (Path parts)"
| wf_ListLit: "\<forall>e\<in>set items. wf_expr e \<Longrightarrow> wf_expr (ListLit items)"
| wf_ObjectLit: "\<forall>f\<in>set fields. wf_expr (snd f) \<Longrightarrow> wf_expr (ObjectLit fields)"
| wf_Unary: "op \<in> {''not'', ''-''} \<Longrightarrow> wf_expr e \<Longrightarrow> wf_expr (Unary op e)"
| wf_Binary: "op \<in> {''and'', ''or''} \<union> set CMP_SYMBOLS \<union> set NUMERIC_OPS \<Longrightarrow> wf_expr l \<Longrightarrow> wf_expr r
    \<Longrightarrow> wf_expr (Binary op l r)"
| wf_lambda: "name \<in> set LAMBDA_COMBINATORS \<Longrightarrow> wf_expr l \<Longrightarrow> wf_expr b
    \<Longrightarrow> wf_expr (Combinator name [l, Lambda p b])"
| wf_unary_call: "name \<in> {''count'', ''sum'', ''parse_json''} \<Longrightarrow> wf_expr a \<Longrightarrow> wf_expr (Combinator name [a])"
| wf_join: "wf_expr a \<Longrightarrow> wf_expr b \<Longrightarrow> wf_expr (Combinator ''join'' [a, b])"
| wf_get: "wf_expr a \<Longrightarrow> wf_expr (Combinator ''get'' [a, Literal (VStr s)])"
| wf_get_default: "wf_expr a \<Longrightarrow> wf_expr d \<Longrightarrow> wf_expr (Combinator ''get'' [a, Literal (VStr s), d])"

lemmas eval_defs = eval_binary_def eval_combinator_def eval_lambda_combinator_def eval_get_def LAMBDA_COMBINATORS_def

lemma eval_combinator_simps:
  "eval_combinator ev ''count'' [a] c = rbind (ev a c) (\<lambda>v. rbind (require_list v ''count'')
     (\<lambda>items. Inr (VInt (int (length items)))))"
  "eval_combinator ev ''sum'' [a] c = rbind (ev a c) (\<lambda>v. rbind (require_list v ''sum'') (sum_from (VInt 0)))"
  "eval_combinator ev ''parse_json'' [a] c = rbind (ev a c) eval_parse_json"
  "eval_combinator ev ''join'' [a, b] c = rbind (ev a c) (\<lambda>v. rbind (require_list v ''join'')
     (\<lambda>items. rbind (ev b c) (\<lambda>sep. case sep of
        VStr s \<Rightarrow> rbind (join_parts items) (\<lambda>ss. Inr (VStr (str_join s ss)))
      | _ \<Rightarrow> Inl (ExprEvalError (JoinSeparator (type_name sep))))))"
  "eval_combinator ev ''get'' args c = eval_get ev args c"
  by (simp_all add: eval_combinator_def LAMBDA_COMBINATORS_def)

lemma resolve_path_agree:
  assumes "parts \<noteq> []" and "\<forall>k\<in>set (reads (Path parts)). dget c k = dget c' k"
  shows "resolve_path parts c = resolve_path parts c'"
  using assms
  by (cases parts) (auto simp: resolve_path_def missing_structured_hint_def has_key_def
      split: option.splits if_splits)

lemma lambda_agree:
  assumes "\<And>c c'. (\<forall>k\<in>set (reads b). dget c k = dget c' k) \<Longrightarrow> evaluate b c = evaluate b c'"
    and "\<forall>k\<in>set (reads (Lambda p b)). dget c k = dget c' k"
  shows "evaluate b ((p, x) # c) = evaluate b ((p, x) # c')"
  by (rule assms(1)) (use assms(2) in auto)

lemma evaluate_agree:
  "wf_expr e \<Longrightarrow> (\<forall>k\<in>set (reads e). dget c k = dget c' k) \<Longrightarrow> evaluate e c = evaluate e c'"
proof (induction e arbitrary: c c' rule: wf_expr.induct)
  case (wf_Path parts)
  then show ?case using resolve_path_agree [of parts c c'] by (simp del: reads.simps)
next
  case (wf_ListLit items)
  then have "traverse (\<lambda>e. evaluate e c) items = traverse (\<lambda>e. evaluate e c') items"
    by (intro traverse_cong) auto
  then show ?case by simp
next
  case (wf_ObjectLit fields)
  then have "evaluate e c = evaluate e c'" if "(k, e) \<in> set fields" for k e
    using that by fastforce
  then have "traverse (\<lambda>(k, e). rbind (evaluate e c) (\<lambda>v. Inr (k, v))) fields
      = traverse (\<lambda>(k, e). rbind (evaluate e c') (\<lambda>v. Inr (k, v))) fields"
    by (intro traverse_cong) auto
  then show ?case by simp
next
  case (wf_Binary op l r)
  then have "evaluate l c = evaluate l c'" "evaluate r c = evaluate r c'" by auto
  then show ?case by (simp add: eval_binary_def cong: if_cong)
next
  case (wf_lambda name l b p)
  have "evaluate b ((p, x) # c) = evaluate b ((p, x) # c')" for x
    using wf_lambda by (intro lambda_agree) auto
  moreover have "evaluate l c = evaluate l c'" using wf_lambda by auto
  ultimately show ?case using wf_lambda.hyps(1)
    by (simp add: eval_combinator_def eval_lambda_combinator_def Let_def cong: if_cong)
next
  case (wf_join a b)
  then have "evaluate a c = evaluate a c'" "evaluate b c = evaluate b c'" by auto
  then show ?case by (simp add: eval_defs)
next
  case (wf_unary_call name a)
  then have "evaluate a c = evaluate a c'" by auto
  then show ?case using wf_unary_call.hyps(1) by (auto simp: eval_defs)
next
  case (wf_get_default a d s)
  then have "evaluate a c = evaluate a c'" "evaluate d c = evaluate d c'" by auto
  then show ?case by (simp add: eval_defs)
next
  case (wf_Unary op e)
  then have "evaluate e c = evaluate e c'" by simp
  then show ?case by simp
next
  case (wf_get a s)
  then have "evaluate a c = evaluate a c'" by simp
  then show ?case by (simp add: eval_combinator_simps eval_get_def)
qed simp

subsection \<open>Which exceptions an evaluation raises\<close>

text \<open>The operator and combinator names that occur in an expression.\<close>

fun calls :: "expr \<Rightarrow> string list" where
  "calls (Literal v) = []"
| "calls (Path parts) = []"
| "calls (ListLit items) = concat (map calls items)"
| "calls (ObjectLit fields) = concat (map (\<lambda>(k, e). calls e) fields)"
| "calls (Unary op e) = calls e"
| "calls (Binary op l r) = op # calls l @ calls r"
| "calls (Lambda p b) = calls b"
| "calls (Combinator name args) = name # concat (map calls args)"

definition may_raise :: "string set \<Rightarrow> expr_exc \<Rightarrow> bool" where
  "may_raise names x \<longleftrightarrow>
     (\<exists>r. x = ExprEvalError r)
     \<or> x = PyOverflowError \<and> names \<inter> (set NUMERIC_OPS \<union> {''sum''}) \<noteq> {}
     \<or> x = PyValueError \<and> ''parse_json'' \<in> names"

lemma may_raise_eval [simp]: "may_raise N (ExprEvalError r)"
  by (simp add: may_raise_def)

lemma may_raise_mono: "may_raise N x \<Longrightarrow> N \<subseteq> M \<Longrightarrow> may_raise M x"
  by (auto simp: may_raise_def)

lemma filter_res_Inl: "filter_res f xs = Inl e \<Longrightarrow> \<exists>x\<in>set xs. f x = Inl e"
  by (induction xs) (auto simp: rbind_eq_Inl)

lemma all_res_Inl: "all_res f xs = Inl e \<Longrightarrow> \<exists>x\<in>set xs. f x = Inl e"
  by (induction xs) (auto simp: rbind_eq_Inl split: if_splits)

lemma any_res_Inl: "any_res f xs = Inl e \<Longrightarrow> \<exists>x\<in>set xs. f x = Inl e"
  by (induction xs) (auto simp: rbind_eq_Inl split: if_splits)

lemma find_res_Inl: "find_res f xs = Inl e \<Longrightarrow> \<exists>x\<in>set xs. f x = Inl e"
  by (induction xs) (auto simp: rbind_eq_Inl split: if_splits)

lemmas iter_Inl = traverse_Inl_mem filter_res_Inl all_res_Inl any_res_Inl find_res_Inl

lemma resolve_path_Inl: "resolve_path_from full done parts v = Inl x \<Longrightarrow> \<exists>r. x = ExprEvalError r"
  by (induction full "done" parts v rule: resolve_path_from.induct) (auto split: pyval.splits option.splits)

lemma to_float_Inl: "to_float v = Inl x \<Longrightarrow> is_number v \<Longrightarrow> x = PyOverflowError"
  by (cases v) (auto simp: to_float_def is_number_def numeric_def split: option.splits)

lemma float_op_Inl: "float_op f a b = Inl x \<Longrightarrow> is_number a \<Longrightarrow> is_number b \<Longrightarrow> x = PyOverflowError"
  by (auto simp: float_op_def rbind_eq_Inl dest: to_float_Inl)

lemma num_op_Inl:
  assumes "is_number a" "is_number b"
  shows "num_add a b = Inl x \<Longrightarrow> x = PyOverflowError"
    and "num_sub a b = Inl x \<Longrightarrow> x = PyOverflowError"
    and "num_mul a b = Inl x \<Longrightarrow> x = PyOverflowError"
    and "num_div a b = Inl x \<Longrightarrow> x = PyOverflowError"
  using assms float_op_Inl [OF _ assms]
  by (auto simp: num_add_def num_sub_def num_mul_def num_div_def split: pyval.splits option.splits)

lemma num_add_number: "num_add a b = Inr v \<Longrightarrow> is_number v"
  by (auto simp: num_add_def float_op_def is_number_def numeric_def split: pyval.splits)

lemma eval_arithmetic_Inl: "eval_arithmetic op l r = Inl x \<Longrightarrow> op \<in> set NUMERIC_OPS \<Longrightarrow> op \<in> N \<Longrightarrow> may_raise N x"
proof -
  assume a: "eval_arithmetic op l r = Inl x" and "op \<in> set NUMERIC_OPS" "op \<in> N"
  then have "may_raise N PyOverflowError" by (auto simp: may_raise_def)
  with a num_op_Inl [of l r x] show ?thesis
    by (auto simp: eval_arithmetic_def split: bool.splits pyval.splits if_splits)
qed

lemma eval_comparison_Inl: "eval_comparison op a b = Inl y \<Longrightarrow> may_raise N y"
  unfolding eval_comparison_def by (auto split: if_split_asm)

lemma eval_binary_Inl:
  assumes "eval_binary ev op l r c = Inl x" and "op \<in> N"
    and "\<And>x. ev l c = Inl x \<Longrightarrow> may_raise N x" and "\<And>x. ev r c = Inl x \<Longrightarrow> may_raise N x"
  shows "may_raise N x"
  using assms eval_comparison_Inl eval_arithmetic_Inl
  by (fastforce simp: eval_binary_def rbind_eq_Inl split: if_split_asm)

lemma sum_from_Inl: "sum_from acc vs = Inl x \<Longrightarrow> is_number acc \<Longrightarrow> ''sum'' \<in> N \<Longrightarrow> may_raise N x"
proof (induction acc vs rule: sum_from.induct)
  case (2 acc v vs)
  show ?case
  proof (cases "num_add acc v")
    case (Inl y)
    with 2 num_op_Inl(1) [of acc v y] show ?thesis by (auto simp: may_raise_def split: if_splits)
  next
    case (Inr t)
    with 2 num_add_number [OF Inr] show ?thesis by (auto split: if_splits)
  qed
qed simp

lemma join_parts_Inl: "join_parts vs = Inl x \<Longrightarrow> may_raise N x"
  by (induction vs) (auto simp: rbind_eq_Inl split: pyval.splits)

lemma require_list_Inl: "require_list v n = Inl x \<Longrightarrow> may_raise N x"
  by (auto simp: require_list_def split: pyval.splits)

lemma parse_json_Inl: "eval_parse_json v = Inl x \<Longrightarrow> ''parse_json'' \<in> N \<Longrightarrow> may_raise N x"
  by (auto simp: eval_parse_json_def may_raise_def split: pyval.splits sum.splits json_err.splits)

lemma lambda_Inl:
  assumes l: "eval_lambda_combinator ev name [l, Lambda p b] c = Inl x"
    and ev_l: "\<And>x c. ev l c = Inl x \<Longrightarrow> may_raise N x" and ev_b: "\<And>x c. ev b c = Inl x \<Longrightarrow> may_raise N x"
  shows "may_raise N x"
proof (cases "rbind (ev l c) (\<lambda>v. require_list v name)")
  case (Inl y)
  with l have "x = y" by (auto simp: eval_lambda_combinator_def rbind_eq_Inl)
  with Inl ev_l require_list_Inl show ?thesis by (fastforce simp: rbind_eq_Inl)
next
  case (Inr items)
  let ?test = "\<lambda>item. rbind (ev b ((p, item) # c)) (\<lambda>r. Inr (truthy r))"
  from Inr obtain v where v: "ev l c = Inr v" "require_list v name = Inr items" by auto
  from l v have "traverse (\<lambda>item. ev b ((p, item) # c)) items = Inl x
      \<or> filter_res ?test items = Inl x \<or> all_res ?test items = Inl x
      \<or> any_res ?test items = Inl x \<or> find_res ?test items = Inl x"
    by (simp add: eval_lambda_combinator_def Let_def rbind_eq_Inl split: if_split_asm)
  then have "\<exists>k. ev b k = Inl x"
    by (auto simp: rbind_eq_Inl dest!: iter_Inl)
  with ev_b show ?thesis by blast
qed

lemma join_Inl:
  assumes j: "eval_combinator ev ''join'' [a, b] c = Inl x"
    and a: "\<And>x. ev a c = Inl x \<Longrightarrow> may_raise N x" and b: "\<And>x. ev b c = Inl x \<Longrightarrow> may_raise N x"
  shows "may_raise N x"
proof (cases "ev a c")
  case (Inl y)
  with j a show ?thesis by (simp add: eval_combinator_simps)
next
  case v: (Inr v)
  show ?thesis
  proof (cases "require_list v ''join''")
    case (Inl y)
    with j v require_list_Inl [OF Inl] show ?thesis by (simp add: eval_combinator_simps)
  next
    case items: (Inr items)
    show ?thesis
    proof (cases "ev b c")
      case (Inl y)
      with j v items b show ?thesis by (simp add: eval_combinator_simps)
    next
      case (Inr sep)
      with j v items show ?thesis
        by (cases sep; cases "join_parts items") (auto simp: eval_combinator_simps dest: join_parts_Inl)
    qed
  qed
qed

lemma evaluate_Inl: "wf_expr e \<Longrightarrow> evaluate e c = Inl x \<Longrightarrow> set (calls e) \<subseteq> N \<Longrightarrow> may_raise N x"
proof (induction e arbitrary: c x rule: wf_expr.induct)
  case (wf_Path parts)
  then show ?case using resolve_path_Inl by (fastforce simp: resolve_path_def)
next
  case (wf_ListLit items)
  from wf_ListLit.prems(1) obtain e where e: "e \<in> set items" "evaluate e c = Inl x"
    by (auto simp: rbind_eq_Inl dest!: traverse_Inl_mem)
  moreover have "set (calls e) \<subseteq> N" using wf_ListLit.prems(2) e(1) by auto
  ultimately show ?case using wf_ListLit.IH by blast
next
  case (wf_ObjectLit fields)
  from wf_ObjectLit.prems(1) obtain k e where e: "(k, e) \<in> set fields" "evaluate e c = Inl x"
    by (auto simp: rbind_eq_Inl dest!: traverse_Inl_mem)
  moreover have "set (calls e) \<subseteq> N" using wf_ObjectLit.prems(2) e(1) by auto
  ultimately show ?case using wf_ObjectLit.IH by fastforce
next
  case (wf_Unary op e)
  have "eval_unary op v = Inl y \<Longrightarrow> may_raise N y" for v y
    unfolding eval_unary_def by (auto split: pyval.split_asm if_split_asm)
  with wf_Unary show ?case by (auto simp: rbind_eq_Inl)
next
  case (wf_Binary op l r)
  show ?case
    by (rule eval_binary_Inl [of evaluate op l r c x N]) (use wf_Binary in simp_all)
next
  case (wf_lambda name l b p)
  then show ?case
    using lambda_Inl [of evaluate name l p b c x N] by (simp add: eval_combinator_def)
next
  case (wf_unary_call name a)
  then have a: "evaluate a c = Inl y \<Longrightarrow> may_raise N y" for y by auto
  have "name = ''count'' \<or> name = ''sum'' \<or> name = ''parse_json''" using wf_unary_call.hyps(1) by simp
  then show ?case
  proof (elim disjE)
    assume n: "name = ''count''"
    show ?thesis using wf_unary_call.prems(1) a
      by (auto simp: n eval_combinator_simps rbind_eq_Inl dest: require_list_Inl [where N = N])
  next
    assume n: "name = ''sum''"
    have "is_number (VInt 0)" by (simp add: is_number_def numeric_def)
    moreover have "''sum'' \<in> N" using wf_unary_call.prems(2) n by simp
    ultimately show ?thesis using wf_unary_call.prems(1) a
      by (auto simp: n eval_combinator_simps rbind_eq_Inl dest: require_list_Inl [where N = N] sum_from_Inl)
  next
    assume n: "name = ''parse_json''"
    have "''parse_json'' \<in> N" using wf_unary_call.prems(2) n by simp
    then show ?thesis using wf_unary_call.prems(1) a
      by (auto simp: n eval_combinator_simps rbind_eq_Inl dest: parse_json_Inl)
  qed
next
  case (wf_join a b)
  show ?case
  proof (rule join_Inl [of evaluate a b c x N])
    show "eval_combinator evaluate ''join'' [a, b] c = Inl x" using wf_join.prems(1) by simp
  qed (use wf_join in simp_all)
next
  case (wf_get a s)
  then show ?case by (auto simp: eval_combinator_simps eval_get_def rbind_eq_Inl)
next
  case (wf_get_default a d s)
  then show ?case by (auto simp: eval_combinator_simps eval_get_def rbind_eq_Inl)
qed simp

text \<open>C30: Evaluating a well-formed expression raises nothing but the documented
  \<open>ExprEvalError\<close>, an \<open>OverflowError\<close> when the expression contains an arithmetic operator or
  \<open>sum\<close>, and a \<open>ValueError\<close> when it contains \<open>parse_json\<close>; an unbound operator, a missing
  argument or a misplaced lambda never is the outcome.\<close>

theorem evaluate_raises:
  "wf_expr e \<Longrightarrow> evaluate e c = Inl x \<Longrightarrow> may_raise (set (calls e)) x"
  by (rule evaluate_Inl) auto

theorem evaluate_raises_witness:
  "may_raise (set (calls (Binary ''and'' (Literal (VBool True)) (Path [''a'']))))
     (ExprEvalError (AbsentField [''a''] [''a''] False))"
proof (rule evaluate_raises)
  show "wf_expr (Binary ''and'' (Literal (VBool True)) (Path [''a'']))"
    by (auto intro!: wf_expr.intros)
  show "evaluate (Binary ''and'' (Literal (VBool True)) (Path [''a''])) [] =
      Inl (ExprEvalError (AbsentField [''a''] [''a''] False))"
    by (simp add: eval_binary_def resolve_path_def missing_structured_hint_def has_key_def)
qed

text \<open>The value, or the exception, of a well-formed expression depends only on the context
  keys it statically reads: two contexts that agree on them give the same outcome.  Inside a
  combinator the lambda parameter hides the context key of its name.\<close>

theorem evaluate_reads_only:
  assumes "wf_expr e" and "\<forall>k\<in>set (reads e). dget c k = dget c' k"
  shows "evaluate e c = evaluate e c'"
  using assms by (rule evaluate_agree)

theorem evaluate_reads_only_witness:
  "evaluate (Combinator ''map'' [Path [''xs''], Lambda ''x'' (Path [''x''])])
      [(''x'', VInt 1), (''xs'', VList [VNone])] =
   evaluate (Combinator ''map'' [Path [''xs''], Lambda ''x'' (Path [''x''])])
      [(''xs'', VList [VNone])]"
  by (rule evaluate_reads_only) (auto intro!: wf_expr.intros simp: LAMBDA_COMBINATORS_def)

lemma ilog2_power [simp]: "ilog2 (2 ^ k) = k"
  by (induction k) (subst ilog2.simps, simp)+

lemma overflow_power: "1024 \<le> k \<Longrightarrow> float_of_int (2 ^ k) = None"
proof -
  assume k: "1024 \<le> k"
  have q: "quotient_of ((2 :: rat) ^ k) = (2 ^ k, 1)"
  proof -
    have "(2 :: rat) ^ k = Fract (2 ^ k) 1" by (simp add: Fract_of_int_eq)
    then show ?thesis by (simp add: quotient_of_Fract normalize_def)
  qed
  have l: "ilog2 (Suc 0) = 0" by (subst ilog2.simps) simp
  have b: "bin_exp (2 ^ k) = int k"
    by (simp add: bin_exp_def q pow_int_def l nat_power_eq)
  have e: "(2 :: rat) ^ k = 2 ^ 52 * 2 ^ (k - 52)"
    using k by (simp only: power_add [symmetric]) simp
  have d: "(2 :: rat) ^ k / pow_int 2 (int k - 52) = 2 ^ 52"
    using k by (simp add: e pow_int_def nat_diff_distrib)
  have r: "round_half_even (2 ^ 52) = 2 ^ 52"
    by (simp add: round_half_even_def)
  have m: "max (int k - 52) (- 1074) = int k - 52" using k by simp
  have v: "of_int (2 ^ 52) * pow_int 2 (int k - 52) = (2 :: rat) ^ k"
    using k e by (simp add: pow_int_def nat_diff_distrib)
  have "pow_int 2 1024 = (2 :: rat) ^ 1024" by (simp add: pow_int_def)
  also have "(2 :: rat) ^ 1024 \<le> 2 ^ k" using k by (rule power_increasing) simp
  finally have "pow_int 2 1024 \<le> (2 :: rat) ^ k" .
  then have "double_of False (2 ^ k) = FInf"
    by (simp only: double_of_def Let_def abs_power2 power_abs abs_numeral b m d r v) simp
  then show "float_of_int (2 ^ k) = None"
    by (simp add: float_of_int_def finite_or_none_def)
qed

text \<open>Dividing a huge integer by a divisor that divides it exactly raises an
  \<open>OverflowError\<close>: the float quotient is computed first, although the code returns the integer
  quotient.  (The documentation of \<open>evaluate\<close> names \<open>ExprEvalError\<close> only.)\<close>

theorem exact_division_overflows:
  assumes "1024 \<le> k"
  shows "evaluate (Binary ''/'' (Literal (VInt (2 ^ k))) (Literal (VInt 1))) c = Inl PyOverflowError"
  using overflow_power [OF assms]
  by (simp add: eval_binary_def CMP_SYMBOLS_def NUMERIC_OPS_def eval_arithmetic_def is_number_def
      numeric_def num_div_def int_true_div_def float_of_int_def)

theorem exact_division_overflows_witness:
  "evaluate (Binary ''/'' (Literal (VInt (2 ^ 1024))) (Literal (VInt 1))) [] = Inl PyOverflowError"
  by (rule exact_division_overflows) simp

end
