(* ===== verification/ExprParse.thy ===== *)
theory ExprParse
  imports Expr "HOL-Library.Sublist"
begin

section \<open>The expression language: tokenizer and parser\<close>

text \<open>
  The tokenizer and the recursive-descent parser of \<open>src/reyn/core/pipeline/expr.py\<close>.  The
  parser's state is the list of the tokens that are left.  The grammar is recursive only through
  \<open>_parse_or\<close>, which every parsing function takes as its argument \<open>po\<close>; \<open>parse_or n\<close> ties the
  knot with nesting depth \<open>n\<close>, and the number of tokens is depth enough.  Token positions occur
  in error messages only and are left out; digits are the ASCII ones.
\<close>

subsection \<open>Tokens\<close>

datatype tok_kind =
    NUMBER | STRING | ARROW | DOT | EQ | NE | LE | GE | LT | GT | LPAREN | RPAREN | LBRACE | RBRACE
  | LBRACKET | RBRACKET | COMMA | COLON | PLUS | MINUS | STAR | SLASH | IDENT | EOF

record token =
  kind :: tok_kind
  tok_text :: string

type_synonym toks = "token list"

datatype parse_reason =
    UnexpectedCharacter char
  | ExpectedToken tok_kind tok_kind string
  | UnexpectedToken tok_kind string
  | KeywordAsExpression string
  | NotACombinator string
  | LambdaKeyword string
  | EmptySource
  | OutOfDepth

datatype parse_exc = ExprParseError parse_reason | ParseValueError

definition KEYWORDS :: "string list" where
  "KEYWORDS = [''true'', ''false'', ''null'', ''not'', ''and'', ''or'']"

definition is_ident_start :: "char \<Rightarrow> bool" where
  "is_ident_start c \<longleftrightarrow>
     (let n = of_char c :: nat in (65 \<le> n \<and> n \<le> 90) \<or> (97 \<le> n \<and> n \<le> 122) \<or> n = 95)"

definition is_ident_char :: "char \<Rightarrow> bool" where
  "is_ident_char c \<longleftrightarrow> is_ident_start c \<or> is_digit c"

fun scan_quoted :: "char \<Rightarrow> string \<Rightarrow> (string \<times> string) option" where
  "scan_quoted q [] = None"
| "scan_quoted q (c # r) =
     (if c = q then Some ([c], r)
      else if c = CHR 0x5C then
        (case r of
           [] \<Rightarrow> None
         | d # r' \<Rightarrow>
             if d = CHR 0x0A then None
             else map_option (map_prod (\<lambda>t. c # d # t) id) (scan_quoted q r'))
      else map_option (map_prod ((#) c) id) (scan_quoted q r))"

text \<open>The one- and two-character tokens, in the order of \<open>_TOKEN_SPEC\<close>.\<close>

definition punctuation :: "(string \<times> tok_kind) list" where
  "punctuation =
     [(''->'', ARROW), (''.'', DOT), (''=='', EQ), (''!='', NE), (''<='', LE), (''>='', GE), (''<'', LT),
      (''>'', GT), (''('', LPAREN), ('')'', RPAREN), (''{'', LBRACE), (''}'', RBRACE), (''['', LBRACKET),
      ('']'', RBRACKET), ('','', COMMA), ('':'', COLON), (''+'', PLUS), (''-'', MINUS), (''*'', STAR),
      (''/'', SLASH)]"

definition scan_number :: "string \<Rightarrow> string \<times> string" where
  "scan_number s =
     (let ds = takeWhile is_digit s; r = dropWhile is_digit s in
      case r of
        c # r' \<Rightarrow>
          if c = CHR ''.'' \<and> takeWhile is_digit r' \<noteq> []
          then (ds @ c # takeWhile is_digit r', dropWhile is_digit r') else (ds, r)
      | [] \<Rightarrow> (ds, r))"

text \<open>The match at the head of a non-empty text: \<open>SKIP\<close> is \<open>None\<close> in the first component.\<close>

definition next_token :: "char \<Rightarrow> string \<Rightarrow> (token option \<times> string) option" where
  "next_token c r =
     (let s = c # r in
      if c \<in> {CHR '' '', CHR 0x09, CHR 0x0D, CHR 0x0A} then
        Some (None, dropWhile (\<lambda>x. x \<in> {CHR '' '', CHR 0x09, CHR 0x0D, CHR 0x0A}) r)
      else if is_digit c then
        (let (t, q) = scan_number s in Some (Some \<lparr>kind = NUMBER, tok_text = t\<rparr>, q))
      else if c = CHR 0x27 \<or> c = CHR 0x22 then
        (case scan_quoted c r of
           None \<Rightarrow> None
         | Some (t, q) \<Rightarrow> Some (Some \<lparr>kind = STRING, tok_text = c # t\<rparr>, q))
      else (case find (\<lambda>(w, k). starts_with s w) punctuation of
          Some (w, k) \<Rightarrow> Some (Some \<lparr>kind = k, tok_text = w\<rparr>, drop (length w) s)
        | None \<Rightarrow>
            if is_ident_start c then
              Some (Some \<lparr>kind = IDENT, tok_text = c # takeWhile is_ident_char r\<rparr>, dropWhile is_ident_char r)
            else None))"

lemma scan_quoted_length: "scan_quoted q s = Some (t, r) \<Longrightarrow> length r < length s"
  by (induction q s arbitrary: t r rule: scan_quoted.induct) (fastforce split: if_splits list.splits)+

lemma scan_number_length:
  assumes "scan_number (c # s) = (t, r)" and "is_digit c"
  shows "length r < length (c # s)"
proof -
  have d: "length (dropWhile is_digit s) \<le> length s" by (rule length_dropWhile_le)
  show ?thesis
  proof (cases "dropWhile is_digit s")
    case Nil
    with assms show ?thesis by (auto simp: scan_number_def Let_def)
  next
    case (Cons x q)
    have "length (dropWhile is_digit q) \<le> length q" by (rule length_dropWhile_le)
    with d Cons have "length (dropWhile is_digit q) < Suc (length s)" by simp
    with Cons d assms show ?thesis
      by (auto simp: scan_number_def Let_def le_imp_less_Suc length_dropWhile_le split: if_splits)
  qed
qed

lemma find_punctuation: "find P punctuation = Some (w, k) \<Longrightarrow> w \<noteq> []"
proof -
  have "\<forall>x\<in>set punctuation. fst x \<noteq> []" by (simp add: punctuation_def)
  moreover assume "find P punctuation = Some (w, k)"
  then have "(w, k) \<in> set punctuation" by (auto simp: find_Some_iff)
  ultimately show ?thesis by fastforce
qed

lemma next_token_length:
  assumes n: "next_token c s = Some (t, r)"
  shows "length r < length (c # s)"
proof (cases "is_digit c")
  case True
  obtain x y where "scan_number (c # s) = (x, y)" by force
  with n True scan_number_length [OF this True] length_dropWhile_le [of _ s] show ?thesis
    by (auto simp: next_token_def Let_def le_imp_less_Suc split: if_split_asm)
next
  case False
  then consider "r = dropWhile (\<lambda>x. x \<in> {CHR '' '', CHR 0x09, CHR 0x0D, CHR 0x0A}) s"
    | x where "scan_quoted c s = Some (x, r)"
    | w k where "find (\<lambda>(w, k). starts_with (c # s) w) punctuation = Some (w, k)" "r = drop (length w) (c # s)"
    | "r = dropWhile is_ident_char s"
    using n by (auto simp: next_token_def Let_def split: if_split_asm option.split_asm)
  then show ?thesis
  proof cases
    case 3
    with find_punctuation [OF 3(1)] show ?thesis by (cases w) auto
  qed (auto simp: le_imp_less_Suc length_dropWhile_le less_SucI dest: scan_quoted_length)
qed

function tokenize :: "string \<Rightarrow> parse_exc + toks" where
  "tokenize [] = Inr [\<lparr>kind = EOF, tok_text = []\<rparr>]"
| "tokenize (c # s) =
     (case next_token c s of
        None \<Rightarrow> Inl (ExprParseError (UnexpectedCharacter c))
      | Some (t, r) \<Rightarrow>
          rbind (tokenize r) (\<lambda>ts. Inr (case t of None \<Rightarrow> ts | Some tok \<Rightarrow> tok # ts)))"
  by pat_completeness auto
termination
  by (relation "measure length") (auto dest!: next_token_length)

fun unescape :: "string \<Rightarrow> string" where
  "unescape [] = []"
| "unescape (c # r) =
     (if c = CHR 0x5C then
        (case r of
           [] \<Rightarrow> [c]
         | d # r' \<Rightarrow>
             (if d = CHR ''n'' then CHR 0x0A else if d = CHR ''t'' then CHR 0x09 else d) # unescape r')
      else c # unescape r)"

definition unescape_string :: "string \<Rightarrow> string" where
  "unescape_string raw = unescape (butlast (tl raw))"

subsection \<open>The parser's token operations\<close>

definition eof_token :: token where
  "eof_token = \<lparr>kind = EOF, tok_text = []\<rparr>"

definition peek :: "toks \<Rightarrow> token" where
  "peek ts = (case ts of [] \<Rightarrow> eof_token | t # _ \<Rightarrow> t)"

definition expect :: "tok_kind \<Rightarrow> toks \<Rightarrow> parse_exc + (token \<times> toks)" where
  "expect k ts =
     (if kind (peek ts) \<noteq> k
      then Inl (ExprParseError (ExpectedToken k (kind (peek ts)) (tok_text (peek ts))))
      else Inr (peek ts, tl ts))"

definition peek_word :: "string \<Rightarrow> toks \<Rightarrow> bool" where
  "peek_word w ts \<longleftrightarrow> kind (peek ts) = IDENT \<and> tok_text (peek ts) = w"

type_synonym 'a parsed = "parse_exc + ('a \<times> toks)"
type_synonym parser = "toks \<Rightarrow> expr parsed"

text \<open>The loops: left-associative operators and comma-separated lists.\<close>

fun binop_loop :: "nat \<Rightarrow> (token \<Rightarrow> string option) \<Rightarrow> parser \<Rightarrow> expr \<Rightarrow> toks \<Rightarrow> expr parsed" where
  "binop_loop 0 op p left ts = Inl (ExprParseError OutOfDepth)"
| "binop_loop (Suc n) op p left ts =
     (case op (peek ts) of
        None \<Rightarrow> Inr (left, ts)
      | Some o' \<Rightarrow> rbind (p (tl ts)) (\<lambda>(right, r). binop_loop n op p (Binary o' left right) r))"

definition binop_level :: "(token \<Rightarrow> string option) \<Rightarrow> parser \<Rightarrow> parser" where
  "binop_level op p ts =
     rbind (p ts) (\<lambda>(left, r). binop_loop (Suc (length r)) op p left r)"

fun comma_loop :: "nat \<Rightarrow> (toks \<Rightarrow> 'a parsed) \<Rightarrow> toks \<Rightarrow> 'a list parsed" where
  "comma_loop 0 p ts = Inl (ExprParseError OutOfDepth)"
| "comma_loop (Suc n) p ts =
     (if kind (peek ts) = COMMA then
        rbind (p (tl ts)) (\<lambda>(x, r). rbind (comma_loop n p r) (\<lambda>(xs, q). Inr (x # xs, q)))
      else Inr ([], ts))"

definition comma_items :: "tok_kind \<Rightarrow> (toks \<Rightarrow> 'a parsed) \<Rightarrow> toks \<Rightarrow> 'a list parsed" where
  "comma_items close p ts =
     rbind (if kind (peek ts) = close then Inr ([], ts)
            else rbind (p ts) (\<lambda>(x, r). rbind (comma_loop (Suc (length r)) p r) (\<lambda>(xs, q). Inr (x # xs, q))))
       (\<lambda>(xs, r). rbind (expect close r) (\<lambda>(_, q). Inr (xs, q)))"

subsection \<open>The grammar\<close>

definition parse_list :: "parser \<Rightarrow> parser" where
  "parse_list po ts =
     rbind (expect LBRACKET ts) (\<lambda>(_, r).
     rbind (comma_items RBRACKET po r) (\<lambda>(items, q). Inr (ListLit items, q)))"

definition parse_object_field :: "parser \<Rightarrow> toks \<Rightarrow> (string \<times> expr) parsed" where
  "parse_object_field po ts =
     rbind (expect IDENT ts) (\<lambda>(key, r0).
     rbind (expect COLON r0) (\<lambda>(_, r1).
     rbind (po r1) (\<lambda>(value, r). Inr ((tok_text key, value), r))))"

definition parse_object :: "parser \<Rightarrow> parser" where
  "parse_object po ts =
     rbind (expect LBRACE ts) (\<lambda>(_, r).
     rbind (comma_items RBRACE (parse_object_field po) r) (\<lambda>(fields, q). Inr (ObjectLit fields, q)))"

definition parse_lambda :: "parser \<Rightarrow> parser" where
  "parse_lambda po ts =
     rbind (expect IDENT ts) (\<lambda>(param, r0).
       if tok_text param \<in> set KEYWORDS then Inl (ExprParseError (LambdaKeyword (tok_text param)))
       else rbind (expect ARROW r0) (\<lambda>(_, r1).
            rbind (po r1) (\<lambda>(body, r). Inr (Lambda (tok_text param) body, r))))"

definition parse_args :: "parser \<Rightarrow> string \<Rightarrow> toks \<Rightarrow> expr list parsed" where
  "parse_args po name ts =
     (if name \<in> set LAMBDA_COMBINATORS then
        rbind (po ts) (\<lambda>(list_expr, r0).
        rbind (expect COMMA r0) (\<lambda>(_, r1).
        rbind (parse_lambda po r1) (\<lambda>(lam, r). Inr ([list_expr, lam], r))))
      else if name \<in> {''count'', ''sum'', ''parse_json''} then
        rbind (po ts) (\<lambda>(a, r). Inr ([a], r))
      else if name = ''join'' then
        rbind (po ts) (\<lambda>(list_expr, r0).
        rbind (expect COMMA r0) (\<lambda>(_, r1).
        rbind (po r1) (\<lambda>(sep_expr, r). Inr ([list_expr, sep_expr], r))))
      else if name = ''get'' then
        rbind (po ts) (\<lambda>(base_expr, r0).
        rbind (expect COMMA r0) (\<lambda>(_, r1).
        rbind (expect STRING r1) (\<lambda>(path_tok, r2).
          let args = [base_expr, Literal (VStr (unescape_string (tok_text path_tok)))] in
          if kind (peek r2) = COMMA
          then rbind (po (tl r2)) (\<lambda>(default_expr, r). Inr (args @ [default_expr], r))
          else Inr (args, r2))))
      else Inl (ExprParseError (NotACombinator name)))"

definition parse_combinator :: "parser \<Rightarrow> string \<Rightarrow> parser" where
  "parse_combinator po name ts =
     rbind (expect LPAREN ts) (\<lambda>(_, r0).
     rbind (parse_args po name r0) (\<lambda>(args, r1).
     rbind (expect RPAREN r1) (\<lambda>(_, r). Inr (Combinator name args, r))))"

fun dotted_parts :: "nat \<Rightarrow> toks \<Rightarrow> string list parsed" where
  "dotted_parts 0 ts = Inl (ExprParseError OutOfDepth)"
| "dotted_parts (Suc n) ts =
     (if kind (peek ts) = DOT then
        rbind (expect IDENT (tl ts)) (\<lambda>(part, r).
        rbind (dotted_parts n r) (\<lambda>(parts, q). Inr (tok_text part # parts, q)))
      else Inr ([], ts))"

definition parse_ident_led :: "parser \<Rightarrow> parser" where
  "parse_ident_led po ts =
     (let name = tok_text (peek ts); r = tl ts in
      if name = ''true'' then Inr (Literal (VBool True), r)
      else if name = ''false'' then Inr (Literal (VBool False), r)
      else if name = ''null'' then Inr (Literal VNone, r)
      else if name \<in> {''and'', ''or'', ''not''} then Inl (ExprParseError (KeywordAsExpression name))
      else if kind (peek r) = LPAREN then
        (if name \<notin> set COMBINATOR_NAMES then Inl (ExprParseError (NotACombinator name))
         else parse_combinator po name r)
      else rbind (dotted_parts (Suc (length r)) r) (\<lambda>(parts, q). Inr (Path (name # parts), q)))"

definition number_literal :: "string \<Rightarrow> parse_exc + expr" where
  "number_literal t =
     (if CHR ''.'' \<in> set t then
        Inr (Literal (VFloat (decimal_float False (takeWhile (\<lambda>c. c \<noteq> CHR ''.'') t)
          (drop 1 (dropWhile (\<lambda>c. c \<noteq> CHR ''.'') t)) 0)))
      else if length t > max_int_digits then Inl ParseValueError
      else Inr (Literal (VInt (int (str_nat t)))))"

definition parse_primary :: "parser \<Rightarrow> parser" where
  "parse_primary po ts =
     (let tok = peek ts in
      if kind tok = NUMBER then rbind (number_literal (tok_text tok)) (\<lambda>e. Inr (e, tl ts))
      else if kind tok = STRING then Inr (Literal (VStr (unescape_string (tok_text tok))), tl ts)
      else if kind tok = LPAREN then
        rbind (po (tl ts)) (\<lambda>(node, r). rbind (expect RPAREN r) (\<lambda>(_, q). Inr (node, q)))
      else if kind tok = LBRACKET then parse_list po ts
      else if kind tok = LBRACE then parse_object po ts
      else if kind tok = IDENT then parse_ident_led po ts
      else Inl (ExprParseError (UnexpectedToken (kind tok) (tok_text tok))))"

fun parse_unary :: "parser \<Rightarrow> parser" where
  "parse_unary po [] = parse_primary po []"
| "parse_unary po (t # ts) =
     (if kind t = MINUS then rbind (parse_unary po ts) (\<lambda>(e, r). Inr (Unary ''-'' e, r))
      else parse_primary po (t # ts))"

definition mul_op :: "token \<Rightarrow> string option" where
  "mul_op t = (if kind t = STAR \<or> kind t = SLASH then Some (tok_text t) else None)"

definition add_op :: "token \<Rightarrow> string option" where
  "add_op t = (if kind t = PLUS \<or> kind t = MINUS then Some (tok_text t) else None)"

definition CMP_OPS :: "tok_kind \<Rightarrow> string option" where
  "CMP_OPS k =
     (case k of EQ \<Rightarrow> Some ''=='' | NE \<Rightarrow> Some ''!='' | LT \<Rightarrow> Some ''<'' | GT \<Rightarrow> Some ''>''
      | LE \<Rightarrow> Some ''<='' | GE \<Rightarrow> Some ''>='' | _ \<Rightarrow> None)"

definition parse_multiplicative :: "parser \<Rightarrow> parser" where
  "parse_multiplicative po = binop_level mul_op (parse_unary po)"

definition parse_additive :: "parser \<Rightarrow> parser" where
  "parse_additive po = binop_level add_op (parse_multiplicative po)"

definition parse_comparison :: "parser \<Rightarrow> parser" where
  "parse_comparison po ts =
     rbind (parse_additive po ts) (\<lambda>(left, r).
       case CMP_OPS (kind (peek r)) of
         None \<Rightarrow> Inr (left, r)
       | Some op \<Rightarrow> rbind (parse_additive po (tl r)) (\<lambda>(right, q). Inr (Binary op left right, q)))"

fun parse_not :: "parser \<Rightarrow> parser" where
  "parse_not po [] = parse_comparison po []"
| "parse_not po (t # ts) =
     (if peek_word ''not'' (t # ts) then rbind (parse_not po ts) (\<lambda>(e, r). Inr (Unary ''not'' e, r))
      else parse_comparison po (t # ts))"

definition word_op :: "string \<Rightarrow> token \<Rightarrow> string option" where
  "word_op w t = (if kind t = IDENT \<and> tok_text t = w then Some w else None)"

definition parse_and :: "parser \<Rightarrow> parser" where
  "parse_and po = binop_level (word_op ''and'') (parse_not po)"

fun parse_or :: "nat \<Rightarrow> parser" where
  "parse_or 0 ts = Inl (ExprParseError OutOfDepth)"
| "parse_or (Suc n) ts = binop_level (word_op ''or'') (parse_and (parse_or n)) ts"

definition parse_program :: "toks \<Rightarrow> parse_exc + expr" where
  "parse_program ts =
     rbind (parse_or (Suc (length ts)) ts) (\<lambda>(node, r). rbind (expect EOF r) (\<lambda>_. Inr node))"

definition parse :: "string \<Rightarrow> parse_exc + expr" where
  "parse src =
     (if py_strip src = [] then Inl (ExprParseError EmptySource)
      else rbind (tokenize src) parse_program)"

definition evaluate_expr :: "string \<Rightarrow> ctx \<Rightarrow> (parse_exc + expr_exc) + pyval" where
  "evaluate_expr src context =
     (case parse src of
        Inl e \<Rightarrow> Inl (Inl e)
      | Inr node \<Rightarrow> (case evaluate node context of Inl e \<Rightarrow> Inl (Inr e) | Inr v \<Rightarrow> Inr v))"

subsection \<open>The parser's contract\<close>

text \<open>
  A parsing function consumes at least one token when it succeeds, does not run out of nesting
  depth on fewer than \<open>depth\<close> tokens, and its result satisfies \<open>ok\<close> when the tokens are the
  tokenizer's (an operator token carries its operator).
\<close>

definition tok_ok :: "token \<Rightarrow> bool" where
  "tok_ok t \<longleftrightarrow> (\<forall>(w, k)\<in>set punctuation. k = kind t \<longrightarrow> tok_text t = w)"

locale token_parser =
  fixes p :: "toks \<Rightarrow> 'a parsed" and depth :: nat and ok :: "'a \<Rightarrow> bool"
  assumes in_depth: "length ts < depth \<Longrightarrow> p ts \<noteq> Inl (ExprParseError OutOfDepth)"
    and consumes: "p ts = Inr (x, r) \<Longrightarrow> strict_suffix r ts"
    and result_ok: "p ts = Inr (x, r) \<Longrightarrow> list_all tok_ok ts \<Longrightarrow> ok x"

lemma strict_suffix_tl: "kind (peek ts) \<noteq> EOF \<Longrightarrow> strict_suffix (tl ts) ts"
  by (cases ts) (auto simp: peek_def eof_token_def strict_suffix_def suffix_def)

lemma expect_suffix: "expect k ts = Inr (t, r) \<Longrightarrow> k \<noteq> EOF \<Longrightarrow> strict_suffix r ts"
  by (auto simp: expect_def intro: strict_suffix_tl split: if_splits)

lemma expect_no_depth [simp]: "expect k ts \<noteq> Inl (ExprParseError OutOfDepth)"
  by (simp add: expect_def)

lemma list_all_suffix: "suffix r ts \<Longrightarrow> list_all P ts \<Longrightarrow> list_all P r"
  by (auto simp: suffix_def)

lemma list_all_strict: "strict_suffix r ts \<Longrightarrow> list_all P ts \<Longrightarrow> list_all P r"
  by (rule list_all_suffix) (rule suffix_order.less_imp_le)

lemmas suffix_rules = suffix_order.less_trans suffix_order.le_less_trans suffix_order.less_le_trans
  suffix_order.order_trans suffix_order.less_imp_le

context token_parser
begin

lemma length_less: "p ts = Inr (x, r) \<Longrightarrow> length r < length ts"
  using consumes suffix_length_less by blast

lemma comma_loop_spec:
  "length ts < n \<Longrightarrow> length ts \<le> depth \<Longrightarrow> comma_loop n p ts \<noteq> Inl (ExprParseError OutOfDepth)"
  "comma_loop n p ts = Inr (xs, r) \<Longrightarrow> suffix r ts"
  "comma_loop n p ts = Inr (xs, r) \<Longrightarrow> list_all tok_ok ts \<Longrightarrow> list_all ok xs"
proof (induction n arbitrary: ts xs r)
  case 0
  { case 1 then show ?case by simp next case 2 then show ?case by simp next case 3 then show ?case by simp }
next
  case (Suc n)
  have tl: "strict_suffix (tl ts) ts" if "kind (peek ts) = COMMA" for ts
    by (rule strict_suffix_tl) (simp add: that)
  {
    case 1
    have "comma_loop n p q \<noteq> Inl (ExprParseError OutOfDepth)"
      if "kind (peek ts) = COMMA" "p (tl ts) = Inr (x, q)" for x q
      using Suc.IH(1) [of q] length_less [OF that(2)] suffix_length_less [OF tl [OF that(1)]] 1 by simp
    moreover have "p (tl ts) \<noteq> Inl (ExprParseError OutOfDepth)" if "kind (peek ts) = COMMA"
      using suffix_length_less [OF tl [OF that]] 1 by (intro in_depth) simp
    ultimately show ?case by (auto simp: rbind_eq_Inl)
  next
    case 2
    show ?case
    proof (cases "kind (peek ts) = COMMA")
      case True
      with 2 obtain x q ys where q: "p (tl ts) = Inr (x, q)" and r: "comma_loop n p q = Inr (ys, r)"
        by auto
      have "suffix r q" using r by (rule Suc.IH(2))
      also have "strict_suffix q (tl ts)" using q by (rule consumes)
      also have "strict_suffix (tl ts) ts" using True by (rule tl)
      finally show ?thesis by simp
    qed (use 2 in simp)
  next
    case 3
    show ?case
    proof (cases "kind (peek ts) = COMMA")
      case True
      with 3 obtain x q ys where q: "p (tl ts) = Inr (x, q)" and r: "comma_loop n p q = Inr (ys, r)"
        and xs: "xs = x # ys"
        by auto
      have t: "list_all tok_ok (tl ts)" using tl [OF True] 3(2) by (rule list_all_strict)
      show ?thesis
        using result_ok [OF q t] Suc.IH(3) [OF r] list_all_strict [OF consumes [OF q] t] by (simp add: xs)
    qed (use 3 in simp)
  }
qed

lemma comma_items_spec:
  assumes "close \<noteq> EOF"
  shows "length ts \<le> depth \<Longrightarrow> length ts < depth \<Longrightarrow> comma_items close p ts \<noteq> Inl (ExprParseError OutOfDepth)"
    and "comma_items close p ts = Inr (xs, r) \<Longrightarrow> strict_suffix r ts"
    and "comma_items close p ts = Inr (xs, r) \<Longrightarrow> list_all tok_ok ts \<Longrightarrow> list_all ok xs"
proof -
  assume "length ts < depth"
  moreover have "comma_loop (Suc (length q)) p q \<noteq> Inl (ExprParseError OutOfDepth)"
    if "p ts = Inr (x, q)" "length ts < depth" for x q
    using length_less [OF that(1)] that(2) by (intro comma_loop_spec(1)) auto
  ultimately show "comma_items close p ts \<noteq> Inl (ExprParseError OutOfDepth)"
    using in_depth [of ts] by (auto simp: comma_items_def rbind_eq_Inl split: if_splits)
next
  assume "comma_items close p ts = Inr (xs, r)"
  then obtain q t where q: "suffix q ts" and e: "expect close q = Inr (t, r)"
    by (auto simp: comma_items_def split: if_splits dest!: consumes comma_loop_spec(2)
        dest: suffix_order.le_less_trans suffix_order.less_imp_le simp del: comma_loop.simps)
  have "strict_suffix r q" using e assms by (rule expect_suffix)
  then show "strict_suffix r ts" using q by (rule suffix_order.less_le_trans)
next
  assume c: "comma_items close p ts = Inr (xs, r)" and t: "list_all tok_ok ts"
  show "list_all ok xs"
  proof (cases "kind (peek ts) = close")
    case False
    with c obtain x q ys v where x: "p ts = Inr (x, q)" and ys: "comma_loop (Suc (length q)) p q = Inr (ys, v)"
      and xs: "xs = x # ys"
      by (auto simp: comma_items_def simp del: comma_loop.simps)
    show ?thesis
      using result_ok [OF x t] comma_loop_spec(3) [OF ys list_all_strict [OF consumes [OF x] t]] by (simp add: xs)
  qed (use c in \<open>simp add: comma_items_def\<close>)
qed

end

subsection \<open>Operator levels\<close>

definition op_ok :: "(token \<Rightarrow> string option) \<Rightarrow> bool" where
  "op_ok op \<longleftrightarrow>
     (\<forall>t w. op t = Some w \<longrightarrow> kind t \<noteq> EOF
        \<and> (tok_ok t \<longrightarrow> w \<in> {''and'', ''or''} \<union> set CMP_SYMBOLS \<union> set NUMERIC_OPS))"

locale expr_parser = token_parser p depth wf_expr for p :: parser and depth :: nat

context expr_parser
begin

lemma binop_loop_spec:
  assumes op: "op_ok op"
  shows "length ts < n \<Longrightarrow> length ts \<le> depth \<Longrightarrow> binop_loop n op p l ts \<noteq> Inl (ExprParseError OutOfDepth)"
    and "binop_loop n op p l ts = Inr (e, r) \<Longrightarrow> suffix r ts"
    and "binop_loop n op p l ts = Inr (e, r) \<Longrightarrow> list_all tok_ok ts \<Longrightarrow> wf_expr l \<Longrightarrow> wf_expr e"
proof (induction n arbitrary: l ts e r)
  case 0
  { case 1 then show ?case by simp next case 2 then show ?case by simp next case 3 then show ?case by simp }
next
  case (Suc n)
  have tl: "strict_suffix (tl ts) ts" if "op (peek ts) = Some w" for ts w
    using op that by (intro strict_suffix_tl) (auto simp: op_ok_def)
  {
    case 1
    show ?case
    proof (cases "op (peek ts)")
      case (Some w)
      have l: "length (tl ts) < length ts" using tl [OF Some] by (rule suffix_length_less)
      have "binop_loop n op p (Binary w l x) q \<noteq> Inl (ExprParseError OutOfDepth)"
        if "p (tl ts) = Inr (x, q)" for x q
        using Suc.IH(1) [of q] length_less [OF that] l 1 by simp
      moreover have "p (tl ts) \<noteq> Inl (ExprParseError OutOfDepth)"
        using l 1 by (intro in_depth) simp
      ultimately show ?thesis by (auto simp: Some rbind_eq_Inl)
    qed simp
  next
    case 2
    show ?case
    proof (cases "op (peek ts)")
      case (Some w)
      with 2 obtain x q where q: "p (tl ts) = Inr (x, q)" and r: "binop_loop n op p (Binary w l x) q = Inr (e, r)"
        by auto
      have "suffix r q" using r by (rule Suc.IH(2))
      also have "strict_suffix q (tl ts)" using q by (rule consumes)
      also have "strict_suffix (tl ts) ts" using Some by (rule tl)
      finally show ?thesis by simp
    qed (use 2 in simp)
  next
    case 3
    show ?case
    proof (cases "op (peek ts)")
      case (Some w)
      with 3 obtain x q where q: "p (tl ts) = Inr (x, q)" and r: "binop_loop n op p (Binary w l x) q = Inr (e, r)"
        by auto
      have t: "list_all tok_ok (tl ts)" using tl [OF Some] 3(2) by (rule list_all_strict)
      have "tok_ok (peek ts)" using tl [OF Some] 3(2) by (cases ts) (auto simp: peek_def strict_suffix_def suffix_def)
      with op Some have "w \<in> {''and'', ''or''} \<union> set CMP_SYMBOLS \<union> set NUMERIC_OPS" by (auto simp: op_ok_def)
      with result_ok [OF q t] 3(3) have "wf_expr (Binary w l x)" by (intro wf_Binary) auto
      with r list_all_strict [OF consumes [OF q] t] show ?thesis by (rule Suc.IH(3))
    qed (use 3 in simp)
  }
qed

lemma binop_level_parser: "op_ok op \<Longrightarrow> token_parser (binop_level op p) depth wf_expr"
proof
  fix ts :: toks assume op: "op_ok op" and "length ts < depth"
  moreover have "binop_loop (Suc (length q)) op p x q \<noteq> Inl (ExprParseError OutOfDepth)"
    if "p ts = Inr (x, q)" "length ts < depth" for x q
    using length_less [OF that(1)] that(2) by (intro binop_loop_spec(1) [OF op]) auto
  ultimately show "binop_level op p ts \<noteq> Inl (ExprParseError OutOfDepth)"
    using in_depth [of ts] by (auto simp: binop_level_def rbind_eq_Inl simp del: binop_loop.simps)
next
  fix ts r :: toks and e assume op: "op_ok op" and b: "binop_level op p ts = Inr (e, r)"
  then obtain x q where q: "p ts = Inr (x, q)" "binop_loop (Suc (length q)) op p x q = Inr (e, r)"
    by (auto simp: binop_level_def simp del: binop_loop.simps)
  show "strict_suffix r ts"
    using binop_loop_spec(2) [OF op q(2)] consumes [OF q(1)] by (rule suffix_order.le_less_trans)
  assume t: "list_all tok_ok ts"
  show "wf_expr e"
    using binop_loop_spec(3) [OF op q(2) list_all_strict [OF consumes [OF q(1)] t] result_ok [OF q(1) t]] .
qed

end

subsection \<open>The grammar keeps the contract\<close>

text \<open>
  Given a parser for nested expressions that keeps the contract to depth \<open>d\<close>, every level of
  the grammar keeps it to depth \<open>d + 1\<close>: a nested expression is parsed after an opening token.
\<close>

lemma dotted_parts_spec:
  "length ts < n \<Longrightarrow> dotted_parts n ts \<noteq> Inl (ExprParseError OutOfDepth)"
  "dotted_parts n ts = Inr (parts, r) \<Longrightarrow> suffix r ts"
proof (induction n arbitrary: ts parts r)
  case 0
  { case 1 then show ?case by simp next case 2 then show ?case by simp }
next
  case (Suc n)
  have tl: "strict_suffix (tl ts) ts" if "kind (peek ts) = DOT" for ts
    by (rule strict_suffix_tl) (simp add: that)
  {
    case 1
    have "dotted_parts n q \<noteq> Inl (ExprParseError OutOfDepth)"
      if "kind (peek ts) = DOT" "expect IDENT (tl ts) = Inr (t, q)" for t q
      using suffix_length_less [OF expect_suffix [OF that(2)]] suffix_length_less [OF tl [OF that(1)]] 1
      by (intro Suc.IH(1)) simp
    then show ?case by (auto simp: rbind_eq_Inl)
  next
    case 2
    show ?case
    proof (cases "kind (peek ts) = DOT")
      case True
      with 2 obtain t q ps where q: "expect IDENT (tl ts) = Inr (t, q)" and r: "dotted_parts n q = Inr (ps, r)"
        by auto
      have "suffix r q" using r by (rule Suc.IH(2))
      also have "strict_suffix q (tl ts)" using q by (rule expect_suffix) simp
      also have "strict_suffix (tl ts) ts" using True by (rule tl)
      finally show ?thesis by simp
    qed (use 2 in simp)
  }
qed

context expr_parser
begin

lemma field_parser: "token_parser (parse_object_field p) depth (\<lambda>f. wf_expr (snd f))"
proof
  fix ts :: toks assume d: "length ts < depth"
  have "p r \<noteq> Inl (ExprParseError OutOfDepth)"
    if "expect IDENT ts = Inr (a, q)" "expect COLON q = Inr (b, r)" for a q b r
    using suffix_length_less [OF expect_suffix [OF that(1)]] suffix_length_less [OF expect_suffix [OF that(2)]] d
    by (intro in_depth) simp
  then show "parse_object_field p ts \<noteq> Inl (ExprParseError OutOfDepth)"
    by (auto simp: parse_object_field_def rbind_eq_Inl)
next
  fix ts r :: toks and x
  assume "parse_object_field p ts = Inr (x, r)"
  then obtain a q b u where s: "expect IDENT ts = Inr (a, q)" "expect COLON q = Inr (b, u)"
    and e: "p u = Inr (snd x, r)"
    by (auto simp: parse_object_field_def)
  have u: "strict_suffix u ts"
    using expect_suffix [OF s(2)] expect_suffix [OF s(1)] by (auto intro: suffix_order.less_trans)
  with consumes [OF e] show "strict_suffix r ts" by (rule suffix_order.less_trans)
  assume "list_all tok_ok ts"
  then show "wf_expr (snd x)" using result_ok [OF e list_all_strict [OF u]] by simp
qed

lemma parse_list_spec:
  "length ts < Suc depth \<Longrightarrow> parse_list p ts \<noteq> Inl (ExprParseError OutOfDepth)"
  "parse_list p ts = Inr (e, r) \<Longrightarrow> strict_suffix r ts"
  "parse_list p ts = Inr (e, r) \<Longrightarrow> list_all tok_ok ts \<Longrightarrow> wf_expr e"
proof -
  assume d: "length ts < Suc depth"
  have "comma_items RBRACKET p q \<noteq> Inl (ExprParseError OutOfDepth)" if "expect LBRACKET ts = Inr (a, q)" for a q
    using suffix_length_less [OF expect_suffix [OF that]] d by (intro comma_items_spec(1)) auto
  then show "parse_list p ts \<noteq> Inl (ExprParseError OutOfDepth)" by (auto simp: parse_list_def rbind_eq_Inl)
next
  assume "parse_list p ts = Inr (e, r)"
  then obtain a q xs where s: "expect LBRACKET ts = Inr (a, q)" and i: "comma_items RBRACKET p q = Inr (xs, r)"
    and e: "e = ListLit xs"
    by (auto simp: parse_list_def)
  have q: "strict_suffix q ts" using s by (rule expect_suffix) simp
  with comma_items_spec(2) [OF _ i] show "strict_suffix r ts" by (auto intro: suffix_order.less_trans)
  assume "list_all tok_ok ts"
  from comma_items_spec(3) [OF _ i list_all_strict [OF q this]] show "wf_expr e"
    by (auto simp: e list_all_iff intro: wf_ListLit)
qed

lemma parse_object_spec:
  "length ts < Suc depth \<Longrightarrow> parse_object p ts \<noteq> Inl (ExprParseError OutOfDepth)"
  "parse_object p ts = Inr (e, r) \<Longrightarrow> strict_suffix r ts"
  "parse_object p ts = Inr (e, r) \<Longrightarrow> list_all tok_ok ts \<Longrightarrow> wf_expr e"
proof -
  note items = token_parser.comma_items_spec [OF field_parser, of RBRACE]
  {
    assume d: "length ts < Suc depth"
    have "comma_items RBRACE (parse_object_field p) q \<noteq> Inl (ExprParseError OutOfDepth)"
      if "expect LBRACE ts = Inr (a, q)" for a q
      using suffix_length_less [OF expect_suffix [OF that]] d by (intro items(1)) auto
    then show "parse_object p ts \<noteq> Inl (ExprParseError OutOfDepth)" by (auto simp: parse_object_def rbind_eq_Inl)
  next
    assume "parse_object p ts = Inr (e, r)"
    then obtain a q xs where s: "expect LBRACE ts = Inr (a, q)"
      and i: "comma_items RBRACE (parse_object_field p) q = Inr (xs, r)" and e: "e = ObjectLit xs"
      by (auto simp: parse_object_def)
    have q: "strict_suffix q ts" using s by (rule expect_suffix) simp
    with items(2) [OF _ i] show "strict_suffix r ts" by (auto intro: suffix_order.less_trans)
    assume "list_all tok_ok ts"
    from items(3) [OF _ i list_all_strict [OF q this]] show "wf_expr e"
      by (auto simp: e list_all_iff intro!: wf_ObjectLit)
  }
qed

lemma parse_lambda_spec:
  "length ts < depth \<Longrightarrow> parse_lambda p ts \<noteq> Inl (ExprParseError OutOfDepth)"
  "parse_lambda p ts = Inr (e, r) \<Longrightarrow> strict_suffix r ts"
  "parse_lambda p ts = Inr (e, r) \<Longrightarrow> list_all tok_ok ts \<Longrightarrow> \<exists>x b. e = Lambda x b \<and> wf_expr b"
proof -
  assume d: "length ts < depth"
  have "p u \<noteq> Inl (ExprParseError OutOfDepth)"
    if "expect IDENT ts = Inr (a, q)" "expect ARROW q = Inr (b, u)" for a q b u
    using suffix_length_less [OF expect_suffix [OF that(1)]] suffix_length_less [OF expect_suffix [OF that(2)]] d
    by (intro in_depth) simp
  then show "parse_lambda p ts \<noteq> Inl (ExprParseError OutOfDepth)"
    by (auto simp: parse_lambda_def rbind_eq_Inl)
next
  assume "parse_lambda p ts = Inr (e, r)"
  then obtain a q b u x where s: "expect IDENT ts = Inr (a, q)" "expect ARROW q = Inr (b, u)"
    and e: "p u = Inr (x, r)" "e = Lambda (tok_text a) x"
    by (auto simp: parse_lambda_def split: if_splits)
  have u: "strict_suffix u ts"
    using expect_suffix [OF s(2)] expect_suffix [OF s(1)] by (auto intro: suffix_order.less_trans)
  with consumes [OF e(1)] show "strict_suffix r ts" by (rule suffix_order.less_trans)
  assume "list_all tok_ok ts"
  then show "\<exists>x b. e = Lambda x b \<and> wf_expr b" using result_ok [OF e(1) list_all_strict [OF u]] e(2) by blast
qed

text \<open>Two sub-expressions with a separator token between them.\<close>

lemma after_token:
  assumes "p ts = Inr (x, q)" and "expect k q = Inr (t, u)" and "k \<noteq> EOF"
  shows "strict_suffix u ts" and "length ts < Suc n \<Longrightarrow> length u < n"
proof -
  show s: "strict_suffix u ts"
    using consumes [OF assms(1)] expect_suffix [OF assms(2,3)] by (rule suffix_order.less_trans [rotated])
  then show "length ts < Suc n \<Longrightarrow> length u < n" using suffix_length_less [OF s] by simp
qed

lemma parse_args_depth: "length ts < depth \<Longrightarrow> parse_args p name ts \<noteq> Inl (ExprParseError OutOfDepth)"
proof -
  assume d: "length ts < depth"
  have n: "p u \<noteq> Inl (ExprParseError OutOfDepth)" "parse_lambda p u \<noteq> Inl (ExprParseError OutOfDepth)"
    "expect k2 u = Inr (t2, v) \<Longrightarrow> k2 \<noteq> EOF \<Longrightarrow> kind (peek v) = COMMA
      \<Longrightarrow> p (tl v) \<noteq> Inl (ExprParseError OutOfDepth)"
    if "p ts = Inr (x, q)" "expect COMMA q = Inr (t, u)" for x q t u k2 t2 v
  proof -
    have u: "length u < depth" using after_token(2) [OF that] d by simp
    then show "p u \<noteq> Inl (ExprParseError OutOfDepth)" by (rule in_depth)
    show "parse_lambda p u \<noteq> Inl (ExprParseError OutOfDepth)" using u by (rule parse_lambda_spec(1))
    assume "expect k2 u = Inr (t2, v)" "k2 \<noteq> EOF" "kind (peek v) = COMMA"
    then show "p (tl v) \<noteq> Inl (ExprParseError OutOfDepth)"
      using u suffix_length_less [OF expect_suffix] suffix_length_less [OF strict_suffix_tl [of v]]
      by (intro in_depth) fastforce
  qed
  show ?thesis
    using in_depth [OF d] n
    by (auto simp: parse_args_def rbind_eq_Inl Let_def split: if_split_asm)
qed

lemma parse_args_cases:
  assumes "parse_args p name ts = Inr (args, r)"
  obtains (lam) x q t u l where "name \<in> set LAMBDA_COMBINATORS" "p ts = Inr (x, q)" "expect COMMA q = Inr (t, u)"
      "parse_lambda p u = Inr (l, r)" "args = [x, l]"
  | (one) x where "name \<in> {''count'', ''sum'', ''parse_json''}" "p ts = Inr (x, r)" "args = [x]"
  | (join) x q t u y where "name = ''join''" "p ts = Inr (x, q)" "expect COMMA q = Inr (t, u)"
      "p u = Inr (y, r)" "args = [x, y]"
  | (get) x q t u t2 where "name = ''get''" "p ts = Inr (x, q)" "expect COMMA q = Inr (t, u)"
      "expect STRING u = Inr (t2, r)" "args = [x, Literal (VStr (unescape_string (tok_text t2)))]"
  | (get_default) x q t u t2 v d where "name = ''get''" "p ts = Inr (x, q)" "expect COMMA q = Inr (t, u)"
      "expect STRING u = Inr (t2, v)" "kind (peek v) = COMMA" "p (tl v) = Inr (d, r)"
      "args = [x, Literal (VStr (unescape_string (tok_text t2))), d]"
proof (cases "name \<in> set LAMBDA_COMBINATORS")
  case True
  with assms show ?thesis by (auto simp: parse_args_def intro: lam)
next
  case l: False
  show ?thesis
  proof (cases "name \<in> {''count'', ''sum'', ''parse_json''}")
    case True
    with assms l show ?thesis by (simp only: parse_args_def if_False if_True) (auto intro: one)
  next
    case o: False
    show ?thesis
    proof (cases "name = ''join''")
      case True
      with assms l o show ?thesis by (simp only: parse_args_def if_False if_True) (auto intro: join)
    next
      case j: False
      show ?thesis
      proof (cases "name = ''get''")
        case True
        from assms have "rbind (p ts) (\<lambda>(base_expr, r0).
          rbind (expect COMMA r0) (\<lambda>(_, r1).
          rbind (expect STRING r1) (\<lambda>(path_tok, r2).
            let args = [base_expr, Literal (VStr (unescape_string (tok_text path_tok)))] in
            if kind (peek r2) = COMMA
            then rbind (p (tl r2)) (\<lambda>(default_expr, r). Inr (args @ [default_expr], r))
            else Inr (args, r2)))) = Inr (args, r)"
          by (simp only: parse_args_def if_False if_True l o j eqTrueI [OF True])
        then show ?thesis using True by (auto simp: Let_def split: if_split_asm intro: get get_default)
      next
        case False
        with assms l o j show ?thesis by (simp only: parse_args_def if_False) simp
      qed
    qed
  qed
qed

lemma parse_args_result:
  assumes "parse_args p name ts = Inr (args, r)"
  shows "strict_suffix r ts" and "list_all tok_ok ts \<Longrightarrow> wf_expr (Combinator name args)"
proof -
  have "strict_suffix r ts \<and> (list_all tok_ok ts \<longrightarrow> wf_expr (Combinator name args))"
    using assms
  proof (cases rule: parse_args_cases)
    case (lam x q t u l)
    have u: "strict_suffix u ts" using after_token(1) [OF lam(2,3)] by simp
    moreover have "strict_suffix r u" using lam(4) by (rule parse_lambda_spec(2))
    moreover have "wf_expr (Combinator name args)" if "list_all tok_ok ts"
      using parse_lambda_spec(3) [OF lam(4) list_all_strict [OF u that]] result_ok [OF lam(2) that] lam(1,5)
      by (auto intro: wf_lambda)
    ultimately show ?thesis by (auto intro: suffix_order.less_trans)
  next
    case (one x)
    then show ?thesis using consumes [OF one(2)] result_ok [OF one(2)] wf_unary_call [of name x] by blast
  next
    case (join x q t u y)
    have u: "strict_suffix u ts" using after_token(1) [OF join(2,3)] by simp
    moreover have "strict_suffix r u" using join(4) by (rule consumes)
    moreover have "wf_expr (Combinator name args)" if "list_all tok_ok ts"
      using result_ok [OF join(4) list_all_strict [OF u that]] result_ok [OF join(2) that]
      by (simp add: join wf_join)
    ultimately show ?thesis by (auto intro: suffix_order.less_trans)
  next
    case (get x q t u t2)
    have u: "strict_suffix u ts" using after_token(1) [OF get(2,3)] by simp
    moreover have "strict_suffix r u" using get(4) by (rule expect_suffix) simp
    ultimately show ?thesis using result_ok [OF get(2)] by (auto simp: get wf_get intro: suffix_order.less_trans)
  next
    case (get_default x q t u t2 v d)
    have u: "strict_suffix u ts" using after_token(1) [OF get_default(2,3)] by simp
    have v: "strict_suffix v u" using get_default(4) by (rule expect_suffix) simp
    have w: "strict_suffix (tl v) v" using get_default(5) by (intro strict_suffix_tl) simp
    have tv: "strict_suffix (tl v) ts"
      using w v u by (auto intro: suffix_order.less_trans)
    moreover have "strict_suffix r (tl v)" using get_default(6) by (rule consumes)
    moreover have "wf_expr (Combinator name args)" if "list_all tok_ok ts"
      using result_ok [OF get_default(6) list_all_strict [OF tv that]] result_ok [OF get_default(2) that]
      by (simp add: get_default wf_get_default)
    ultimately show ?thesis by (auto intro: suffix_order.less_trans)
  qed
  then show "strict_suffix r ts" "list_all tok_ok ts \<Longrightarrow> wf_expr (Combinator name args)" by auto
qed

lemma parse_combinator_spec:
  "length ts < Suc depth \<Longrightarrow> parse_combinator p name ts \<noteq> Inl (ExprParseError OutOfDepth)"
  "parse_combinator p name ts = Inr (e, r) \<Longrightarrow> strict_suffix r ts"
  "parse_combinator p name ts = Inr (e, r) \<Longrightarrow> list_all tok_ok ts \<Longrightarrow> wf_expr e"
proof -
  assume d: "length ts < Suc depth"
  have "parse_args p name q \<noteq> Inl (ExprParseError OutOfDepth)" if "expect LPAREN ts = Inr (t, q)" for t q
    using suffix_length_less [OF expect_suffix [OF that]] d by (intro parse_args_depth) simp
  then show "parse_combinator p name ts \<noteq> Inl (ExprParseError OutOfDepth)"
    by (auto simp: parse_combinator_def rbind_eq_Inl)
next
  assume "parse_combinator p name ts = Inr (e, r)"
  then obtain t q args u t2 where s: "expect LPAREN ts = Inr (t, q)" and a: "parse_args p name q = Inr (args, u)"
    and c: "expect RPAREN u = Inr (t2, r)" and e: "e = Combinator name args"
    by (auto simp: parse_combinator_def)
  have q: "strict_suffix q ts" using s by (rule expect_suffix) simp
  moreover have "strict_suffix u q" using a by (rule parse_args_result(1))
  moreover have "strict_suffix r u" using c by (rule expect_suffix) simp
  ultimately show "strict_suffix r ts" by (auto intro: suffix_order.less_trans)
  assume "list_all tok_ok ts"
  then show "wf_expr e" using parse_args_result(2) [OF a list_all_strict [OF q]] by (simp add: e)
qed

lemma parse_ident_led_spec:
  assumes "kind (peek ts) = IDENT"
  shows "length ts < Suc depth \<Longrightarrow> parse_ident_led p ts \<noteq> Inl (ExprParseError OutOfDepth)"
    and "parse_ident_led p ts = Inr (e, r) \<Longrightarrow> strict_suffix r ts"
    and "parse_ident_led p ts = Inr (e, r) \<Longrightarrow> list_all tok_ok ts \<Longrightarrow> wf_expr e"
proof -
  have tl: "strict_suffix (tl ts) ts" using assms by (intro strict_suffix_tl) simp
  {
    assume "length ts < Suc depth"
    then have "length (tl ts) < Suc depth" using suffix_length_less [OF tl] by simp
    then show "parse_ident_led p ts \<noteq> Inl (ExprParseError OutOfDepth)"
      using parse_combinator_spec(1) [of "tl ts"] dotted_parts_spec(1) [of "tl ts" "Suc (length (tl ts))"]
      unfolding parse_ident_led_def Let_def
      by (simp add: rbind_eq_Inl del: dotted_parts.simps split: prod.splits)
  }
  have "strict_suffix r ts \<and> (list_all tok_ok ts \<longrightarrow> wf_expr e)" if "parse_ident_led p ts = Inr (e, r)"
  proof -
    from that consider "r = tl ts" "wf_expr e" | name where "parse_combinator p name (tl ts) = Inr (e, r)"
      | parts n where "dotted_parts n (tl ts) = Inr (parts, r)" "e = Path (tok_text (peek ts) # parts)"
      unfolding parse_ident_led_def Let_def
      by (auto simp del: dotted_parts.simps split: if_split_asm intro: wf_Literal)
    then show ?thesis
    proof cases
      case 1
      with tl show ?thesis by simp
    next
      case 2
      show ?thesis
        using parse_combinator_spec(2,3) [OF 2] list_all_strict [OF tl] tl
        by (auto intro: suffix_order.less_trans)
    next
      case 3
      show ?thesis
        using dotted_parts_spec(2) [OF 3(1)] tl 3(2)
        by (auto intro: suffix_order.le_less_trans wf_Path)
    qed
  qed
  then show "parse_ident_led p ts = Inr (e, r) \<Longrightarrow> strict_suffix r ts"
    and "parse_ident_led p ts = Inr (e, r) \<Longrightarrow> list_all tok_ok ts \<Longrightarrow> wf_expr e"
    by auto
qed

lemma parse_primary_parser: "token_parser (parse_primary p) (Suc depth) wf_expr"
proof
  fix ts :: toks assume d: "length ts < Suc depth"
  have l: "length (tl ts) < depth" if "kind (peek ts) \<noteq> EOF"
    using suffix_length_less [OF strict_suffix_tl [OF that]] d by simp
  have n: "number_literal t \<noteq> Inl (ExprParseError OutOfDepth)" for t
    by (simp add: number_literal_def)
  show "parse_primary p ts \<noteq> Inl (ExprParseError OutOfDepth)"
    using in_depth [OF l] parse_list_spec(1) [OF d] parse_object_spec(1) [OF d] parse_ident_led_spec(1) [OF _ d] n
    by (auto simp: parse_primary_def Let_def rbind_eq_Inl)
next
  fix ts r :: toks and e
  assume pr: "parse_primary p ts = Inr (e, r)"
  have "strict_suffix r ts \<and> (list_all tok_ok ts \<longrightarrow> wf_expr e)"
  proof (cases "kind (peek ts) = LPAREN")
    case True
    have tl: "strict_suffix (tl ts) ts" using True by (intro strict_suffix_tl) simp
    from pr True obtain q t where q: "p (tl ts) = Inr (e, q)" "expect RPAREN q = Inr (t, r)"
      by (auto simp: parse_primary_def Let_def)
    show ?thesis
      using after_token(1) [OF q] tl result_ok [OF q(1)] list_all_strict [OF tl]
      by (auto intro: suffix_order.less_trans)
  next
    case False
    with pr consider "kind (peek ts) \<noteq> EOF" "r = tl ts" "wf_expr e" | "parse_list p ts = Inr (e, r)"
      | "parse_object p ts = Inr (e, r)" | "kind (peek ts) = IDENT" "parse_ident_led p ts = Inr (e, r)"
      unfolding parse_primary_def Let_def
      by (auto simp: number_literal_def split: if_split_asm intro: wf_Literal)
    then show ?thesis
    proof cases
      case 1
      then show ?thesis using strict_suffix_tl by auto
    next
      case 2
      then show ?thesis using parse_list_spec(2,3) by blast
    next
      case 3
      then show ?thesis using parse_object_spec(2,3) by blast
    next
      case 4
      then show ?thesis using parse_ident_led_spec(2,3) by blast
    qed
  qed
  then show "strict_suffix r ts" and "list_all tok_ok ts \<Longrightarrow> wf_expr e" by auto
qed

end

text \<open>Prefix operators: a run of operator tokens in front of a lower level.\<close>

lemma prefix_parser:
  assumes low: "token_parser low d wf_expr" and op: "op \<in> {''not'', ''-''}"
    and nil: "f [] = low []"
    and cons: "\<And>t ts. f (t # ts) =
        (if is_op t then rbind (f ts) (\<lambda>(e, r). Inr (Unary op e, r)) else low (t # ts))"
  shows "token_parser f d wf_expr"
proof
  fix ts :: toks
  show "length ts < d \<Longrightarrow> f ts \<noteq> Inl (ExprParseError OutOfDepth)"
    using token_parser.in_depth [OF low]
    by (induction ts) (auto simp: nil cons rbind_eq_Inl)
next
  fix ts r :: toks and e
  show "f ts = Inr (e, r) \<Longrightarrow> strict_suffix r ts"
    using token_parser.consumes [OF low]
  proof (induction ts arbitrary: e)
    case (Cons t ts)
    show ?case
    proof (cases "is_op t")
      case True
      with Cons.prems(1) obtain x where "f ts = Inr (x, r)" by (auto simp: cons)
      with Cons have "strict_suffix r ts" by blast
      then show ?thesis by (auto simp: strict_suffix_def suffix_def)
    qed (use Cons in \<open>auto simp: cons\<close>)
  qed (metis nil)
  show "f ts = Inr (e, r) \<Longrightarrow> list_all tok_ok ts \<Longrightarrow> wf_expr e"
    using token_parser.result_ok [OF low]
  proof (induction ts arbitrary: e)
    case (Cons t ts)
    show ?case
    proof (cases "is_op t")
      case True
      with Cons.prems(1) obtain x where "f ts = Inr (x, r)" "e = Unary op x" by (auto simp: cons)
      with Cons op show ?thesis by (auto intro!: wf_Unary)
    qed (use Cons in \<open>auto simp: cons\<close>)
  qed (metis nil)
qed

lemma mul_op_ok: "op_ok mul_op"
  by (auto simp: op_ok_def mul_op_def tok_ok_def punctuation_def NUMERIC_OPS_def)

lemma add_op_ok: "op_ok add_op"
  by (auto simp: op_ok_def add_op_def tok_ok_def punctuation_def NUMERIC_OPS_def)

lemma word_op_ok: "w \<in> {''and'', ''or''} \<Longrightarrow> op_ok (word_op w)"
  by (auto simp: op_ok_def word_op_def)

lemma CMP_OPS_symbols: "CMP_OPS k = Some w \<Longrightarrow> w \<in> set CMP_SYMBOLS \<and> k \<noteq> EOF"
  by (auto simp: CMP_OPS_def CMP_SYMBOLS_def split: tok_kind.splits)

lemma level_parser: "op_ok op \<Longrightarrow> token_parser q d wf_expr \<Longrightarrow> token_parser (binop_level op q) d wf_expr"
  using expr_parser.binop_level_parser expr_parser.intro by blast

lemma comparison_parser:
  assumes a: "token_parser (parse_additive po) d wf_expr"
  shows "token_parser (parse_comparison po) d wf_expr"
proof
  fix ts :: toks assume d: "length ts < d"
  have "parse_additive po (tl r) \<noteq> Inl (ExprParseError OutOfDepth)"
    if "parse_additive po ts = Inr (l, r)" for l r
    using token_parser.length_less [OF a that] d by (intro token_parser.in_depth [OF a]) simp
  then show "parse_comparison po ts \<noteq> Inl (ExprParseError OutOfDepth)"
    using token_parser.in_depth [OF a d]
    by (auto simp: parse_comparison_def rbind_eq_Inl split: option.split_asm)
next
  fix ts r :: toks and e
  assume "parse_comparison po ts = Inr (e, r)"
  then obtain l q where l: "parse_additive po ts = Inr (l, q)"
    and c: "(case CMP_OPS (kind (peek q)) of None \<Rightarrow> Inr (l, q)
       | Some op \<Rightarrow> rbind (parse_additive po (tl q)) (\<lambda>(right, q). Inr (Binary op l right, q))) = Inr (e, r)"
    by (auto simp: parse_comparison_def)
  have lq: "strict_suffix q ts" using l by (rule token_parser.consumes [OF a])
  have "strict_suffix r ts \<and> (list_all tok_ok ts \<longrightarrow> wf_expr e)"
  proof (cases "CMP_OPS (kind (peek q))")
    case None
    with c lq token_parser.result_ok [OF a l] show ?thesis by simp
  next
    case (Some op)
    with c obtain x where x: "parse_additive po (tl q) = Inr (x, r)" and e: "e = Binary op l x" by auto
    have op: "op \<in> set CMP_SYMBOLS" and t: "strict_suffix (tl q) q"
      using CMP_OPS_symbols [OF Some] by (auto intro: strict_suffix_tl)
    have tq: "strict_suffix (tl q) ts" using t lq by (rule suffix_order.less_trans)
    moreover have "strict_suffix r (tl q)" using x by (rule token_parser.consumes [OF a])
    moreover have "wf_expr e" if "list_all tok_ok ts"
      using token_parser.result_ok [OF a l that] token_parser.result_ok [OF a x list_all_strict [OF tq that]] op
      by (auto simp: e intro: wf_Binary)
    ultimately show ?thesis by (auto intro: suffix_order.less_trans)
  qed
  then show "strict_suffix r ts" and "list_all tok_ok ts \<Longrightarrow> wf_expr e" by auto
qed

lemma and_parser:
  assumes "token_parser po d wf_expr"
  shows "token_parser (parse_and po) (Suc d) wf_expr"
proof -
  have u: "token_parser (parse_unary po) (Suc d) wf_expr"
    by (rule prefix_parser [OF expr_parser.parse_primary_parser [OF expr_parser.intro [OF assms]],
          where op = "''-''" and is_op = "\<lambda>t. kind t = MINUS"]) auto
  have ad: "token_parser (parse_additive po) (Suc d) wf_expr"
    unfolding parse_additive_def parse_multiplicative_def
    by (intro level_parser mul_op_ok add_op_ok u)
  have "token_parser (parse_not po) (Suc d) wf_expr"
    by (rule prefix_parser [OF comparison_parser [OF ad],
          where op = "''not''" and is_op = "\<lambda>t. peek_word ''not'' [t]"])
      (auto simp: peek_word_def peek_def)
  then show ?thesis
    unfolding parse_and_def by (intro level_parser word_op_ok) simp_all
qed

lemma parse_or_parser: "token_parser (parse_or n) n wf_expr"
proof (induction n)
  case 0
  show ?case by standard auto
next
  case (Suc n)
  have "parse_or (Suc n) = binop_level (word_op ''or'') (parse_and (parse_or n))"
    by (rule ext) simp
  then show ?case using level_parser [OF word_op_ok and_parser [OF Suc]] by simp
qed

interpretation nested: expr_parser "parse_or n" n for n
  by (rule expr_parser.intro) (rule parse_or_parser)

subsection \<open>Properties of the parser\<close>

lemma next_token_ok: "next_token c s = Some (Some t, r) \<Longrightarrow> tok_ok t"
proof -
  have d: "distinct (map snd punctuation)" by (simp add: punctuation_def)
  have i: "tok_ok \<lparr>kind = k, tok_text = w\<rparr>" if "(w, k) \<in> set punctuation" for w k
    using d that by (fastforce simp: tok_ok_def distinct_map inj_on_def)
  have o: "tok_ok \<lparr>kind = k, tok_text = w\<rparr>" if "k \<in> {NUMBER, STRING, IDENT}" for w k
    using that by (auto simp: tok_ok_def punctuation_def)
  assume n: "next_token c s = Some (Some t, r)"
  then consider w k where "k \<in> {NUMBER, STRING, IDENT}" "t = \<lparr>kind = k, tok_text = w\<rparr>"
    | w k where "find (\<lambda>(w, k). starts_with (c # s) w) punctuation = Some (w, k)" "t = \<lparr>kind = k, tok_text = w\<rparr>"
    unfolding next_token_def Let_def
    by (simp split: if_split_asm option.split_asm prod.split_asm) blast+
  then show ?thesis
  proof cases
    case 1
    then show ?thesis using o by simp
  next
    case 2
    from 2(1) have "(w, k) \<in> set punctuation" by (auto simp: find_Some_iff in_set_conv_nth)
    then show ?thesis using i 2(2) by simp
  qed
qed

lemma tokenize_ok: "tokenize s = Inr ts \<Longrightarrow> list_all tok_ok ts"
proof (induction s arbitrary: ts rule: tokenize.induct)
  case 1
  then show ?case by (auto simp: tok_ok_def punctuation_def)
next
  case (2 c s)
  then show ?case by (fastforce split: option.split_asm intro: next_token_ok)
qed

lemma tokenize_no_depth: "tokenize s \<noteq> Inl (ExprParseError OutOfDepth)"
  by (induction s rule: tokenize.induct) (auto simp: rbind_eq_Inl split: option.splits)

text \<open>The recursive-descent parser terminates on every source text: the nesting depth the
  model supplies is never exhausted.\<close>

theorem parse_total: "parse src \<noteq> Inl (ExprParseError OutOfDepth)"
proof -
  have "parse_program ts \<noteq> Inl (ExprParseError OutOfDepth)" for ts
    using nested.in_depth [of ts "Suc (length ts)"]
    by (auto simp: parse_program_def rbind_eq_Inl simp del: parse_or.simps)
  then show ?thesis
    using tokenize_no_depth [of src] by (auto simp: parse_def rbind_eq_Inl)
qed

text \<open>C31: What the parser accepts is a well-formed expression: every operator and combinator is
  one the evaluator knows, applied to the arguments it needs, and a lambda occurs only as the
  function argument of a lambda combinator.\<close>

theorem parse_well_formed:
  assumes "parse src = Inr e"
  shows "wf_expr e"
proof -
  from assms obtain ts r where "tokenize src = Inr ts" "parse_or (Suc (length ts)) ts = Inr (e, r)"
    by (auto simp: parse_def parse_program_def simp del: parse_or.simps split: if_splits)
  then show ?thesis using nested.result_ok tokenize_ok by blast
qed

theorem parse_well_formed_witness: "wf_expr (Binary ''<'' (Literal (VInt 1)) (Path [''x'']))"
  by (rule parse_well_formed [of "''1<x''"]) code_simp

end
