(* ===== verification/Schema.thy ===== *)
theory Schema
  imports PyValue "HOL-Library.Char_ord" "HOL-Library.List_Lexorder"
begin

section \<open>Schemas\<close>

text \<open>
  \<open>src/reyn/core/pipeline/schema.py\<close>: the registry of named schemas with its shape check and
  its cycle detection, the validation of a value against a schema, the conversion to a JSON
  schema and the static resolution of a dotted path.  Schemas are the dictionaries the code
  keeps, and every key access that could fail does so in the model.
\<close>

subsection \<open>Exceptions and field access\<close>

datatype schema_reason =
    FieldNotDict string string
  | EnumNeedsValues string
  | ListInList string
  | ListNeedsOf string
  | ObjectNeedsFields string
  | RefNeedsSchema string
  | UnknownFieldType string pyval
  | BoundNotNumber string string string
  | InvertedBounds string pyval pyval
  | SchemaNotDict string
  | SchemaNeedsFields string
  | RecursiveSchema "string list"

datatype schema_exc =
    SchemaError schema_reason
  | SchemaTypeError
  | SchemaKeyError
  | SchemaAttributeError
  | SchemaRecursionError

type_synonym 'a sres = "schema_exc + 'a"

definition get_attr :: "pyval \<Rightarrow> string \<Rightarrow> pyval option sres" where
  "get_attr ft k = (case ft of VDict d \<Rightarrow> Inr (dget d k) | _ \<Rightarrow> Inl SchemaAttributeError)"

definition get_item :: "pyval \<Rightarrow> string \<Rightarrow> pyval sres" where
  "get_item ft k =
     (case ft of
        VDict d \<Rightarrow> (case dget d k of None \<Rightarrow> Inl SchemaKeyError | Some v \<Rightarrow> Inr v)
      | _ \<Rightarrow> Inl SchemaTypeError)"

text \<open>\<open>d.get(k)\<close> where a missing key and an explicit \<open>None\<close> are the same.\<close>

definition get_opt :: "pyval dict \<Rightarrow> string \<Rightarrow> pyval option" where
  "get_opt d k = (case dget d k of Some VNone \<Rightarrow> None | r \<Rightarrow> r)"

definition hashable :: "pyval \<Rightarrow> bool" where
  "hashable v \<longleftrightarrow> \<not> is_list v \<and> \<not> is_dict v"

definition SCALAR_TYPES :: "string list" where
  "SCALAR_TYPES = [''bool'', ''string'', ''number'']"

text \<open>\<open>t in SCALAR_TYPES\<close>: membership in a frozenset hashes \<open>t\<close>.\<close>

definition in_scalar_types :: "pyval \<Rightarrow> bool sres" where
  "in_scalar_types t =
     (if \<not> hashable t then Inl SchemaTypeError
      else Inr (\<exists>s\<in>set SCALAR_TYPES. t = VStr s))"

subsection \<open>The shape check\<close>

definition check_number_bounds_shape :: "pyval dict \<Rightarrow> string \<Rightarrow> unit sres" where
  "check_number_bounds_shape ft path =
     (let lo = get_opt ft ''minimum''; hi = get_opt ft ''maximum'';
          bad = (\<lambda>b. case b of None \<Rightarrow> False | Some v \<Rightarrow> \<not> is_number v) in
      if bad lo then Inl (SchemaError (BoundNotNumber path ''minimum'' (type_name (the lo))))
      else if bad hi then Inl (SchemaError (BoundNotNumber path ''maximum'' (type_name (the hi))))
      else (case (lo, hi) of
          (Some a, Some b) \<Rightarrow> if py_less b a then Inl (SchemaError (InvertedBounds path a b)) else Inr ()
        | _ \<Rightarrow> Inr ()))"

lemma dict_size_mem: "(k, v) \<in> set d \<Longrightarrow> size v < size (VDict d)"
proof -
  assume "(k, v) \<in> set d"
  then have "size_prod (\<lambda>_. 0) size (k, v) \<le> size_list (size_prod (\<lambda>_. 0) size) d"
    by (rule size_list_estimation') simp
  then show ?thesis by simp
qed

lemma get_opt_size: "get_opt d k = Some v \<Longrightarrow> size v < size (VDict d)"
  by (auto simp: get_opt_def split: option.splits pyval.splits dest!: dget_size)

lemma dget_dict_size: "dget d k = Some (VDict e) \<Longrightarrow> (f, v) \<in> set e \<Longrightarrow> size v < size (VDict d)"
  using dget_size dict_size_mem by fastforce

function check_field_type_shape :: "pyval \<Rightarrow> string \<Rightarrow> bool \<Rightarrow> unit sres" where
  "check_field_type_shape ft path allow_list =
     (case ft of
        VDict d \<Rightarrow>
          (let t = (case dget d ''type'' of None \<Rightarrow> VNone | Some v \<Rightarrow> v) in
           rbind (in_scalar_types t) (\<lambda>scalar.
             if scalar then
               (if t = VStr ''number'' then check_number_bounds_shape d path else Inr ())
             else if t = VStr ''enum'' then
               (case dget d ''values'' of
                  Some (VList (_ # _)) \<Rightarrow> Inr ()
                | _ \<Rightarrow> Inl (SchemaError (EnumNeedsValues path)))
             else if t = VStr ''list'' then
               (if \<not> allow_list then Inl (SchemaError (ListInList path))
                else (case get_opt d ''of'' of
                    None \<Rightarrow> Inl (SchemaError (ListNeedsOf path))
                  | Some e \<Rightarrow> check_field_type_shape e (path @ ''.of'') False))
             else if t = VStr ''object'' then
               (case dget d ''fields'' of
                  Some (VDict (f # fs)) \<Rightarrow>
                    rbind (traverse (\<lambda>(fname, sub). check_field_type_shape sub (path @ ''.'' @ fname) True) (f # fs))
                      (\<lambda>_. Inr ())
                | _ \<Rightarrow> Inl (SchemaError (ObjectNeedsFields path)))
             else if t = VStr ''ref'' then
               (case dget d ''schema'' of
                  Some n \<Rightarrow> if truthy n then Inr () else Inl (SchemaError (RefNeedsSchema path))
                | None \<Rightarrow> Inl (SchemaError (RefNeedsSchema path)))
             else Inl (SchemaError (UnknownFieldType path t))))
      | _ \<Rightarrow> Inl (SchemaError (FieldNotDict path (type_name ft))))"
  by pat_completeness auto
termination
  by (relation "measure (\<lambda>(ft, _, _). size ft)")
    (auto dest: get_opt_size dget_dict_size simp del: pyval.size)

definition check_schema_shape :: "string \<Rightarrow> pyval \<Rightarrow> unit sres" where
  "check_schema_shape name schema =
     (case schema of
        VDict d \<Rightarrow>
          (case dget d ''fields'' of
             Some (VDict (f # fs)) \<Rightarrow>
               rbind (traverse (\<lambda>(fname, ft). check_field_type_shape ft (name @ ''.'' @ fname) True) (f # fs))
                 (\<lambda>_. Inr ())
           | _ \<Rightarrow> Inl (SchemaError (SchemaNeedsFields name)))
      | _ \<Rightarrow> Inl (SchemaError (SchemaNotDict name)))"

declare check_field_type_shape.simps [simp del]

text \<open>
  The grammar of field types, as rules: \<open>field_shaped True ft\<close> for a field, \<open>field_shaped False ft\<close>
  where no list is allowed (the element of a list).
\<close>

inductive field_shaped :: "bool \<Rightarrow> pyval \<Rightarrow> bool" where
  fs_bool: "dget d ''type'' = Some (VStr ''bool'') \<Longrightarrow> field_shaped al (VDict d)"
| fs_string: "dget d ''type'' = Some (VStr ''string'') \<Longrightarrow> field_shaped al (VDict d)"
| fs_number: "dget d ''type'' = Some (VStr ''number'') \<Longrightarrow> check_number_bounds_shape d [] = Inr ()
    \<Longrightarrow> field_shaped al (VDict d)"
| fs_enum: "dget d ''type'' = Some (VStr ''enum'') \<Longrightarrow> dget d ''values'' = Some (VList vs) \<Longrightarrow> vs \<noteq> []
    \<Longrightarrow> field_shaped al (VDict d)"
| fs_list: "dget d ''type'' = Some (VStr ''list'') \<Longrightarrow> dget d ''of'' = Some e \<Longrightarrow> field_shaped False e
    \<Longrightarrow> field_shaped True (VDict d)"
| fs_object: "dget d ''type'' = Some (VStr ''object'') \<Longrightarrow> dget d ''fields'' = Some (VDict fs) \<Longrightarrow> fs \<noteq> []
    \<Longrightarrow> \<forall>f\<in>set fs. field_shaped True (snd f) \<Longrightarrow> field_shaped al (VDict d)"
| fs_ref: "dget d ''type'' = Some (VStr ''ref'') \<Longrightarrow> dget d ''schema'' = Some n \<Longrightarrow> truthy n
    \<Longrightarrow> field_shaped al (VDict d)"

lemma bounds_path: "check_number_bounds_shape d p = Inr () \<longleftrightarrow> check_number_bounds_shape d [] = Inr ()"
  by (auto simp: check_number_bounds_shape_def Let_def split: option.splits)

lemma traverse_unit: "rbind (traverse f xs) (\<lambda>_. Inr ()) = Inr u \<longleftrightarrow> (\<forall>x\<in>set xs. \<exists>y. f x = Inr y)"
  by (induction xs) auto

lemma get_opt_Some: "dget d k = Some e \<Longrightarrow> e \<noteq> VNone \<Longrightarrow> get_opt d k = Some e"
  by (cases e) (simp_all add: get_opt_def)

lemma get_opt_dict: "get_opt d k = Some e \<longleftrightarrow> dget d k = Some e \<and> e \<noteq> VNone"
  by (auto simp: get_opt_def split: option.splits pyval.splits)

text \<open>The check, by the declared type.\<close>

lemma shape_simps:
  "dget d ''type'' = Some (VStr ''bool'') \<Longrightarrow> check_field_type_shape (VDict d) p al = Inr ()"
  "dget d ''type'' = Some (VStr ''string'') \<Longrightarrow> check_field_type_shape (VDict d) p al = Inr ()"
  "dget d ''type'' = Some (VStr ''number'') \<Longrightarrow> check_field_type_shape (VDict d) p al = check_number_bounds_shape d p"
  "dget d ''type'' = Some (VStr ''enum'') \<Longrightarrow> check_field_type_shape (VDict d) p al =
     (case dget d ''values'' of Some (VList (_ # _)) \<Rightarrow> Inr () | _ \<Rightarrow> Inl (SchemaError (EnumNeedsValues p)))"
  "dget d ''type'' = Some (VStr ''list'') \<Longrightarrow> check_field_type_shape (VDict d) p al =
     (if \<not> al then Inl (SchemaError (ListInList p))
      else (case get_opt d ''of'' of None \<Rightarrow> Inl (SchemaError (ListNeedsOf p))
         | Some e \<Rightarrow> check_field_type_shape e (p @ ''.of'') False))"
  "dget d ''type'' = Some (VStr ''object'') \<Longrightarrow> check_field_type_shape (VDict d) p al =
     (case dget d ''fields'' of
        Some (VDict (f # fs)) \<Rightarrow>
          rbind (traverse (\<lambda>(fname, sub). check_field_type_shape sub (p @ ''.'' @ fname) True) (f # fs)) (\<lambda>_. Inr ())
      | _ \<Rightarrow> Inl (SchemaError (ObjectNeedsFields p)))"
  "dget d ''type'' = Some (VStr ''ref'') \<Longrightarrow> check_field_type_shape (VDict d) p al =
     (case dget d ''schema'' of
        Some n \<Rightarrow> if truthy n then Inr () else Inl (SchemaError (RefNeedsSchema p))
      | None \<Rightarrow> Inl (SchemaError (RefNeedsSchema p)))"
  by (subst check_field_type_shape.simps, simp add: in_scalar_types_def hashable_def SCALAR_TYPES_def)+

lemma shape_cases:
  assumes "check_field_type_shape (VDict d) p al = Inr ()"
  obtains "dget d ''type'' = Some (VStr ''bool'')" | "dget d ''type'' = Some (VStr ''string'')"
    | "dget d ''type'' = Some (VStr ''number'')" | "dget d ''type'' = Some (VStr ''enum'')"
    | "dget d ''type'' = Some (VStr ''list'')" | "dget d ''type'' = Some (VStr ''object'')"
    | "dget d ''type'' = Some (VStr ''ref'')"
proof (rule ccontr)
  define t where "t = (case dget d ''type'' of None \<Rightarrow> VNone | Some v \<Rightarrow> v)"
  have t: "dget d ''type'' = Some (VStr u)" if "t = VStr u" for u
    using that by (cases "dget d ''type''") (simp_all add: t_def)
  assume "\<not> thesis"
  then have n: "t \<noteq> VStr ''bool''" "t \<noteq> VStr ''string''" "t \<noteq> VStr ''number''" "t \<noteq> VStr ''enum''"
      "t \<noteq> VStr ''list''" "t \<noteq> VStr ''object''" "t \<noteq> VStr ''ref''"
    using that t by metis+
  have s: "in_scalar_types t = (if hashable t then Inr False else Inl SchemaTypeError)"
    using n(1-3) by (simp add: in_scalar_types_def SCALAR_TYPES_def)
  show False
    using assms
    by (subst (asm) check_field_type_shape.simps)
      (simp only: pyval.case Let_def t_def [symmetric] s n if_False rbind_simps split: if_split_asm, simp_all)
qed

lemma enum_case: "(case v of Some (VList (x # xs)) \<Rightarrow> Inr () | _ \<Rightarrow> Inl e) = Inr u \<longleftrightarrow> (\<exists>vs. v = Some (VList vs) \<and> vs \<noteq> [])"
  by (auto split: option.splits pyval.splits list.splits)

lemma object_case: "(case v of Some (VDict (x # xs)) \<Rightarrow> g x xs | _ \<Rightarrow> Inl e) = Inr u
   \<longleftrightarrow> (\<exists>x xs. v = Some (VDict (x # xs)) \<and> g x xs = Inr u)"
  by (auto split: option.splits pyval.splits list.splits)

lemma shape_dict: "check_field_type_shape ft p al = Inr () \<Longrightarrow> \<exists>d. ft = VDict d"
  by (cases ft) (simp_all add: check_field_type_shape.simps [of VNone] check_field_type_shape.simps [of "VBool _"]
      check_field_type_shape.simps [of "VInt _"] check_field_type_shape.simps [of "VFloat _"]
      check_field_type_shape.simps [of "VStr _"] check_field_type_shape.simps [of "VList _"])

lemma shape_field_shaped: "check_field_type_shape ft path al = Inr () \<Longrightarrow> field_shaped al ft"
proof (induction "size ft" arbitrary: ft path al rule: less_induct)
  case less
  obtain d where ft: "ft = VDict d" using shape_dict [OF less.prems] by blast
  note c = less.prems [unfolded ft]
  from c show ?case
  proof (cases rule: shape_cases)
    case 1
    then show ?thesis by (auto simp: ft intro: fs_bool)
  next
    case 2
    then show ?thesis by (auto simp: ft intro: fs_string)
  next
    case 3
    with c show ?thesis by (auto simp: ft shape_simps bounds_path [of d path] intro: fs_number)
  next
    case 4
    with c show ?thesis by (auto simp: ft shape_simps enum_case intro: fs_enum)
  next
    case 5
    with c obtain e where e: "al" "get_opt d ''of'' = Some e" "check_field_type_shape e (path @ ''.of'') False = Inr ()"
      by (auto simp: shape_simps split: if_split_asm option.split_asm)
    have "field_shaped False e" using get_opt_size [OF e(2)] less.hyps e(3) by (simp add: ft)
    with e 5 show ?thesis by (auto simp: ft get_opt_dict intro: fs_list)
  next
    case 6
    with c obtain x xs where x: "dget d ''fields'' = Some (VDict (x # xs))"
      and s: "\<forall>f\<in>set (x # xs). \<exists>y. (case f of (fname, sub) \<Rightarrow> check_field_type_shape sub (path @ ''.'' @ fname) True) = Inr y"
      by (auto simp: shape_simps object_case traverse_unit simp del: rbind_eq_Inr traverse.simps)
    have "field_shaped True (snd f)" if f: "f \<in> set (x # xs)" for f
    proof -
      obtain k v where kv: "f = (k, v)" by force
      have "size v < size ft" using dget_dict_size [OF x, of k v] f by (simp add: ft kv)
      moreover have "check_field_type_shape v (path @ ''.'' @ k) True = Inr ()" using bspec [OF s f] by (simp add: kv)
      ultimately show ?thesis using less.hyps by (simp add: kv)
    qed
    with x 6 show ?thesis by (auto simp: ft intro: fs_object)
  next
    case 7
    with c show ?thesis by (auto simp: ft shape_simps intro: fs_ref split: option.split_asm if_split_asm)
  qed
qed

lemma field_shaped_shape: "field_shaped al ft \<Longrightarrow> check_field_type_shape ft path al = Inr ()"
proof (induction arbitrary: path rule: field_shaped.induct)
  case (fs_number d al)
  then show ?case by (simp add: shape_simps bounds_path [of d path])
next
  case (fs_enum d vs al)
  then show ?case by (cases vs) (auto simp: shape_simps)
next
  case (fs_list d e)
  then have "e \<noteq> VNone" by (auto elim: field_shaped.cases)
  with fs_list show ?case by (simp add: shape_simps get_opt_Some)
next
  case (fs_object d fs al)
  then obtain f fs' where "fs = f # fs'" by (cases fs) auto
  moreover have "rbind (traverse (\<lambda>(fname, sub). check_field_type_shape sub (path @ ''.'' @ fname) True) fs) (\<lambda>_. Inr ()) = Inr ()"
    using fs_object by (force simp: traverse_unit simp del: rbind_eq_Inr)
  ultimately show ?case using fs_object by (simp add: shape_simps del: traverse.simps)
qed (auto simp: shape_simps)

subsection \<open>References and cycle detection\<close>

type_synonym schemas = "pyval dict"

lemma get_item_size: "get_item ft k = Inr e \<Longrightarrow> size e < size ft"
  by (cases ft) (auto simp: get_item_def simp del: pyval.size split: option.splits dest: dget_size)

lemma get_item_dict_size: "get_item ft k = Inr (VDict fs) \<Longrightarrow> (f, v) \<in> set fs \<Longrightarrow> size v < size ft"
  using get_item_size dict_size_mem by fastforce

function direct_refs :: "pyval \<Rightarrow> pyval list sres" where
  "direct_refs ft =
     rbind (get_attr ft ''type'') (\<lambda>t.
       if t = Some (VStr ''ref'') then
         rbind (get_item ft ''schema'') (\<lambda>n. if hashable n then Inr [n] else Inl SchemaTypeError)
       else if t = Some (VStr ''list'') then
         (case get_item ft ''of'' of Inl e \<Rightarrow> Inl e | Inr e \<Rightarrow> direct_refs e)
       else if t = Some (VStr ''object'') then
         (case get_item ft ''fields'' of
            Inr (VDict fs) \<Rightarrow> rbind (traverse (\<lambda>(_, sub). direct_refs sub) fs) (\<lambda>rs. Inr (concat rs))
          | Inr _ \<Rightarrow> Inl SchemaAttributeError
          | Inl e \<Rightarrow> Inl e)
       else Inr [])"
  by pat_completeness auto
termination
  by (relation "measure size") (auto dest: get_item_size get_item_dict_size simp del: pyval.size)

declare direct_refs.simps [simp del]

definition schema_direct_refs :: "pyval \<Rightarrow> pyval list sres" where
  "schema_direct_refs schema =
     (case get_item schema ''fields'' of
        Inr (VDict fs) \<Rightarrow> rbind (traverse (\<lambda>(_, ft). direct_refs ft) fs) (\<lambda>rs. Inr (concat rs))
      | Inr _ \<Rightarrow> Inl SchemaAttributeError
      | Inl e \<Rightarrow> Inl e)"

text \<open>
  \<open>sorted\<close> of the set of referenced names.  Names that are no strings name no schema, so their
  order does not matter; what matters is that names of different kinds cannot be compared.
\<close>

definition sorted_refs :: "pyval list \<Rightarrow> string list sres" where
  "sorted_refs rs =
     (if list_all is_str rs then Inr (sort (remdups (map (\<lambda>r. case r of VStr s \<Rightarrow> s | _ \<Rightarrow> []) rs)))
      else if list_all numeric rs \<or> length (remdups rs) \<le> 1 then Inr []
      else Inl SchemaTypeError)"

definition node_refs :: "schemas \<Rightarrow> string \<Rightarrow> string list sres" where
  "node_refs schemas node =
     (case dget schemas node of
        None \<Rightarrow> Inl SchemaKeyError
      | Some schema \<Rightarrow> rbind (schema_direct_refs schema) sorted_refs)"

datatype color = WHITE | GRAY | BLACK

record dfs_state =
  color :: "string \<Rightarrow> color"
  stack :: "string list"

definition cycle_from :: "string list \<Rightarrow> string \<Rightarrow> string list" where
  "cycle_from st ref = dropWhile (\<lambda>x. x \<noteq> ref) st @ [ref]"

text \<open>
  The depth-first search.  The first argument bounds the recursion depth; a call on a white
  node turns it gray, so the number of schemas is depth enough.
\<close>

fun dfs_refs :: "(string \<Rightarrow> dfs_state \<Rightarrow> (string list option \<times> dfs_state) sres) \<Rightarrow> schemas
    \<Rightarrow> string list \<Rightarrow> dfs_state \<Rightarrow> (string list option \<times> dfs_state) sres" where
  "dfs_refs visit schemas [] s = Inr (None, s)"
| "dfs_refs visit schemas (ref # refs) s =
     (if \<not> has_key schemas ref then dfs_refs visit schemas refs s
      else if color s ref = GRAY then Inr (Some (cycle_from (stack s) ref), s)
      else if color s ref = WHITE then
        rbind (visit ref s) (\<lambda>(found, s').
          case found of
            Some c \<Rightarrow> Inr (Some c, s')
          | None \<Rightarrow> dfs_refs visit schemas refs s')
      else dfs_refs visit schemas refs s)"

fun dfs :: "nat \<Rightarrow> schemas \<Rightarrow> string \<Rightarrow> dfs_state \<Rightarrow> (string list option \<times> dfs_state) sres" where
  "dfs 0 schemas node s = Inl SchemaRecursionError"
| "dfs (Suc n) schemas node s =
     rbind (node_refs schemas node) (\<lambda>refs.
     rbind (dfs_refs (dfs n schemas) schemas refs
         (s\<lparr>color := (color s)(node := GRAY), stack := stack s @ [node]\<rparr>)) (\<lambda>(found, s').
       case found of
         Some c \<Rightarrow> Inr (Some c, s')
       | None \<Rightarrow> Inr (None, s'\<lparr>color := (color s')(node := BLACK), stack := butlast (stack s')\<rparr>)))"

fun dfs_all :: "nat \<Rightarrow> schemas \<Rightarrow> string list \<Rightarrow> dfs_state \<Rightarrow> string list option sres" where
  "dfs_all n schemas [] s = Inr None"
| "dfs_all n schemas (name # names) s =
     (if color s name = WHITE then
        rbind (dfs n schemas name s) (\<lambda>(found, s').
          case found of Some c \<Rightarrow> Inr (Some c) | None \<Rightarrow> dfs_all n schemas names s')
      else dfs_all n schemas names s)"

definition find_ref_cycle :: "schemas \<Rightarrow> string list option sres" where
  "find_ref_cycle schemas =
     dfs_all (length schemas) schemas (dkeys schemas) \<lparr>color = (\<lambda>_. WHITE), stack = []\<rparr>"

subsection \<open>The registry\<close>

text \<open>
  \<open>register\<close> returns the registry it leaves behind beside its outcome: the entry is stored
  before the cycle search runs, and only the detected cycle rolls it back.
\<close>

definition normalize_schema :: "string \<Rightarrow> pyval \<Rightarrow> pyval" where
  "normalize_schema name schema =
     (case schema of
        VDict d \<Rightarrow> VDict (if has_key d ''name'' then d else dset ''name'' (VStr name) d)
      | v \<Rightarrow> v)"

definition register :: "string \<Rightarrow> pyval \<Rightarrow> schemas \<Rightarrow> unit sres \<times> schemas" where
  "register name schema schemas =
     (case check_schema_shape name schema of
        Inl e \<Rightarrow> (Inl e, schemas)
      | Inr _ \<Rightarrow>
          (let stored = dset name (normalize_schema name schema) schemas in
           case find_ref_cycle stored of
             Inl e \<Rightarrow> (Inl e, stored)
           | Inr None \<Rightarrow> (Inr (), stored)
           | Inr (Some c) \<Rightarrow>
               (Inl (SchemaError (RecursiveSchema c)),
                case dget schemas name of
                  None \<Rightarrow> AList.delete name stored
                | Some previous \<Rightarrow> dset name previous stored)))"

definition get_schema :: "schemas \<Rightarrow> string \<Rightarrow> pyval sres" where
  "get_schema schemas name =
     (case dget schemas name of None \<Rightarrow> Inl SchemaKeyError | Some s \<Rightarrow> Inr s)"

subsection \<open>The cycle detection is correct\<close>

definition ref_edges :: "schemas \<Rightarrow> (string \<times> string) set" where
  "ref_edges S = {(a, b). \<exists>rs. node_refs S a = Inr rs \<and> b \<in> set rs \<and> has_key S b}"

definition is_cycle :: "schemas \<Rightarrow> string list \<Rightarrow> bool" where
  "is_cycle S c \<longleftrightarrow> 1 < length c \<and> hd c = last c \<and> successively (\<lambda>a b. (a, b) \<in> ref_edges S) c"

definition dfs_inv :: "schemas \<Rightarrow> dfs_state \<Rightarrow> bool" where
  "dfs_inv S s \<longleftrightarrow>
     distinct (stack s) \<and> set (stack s) = {x. color s x = GRAY}
     \<and> successively (\<lambda>a b. (a, b) \<in> ref_edges S) (stack s)
     \<and> (\<forall>x. color s x \<noteq> WHITE \<longrightarrow> has_key S x \<and> (\<exists>rs. node_refs S x = Inr rs))
     \<and> (\<forall>a b. color s a = BLACK \<longrightarrow> (a, b) \<in> ref_edges S \<longrightarrow> color s b = BLACK)
     \<and> (\<forall>a. color s a = BLACK \<longrightarrow> (a, a) \<notin> (ref_edges S)\<^sup>+)"

definition dfs_post :: "schemas \<Rightarrow> dfs_state \<Rightarrow> dfs_state \<Rightarrow> bool" where
  "dfs_post S s s' \<longleftrightarrow>
     dfs_inv S s' \<and> stack s' = stack s \<and> (\<forall>x. color s x = BLACK \<longrightarrow> color s' x = BLACK)"

definition whites :: "schemas \<Rightarrow> dfs_state \<Rightarrow> string set" where
  "whites S s = {x. has_key S x \<and> color s x = WHITE}"

definition linked :: "schemas \<Rightarrow> dfs_state \<Rightarrow> string \<Rightarrow> bool" where
  "linked S s r \<longleftrightarrow> stack s = [] \<or> (last (stack s), r) \<in> ref_edges S"

lemma finite_whites [simp]: "finite (whites S s)"
  by (rule finite_subset [of _ "set (dkeys S)"]) (auto simp: whites_def has_key_dkeys)

lemma dfs_post_refl: "dfs_inv S s \<Longrightarrow> dfs_post S s s"
  by (simp add: dfs_post_def)

lemma dfs_post_trans: "dfs_post S s t \<Longrightarrow> dfs_post S t u \<Longrightarrow> dfs_post S s u"
  by (auto simp: dfs_post_def)

lemma inv_gray: "dfs_inv S s \<Longrightarrow> x \<in> set (stack s) \<longleftrightarrow> color s x = GRAY"
  by (simp add: dfs_inv_def)

lemma post_whites: "dfs_inv S s \<Longrightarrow> dfs_post S s s' \<Longrightarrow> card (whites S s') \<le> card (whites S s)"
proof (rule card_mono [OF finite_whites], rule subsetI)
  fix x assume i: "dfs_inv S s" and p: "dfs_post S s s'" and x: "x \<in> whites S s'"
  have w: "has_key S x" "color s' x = WHITE" using x by (simp_all add: whites_def)
  have "color s x \<noteq> BLACK" using p w by (auto simp: dfs_post_def)
  moreover have "color s x = GRAY \<longleftrightarrow> color s' x = GRAY"
    using inv_gray [OF i, of x] inv_gray [of S s' x] p by (simp add: dfs_post_def)
  ultimately show "x \<in> whites S s" using w by (cases "color s x") (simp_all add: whites_def)
qed

lemma black_closed: "dfs_inv S s \<Longrightarrow> color s a = BLACK \<Longrightarrow> (a, b) \<in> (ref_edges S)\<^sup>+ \<Longrightarrow> color s b = BLACK"
proof -
  assume i: "dfs_inv S s" and a: "color s a = BLACK" and "(a, b) \<in> (ref_edges S)\<^sup>+"
  from this(3) show ?thesis
  proof (induction rule: trancl_induct)
    case (base y)
    with i a show ?case by (simp add: dfs_inv_def)
  next
    case (step y z)
    with i show ?case by (simp add: dfs_inv_def)
  qed
qed

lemma gray_cycle:
  assumes i: "dfs_inv S s" and g: "color s r = GRAY" and l: "linked S s r"
  shows "is_cycle S (cycle_from (stack s) r)"
proof -
  have "r \<in> set (stack s)" using i g by (simp add: dfs_inv_def)
  then obtain xs ys where st: "stack s = xs @ r # ys" and "r \<notin> set xs" by (meson split_list_first)
  then have c: "cycle_from (stack s) r = (r # ys) @ [r]"
    by (auto simp: cycle_from_def dropWhile_append3)
  moreover have "(last (r # ys), r) \<in> ref_edges S" using l by (simp add: linked_def st)
  moreover have "successively (\<lambda>a b. (a, b) \<in> ref_edges S) (r # ys)"
    using i by (simp add: dfs_inv_def st successively_append_iff)
  ultimately have "successively (\<lambda>a b. (a, b) \<in> ref_edges S) ((r # ys) @ [r])"
    by (subst successively_append_iff) simp
  then show ?thesis unfolding is_cycle_def c by simp
qed

text \<open>The contract of one visit, and what the loop over the references makes of it.\<close>

locale ref_visit =
  fixes S :: schemas and n :: nat
    and visit :: "string \<Rightarrow> dfs_state \<Rightarrow> (string list option \<times> dfs_state) sres"
  assumes visit_depth: "dfs_inv S s \<Longrightarrow> has_key S r \<Longrightarrow> color s r = WHITE \<Longrightarrow> linked S s r
      \<Longrightarrow> card (whites S s) \<le> n \<Longrightarrow> visit r s \<noteq> Inl SchemaRecursionError"
    and visit_found: "dfs_inv S s \<Longrightarrow> has_key S r \<Longrightarrow> color s r = WHITE \<Longrightarrow> linked S s r
      \<Longrightarrow> visit r s = Inr (Some c, s') \<Longrightarrow> is_cycle S c"
    and visit_done: "dfs_inv S s \<Longrightarrow> has_key S r \<Longrightarrow> color s r = WHITE \<Longrightarrow> linked S s r
      \<Longrightarrow> visit r s = Inr (None, s') \<Longrightarrow> dfs_post S s s' \<and> color s' r = BLACK"
begin

lemma refs_spec:
  assumes "dfs_inv S s" and "\<forall>r\<in>set refs. has_key S r \<longrightarrow> linked S s r"
  shows "card (whites S s) \<le> n \<Longrightarrow> dfs_refs visit S refs s \<noteq> Inl SchemaRecursionError"
    and "dfs_refs visit S refs s = Inr (Some c, s') \<Longrightarrow> is_cycle S c"
    and "dfs_refs visit S refs s = Inr (None, s')
      \<Longrightarrow> dfs_post S s s' \<and> (\<forall>r\<in>set refs. has_key S r \<longrightarrow> color s' r = BLACK)"
proof -
  have "(card (whites S s) \<le> n \<longrightarrow> dfs_refs visit S refs s \<noteq> Inl SchemaRecursionError)
      \<and> (\<forall>c s'. dfs_refs visit S refs s = Inr (Some c, s') \<longrightarrow> is_cycle S c)
      \<and> (\<forall>s'. dfs_refs visit S refs s = Inr (None, s')
         \<longrightarrow> dfs_post S s s' \<and> (\<forall>r\<in>set refs. has_key S r \<longrightarrow> color s' r = BLACK))"
    using assms
  proof (induction refs arbitrary: s)
    case Nil
    then show ?case by (simp add: dfs_post_refl)
  next
    case (Cons r refs)
    note i = Cons.prems(1)
    have IH: "(card (whites S s) \<le> n \<longrightarrow> dfs_refs visit S refs t \<noteq> Inl SchemaRecursionError)
        \<and> (\<forall>c s'. dfs_refs visit S refs t = Inr (Some c, s') \<longrightarrow> is_cycle S c)
        \<and> (\<forall>s'. dfs_refs visit S refs t = Inr (None, s') \<longrightarrow> dfs_post S s s'
           \<and> (color t r = BLACK \<longrightarrow> color s' r = BLACK) \<and> (\<forall>r\<in>set refs. has_key S r \<longrightarrow> color s' r = BLACK))"
      if p: "dfs_post S s t" for t
    proof -
      have "dfs_inv S t" using p by (simp add: dfs_post_def)
      moreover have "\<forall>r\<in>set refs. has_key S r \<longrightarrow> linked S t r"
        using Cons.prems(2) p by (simp add: dfs_post_def linked_def)
      ultimately have t: "(card (whites S t) \<le> n \<longrightarrow> dfs_refs visit S refs t \<noteq> Inl SchemaRecursionError)
        \<and> (\<forall>c s'. dfs_refs visit S refs t = Inr (Some c, s') \<longrightarrow> is_cycle S c)
        \<and> (\<forall>s'. dfs_refs visit S refs t = Inr (None, s')
           \<longrightarrow> dfs_post S t s' \<and> (\<forall>r\<in>set refs. has_key S r \<longrightarrow> color s' r = BLACK))"
        by (rule Cons.IH)
      have b: "color s' r = BLACK" if "dfs_post S t s'" "color t r = BLACK" for s'
        using that by (simp add: dfs_post_def)
      show ?thesis
        using t post_whites [OF i p] dfs_post_trans [OF p] b le_trans by blast
    qed
    note here = IH [OF dfs_post_refl [OF i]]
    show ?case
    proof (cases "has_key S r")
      case False
      with here show ?thesis by simp
    next
      case k: True
      have l: "linked S s r" using Cons.prems(2) k by simp
      show ?thesis
      proof (cases "color s r")
        case WHITE
        note v = i k WHITE l
        show ?thesis
        proof (cases "visit r s")
          case (Inl e)
          with visit_depth [OF v] k WHITE show ?thesis by simp
        next
          case (Inr p)
          obtain f t where p: "p = (f, t)" by force
          show ?thesis
          proof (cases f)
            case None
            have post: "dfs_post S s t" "color t r = BLACK"
              using visit_done [OF v] Inr by (simp_all add: p None)
            then show ?thesis using IH [OF post(1)] k WHITE Inr by (simp add: p None)
          next
            case (Some c)
            with visit_found [OF v] Inr k WHITE show ?thesis by (simp add: p)
          qed
        qed
      next
        case GRAY
        with gray_cycle [OF i GRAY l] k show ?thesis by simp
      next
        case BLACK
        with here k show ?thesis by simp
      qed
    qed
  qed
  then show "card (whites S s) \<le> n \<Longrightarrow> dfs_refs visit S refs s \<noteq> Inl SchemaRecursionError"
    and "dfs_refs visit S refs s = Inr (Some c, s') \<Longrightarrow> is_cycle S c"
    and "dfs_refs visit S refs s = Inr (None, s')
      \<Longrightarrow> dfs_post S s s' \<and> (\<forall>r\<in>set refs. has_key S r \<longrightarrow> color s' r = BLACK)"
    by blast+
qed

end

lemma visit_node:
  assumes v: "ref_visit S n (dfs n S)" and i: "dfs_inv S s" and k: "has_key S r"
    and w: "color s r = WHITE" and l: "linked S s r" and refs: "node_refs S r = Inr refs"
  defines "s1 \<equiv> s\<lparr>color := (color s)(r := GRAY), stack := stack s @ [r]\<rparr>"
  shows "dfs_inv S s1" and "\<forall>x\<in>set refs. has_key S x \<longrightarrow> linked S s1 x"
    and "card (whites S s) \<le> Suc n \<Longrightarrow> card (whites S s1) \<le> n"
    and "dfs_post S s1 t \<Longrightarrow> (\<forall>x\<in>set refs. has_key S x \<longrightarrow> color t x = BLACK)
      \<Longrightarrow> dfs_post S s (t\<lparr>color := (color t)(r := BLACK), stack := butlast (stack t)\<rparr>)"
proof -
  have g: "r \<notin> set (stack s)" using inv_gray [OF i] w by auto
  have "successively (\<lambda>a b. (a, b) \<in> ref_edges S) (stack s @ [r])"
    using i l by (auto simp: dfs_inv_def linked_def successively_append_iff)
  then show i1: "dfs_inv S s1"
    using i g k w refs by (auto simp: dfs_inv_def s1_def)
  show "\<forall>x\<in>set refs. has_key S x \<longrightarrow> linked S s1 x"
    using refs by (auto simp: linked_def s1_def ref_edges_def)
  have "whites S s1 = whites S s - {r}" and "r \<in> whites S s"
    using k w by (auto simp: whites_def s1_def)
  then show "card (whites S s) \<le> Suc n \<Longrightarrow> card (whites S s1) \<le> n"
    by (simp add: card_Diff_singleton)
  assume t: "dfs_post S s1 t" and b: "\<forall>x\<in>set refs. has_key S x \<longrightarrow> color t x = BLACK"
  let ?u = "t\<lparr>color := (color t)(r := BLACK), stack := butlast (stack t)\<rparr>"
  have ti: "dfs_inv S t" and ts: "stack t = stack s @ [r]"
    and all: "\<forall>x. color s1 x = BLACK \<longrightarrow> color t x = BLACK"
    using t by (simp_all add: dfs_post_def s1_def)
  have tb: "color t x = BLACK" if "color s x = BLACK" for x
    using all [rule_format, of x] that w by (cases "x = r") (simp_all add: s1_def)
  have rg: "color t r = GRAY" using inv_gray [OF ti] by (auto simp: ts)
  have succ: "color t x = BLACK" if "(r, x) \<in> ref_edges S" for x
    using that b refs by (auto simp: ref_edges_def)
  have "(r, r) \<notin> (ref_edges S)\<^sup>+"
  proof
    assume "(r, r) \<in> (ref_edges S)\<^sup>+"
    then obtain x where "(r, x) \<in> ref_edges S" "x = r \<or> (x, r) \<in> (ref_edges S)\<^sup>+"
      by (meson tranclD rtranclD)
    with succ black_closed [OF ti] rg show False by fastforce
  qed
  then have "dfs_inv S ?u"
    using ti succ g k refs by (auto simp: dfs_inv_def ts successively_append_iff)
  then show "dfs_post S s ?u"
    using tb by (simp add: dfs_post_def ts)
qed

lemma direct_refs_exc: "direct_refs ft \<noteq> Inl SchemaRecursionError"
proof (induction ft rule: direct_refs.induct)
  case (1 ft)
  then show ?case
    by (subst direct_refs.simps)
      (auto simp: rbind_eq_Inl get_attr_def get_item_def split: pyval.splits option.splits
        dest!: traverse_Inl_mem)
qed

lemma node_refs_exc: "node_refs S a \<noteq> Inl SchemaRecursionError"
  by (auto simp: node_refs_def schema_direct_refs_def sorted_refs_def rbind_eq_Inl get_item_def direct_refs_exc
      split: option.splits pyval.splits sum.splits dest!: traverse_Inl_mem)

lemma dfs_visit: "ref_visit S n (dfs n S)"
proof (induction n)
  case 0
  show ?case
  proof
    fix s r assume "has_key S r" "color s r = WHITE" "card (whites S s) \<le> 0"
    then have "r \<in> whites S s" by (simp add: whites_def)
    then have "0 < card (whites S s)" by (auto simp: card_gt_0_iff)
    with \<open>card (whites S s) \<le> 0\<close> show "dfs 0 S r s \<noteq> Inl SchemaRecursionError" by simp
  qed simp_all
next
  case (Suc n)
  show ?case
  proof
    fix s r assume a: "dfs_inv S s" "has_key S r" "color s r = WHITE" "linked S s r"
    note node = visit_node [OF Suc a]
    note loop = ref_visit.refs_spec [OF Suc node(1,2)]
    {
      assume "card (whites S s) \<le> Suc n"
      then show "dfs (Suc n) S r s \<noteq> Inl SchemaRecursionError"
        using loop(1) node(3) node_refs_exc [of S r]
        by (auto simp: rbind_eq_Inl split: option.split_asm)
    next
      fix c s' assume "dfs (Suc n) S r s = Inr (Some c, s')"
      then show "is_cycle S c"
        using loop(2) by (auto split: option.split_asm)
    next
      fix s' assume "dfs (Suc n) S r s = Inr (None, s')"
      then obtain refs t where refs: "node_refs S r = Inr refs"
        and t: "dfs_refs (dfs n S) S refs (s\<lparr>color := (color s)(r := GRAY), stack := stack s @ [r]\<rparr>) = Inr (None, t)"
        and s': "s' = t\<lparr>color := (color t)(r := BLACK), stack := butlast (stack t)\<rparr>"
        by (auto split: option.split_asm)
      have "dfs_post S s s'" using node(4) [OF refs] loop(3) [OF refs refs t] s' by simp
      then show "dfs_post S s s' \<and> color s' r = BLACK" by (simp add: s')
    }
  qed
qed

interpretation dfs: ref_visit S n "dfs n S" for S n
  by (rule dfs_visit)

lemma dfs_all_spec:
  assumes "dfs_inv S s" "stack s = []" "\<forall>x\<in>set names. has_key S x"
  shows "card (whites S s) \<le> n \<Longrightarrow> dfs_all n S names s \<noteq> Inl SchemaRecursionError"
    and "dfs_all n S names s = Inr (Some c) \<Longrightarrow> is_cycle S c"
    and "dfs_all n S names s = Inr None \<Longrightarrow> \<exists>t. dfs_post S s t \<and> (\<forall>x\<in>set names. color t x = BLACK)"
proof -
  have "(card (whites S s) \<le> n \<longrightarrow> dfs_all n S names s \<noteq> Inl SchemaRecursionError)
    \<and> (\<forall>c. dfs_all n S names s = Inr (Some c) \<longrightarrow> is_cycle S c)
    \<and> (dfs_all n S names s = Inr None \<longrightarrow> (\<exists>t. dfs_post S s t \<and> (\<forall>x\<in>set names. color t x = BLACK)))"
    using assms
  proof (induction names arbitrary: s)
    case Nil
    then show ?case using dfs_post_refl by auto
  next
    case (Cons x names)
    note i = Cons.prems(1) and st = Cons.prems(2)
    have g: "color s x \<noteq> GRAY" using inv_gray [OF i, of x] st by simp
    have IH: "(card (whites S s) \<le> n \<longrightarrow> dfs_all n S names t \<noteq> Inl SchemaRecursionError)
        \<and> (\<forall>c. dfs_all n S names t = Inr (Some c) \<longrightarrow> is_cycle S c)
        \<and> (dfs_all n S names t = Inr None \<longrightarrow> (\<exists>u. dfs_post S s u \<and> (\<forall>y\<in>set (x # names). color u y = BLACK)))"
      if p: "dfs_post S s t" and b: "color t x = BLACK" for t
    proof -
      have "dfs_inv S t" "stack t = []" using p st by (simp_all add: dfs_post_def)
      then have t: "(card (whites S t) \<le> n \<longrightarrow> dfs_all n S names t \<noteq> Inl SchemaRecursionError)
        \<and> (\<forall>c. dfs_all n S names t = Inr (Some c) \<longrightarrow> is_cycle S c)
        \<and> (dfs_all n S names t = Inr None \<longrightarrow> (\<exists>u. dfs_post S t u \<and> (\<forall>y\<in>set names. color u y = BLACK)))"
        using Cons.prems(3) by (intro Cons.IH) simp_all
      have "color u x = BLACK" if "dfs_post S t u" for u using that b by (simp add: dfs_post_def)
      then show ?thesis
        using t post_whites [OF i p] dfs_post_trans [OF p] le_trans by (metis set_ConsD)
    qed
    show ?case
    proof (cases "color s x")
      case WHITE
      have v: "dfs_inv S s" "has_key S x" "color s x = WHITE" "linked S s x"
        using i WHITE Cons.prems by (simp_all add: linked_def)
      show ?thesis
      proof (cases "dfs n S x s")
        case (Inl e)
        with dfs.visit_depth [OF v, of n] WHITE show ?thesis by auto
      next
        case (Inr p)
        obtain f t where p: "p = (f, t)" by force
        show ?thesis
        proof (cases f)
          case None
          have post: "dfs_post S s t" "color t x = BLACK"
            using dfs.visit_done [OF v] Inr by (simp_all add: p None)
          then show ?thesis using IH [OF post] WHITE Inr by (simp add: p None)
        next
          case (Some c)
          with dfs.visit_found [OF v] Inr WHITE show ?thesis by (simp add: p)
        qed
      qed
    next
      case BLACK
      then show ?thesis using IH [OF dfs_post_refl [OF i]] by simp
    qed (use g in simp)
  qed
  then show "card (whites S s) \<le> n \<Longrightarrow> dfs_all n S names s \<noteq> Inl SchemaRecursionError"
    and "dfs_all n S names s = Inr (Some c) \<Longrightarrow> is_cycle S c"
    and "dfs_all n S names s = Inr None \<Longrightarrow> \<exists>t. dfs_post S s t \<and> (\<forall>x\<in>set names. color t x = BLACK)"
    by blast+
qed

lemma dfs_start: "dfs_inv S \<lparr>color = (\<lambda>_. WHITE), stack = []\<rparr>"
  by (simp add: dfs_inv_def)

lemma find_ref_cycle_depth: "find_ref_cycle S \<noteq> Inl SchemaRecursionError"
proof -
  let ?s = "\<lparr>color = (\<lambda>_. WHITE), stack = []\<rparr>"
  have "whites S ?s \<subseteq> set (dkeys S)" by (auto simp: whites_def has_key_dkeys)
  then have "card (whites S ?s) \<le> card (set (dkeys S))" by (intro card_mono) auto
  also have "\<dots> \<le> length S" using card_length [of "dkeys S"] by (simp add: dkeys_def)
  finally show ?thesis
    unfolding find_ref_cycle_def by (intro dfs_all_spec(1) [OF dfs_start]) (auto simp: has_key_dkeys)
qed

lemma is_cycle_not_acyclic: "is_cycle S c \<Longrightarrow> \<not> acyclic (ref_edges S)"
proof -
  have path: "(hd c, last c) \<in> (ref_edges S)\<^sup>+" if "1 < length c" "successively (\<lambda>a b. (a, b) \<in> ref_edges S) c" for c
    using that
  proof (induction c)
    case (Cons a c)
    then obtain b c' where c: "c = b # c'" by (cases c) auto
    with Cons show ?case by (cases c') (auto intro: trancl_into_trancl2)
  qed simp
  assume "is_cycle S c"
  with path [of c] show ?thesis by (auto simp: is_cycle_def acyclic_def)
qed

lemma find_ref_cycle_None:
  "find_ref_cycle S = Inr None \<Longrightarrow> acyclic (ref_edges S) \<and> (\<forall>a. has_key S a \<longrightarrow> (\<exists>rs. node_refs S a = Inr rs))"
proof -
  assume "find_ref_cycle S = Inr None"
  then obtain t where t: "dfs_inv S t" "\<forall>x\<in>set (dkeys S). color t x = BLACK"
    using dfs_all_spec(3) [OF dfs_start, of "dkeys S" S "length S"]
    by (fastforce simp: find_ref_cycle_def dfs_post_def has_key_dkeys simp del: dfs_all.simps)
  have "(a, a) \<notin> (ref_edges S)\<^sup>+" for a
  proof
    assume a: "(a, a) \<in> (ref_edges S)\<^sup>+"
    then obtain b where "(b, a) \<in> ref_edges S" by (meson tranclD2)
    then have "color t a = BLACK" using t(2) by (auto simp: ref_edges_def has_key_dkeys)
    with t(1) a show False by (simp add: dfs_inv_def)
  qed
  moreover have "\<exists>rs. node_refs S a = Inr rs" if "has_key S a" for a
  proof -
    have "color t a \<noteq> WHITE" using t(2) that by (simp add: has_key_dkeys)
    then show ?thesis using t(1) by (simp add: dfs_inv_def)
  qed
  ultimately show ?thesis by (simp add: acyclic_def)
qed

text \<open>C32: The cycle detection is exact: when it answers, the answer is \<open>None\<close> precisely if the
  reference graph of the registered schemas is acyclic, and otherwise it is a closed walk of
  references.\<close>

theorem find_ref_cycle_correct:
  assumes "find_ref_cycle S = Inr r"
  shows "(r = None \<longleftrightarrow> acyclic (ref_edges S)) \<and> (\<forall>c. r = Some c \<longrightarrow> is_cycle S c)"
proof (cases r)
  case None
  with assms find_ref_cycle_None show ?thesis by simp
next
  case (Some c)
  have "is_cycle S c"
    using dfs_all_spec(2) [OF dfs_start, of "dkeys S" S "length S" c] assms
    by (simp add: Some find_ref_cycle_def has_key_dkeys)
  with Some is_cycle_not_acyclic show ?thesis by auto
qed

theorem find_ref_cycle_correct_witness:
  "is_cycle
     [(''a'', VDict [(''fields'', VDict [(''x'', VDict [(''type'', VStr ''ref''), (''schema'', VStr ''a'')])])])]
     [''a'', ''a'']"
proof -
  let ?S = "[(''a'', VDict [(''fields'', VDict [(''x'', VDict [(''type'', VStr ''ref''), (''schema'', VStr ''a'')])])])]"
  have "find_ref_cycle ?S = Inr (Some [''a'', ''a''])"
    by code_simp
  from find_ref_cycle_correct [OF this] show ?thesis by simp
qed

subsection \<open>Registration\<close>

text \<open>
  What a registry promises: one entry per name, every schema of the checked shape, every
  reference a name that can be looked up and compared, and no cycle of references.
\<close>

definition schema_shaped :: "pyval \<Rightarrow> bool" where
  "schema_shaped schema \<longleftrightarrow>
     (\<exists>d fs. schema = VDict d \<and> dget d ''fields'' = Some (VDict fs) \<and> fs \<noteq> []
        \<and> (\<forall>f\<in>set fs. field_shaped True (snd f)))"

definition registry_ok :: "schemas \<Rightarrow> bool" where
  "registry_ok S \<longleftrightarrow>
     distinct (dkeys S) \<and> (\<forall>(n, s)\<in>set S. schema_shaped s)
     \<and> (\<forall>a. has_key S a \<longrightarrow> (\<exists>rs. node_refs S a = Inr rs)) \<and> acyclic (ref_edges S)"

lemma check_schema_shape_shaped: "check_schema_shape name schema = Inr () \<Longrightarrow> schema_shaped schema"
proof -
  assume c: "check_schema_shape name schema = Inr ()"
  then obtain d where d: "schema = VDict d" by (cases schema) (auto simp: check_schema_shape_def)
  with c obtain x xs where x: "dget d ''fields'' = Some (VDict (x # xs))"
    and s: "\<forall>f\<in>set (x # xs). \<exists>y. (case f of (fname, ft) \<Rightarrow> check_field_type_shape ft (name @ ''.'' @ fname) True) = Inr y"
    by (auto simp: check_schema_shape_def object_case traverse_unit simp del: rbind_eq_Inr traverse.simps)
  have "field_shaped True (snd f)" if "f \<in> set (x # xs)" for f
    using bspec [OF s that] shape_field_shaped by (auto split: prod.splits)
  then show ?thesis using d x by (auto simp: schema_shaped_def)
qed

lemma normalize_shaped: "schema_shaped schema \<Longrightarrow> schema_shaped (normalize_schema name schema)"
  by (auto simp: schema_shaped_def normalize_schema_def)

lemma dset_entries: "(\<forall>(n, s)\<in>set S. P s) \<Longrightarrow> P v \<Longrightarrow> \<forall>(n, s)\<in>set (dset k v S). P s"
  by (induction S) auto

lemma delete_dset: "\<not> has_key S name \<Longrightarrow> AList.delete name (dset name v S) = S"
  by (induction S) (auto simp: has_key_def split: if_splits)

lemma restore_dset: "dget S name = Some u \<Longrightarrow> dset name u (dset name v S) = S"
  by (induction S) (auto split: if_splits)

lemma registry_ok_Nil: "registry_ok []"
  by (simp add: registry_ok_def dkeys_def ref_edges_def node_refs_def acyclic_def has_key_def)

lemma shaped_direct_refs: "field_shaped al ft \<Longrightarrow> direct_refs ft = Inl e \<Longrightarrow> e = SchemaTypeError"
proof (induction arbitrary: e rule: field_shaped.induct)
  case (fs_list d e')
  then show ?case by (subst (asm) (2) direct_refs.simps) (auto simp: get_attr_def get_item_def)
next
  case (fs_object d fs al)
  have "traverse (\<lambda>(_, sub). direct_refs sub) fs = Inl e"
    using fs_object.prems fs_object.hyps
    by (subst (asm) direct_refs.simps) (auto simp: get_attr_def get_item_def rbind_eq_Inl)
  with fs_object.IH show ?case by (fastforce dest!: traverse_Inl_mem)
qed (subst (asm) direct_refs.simps, auto simp: get_attr_def get_item_def split: if_splits)+

lemma shaped_node_refs:
  assumes "\<forall>(n, s)\<in>set S. schema_shaped s" and "has_key S a" and "node_refs S a = Inl e"
  shows "e = SchemaTypeError"
proof -
  from assms(2) obtain s where s: "dget S a = Some s" by (auto simp: has_key_def)
  with assms(1) have "schema_shaped s" by (auto dest: dget_mem)
  then obtain d fs where d: "s = VDict d" "dget d ''fields'' = Some (VDict fs)"
    and f: "\<forall>f\<in>set fs. field_shaped True (snd f)"
    by (auto simp: schema_shaped_def)
  have "e = SchemaTypeError" if "traverse (\<lambda>(_, ft). direct_refs ft) fs = Inl e"
    using traverse_Inl_mem [OF that] f shaped_direct_refs by fastforce
  with assms(3) s d show ?thesis
    by (auto simp: node_refs_def schema_direct_refs_def get_item_def rbind_eq_Inl sorted_refs_def split: if_splits)
qed

lemma dfs_refs_Inl:
  "dfs_refs visit S refs s = Inl e \<Longrightarrow> \<exists>r s'. has_key S r \<and> visit r s' = Inl e"
  by (induction visit S refs s rule: dfs_refs.induct)
    (auto simp: rbind_eq_Inl split: if_splits option.splits)

lemma dfs_Inl: "dfs n S node s = Inl e \<Longrightarrow> has_key S node
    \<Longrightarrow> e = SchemaRecursionError \<or> (\<exists>a. has_key S a \<and> node_refs S a = Inl e)"
proof (induction n arbitrary: node s)
  case (Suc n)
  then show ?case
    by (auto simp: rbind_eq_Inl split: option.split_asm dest!: dfs_refs_Inl)
qed simp

lemma dfs_all_Inl: "dfs_all n S names s = Inl e \<Longrightarrow> \<forall>x\<in>set names. has_key S x
    \<Longrightarrow> e = SchemaRecursionError \<or> (\<exists>a. has_key S a \<and> node_refs S a = Inl e)"
  by (induction names arbitrary: s) (auto simp: rbind_eq_Inl split: if_splits option.split_asm dest!: dfs_Inl)

lemma shaped_find_ref_cycle:
  "\<forall>(n, s)\<in>set S. schema_shaped s \<Longrightarrow> find_ref_cycle S = Inl e \<Longrightarrow> e = SchemaTypeError"
  using find_ref_cycle_depth [of S] dfs_all_Inl [of "length S" S "dkeys S"] shaped_node_refs
  by (fastforce simp: find_ref_cycle_def has_key_dkeys simp del: dfs_all.simps)

definition shape_error :: "schema_exc \<Rightarrow> bool" where
  "shape_error e \<longleftrightarrow> e = SchemaTypeError \<or> (\<exists>r. e = SchemaError r)"

lemma shape_error_simps [simp]: "shape_error SchemaTypeError" "shape_error (SchemaError r)"
  by (simp_all add: shape_error_def)

lemma check_field_error: "check_field_type_shape ft p al = Inl e \<Longrightarrow> shape_error e"
proof (induction "size ft" arbitrary: ft p al rule: less_induct)
  case less
  show ?case
  proof (cases "\<exists>d. ft = VDict d")
    case False
    with less.prems show ?thesis by (subst (asm) check_field_type_shape.simps) (auto split: pyval.split_asm)
  next
    case True
    then obtain d where d: "ft = VDict d" by blast
    have b: "check_number_bounds_shape d p = Inl e \<Longrightarrow> shape_error e" for p
      by (auto simp: check_number_bounds_shape_def Let_def split: if_split_asm option.split_asm)
    have l: "check_field_type_shape x q al' = Inl e \<Longrightarrow> shape_error e" if "get_opt d k = Some x" for x q k al'
      using less.hyps get_opt_size [OF that] by (simp add: d)
    have o: "traverse (\<lambda>(n, sub). check_field_type_shape sub (p @ ''.'' @ n) True) fs = Inl e \<Longrightarrow> shape_error e"
      if "dget d k = Some (VDict fs)" for fs k
      using less.hyps dget_dict_size [OF that] by (fastforce simp: d dest!: traverse_Inl_mem)
    show ?thesis
      using less.prems unfolding d
      by (subst (asm) check_field_type_shape.simps)
        (auto simp: in_scalar_types_def Let_def rbind_eq_Inl simp del: traverse.simps
          dest: b l o split: if_split_asm option.split_asm pyval.split_asm list.split_asm)
  qed
qed

lemma check_shape_error: "check_schema_shape name schema = Inl e \<Longrightarrow> e = SchemaTypeError \<or> (\<exists>r. e = SchemaError r)"
  using check_field_error unfolding shape_error_def [symmetric]
  by (fastforce simp: check_schema_shape_def rbind_eq_Inl simp del: traverse.simps
      split: pyval.split_asm option.split_asm list.split_asm dest!: traverse_Inl_mem)

lemma registered_ok:
  assumes "registry_ok S" and "check_schema_shape name schema = Inr ()"
  defines "S' \<equiv> dset name (normalize_schema name schema) S"
  shows "distinct (dkeys S')" and "\<forall>(n, s)\<in>set S'. schema_shaped s"
  using assms(1) dset_entries [of S schema_shaped] normalize_shaped [OF check_schema_shape_shaped [OF assms(2)]]
  unfolding registry_ok_def S'_def by (simp add: distinct_dkeys_dset, blast)

lemma register_atomic:
  assumes "registry_ok S" and "register name schema S = (out, S')" and "out \<noteq> Inl SchemaTypeError"
  shows "registry_ok S' \<and> (out = Inr () \<and> dget S' name = Some (normalize_schema name schema)
    \<or> (\<exists>r. out = Inl (SchemaError r)) \<and> S' = S)"
proof (cases "check_schema_shape name schema")
  case (Inl e)
  with assms check_shape_error [OF Inl] show ?thesis by (auto simp: register_def Inl)
next
  case (Inr u)
  then have c: "check_schema_shape name schema = Inr ()" by simp
  let ?T = "dset name (normalize_schema name schema) S"
  note ok = registered_ok [OF assms(1) c]
  show ?thesis
  proof (cases "find_ref_cycle ?T")
    case (Inl e)
    with shaped_find_ref_cycle [OF ok(2) Inl] assms(2,3) c show ?thesis by (simp add: register_def)
  next
    case (Inr r)
    show ?thesis
    proof (cases r)
      case None
      then have "registry_ok ?T" using ok Inr find_ref_cycle_None by (simp add: registry_ok_def)
      with assms(2) c Inr None show ?thesis by (auto simp: register_def)
    next
      case (Some cyc)
      have "(case dget S name of None \<Rightarrow> AList.delete name ?T | Some previous \<Rightarrow> dset name previous ?T) = S"
        using delete_dset [of S name] restore_dset [of S name]
        by (cases "dget S name") (simp_all add: has_key_def)
      with assms c Inr Some show ?thesis by (auto simp: register_def)
    qed
  qed
qed



text \<open>Registration is not atomic for a reference whose name is no string: the shape check
  accepts any truthy name, the cycle search then raises a \<open>TypeError\<close> after the schema was
  stored, and from then on every registration fails with it.\<close>

theorem register_poisoned:
  defines "bad \<equiv> VDict [(''fields'', VDict [(''x'', VDict [(''type'', VStr ''ref''), (''schema'', VList [VInt 1])])])]"
    and "good \<equiv> VDict [(''fields'', VDict [(''x'', VDict [(''type'', VStr ''bool'')])])]"
  shows "register ''bad'' bad [] = (Inl SchemaTypeError, [(''bad'', normalize_schema ''bad'' bad)])
    \<and> fst (register ''good'' good (snd (register ''bad'' bad []))) = Inl SchemaTypeError"
  unfolding bad_def good_def by code_simp

subsection \<open>Value validation\<close>

record validation_error =
  err_path :: string
  err_message :: string
  err_kind :: string

definition verr :: "string \<Rightarrow> string \<Rightarrow> string \<Rightarrow> validation_error" where
  "verr path message kind' = \<lparr>err_path = path, err_message = message, err_kind = kind'\<rparr>"

definition validate_number_bounds :: "pyval \<Rightarrow> pyval dict \<Rightarrow> string \<Rightarrow> validation_error list" where
  "validate_number_bounds value ft path =
     (case get_opt ft ''minimum'' of
        Some lo \<Rightarrow> if py_less value lo
          then [verr path (py_repr value @ '' is below minimum '' @ py_repr lo) ''out_of_range''] else []
      | None \<Rightarrow> [])
     @ (case get_opt ft ''maximum'' of
        Some hi \<Rightarrow> if py_less hi value
          then [verr path (py_repr value @ '' is above maximum '' @ py_repr hi) ''out_of_range''] else []
      | None \<Rightarrow> [])"

definition scalar_ok :: "string \<Rightarrow> pyval \<Rightarrow> bool" where
  "scalar_ok t value =
     (if t = ''bool'' then is_bool value else if t = ''string'' then is_str value else is_number value)"

definition expected :: "string \<Rightarrow> string \<Rightarrow> pyval \<Rightarrow> validation_error list" where
  "expected path what value =
     [verr path (''expected '' @ what @ '', got '' @ type_name value) ''type_mismatch'']"

text \<open>
  \<open>validate_field\<close> and \<open>validate_object_fields\<close> return the errors they append.  A reference
  consumes nothing of the schema but descends into the value, so the recursion is on the value.
\<close>

definition field_path :: "string \<Rightarrow> string \<Rightarrow> string" where
  "field_path path fname = (if path = [] then fname else path @ ''.'' @ fname)"

function validate_field :: "schemas \<Rightarrow> pyval \<Rightarrow> pyval \<Rightarrow> string \<Rightarrow> validation_error list sres"
  and validate_object_fields :: "schemas \<Rightarrow> pyval dict \<Rightarrow> pyval dict \<Rightarrow> string \<Rightarrow> validation_error list sres" where
  "validate_field S value ft path =
     (case ft of
        VDict d \<Rightarrow>
          (let t = (case dget d ''type'' of None \<Rightarrow> VNone | Some v \<Rightarrow> v) in
           rbind (in_scalar_types t) (\<lambda>scalar.
             if scalar then
               (let name = (case t of VStr s \<Rightarrow> s | _ \<Rightarrow> []) in
                if \<not> scalar_ok name value then Inr (expected path name value)
                else if name = ''number'' then Inr (validate_number_bounds value d path)
                else Inr [])
             else if t = VStr ''enum'' then
               rbind (get_item ft ''values'') (\<lambda>vs.
                 case vs of
                   VList xs \<Rightarrow>
                     Inr (if list_ex (py_eq value) xs then []
                          else [verr path (py_repr value @ '' not in '' @ py_repr vs) ''enum_invalid''])
                 | _ \<Rightarrow> Inl SchemaTypeError)
             else if t = VStr ''list'' then
               (case value of
                  VList items \<Rightarrow>
                    (if items = [] then Inr []
                     else rbind (get_item ft ''of'') (\<lambda>e.
                       rbind (traverse (\<lambda>(i, item). validate_field S item e (path @ ''['' @ nat_str i @ '']''))
                           (enumerate 0 items)) (\<lambda>es. Inr (concat es))))
                | _ \<Rightarrow> Inr (expected path ''list'' value))
             else if t = VStr ''object'' then
               (case value of
                  VDict vd \<Rightarrow>
                    rbind (get_item ft ''fields'') (\<lambda>fs.
                      case fs of VDict fs' \<Rightarrow> validate_object_fields S vd fs' path | _ \<Rightarrow> Inl SchemaAttributeError)
                | _ \<Rightarrow> Inr (expected path ''object'' value))
             else if t = VStr ''ref'' then
               rbind (get_item ft ''schema'') (\<lambda>ref_name.
                 case (case ref_name of VStr r \<Rightarrow> dget S r | _ \<Rightarrow> None) of
                   None \<Rightarrow>
                     if hashable ref_name
                     then Inr [verr path (''unresolved ref: '' @ py_str ref_name) ''unresolved_ref'']
                     else Inl SchemaTypeError
                 | Some schema \<Rightarrow>
                     (case value of
                        VDict vd \<Rightarrow>
                          rbind (get_item schema ''fields'') (\<lambda>fs.
                            case fs of VDict fs' \<Rightarrow> validate_object_fields S vd fs' path
                            | _ \<Rightarrow> Inl SchemaAttributeError)
                      | _ \<Rightarrow> Inr (expected path (''object (ref '' @ py_str ref_name @ '')'') value)))
             else Inr [verr path (''unknown field type: '' @ py_repr t) ''unknown_type'']))
      | _ \<Rightarrow> Inl SchemaAttributeError)"
| "validate_object_fields S value flds path =
     rbind (traverse (\<lambda>(fname, ft).
         case dget value fname of
           None \<Rightarrow>
             rbind (get_attr ft ''required'') (\<lambda>req.
               Inr (if (case req of Some r \<Rightarrow> truthy r | None \<Rightarrow> False)
                    then [verr (field_path path fname) ''required field missing'' ''missing_required''] else []))
         | Some fvalue \<Rightarrow> validate_field S fvalue ft (field_path path fname)) flds)
       (\<lambda>es. Inr (concat es))"
  by pat_completeness auto
termination
  by (relation "measure (case_sum (\<lambda>(_, v, _, _). 2 * size v) (\<lambda>(_, d, _, _). 2 * size (VDict d) - 1))")
    (auto simp: in_set_enumerate_eq dest!: dget_size nth_mem list_mem_size)

declare validate_field.simps [simp del] validate_object_fields.simps [simp del]

record validation_result =
  conforming :: bool
  errors :: "validation_error list"

definition find_schema :: "schemas \<Rightarrow> pyval \<Rightarrow> pyval sres" where
  "find_schema S schema = (case schema of VStr name \<Rightarrow> get_schema S name | _ \<Rightarrow> Inr schema)"

definition fields_item :: "pyval \<Rightarrow> pyval dict sres" where
  "fields_item schema =
     rbind (get_item schema ''fields'') (\<lambda>fs. case fs of VDict d \<Rightarrow> Inr d | _ \<Rightarrow> Inl SchemaAttributeError)"

definition validate :: "pyval \<Rightarrow> pyval \<Rightarrow> schemas \<Rightarrow> validation_result sres" where
  "validate value schema S =
     rbind (find_schema S schema) (\<lambda>sch.
       case value of
         VDict vd \<Rightarrow>
           rbind (fields_item sch) (\<lambda>fs.
           rbind (validate_object_fields S vd fs []) (\<lambda>es.
             Inr \<lparr>conforming = (es = []), errors = es\<rparr>))
       | _ \<Rightarrow> Inr \<lparr>conforming = False, errors = expected [] ''object'' value\<rparr>)"

subsection \<open>Conversion to a JSON schema\<close>

text \<open>
  References are expanded inline; the first argument bounds the depth of the expansion (a Python
  recursion on cyclic schemas would not end).
\<close>

function json_field :: "nat \<Rightarrow> schemas \<Rightarrow> pyval \<Rightarrow> pyval sres"
  and json_fields :: "nat \<Rightarrow> schemas \<Rightarrow> pyval dict \<Rightarrow> pyval sres" where
  "json_field n S ft =
     (case ft of
        VDict d \<Rightarrow>
          (let t = (case dget d ''type'' of None \<Rightarrow> VNone | Some v \<Rightarrow> v) in
           if t = VStr ''bool'' then Inr (VDict [(''type'', VStr ''boolean'')])
           else if t = VStr ''string'' then Inr (VDict [(''type'', VStr ''string'')])
           else if t = VStr ''number'' then
             Inr (VDict ([(''type'', VStr ''number'')]
               @ (case get_opt d ''minimum'' of Some lo \<Rightarrow> [(''minimum'', lo)] | None \<Rightarrow> [])
               @ (case get_opt d ''maximum'' of Some hi \<Rightarrow> [(''maximum'', hi)] | None \<Rightarrow> [])))
           else if t = VStr ''enum'' then
             rbind (get_item ft ''values'') (\<lambda>vs.
               case vs of VList xs \<Rightarrow> Inr (VDict [(''enum'', VList xs)]) | _ \<Rightarrow> Inl SchemaTypeError)
           else if t = VStr ''list'' then
             rbind (get_item ft ''of'') (\<lambda>e. rbind (json_field n S e) (\<lambda>j.
               Inr (VDict [(''type'', VStr ''array''), (''items'', j)])))
           else if t = VStr ''object'' then
             rbind (get_item ft ''fields'') (\<lambda>fs.
               case fs of VDict fs' \<Rightarrow> json_fields n S fs' | _ \<Rightarrow> Inl SchemaAttributeError)
           else if t = VStr ''ref'' then
             rbind (get_item ft ''schema'') (\<lambda>ref_name.
               case ref_name of
                 VStr r \<Rightarrow>
                   rbind (get_schema S r) (\<lambda>schema.
                   rbind (fields_item schema) (\<lambda>fs.
                     case n of 0 \<Rightarrow> Inl SchemaRecursionError | Suc m \<Rightarrow> json_fields m S fs))
               | _ \<Rightarrow> if hashable ref_name then Inl SchemaKeyError else Inl SchemaTypeError)
           else Inl (SchemaError (UnknownFieldType ''to_json_schema'' t)))
      | _ \<Rightarrow> Inl SchemaAttributeError)"
| "json_fields n S fs =
     rbind (traverse (\<lambda>(fname, ft).
         rbind (json_field n S ft) (\<lambda>j.
         rbind (get_attr ft ''required'') (\<lambda>req.
           Inr ((fname, j), case req of Some r \<Rightarrow> truthy r | None \<Rightarrow> False)))) fs) (\<lambda>ps.
       let required = map (VStr \<circ> fst \<circ> fst) (filter snd ps) in
       Inr (VDict ([(''type'', VStr ''object''), (''properties'', VDict (dict_of (map fst ps)))]
         @ (if required = [] then [] else [(''required'', VList required)]))))"
  by pat_completeness auto
termination
  by (relation "measures [case_sum (\<lambda>(n, _, _). n) (\<lambda>(n, _, _). n),
        case_sum (\<lambda>(_, _, ft). 2 * size ft) (\<lambda>(_, _, d). 2 * size (VDict d) - 1)]")
    (auto dest!: get_item_size dict_size_mem)

declare json_field.simps [simp del] json_fields.simps [simp del]

definition to_json_schema :: "pyval \<Rightarrow> schemas \<Rightarrow> pyval sres" where
  "to_json_schema schema S =
     rbind (find_schema S schema) (\<lambda>sch. rbind (fields_item sch) (json_fields (length S) S))"

subsection \<open>Static path resolution\<close>

function fields_of :: "pyval \<Rightarrow> schemas \<Rightarrow> pyval dict option sres" where
  "fields_of ft S =
     rbind (get_attr ft ''type'') (\<lambda>t.
       if t = Some (VStr ''object'') then rbind (fields_item ft) (\<lambda>d. Inr (Some d))
       else if t = Some (VStr ''ref'') then
         rbind (get_item ft ''schema'') (\<lambda>ref_name.
           case ref_name of
             VStr r \<Rightarrow>
               (case dget S r of
                  None \<Rightarrow> Inr None
                | Some schema \<Rightarrow> rbind (fields_item schema) (\<lambda>d. Inr (Some d)))
           | _ \<Rightarrow> if hashable ref_name then Inr None else Inl SchemaTypeError)
       else if t = Some (VStr ''list'') then rbind (get_item ft ''of'') (\<lambda>e. fields_of e S)
       else Inr None)"
  by pat_completeness auto
termination
  by (relation "measure (\<lambda>(ft, _). size ft)") (auto dest: get_item_size)

declare fields_of.simps [simp del]

fun resolve_parts :: "schemas \<Rightarrow> pyval dict \<Rightarrow> string list \<Rightarrow> pyval option sres" where
  "resolve_parts S flds [] = Inr None"
| "resolve_parts S flds [part] = Inr (dget flds part)"
| "resolve_parts S flds (part # p2 # parts) =
     (case dget flds part of
        None \<Rightarrow> Inr None
      | Some current \<Rightarrow>
          rbind (fields_of current S) (\<lambda>nested.
            case nested of
              None \<Rightarrow> Inr None
            | Some fs \<Rightarrow> resolve_parts S fs (p2 # parts)))"

definition resolve_schema_path :: "pyval \<Rightarrow> string \<Rightarrow> schemas \<Rightarrow> pyval option sres" where
  "resolve_schema_path schema path S =
     rbind (find_schema S schema) (\<lambda>sch.
     rbind (fields_item sch) (\<lambda>fs. resolve_parts S fs (split_on CHR ''.'' path)))"

end
