(* ===== verification/SchemaSem.thy ===== *)
theory SchemaSem
  imports Schema
begin

section \<open>What a schema means\<close>

text \<open>
  The declarative meaning of a schema, as rules, and the theorems that validation, the JSON
  schema conversion and the static path resolution of theory Schema implement it on a registry
  in order.
\<close>

definition required_field :: "pyval \<Rightarrow> bool" where
  "required_field ft = (case vget ft ''required'' of Some r \<Rightarrow> truthy r | None \<Rightarrow> False)"

definition in_bounds :: "pyval \<Rightarrow> pyval dict \<Rightarrow> bool" where
  "in_bounds v d \<longleftrightarrow>
     (\<forall>lo. get_opt d ''minimum'' = Some lo \<longrightarrow> \<not> py_less v lo)
     \<and> (\<forall>hi. get_opt d ''maximum'' = Some hi \<longrightarrow> \<not> py_less hi v)"

inductive conforms :: "schemas \<Rightarrow> pyval \<Rightarrow> pyval \<Rightarrow> bool"
  and conforms_fields :: "schemas \<Rightarrow> pyval dict \<Rightarrow> pyval dict \<Rightarrow> bool" for S where
  conf_bool: "dget d ''type'' = Some (VStr ''bool'') \<Longrightarrow> is_bool v \<Longrightarrow> conforms S v (VDict d)"
| conf_string: "dget d ''type'' = Some (VStr ''string'') \<Longrightarrow> is_str v \<Longrightarrow> conforms S v (VDict d)"
| conf_number: "dget d ''type'' = Some (VStr ''number'') \<Longrightarrow> is_number v \<Longrightarrow> in_bounds v d
    \<Longrightarrow> conforms S v (VDict d)"
| conf_enum: "dget d ''type'' = Some (VStr ''enum'') \<Longrightarrow> dget d ''values'' = Some (VList xs)
    \<Longrightarrow> list_ex (py_eq v) xs \<Longrightarrow> conforms S v (VDict d)"
| conf_list: "dget d ''type'' = Some (VStr ''list'') \<Longrightarrow> dget d ''of'' = Some e
    \<Longrightarrow> \<forall>x\<in>set items. conforms S x e \<Longrightarrow> conforms S (VList items) (VDict d)"
| conf_object: "dget d ''type'' = Some (VStr ''object'') \<Longrightarrow> dget d ''fields'' = Some (VDict fs)
    \<Longrightarrow> conforms_fields S vd fs \<Longrightarrow> conforms S (VDict vd) (VDict d)"
| conf_ref: "dget d ''type'' = Some (VStr ''ref'') \<Longrightarrow> dget d ''schema'' = Some (VStr r)
    \<Longrightarrow> dget S r = Some schema \<Longrightarrow> fields_item schema = Inr fs
    \<Longrightarrow> conforms_fields S vd fs \<Longrightarrow> conforms S (VDict vd) (VDict d)"
| conf_fields: "\<forall>f\<in>set fs. (dget vd (fst f) = None \<longrightarrow> \<not> required_field (snd f))
      \<and> (\<forall>x. dget vd (fst f) = Some x \<longrightarrow> conforms S x (snd f))
    \<Longrightarrow> conforms_fields S vd fs"

inductive_simps conforms_fields_iff: "conforms_fields S vd fs"

text \<open>By the declared type, conformance and validation.\<close>

lemma conforms_simps:
  "dget d ''type'' = Some (VStr ''bool'') \<Longrightarrow> conforms S v (VDict d) \<longleftrightarrow> is_bool v"
  "dget d ''type'' = Some (VStr ''string'') \<Longrightarrow> conforms S v (VDict d) \<longleftrightarrow> is_str v"
  "dget d ''type'' = Some (VStr ''number'') \<Longrightarrow> conforms S v (VDict d) \<longleftrightarrow> is_number v \<and> in_bounds v d"
  "dget d ''type'' = Some (VStr ''enum'') \<Longrightarrow> conforms S v (VDict d)
     \<longleftrightarrow> (\<exists>xs. dget d ''values'' = Some (VList xs) \<and> list_ex (py_eq v) xs)"
  "dget d ''type'' = Some (VStr ''list'') \<Longrightarrow> conforms S v (VDict d)
     \<longleftrightarrow> (\<exists>e items. dget d ''of'' = Some e \<and> v = VList items \<and> (\<forall>x\<in>set items. conforms S x e))"
  "dget d ''type'' = Some (VStr ''object'') \<Longrightarrow> conforms S v (VDict d)
     \<longleftrightarrow> (\<exists>fs vd. dget d ''fields'' = Some (VDict fs) \<and> v = VDict vd \<and> conforms_fields S vd fs)"
  "dget d ''type'' = Some (VStr ''ref'') \<Longrightarrow> conforms S v (VDict d)
     \<longleftrightarrow> (\<exists>r schema fs vd. dget d ''schema'' = Some (VStr r) \<and> dget S r = Some schema
          \<and> fields_item schema = Inr fs \<and> v = VDict vd \<and> conforms_fields S vd fs)"
  by (subst conforms.simps, fastforce)+

lemma validate_simps:
  "dget d ''type'' = Some (VStr ''bool'') \<Longrightarrow> validate_field S v (VDict d) p
     = Inr (if is_bool v then [] else expected p ''bool'' v)"
  "dget d ''type'' = Some (VStr ''string'') \<Longrightarrow> validate_field S v (VDict d) p
     = Inr (if is_str v then [] else expected p ''string'' v)"
  "dget d ''type'' = Some (VStr ''number'') \<Longrightarrow> validate_field S v (VDict d) p
     = Inr (if is_number v then validate_number_bounds v d p else expected p ''number'' v)"
  "dget d ''type'' = Some (VStr ''enum'') \<Longrightarrow> dget d ''values'' = Some (VList xs) \<Longrightarrow>
     validate_field S v (VDict d) p
     = Inr (if list_ex (py_eq v) xs then []
            else [verr p (py_repr v @ '' not in '' @ py_repr (VList xs)) ''enum_invalid''])"
  "dget d ''type'' = Some (VStr ''list'') \<Longrightarrow> dget d ''of'' = Some e \<Longrightarrow> validate_field S v (VDict d) p
     = (case v of
          VList items \<Rightarrow>
            rbind (traverse (\<lambda>(i, item). validate_field S item e (p @ ''['' @ nat_str i @ '']''))
              (enumerate 0 items)) (\<lambda>es. Inr (concat es))
        | _ \<Rightarrow> Inr (expected p ''list'' v))"
  "dget d ''type'' = Some (VStr ''object'') \<Longrightarrow> dget d ''fields'' = Some (VDict fs) \<Longrightarrow>
     validate_field S v (VDict d) p
     = (case v of VDict vd \<Rightarrow> validate_object_fields S vd fs p | _ \<Rightarrow> Inr (expected p ''object'' v))"
  "dget d ''type'' = Some (VStr ''ref'') \<Longrightarrow> dget d ''schema'' = Some n \<Longrightarrow>
     validate_field S v (VDict d) p
     = (case (case n of VStr r \<Rightarrow> dget S r | _ \<Rightarrow> None) of
          None \<Rightarrow> if hashable n then Inr [verr p (''unresolved ref: '' @ py_str n) ''unresolved_ref'']
                  else Inl SchemaTypeError
        | Some schema \<Rightarrow>
            (case v of
               VDict vd \<Rightarrow> rbind (fields_item schema) (\<lambda>fs. validate_object_fields S vd fs p)
             | _ \<Rightarrow> Inr (expected p (''object (ref '' @ py_str n @ '')'') v)))"
  by (subst validate_field.simps,
      simp add: in_scalar_types_def hashable_def SCALAR_TYPES_def scalar_ok_def get_item_def fields_item_def
        split: pyval.split option.split)+

subsection \<open>Validation decides conformance\<close>

text \<open>
  \<open>refs_ok\<close>: every reference inside a field type can be hashed (looked up); a registry in order
  has this for all its schemas.
\<close>

definition refs_ok :: "pyval \<Rightarrow> bool" where
  "refs_ok ft \<longleftrightarrow> (\<exists>rs. direct_refs ft = Inr rs)"

lemma refs_ok_simps:
  "dget d ''type'' = Some (VStr ''list'') \<Longrightarrow> dget d ''of'' = Some e \<Longrightarrow> refs_ok (VDict d) \<longleftrightarrow> refs_ok e"
  "dget d ''type'' = Some (VStr ''object'') \<Longrightarrow> dget d ''fields'' = Some (VDict fs)
     \<Longrightarrow> refs_ok (VDict d) \<longleftrightarrow> (\<forall>f\<in>set fs. refs_ok (snd f))"
  "dget d ''type'' = Some (VStr ''ref'') \<Longrightarrow> dget d ''schema'' = Some n \<Longrightarrow> refs_ok (VDict d) \<longleftrightarrow> hashable n"
proof -
  assume "dget d ''type'' = Some (VStr ''list'')" "dget d ''of'' = Some e"
  then show "refs_ok (VDict d) \<longleftrightarrow> refs_ok e"
    unfolding refs_ok_def by (subst direct_refs.simps) (simp add: get_attr_def get_item_def)
next
  assume "dget d ''type'' = Some (VStr ''object'')" "dget d ''fields'' = Some (VDict fs)"
  then have "refs_ok (VDict d) \<longleftrightarrow> (\<exists>rs. traverse (\<lambda>(_, sub). direct_refs sub) fs = Inr rs)"
    unfolding refs_ok_def by (subst direct_refs.simps) (auto simp: get_attr_def get_item_def)
  also have "\<dots> \<longleftrightarrow> (\<forall>f\<in>set fs. refs_ok (snd f))"
    unfolding refs_ok_def by (induction fs) auto
  finally show "refs_ok (VDict d) \<longleftrightarrow> (\<forall>f\<in>set fs. refs_ok (snd f))" .
next
  assume "dget d ''type'' = Some (VStr ''ref'')" "dget d ''schema'' = Some n"
  then show "refs_ok (VDict d) \<longleftrightarrow> hashable n"
    unfolding refs_ok_def by (subst direct_refs.simps) (auto simp: get_attr_def get_item_def)
qed

lemma registry_entry:
  assumes "registry_ok S" and "dget S a = Some schema"
  obtains fs where "fields_item schema = Inr fs" and "\<forall>f\<in>set fs. field_shaped True (snd f) \<and> refs_ok (snd f)"
proof -
  have "schema_shaped schema" using assms by (auto simp: registry_ok_def dest: dget_mem)
  then obtain d fs where d: "schema = VDict d" "dget d ''fields'' = Some (VDict fs)"
    and f: "\<forall>f\<in>set fs. field_shaped True (snd f)"
    by (auto simp: schema_shaped_def)
  have "has_key S a" using assms(2) by (simp add: has_key_def)
  then obtain rs where "node_refs S a = Inr rs" using assms(1) by (auto simp: registry_ok_def)
  then obtain rs' where "traverse (\<lambda>(_, ft). direct_refs ft) fs = Inr rs'"
    using assms(2) d by (auto simp: node_refs_def schema_direct_refs_def get_item_def)
  then have "\<forall>f\<in>set fs. refs_ok (snd f)"
    unfolding refs_ok_def by (induction fs arbitrary: rs') auto
  with f d that show ?thesis by (simp add: fields_item_def get_item_def)
qed

lemma bounds_nil: "validate_number_bounds v d p = [] \<longleftrightarrow> in_bounds v d"
  by (auto simp: validate_number_bounds_def in_bounds_def split: option.splits)

lemma expected_not_nil [simp]: "expected p w v \<noteq> []"
  by (simp add: expected_def)

lemma traverse_concat_nil:
  assumes "\<forall>x\<in>set xs. \<exists>es. f x = Inr es \<and> (es = [] \<longleftrightarrow> P x)"
  shows "\<exists>es. rbind (traverse f xs) (\<lambda>es. Inr (concat es)) = Inr es \<and> (es = [] \<longleftrightarrow> (\<forall>x\<in>set xs. P x))"
  using assms by (induction xs) fastforce+

definition field_good :: "schemas \<Rightarrow> pyval \<Rightarrow> pyval \<Rightarrow> bool" where
  "field_good S v ft \<longleftrightarrow>
     (\<forall>p. \<exists>es. validate_field S v ft p = Inr es \<and> (es = [] \<longleftrightarrow> conforms S v ft))"

lemma fields_good:
  assumes "\<forall>f\<in>set fs. (\<exists>d. snd f = VDict d) \<and> (\<forall>x. dget vd (fst f) = Some x \<longrightarrow> field_good S x (snd f))"
  shows "\<exists>es. validate_object_fields S vd fs p = Inr es \<and> (es = [] \<longleftrightarrow> conforms_fields S vd fs)"
proof -
  let ?P = "\<lambda>f. (dget vd (fst f) = None \<longrightarrow> \<not> required_field (snd f))
      \<and> (\<forall>x. dget vd (fst f) = Some x \<longrightarrow> conforms S x (snd f))"
  let ?g = "\<lambda>(fname, ft). case dget vd fname of
           None \<Rightarrow>
             rbind (get_attr ft ''required'') (\<lambda>req.
               Inr (if (case req of Some r \<Rightarrow> truthy r | None \<Rightarrow> False)
                    then [verr (field_path p fname) ''required field missing'' ''missing_required''] else []))
         | Some fvalue \<Rightarrow> validate_field S fvalue ft (field_path p fname)"
  have "\<forall>f\<in>set fs. \<exists>es. ?g f = Inr es \<and> (es = [] \<longleftrightarrow> ?P f)"
  proof
    fix f assume f: "f \<in> set fs"
    obtain k ft where kf: "f = (k, ft)" by force
    from assms f kf obtain d where d: "ft = VDict d" by auto
    show "\<exists>es. ?g f = Inr es \<and> (es = [] \<longleftrightarrow> ?P f)"
    proof (cases "dget vd k")
      case None
      then show ?thesis by (auto simp: kf d get_attr_def required_field_def)
    next
      case (Some x)
      with assms f kf have "field_good S x ft" by auto
      with Some show ?thesis by (auto simp: kf field_good_def)
    qed
  qed
  from traverse_concat_nil [OF this] show ?thesis
    by (simp add: validate_object_fields.simps conforms_fields_iff)
qed

lemma field_shaped_dict: "field_shaped al ft \<Longrightarrow> \<exists>d. ft = VDict d"
  by (induction rule: field_shaped.induct) auto

lemma validate_field_good:
  assumes S: "registry_ok S"
  shows "field_shaped al ft \<Longrightarrow> refs_ok ft \<Longrightarrow> field_good S v ft"
proof (induction "size v" arbitrary: v al ft rule: less_induct)
  case less
  have sub: "\<exists>es. validate_object_fields S vd fs p = Inr es \<and> (es = [] \<longleftrightarrow> conforms_fields S vd fs)"
    if "v = VDict vd" "\<forall>f\<in>set fs. field_shaped True (snd f) \<and> refs_ok (snd f)" for vd fs p
    using that less.hyps dget_size field_shaped_dict by (intro fields_good) blast
  from less.prems(1) show ?case
  proof (cases rule: field_shaped.cases)
    case (fs_bool d)
    then show ?thesis by (simp add: field_good_def validate_simps conforms_simps)
  next
    case (fs_string d)
    then show ?thesis by (simp add: field_good_def validate_simps conforms_simps)
  next
    case (fs_number d)
    then show ?thesis by (simp add: field_good_def validate_simps conforms_simps bounds_nil)
  next
    case (fs_enum d vs)
    then show ?thesis by (simp add: field_good_def validate_simps conforms_simps)
  next
    case (fs_list d e)
    show ?thesis
    proof (cases v)
      case (VList items)
      have "field_good S x e" if "x \<in> set items" for x
        using less.hyps [OF _ fs_list(5)] list_mem_size [OF that] less.prems(2) refs_ok_simps(1) [OF fs_list(3,4)]
        by (simp add: fs_list VList)
      then have "\<forall>y\<in>set (enumerate 0 items). \<exists>es. (case y of (i, item) \<Rightarrow>
            validate_field S item e (p @ ''['' @ nat_str i @ '']'')) = Inr es \<and> (es = [] \<longleftrightarrow> conforms S (snd y) e)" for p
        by (auto simp: field_good_def in_set_enumerate_eq)
      note loop = traverse_concat_nil [OF this]
      have "(\<forall>y\<in>set (enumerate 0 items). conforms S (snd y) e) \<longleftrightarrow> (\<forall>x\<in>set (map snd (enumerate 0 items)). conforms S x e)"
        by (auto simp del: map_snd_enumerate)
      then have "(\<forall>y\<in>set (enumerate 0 items). conforms S (snd y) e) \<longleftrightarrow> (\<forall>x\<in>set items. conforms S x e)"
        by (simp only: map_snd_enumerate)
      with loop show ?thesis
        using fs_list by (simp add: field_good_def validate_simps conforms_simps VList del: rbind_eq_Inr)
    qed (use fs_list in \<open>auto simp: field_good_def validate_simps conforms_simps\<close>)
  next
    case (fs_object d fs)
    have f: "\<forall>f\<in>set fs. field_shaped True (snd f) \<and> refs_ok (snd f)"
      using fs_object less.prems(2) refs_ok_simps(2) by auto
    show ?thesis
    proof (cases v)
      case (VDict vd)
      with sub [OF VDict f] fs_object show ?thesis
        by (auto simp: field_good_def validate_simps conforms_simps)
    qed (use fs_object in \<open>auto simp: field_good_def validate_simps conforms_simps\<close>)
  next
    case (fs_ref d n)
    have h: "hashable n" using fs_ref less.prems(2) refs_ok_simps(3) by auto
    show ?thesis
    proof (cases "case n of VStr r \<Rightarrow> dget S r | _ \<Rightarrow> None")
      case None
      then show ?thesis using fs_ref h
        by (auto simp: field_good_def validate_simps conforms_simps split: pyval.splits)
    next
      case (Some schema)
      then obtain r where r: "n = VStr r" "dget S r = Some schema" by (auto split: pyval.splits)
      from registry_entry [OF S r(2)] obtain fs where fs: "fields_item schema = Inr fs"
        "\<forall>f\<in>set fs. field_shaped True (snd f) \<and> refs_ok (snd f)" .
      show ?thesis
      proof (cases v)
        case (VDict vd)
        with sub [OF VDict fs(2)] fs_ref fs(1) r show ?thesis
          by (auto simp: field_good_def validate_simps conforms_simps)
      qed (use fs_ref r in \<open>auto simp: field_good_def validate_simps conforms_simps\<close>)
    qed
  qed
qed

text \<open>A registry of two schemas, for the witnesses: \<open>a\<close> holds a list of \<open>b\<close>.\<close>

definition demo_registry :: schemas where
  "demo_registry =
     [(''b'', VDict [(''fields'', VDict [(''x'', VDict [(''type'', VStr ''bool'')])]), (''name'', VStr ''b'')]),
      (''a'', VDict [(''fields'', VDict [(''ys'', VDict [(''type'', VStr ''list''),
         (''of'', VDict [(''type'', VStr ''ref''), (''schema'', VStr ''b'')])])]), (''name'', VStr ''a'')])]"

lemma demo_registry_ok: "registry_ok demo_registry"
proof -
  let ?b = "snd (demo_registry ! 0)" and ?a = "snd (demo_registry ! 1)"
  have b: "register ''b'' ?b [] = (Inr (), [demo_registry ! 0])"
    unfolding demo_registry_def by code_simp
  have a: "register ''a'' ?a [demo_registry ! 0] = (Inr (), demo_registry)"
    unfolding demo_registry_def by code_simp
  have "registry_ok [demo_registry ! 0]"
    using register_atomic [OF registry_ok_Nil b] by simp
  then show ?thesis using register_atomic [OF _ a] by simp
qed

lemma demo_lookup: "dget demo_registry ''a'' = Some (the (dget demo_registry ''a''))"
  by (simp add: demo_registry_def)

text \<open>C34: Against a registered schema of a registry in order, validation never raises, and its
  result is conforming exactly if the value is an object whose fields conform to the declarative
  meaning of the schema.\<close>

theorem validate_decides_conformance:
  assumes "registry_ok S" and "dget S name = Some schema"
  shows "\<exists>r fs. validate v (VStr name) S = Inr r \<and> fields_item schema = Inr fs
    \<and> (conforming r \<longleftrightarrow> (\<exists>vd. v = VDict vd \<and> conforms_fields S vd fs))"
proof -
  from registry_entry [OF assms] obtain fs where fs: "fields_item schema = Inr fs"
    "\<forall>f\<in>set fs. field_shaped True (snd f) \<and> refs_ok (snd f)" .
  show ?thesis
  proof (cases v)
    case (VDict vd)
    have "\<exists>es. validate_object_fields S vd fs [] = Inr es \<and> (es = [] \<longleftrightarrow> conforms_fields S vd fs)"
      using fs(2) validate_field_good [OF assms(1)] field_shaped_dict by (intro fields_good) blast
    with assms(2) fs(1) VDict show ?thesis
      by (auto simp: validate_def find_schema_def get_schema_def)
  qed (use assms(2) fs(1) in \<open>auto simp: validate_def find_schema_def get_schema_def\<close>)
qed

theorem validate_decides_conformance_witness:
  "\<exists>r fs. validate (VDict [(''ys'', VList [])]) (VStr ''a'') demo_registry = Inr r
    \<and> fields_item (the (dget demo_registry ''a'')) = Inr fs
    \<and> (conforming r \<longleftrightarrow> (\<exists>vd. VDict [(''ys'', VList [])] = VDict vd \<and> conforms_fields demo_registry vd fs))"
  by (rule validate_decides_conformance [OF demo_registry_ok demo_lookup])

subsection \<open>The JSON schema conversion terminates\<close>

definition ref_names :: "pyval \<Rightarrow> string set" where
  "ref_names ft = {r. \<exists>rs. direct_refs ft = Inr rs \<and> VStr r \<in> set rs}"

definition reach :: "schemas \<Rightarrow> string \<Rightarrow> string set" where
  "reach S a = {b. (a, b) \<in> (ref_edges S)\<^sup>+}"

lemma ref_names_list: "dget d ''type'' = Some (VStr ''list'') \<Longrightarrow> dget d ''of'' = Some e
    \<Longrightarrow> ref_names (VDict d) = ref_names e"
  unfolding ref_names_def by (subst direct_refs.simps) (simp add: get_attr_def get_item_def)

lemma ref_names_ref: "dget d ''type'' = Some (VStr ''ref'') \<Longrightarrow> dget d ''schema'' = Some (VStr r) \<Longrightarrow> r \<in> ref_names (VDict d)"
  unfolding ref_names_def by (subst direct_refs.simps) (simp add: get_attr_def get_item_def hashable_def)

lemma traverse_concat_mem: "traverse f xs = Inr yss \<Longrightarrow> x \<in> set xs \<Longrightarrow> f x = Inr ys \<Longrightarrow> set ys \<subseteq> set (concat yss)"
  by (induction xs arbitrary: yss) fastforce+

lemma direct_refs_object: "dget d ''type'' = Some (VStr ''object'') \<Longrightarrow> dget d ''fields'' = Some (VDict fs) \<Longrightarrow>
    direct_refs (VDict d) = rbind (traverse (\<lambda>(_, sub). direct_refs sub) fs) (\<lambda>rs. Inr (concat rs))"
  by (subst direct_refs.simps) (simp add: get_attr_def get_item_def)

lemma ref_names_object:
  assumes "dget d ''type'' = Some (VStr ''object'')" "dget d ''fields'' = Some (VDict fs)"
    and "refs_ok (VDict d)" "f \<in> set fs"
  shows "ref_names (snd f) \<subseteq> ref_names (VDict d)"
proof -
  from assms obtain yss where t: "traverse (\<lambda>(_, sub). direct_refs sub) fs = Inr yss"
    and d: "direct_refs (VDict d) = Inr (concat yss)"
    unfolding refs_ok_def by (auto simp: direct_refs_object)
  show ?thesis
    using traverse_concat_mem [OF t assms(4)] by (fastforce simp: ref_names_def d split: prod.splits)
qed

lemma finite_reach: "finite (reach S a)" and card_reach: "card (reach S a) \<le> length S"
proof -
  have sub: "reach S a \<subseteq> set (dkeys S)"
    by (auto simp: reach_def ref_edges_def has_key_dkeys [symmetric] elim: tranclE)
  then show "finite (reach S a)" by (rule finite_subset) simp
  have "card (reach S a) \<le> card (set (dkeys S))" using sub by (rule card_mono [rotated]) simp
  also have "\<dots> \<le> length S" using card_length [of "dkeys S"] by (simp add: dkeys_def)
  finally show "card (reach S a) \<le> length S" .
qed

lemma reach_smaller:
  assumes "acyclic (ref_edges S)" and "(a, r) \<in> ref_edges S"
  shows "card (reach S r) < card (reach S a)"
proof (rule psubset_card_mono [OF finite_reach])
  have "r \<in> reach S a" "reach S r \<subseteq> reach S a"
    using assms(2) by (auto simp: reach_def intro: trancl_into_trancl2)
  moreover have "r \<notin> reach S r" using assms(1) by (simp add: reach_def acyclic_def)
  ultimately show "reach S r \<subset> reach S a" by blast
qed

lemma schema_ref_names:
  assumes S: "registry_ok S" and a: "dget S a = Some schema" and fs: "fields_item schema = Inr fs"
    and f: "f \<in> set fs" and r: "r \<in> ref_names (snd f)" and k: "has_key S r"
  shows "(a, r) \<in> ref_edges S"
proof -
  have "has_key S a" using a by (simp add: has_key_def)
  then obtain names where n: "node_refs S a = Inr names" using S by (auto simp: registry_ok_def)
  with a fs obtain yss where t: "traverse (\<lambda>(_, ft). direct_refs ft) fs = Inr yss" and so: "sorted_refs (concat yss) = Inr names"
    by (auto simp: node_refs_def schema_direct_refs_def fields_item_def split: sum.splits pyval.splits)
  have mem: "VStr r \<in> set (concat yss)"
    using traverse_concat_mem [OF t f] r by (fastforce simp: ref_names_def split: prod.splits)
  have "list_all is_str (concat yss)"
  proof (rule ccontr)
    assume no: "\<not> list_all is_str (concat yss)"
    then obtain x where x: "x \<in> set (concat yss)" "\<not> is_str x" by (auto simp: list_all_iff)
    have "\<not> list_all numeric (concat yss)"
    proof
      assume "list_all numeric (concat yss)"
      then have "numeric (VStr r)" using mem unfolding list_all_iff by blast
      then show False by (simp add: numeric_def)
    qed
    with so no have "length (remdups (concat yss)) \<le> 1" by (auto simp: sorted_refs_def split: if_splits)
    then have "card (set (concat yss)) \<le> 1" by (simp add: length_remdups_card_conv)
    moreover have "{x, VStr r} \<subseteq> set (concat yss)" "x \<noteq> VStr r" using x mem by auto
    ultimately show False using card_mono [of "set (concat yss)" "{x, VStr r}"] by simp
  qed
  with so mem have "r \<in> set names" by (force simp: sorted_refs_def)
  with n k show ?thesis by (auto simp: ref_edges_def)
qed

definition json_ok :: "'a sres \<Rightarrow> bool" where
  "json_ok x \<longleftrightarrow> (\<exists>j. x = Inr j) \<or> x = Inl SchemaKeyError"

lemma json_ok_rbind: "json_ok m \<Longrightarrow> (\<And>a. m = Inr a \<Longrightarrow> json_ok (f a)) \<Longrightarrow> json_ok (rbind m f)"
  by (auto simp: json_ok_def)

lemma json_ok_Inr [simp]: "json_ok (Inr a)"
  by (simp add: json_ok_def)

lemma json_ok_traverse: "\<forall>x\<in>set xs. json_ok (f x) \<Longrightarrow> json_ok (traverse f xs)"
  by (induction xs) (auto intro!: json_ok_rbind)

lemma json_simps:
  "dget d ''type'' = Some (VStr ''bool'') \<Longrightarrow> json_ok (json_field n S (VDict d))"
  "dget d ''type'' = Some (VStr ''string'') \<Longrightarrow> json_ok (json_field n S (VDict d))"
  "dget d ''type'' = Some (VStr ''number'') \<Longrightarrow> json_ok (json_field n S (VDict d))"
  "dget d ''type'' = Some (VStr ''enum'') \<Longrightarrow> dget d ''values'' = Some (VList xs) \<Longrightarrow> json_ok (json_field n S (VDict d))"
  "dget d ''type'' = Some (VStr ''list'') \<Longrightarrow> dget d ''of'' = Some e \<Longrightarrow> json_field n S (VDict d)
     = rbind (json_field n S e) (\<lambda>j. Inr (VDict [(''type'', VStr ''array''), (''items'', j)]))"
  "dget d ''type'' = Some (VStr ''object'') \<Longrightarrow> dget d ''fields'' = Some (VDict fs) \<Longrightarrow>
     json_field n S (VDict d) = json_fields n S fs"
  "dget d ''type'' = Some (VStr ''ref'') \<Longrightarrow> dget d ''schema'' = Some x \<Longrightarrow>
     json_field n S (VDict d)
     = (case x of
          VStr r \<Rightarrow>
            rbind (get_schema S r) (\<lambda>schema.
            rbind (fields_item schema) (\<lambda>fs.
              case n of 0 \<Rightarrow> Inl SchemaRecursionError | Suc m \<Rightarrow> json_fields m S fs))
        | _ \<Rightarrow> if hashable x then Inl SchemaKeyError else Inl SchemaTypeError)"
  by (subst json_field.simps, simp add: get_item_def json_ok_def split: option.splits)+

lemma json_fields_ok: "\<forall>f\<in>set fs. (\<exists>d. snd f = VDict d) \<and> json_ok (json_field n S (snd f)) \<Longrightarrow> json_ok (json_fields n S fs)"
  by (subst json_fields.simps)
    (fastforce intro!: json_ok_rbind json_ok_traverse simp: Let_def get_attr_def split: prod.splits)

lemma json_field_ok:
  assumes S: "registry_ok S"
  shows "field_shaped al ft \<Longrightarrow> refs_ok ft \<Longrightarrow> (\<And>r. r \<in> ref_names ft \<Longrightarrow> has_key S r \<Longrightarrow> card (reach S r) < n)
    \<Longrightarrow> json_ok (json_field n S ft)"
proof (induction n arbitrary: al ft rule: less_induct)
  case (less n)
  from less.prems show ?case
  proof (induction rule: field_shaped.induct)
    case (fs_list d e)
    then show ?case
      using refs_ok_simps(1) [of d e] ref_names_list [of d e] by (auto simp: json_simps intro!: json_ok_rbind)
  next
    case (fs_object d fs al)
    have "json_ok (json_field n S (snd f))" if "f \<in> set fs" for f
      using fs_object that refs_ok_simps(2) [OF fs_object.hyps(1,2)]
        ref_names_object [OF fs_object.hyps(1,2) fs_object.prems(1) that] by blast
    moreover have "\<exists>d. snd f = VDict d" if "f \<in> set fs" for f
      using fs_object.IH that field_shaped_dict by blast
    ultimately show ?case using fs_object.hyps by (simp add: json_simps json_fields_ok)
  next
    case (fs_ref d x al)
    have h: "hashable x" using refs_ok_simps(3) [OF fs_ref.hyps(1,2)] fs_ref.prems(1) by simp
    show ?case
    proof (cases "\<exists>r schema. x = VStr r \<and> dget S r = Some schema")
      case False
      then show ?thesis using fs_ref.hyps h
        by (auto simp: json_simps json_ok_def get_schema_def split: pyval.splits option.splits)
    next
      case True
      then obtain r schema where r: "x = VStr r" "dget S r = Some schema" by blast
      from registry_entry [OF S r(2)] obtain fs where fs: "fields_item schema = Inr fs"
        "\<forall>f\<in>set fs. field_shaped True (snd f) \<and> refs_ok (snd f)" .
      have "card (reach S r) < n"
        using fs_ref.prems(2) [of r] ref_names_ref fs_ref.hyps r by (simp add: has_key_def)
      then obtain m where m: "n = Suc m" "card (reach S r) \<le> m" by (cases n) auto
      have "json_ok (json_field m S (snd f))" if f: "f \<in> set fs" for f
      proof (rule less.IH)
        fix q assume "q \<in> ref_names (snd f)" "has_key S q"
        then have "(r, q) \<in> ref_edges S" using schema_ref_names [OF S r(2) fs(1) f] by blast
        then show "card (reach S q) < m" using reach_smaller S m(2) by (fastforce simp: registry_ok_def)
      qed (use m fs(2) f in auto)
      then have "json_ok (json_fields m S fs)"
        using fs(2) field_shaped_dict by (intro json_fields_ok) blast
      then show ?thesis using fs_ref.hyps r fs(1) m by (simp add: json_simps get_schema_def)
    qed
  qed (auto simp: json_simps)
qed

text \<open>The JSON schema conversion of a registered schema terminates: on a registry in order it
  returns a JSON schema, or raises the \<open>KeyError\<close> of a reference to a schema that is not
  registered; the inline expansion never recurses without end.\<close>

theorem to_json_schema_terminates:
  assumes S: "registry_ok S" and a: "dget S name = Some schema"
  shows "(\<exists>j. to_json_schema (VStr name) S = Inr j) \<or> to_json_schema (VStr name) S = Inl SchemaKeyError"
proof -
  from registry_entry [OF S a] obtain fs where fs: "fields_item schema = Inr fs"
    "\<forall>f\<in>set fs. field_shaped True (snd f) \<and> refs_ok (snd f)" .
  have "json_ok (json_field (length S) S (snd f))" if f: "f \<in> set fs" for f
  proof (rule json_field_ok [OF S])
    fix q assume "q \<in> ref_names (snd f)" "has_key S q"
    then have "(name, q) \<in> ref_edges S" using schema_ref_names [OF S a fs(1) f] by blast
    then show "card (reach S q) < length S"
      using reach_smaller [of S name q] card_reach [of S name] S by (simp add: registry_ok_def)
  qed (use fs(2) f in auto)
  then have "json_ok (json_fields (length S) S fs)"
    using fs(2) field_shaped_dict by (intro json_fields_ok) blast
  then show ?thesis
    using a fs(1) by (simp add: to_json_schema_def find_schema_def get_schema_def json_ok_def)
qed

theorem to_json_schema_terminates_witness:
  "(\<exists>j. to_json_schema (VStr ''a'') demo_registry = Inr j)
    \<or> to_json_schema (VStr ''a'') demo_registry = Inl SchemaKeyError"
  by (rule to_json_schema_terminates [OF demo_registry_ok demo_lookup])

subsection \<open>Static path resolution is sound\<close>

text \<open>
  The values a dotted path denotes in a value: the value of the last segment, below the object,
  or below every object of the list, that each earlier segment holds.
\<close>

definition dicts_in :: "pyval \<Rightarrow> pyval dict list" where
  "dicts_in v =
     (case v of
        VDict d \<Rightarrow> [d]
      | VList vs \<Rightarrow> map (\<lambda>v. case v of VDict d \<Rightarrow> d | _ \<Rightarrow> []) (filter is_dict vs)
      | _ \<Rightarrow> [])"

fun values_at :: "pyval dict \<Rightarrow> string list \<Rightarrow> pyval list" where
  "values_at vd [] = []"
| "values_at vd [p] = (case dget vd p of None \<Rightarrow> [] | Some v \<Rightarrow> [v])"
| "values_at vd (p # q # ps) =
     (case dget vd p of None \<Rightarrow> [] | Some v \<Rightarrow> concat (map (\<lambda>d. values_at d (q # ps)) (dicts_in v)))"

lemma fields_of_simps:
  "dget d ''type'' = Some (VStr ''object'') \<Longrightarrow> dget d ''fields'' = Some (VDict fs) \<Longrightarrow> fields_of (VDict d) S = Inr (Some fs)"
  "dget d ''type'' = Some (VStr ''ref'') \<Longrightarrow> dget d ''schema'' = Some x \<Longrightarrow> fields_of (VDict d) S =
     (case x of
        VStr r \<Rightarrow> (case dget S r of None \<Rightarrow> Inr None | Some schema \<Rightarrow> rbind (fields_item schema) (\<lambda>d. Inr (Some d)))
      | _ \<Rightarrow> if hashable x then Inr None else Inl SchemaTypeError)"
  "dget d ''type'' = Some (VStr ''list'') \<Longrightarrow> dget d ''of'' = Some e \<Longrightarrow> fields_of (VDict d) S = fields_of e S"
  "dget d ''type'' \<noteq> Some (VStr ''object'') \<Longrightarrow> dget d ''type'' \<noteq> Some (VStr ''ref'')
     \<Longrightarrow> dget d ''type'' \<noteq> Some (VStr ''list'') \<Longrightarrow> fields_of (VDict d) S = Inr None"
  by (subst fields_of.simps, simp add: get_attr_def get_item_def fields_item_def)+

text \<open>Below a field type, the nested fields describe every object found there.\<close>

lemma fields_of_sound:
  assumes S: "registry_ok S"
  shows "field_shaped al ft \<Longrightarrow> refs_ok ft \<Longrightarrow>
    \<exists>o'. fields_of ft S = Inr o' \<and> (\<forall>fs. o' = Some fs \<longrightarrow>
       (\<forall>f\<in>set fs. field_shaped True (snd f) \<and> refs_ok (snd f))
       \<and> (\<forall>v. conforms S v ft \<longrightarrow> (\<forall>d\<in>set (dicts_in v). conforms_fields S d fs)
          \<and> (\<not> al \<longrightarrow> is_dict v)))"
proof (induction rule: field_shaped.induct)
  case (fs_list d e)
  from fs_list.IH refs_ok_simps(1) [OF fs_list.hyps(1,2)] fs_list.prems obtain r
    where r: "fields_of e S = Inr r"
      "\<forall>fs. r = Some fs \<longrightarrow> (\<forall>f\<in>set fs. field_shaped True (snd f) \<and> refs_ok (snd f))
       \<and> (\<forall>v. conforms S v e \<longrightarrow> (\<forall>d\<in>set (dicts_in v). conforms_fields S d fs) \<and> is_dict v)"
    by auto
  have "\<forall>d\<in>set (dicts_in v). conforms_fields S d fs" if "r = Some fs" "conforms S v (VDict d)" for fs v
  proof -
    from that(2) fs_list.hyps obtain items where v: "v = VList items" "\<forall>x\<in>set items. conforms S x e"
      by (auto simp: conforms_simps)
    have "conforms_fields S vd fs" if "VDict vd \<in> set items" for vd
      using r(2) \<open>r = Some fs\<close> v(2) that by (auto simp: dicts_in_def)
    then show ?thesis by (auto simp: v(1) dicts_in_def is_dict_iff)
  qed
  with r show ?case using fs_list.hyps by (auto simp: fields_of_simps)
next
  case (fs_object d fs al)
  then show ?case
    using refs_ok_simps(2) [OF fs_object.hyps(1,2)] by (auto simp: fields_of_simps conforms_simps dicts_in_def)
next
  case (fs_ref d x al)
  have h: "hashable x" using refs_ok_simps(3) [OF fs_ref.hyps(1,2)] fs_ref.prems by simp
  show ?case
  proof (cases "\<exists>r schema. x = VStr r \<and> dget S r = Some schema")
    case False
    then show ?thesis using fs_ref.hyps h by (auto simp: fields_of_simps split: pyval.splits option.splits)
  next
    case True
    then obtain r schema where r: "x = VStr r" "dget S r = Some schema" by blast
    from registry_entry [OF S r(2)] obtain fs where "fields_item schema = Inr fs"
      "\<forall>f\<in>set fs. field_shaped True (snd f) \<and> refs_ok (snd f)" .
    then show ?thesis using fs_ref.hyps r by (auto simp: fields_of_simps conforms_simps dicts_in_def)
  qed
qed (auto simp: fields_of_simps)

lemma resolve_parts_sound:
  assumes S: "registry_ok S"
  shows "\<forall>f\<in>set fs. field_shaped True (snd f) \<and> refs_ok (snd f) \<Longrightarrow>
    \<exists>r. resolve_parts S fs parts = Inr r
      \<and> (\<forall>ft vd x. r = Some ft \<longrightarrow> conforms_fields S vd fs \<longrightarrow> x \<in> set (values_at vd parts) \<longrightarrow> conforms S x ft)"
proof (induction parts arbitrary: fs rule: induct_list012)
  case (2 part)
  have "conforms S x ft" if "dget fs part = Some ft" "conforms_fields S vd fs" "dget vd part = Some x" for ft vd x
    using dget_mem [OF that(1)] that(2,3) by (fastforce simp: conforms_fields_iff)
  then show ?case by (auto split: option.splits)
next
  case (3 part p2 parts)
  show ?case
  proof (cases "dget fs part")
    case (Some current)
    then have m: "(part, current) \<in> set fs" by (rule dget_mem)
    with 3(3) have "field_shaped True current" "refs_ok current" by auto
    from fields_of_sound [OF S this] obtain r where r: "fields_of current S = Inr r"
      and ok: "\<And>fs'. r = Some fs' \<Longrightarrow> \<forall>f\<in>set fs'. field_shaped True (snd f) \<and> refs_ok (snd f)"
      and sub: "\<And>fs' v d. r = Some fs' \<Longrightarrow> conforms S v current \<Longrightarrow> d \<in> set (dicts_in v) \<Longrightarrow> conforms_fields S d fs'"
      by blast
    show ?thesis
    proof (cases r)
      case None
      with Some r show ?thesis by simp
    next
      case (Some nested)
      from 3(2) [OF ok [OF this]] obtain q where q: "resolve_parts S nested (p2 # parts) = Inr q"
        and rest: "\<And>ft vd x. q = Some ft \<Longrightarrow> conforms_fields S vd nested \<Longrightarrow> x \<in> set (values_at vd (p2 # parts))
          \<Longrightarrow> conforms S x ft"
        by blast
      have "conforms S x ft" if "q = Some ft" "conforms_fields S vd fs" "x \<in> set (values_at vd (part # p2 # parts))"
        for ft vd x
      proof -
        from that(3) obtain v d where v: "dget vd part = Some v" and d: "d \<in> set (dicts_in v)"
          and x: "x \<in> set (values_at d (p2 # parts))"
          by (cases "dget vd part") auto
        have "conforms S v current" using that(2) m v by (fastforce simp: conforms_fields_iff)
        then have "conforms_fields S d nested" using sub Some d by blast
        with rest that(1) x show ?thesis by blast
      qed
      with q r Some \<open>dget fs part = Some current\<close> show ?thesis by simp
    qed
  qed simp
qed simp

text \<open>The static resolution of a dotted path is sound: on a registry in order it never raises,
  and when it finds a field type, every value the path denotes in a conforming object conforms to
  that type, through references and list elements.\<close>

theorem resolve_path_sound:
  assumes "registry_ok S" and "dget S name = Some schema" and "fields_item schema = Inr fs"
  shows "\<exists>r. resolve_schema_path (VStr name) path S = Inr r
    \<and> (\<forall>ft vd x. r = Some ft \<longrightarrow> conforms_fields S vd fs
         \<longrightarrow> x \<in> set (values_at vd (split_on CHR ''.'' path)) \<longrightarrow> conforms S x ft)"
proof -
  from registry_entry [OF assms(1,2)] assms(3)
  have "\<forall>f\<in>set fs. field_shaped True (snd f) \<and> refs_ok (snd f)" by auto
  from resolve_parts_sound [OF assms(1) this] show ?thesis
    using assms(2,3) by (simp add: resolve_schema_path_def find_schema_def get_schema_def)
qed

theorem resolve_path_sound_witness:
  "conforms demo_registry (VBool True) (VDict [(''type'', VStr ''bool'')])"
proof -
  define fs where "fs = [(''ys'', VDict [(''type'', VStr ''list''), (''of'', VDict [(''type'', VStr ''ref''), (''schema'', VStr ''b'')])])]"
  have f: "fields_item (the (dget demo_registry ''a'')) = Inr fs"
    by (simp add: demo_registry_def fs_def fields_item_def get_item_def)
  have r: "resolve_schema_path (VStr ''a'') ''ys.x'' demo_registry = Inr (Some (VDict [(''type'', VStr ''bool'')]))"
    unfolding demo_registry_def by code_simp
  let ?vd = "[(''ys'', VList [VDict [(''x'', VBool True)]])]"
  have b: "conforms demo_registry (VBool True) (VDict [(''type'', VStr ''bool'')])"
    by (simp add: conforms_simps)
  have c: "conforms_fields demo_registry ?vd fs"
    by (auto simp: fs_def conforms_fields_iff conforms_simps demo_registry_def fields_item_def get_item_def
        required_field_def vget_def)
  have "VBool True \<in> set (values_at ?vd (split_on CHR ''.'' ''ys.x''))"
    by (simp add: dicts_in_def)
  with resolve_path_sound [OF demo_registry_ok demo_lookup f, of "''ys.x''"] r c show ?thesis by auto
qed

end
