(* ===== verification/Steps.thy ===== *)
theory Steps
  imports PyValue
begin

section \<open>Pipelines\<close>

text \<open>
  The step dataclasses of \<open>src/reyn/core/pipeline/executor.py\<close> and the two registries a run
  resolves names in (\<open>src/reyn/core/pipeline/registry.py\<close>).  A step kind that holds no other
  step is a record with the fields of its dataclass; the three that do are constructors of
  \<open>step\<close> itself, with the fields as named selectors.
\<close>

subsection \<open>Steps\<close>

datatype arg_value = ExprRef (ref_src: string) | Literal_arg pyval

record transform_step =
  tr_value :: string
  tr_output :: "string option"

record tool_step =
  tool_name :: string
  tool_args :: "arg_value dict"
  tool_output :: "string option"
  tool_schema :: "string option"
  tool_on_error :: "string option"

record agent_step =
  agent_prompt :: string
  agent_identity :: "string option"
  agent_capabilities :: "pyval list option"
  agent_schema :: "string option"
  agent_model :: "string option"
  agent_output :: "string option"

type_synonym pass_entries = "(string \<times> string) list"

record call_step =
  call_pipeline :: string
  call_pass :: pass_entries
  call_output :: "string option"

record match_case =
  case_pipeline :: string
  case_pass :: pass_entries

record match_step =
  match_on :: string
  match_cases :: "match_case dict"
  match_default :: "match_case option"
  match_output :: "string option"

record list_source =
  over :: "string option"
  items :: "pyval list option"

datatype step =
    TransformStep transform_step
  | ToolStep tool_step
  | AgentStep agent_step
  | CallStep call_step
  | MatchStep match_step
  | FoldStep (fold_init: string) (fold_do: step) (fold_output: string)
      (fold_source: list_source) (fold_max_items: "int option")
  | ForEachStep (each_do: step) (each_collect: step) (each_on_error: string)
      (each_source: list_source) (each_max_parallel: "int option") (each_output: "string option")
  | ParallelStep (par_branches: "(string \<times> step) list") (par_collect: step) (par_on_error: string)
      (par_output: "string option")

fun step_output :: "step \<Rightarrow> string option" where
  "step_output (TransformStep s) = tr_output s"
| "step_output (ToolStep s) = tool_output s"
| "step_output (AgentStep s) = agent_output s"
| "step_output (CallStep s) = call_output s"
| "step_output (MatchStep s) = match_output s"
| "step_output (FoldStep _ _ out _ _) = Some out"
| "step_output (ForEachStep _ _ _ _ _ out) = out"
| "step_output (ParallelStep _ _ _ out) = out"

record pipeline =
  steps :: "step list"
  description :: string
  pipe_name :: string

subsection \<open>The pipeline registry\<close>

text \<open>\<open>'s\<close> is the schema registry stored beside a pipeline.\<close>

record 's pipeline_registry =
  pipelines :: "pipeline dict"
  schema_registries :: "'s option dict"

datatype registry_exc = RegistryValueError string | PipelineNotFoundError string

definition empty_registry :: "'s pipeline_registry" where
  "empty_registry = \<lparr>pipelines = [], schema_registries = []\<rparr>"

definition register_pipeline ::
  "string \<Rightarrow> pipeline \<Rightarrow> 's option \<Rightarrow> 's pipeline_registry \<Rightarrow> registry_exc + 's pipeline_registry" where
  "register_pipeline name p schemas reg =
     (if has_key (pipelines reg) name then Inl (RegistryValueError name)
      else Inr (reg\<lparr>pipelines := dset name p (pipelines reg),
                    schema_registries := dset name schemas (schema_registries reg)\<rparr>))"

definition get_pipeline :: "'s pipeline_registry \<Rightarrow> string \<Rightarrow> registry_exc + pipeline" where
  "get_pipeline reg name =
     (case dget (pipelines reg) name of None \<Rightarrow> Inl (PipelineNotFoundError name) | Some p \<Rightarrow> Inr p)"

definition get_schema_registry :: "'s pipeline_registry \<Rightarrow> string \<Rightarrow> registry_exc + 's option" where
  "get_schema_registry reg name =
     (if \<not> has_key (pipelines reg) name then Inl (PipelineNotFoundError name)
      else (case dget (schema_registries reg) name of
          None \<Rightarrow> Inl (PipelineNotFoundError name) | Some s \<Rightarrow> Inr s))"

definition pipeline_names :: "'s pipeline_registry \<Rightarrow> string list" where
  "pipeline_names reg = dkeys (pipelines reg)"

definition registry_entries :: "'s pipeline_registry \<Rightarrow> (string \<times> string) list" where
  "registry_entries reg = map (\<lambda>(name, p). (name, description p)) (pipelines reg)"

text \<open>
  What the registry promises its clients, as an interface: a lookup finds what a successful
  registration stored and what was there before, and no registration shadows another.  \<open>store_all\<close> is a sequence of registrations.
\<close>

fun store_all :: "('n \<Rightarrow> 'v \<Rightarrow> 'r \<Rightarrow> 'e + 'r) \<Rightarrow> ('n \<times> 'v) list \<Rightarrow> 'r \<Rightarrow> 'e + 'r" where
  "store_all store [] r = Inr r"
| "store_all store ((n, v) # ps) r = rbind (store n v r) (store_all store ps)"

locale name_registry =
  fixes store :: "string \<Rightarrow> 'v \<Rightarrow> 'r \<Rightarrow> 'e + 'r"
    and find :: "'r \<Rightarrow> string \<Rightarrow> 'e + 'v"
    and names :: "'r \<Rightarrow> string list"
  assumes find_store: "store n v r = Inr r' \<Longrightarrow> find r' m = (if m = n then Inr v else find r m)"
    and store_fails: "(\<exists>e. store n v r = Inl e) \<longleftrightarrow> n \<in> set (names r)"
    and names_store: "store n v r = Inr r' \<Longrightarrow> names r' = names r @ [n]"
    and find_names: "(\<exists>v. find r n = Inr v) \<longleftrightarrow> n \<in> set (names r)"
begin

lemma store_all_names: "store_all store ps r = Inr r' \<Longrightarrow> names r' = names r @ map fst ps"
  by (induction ps arbitrary: r) (fastforce dest: names_store)+

lemma store_all_distinct:
  "store_all store ps r = Inr r' \<Longrightarrow> distinct (names r) \<Longrightarrow> distinct (names r')"
proof (induction ps arbitrary: r)
  case (Cons p ps)
  obtain n v where p: "p = (n, v)" by force
  with Cons.prems obtain q where q: "store n v r = Inr q" "store_all store ps q = Inr r'" by auto
  have "n \<notin> set (names r)" using store_fails [of n v r] q(1) by auto
  with Cons.IH [OF q(2)] Cons.prems(2) names_store [OF q(1)] show ?case by simp
qed simp

lemma store_all_keeps: "store_all store ps r = Inr r' \<Longrightarrow> find r n = Inr v \<Longrightarrow> find r' n = Inr v"
proof (induction ps arbitrary: r)
  case (Cons p ps)
  obtain m w where p: "p = (m, w)" by force
  with Cons.prems obtain q where q: "store m w r = Inr q" "store_all store ps q = Inr r'" by auto
  have "m \<notin> set (names r)" using store_fails [of m w r] q(1) by auto
  moreover have "n \<in> set (names r)" using find_names [of r n] Cons.prems(2) by auto
  ultimately have "n \<noteq> m" by auto
  with find_store [OF q(1), of n] Cons.prems(2) have "find q n = Inr v" by simp
  with Cons.IH q(2) show ?case by blast
qed simp

lemma store_all_finds:
  "store_all store ps r = Inr r' \<Longrightarrow> (n, v) \<in> set ps \<Longrightarrow> find r' n = Inr v"
proof (induction ps arbitrary: r)
  case (Cons p ps)
  obtain m w where p: "p = (m, w)" by force
  with Cons.prems obtain q where q: "store m w r = Inr q" "store_all store ps q = Inr r'" by auto
  show ?case
  proof (cases "(n, v) = (m, w)")
    case True
    with find_store [OF q(1), of n] have "find q n = Inr v" by simp
    with store_all_keeps q(2) show ?thesis by blast
  next
    case False
    with Cons p q(2) show ?thesis by auto
  qed
qed simp

end

interpretation pipeline_store: name_registry "\<lambda>n p. register_pipeline n p schemas" get_pipeline pipeline_names
  for schemas :: "'s option"
proof
  fix n m and v :: pipeline and r r' :: "'s pipeline_registry"
  assume "register_pipeline n v schemas r = Inr r'"
  then have r': "r' = r\<lparr>pipelines := dset n v (pipelines r), schema_registries := dset n schemas (schema_registries r)\<rparr>"
    and new: "\<not> has_key (pipelines r) n"
    by (auto simp: register_pipeline_def split: if_splits)
  show "get_pipeline r' m = (if m = n then Inr v else get_pipeline r m)"
    by (simp add: r' get_pipeline_def)
  show "pipeline_names r' = pipeline_names r @ [n]"
    by (simp add: r' pipeline_names_def dkeys_def dset_new [OF new])
qed (auto simp: register_pipeline_def get_pipeline_def pipeline_names_def has_key_dkeys [symmetric] has_key_def
    split: option.splits)

text \<open>Registering pipelines one after the other never loses or replaces one: when all the
  registrations succeed, the names are distinct, in registration order, and each is found with
  exactly the pipeline it was registered with.\<close>

theorem register_all_pipelines:
  assumes "store_all (\<lambda>n p. register_pipeline n p schemas) ps empty_registry = Inr reg"
  shows "pipeline_names reg = map fst ps \<and> distinct (pipeline_names reg)
    \<and> (\<forall>(n, p)\<in>set ps. get_pipeline reg n = Inr p)"
proof -
  have e: "pipeline_names empty_registry = []" by (simp add: pipeline_names_def empty_registry_def dkeys_def)
  show ?thesis
    using pipeline_store.store_all_names [OF assms] pipeline_store.store_all_distinct [OF assms]
      pipeline_store.store_all_finds [OF assms] by (auto simp: e)
qed

theorem register_all_pipelines_witness:
  "get_pipeline \<lparr>pipelines = [(''p'', \<lparr>steps = [], description = [], pipe_name = ''p''\<rparr>)],
      schema_registries = [(''p'', None :: unit option)]\<rparr> ''p'' = Inr \<lparr>steps = [], description = [], pipe_name = ''p''\<rparr>"
  using register_all_pipelines [of None "[(''p'', \<lparr>steps = [], description = [], pipe_name = ''p''\<rparr>)]"
      "\<lparr>pipelines = [(''p'', \<lparr>steps = [], description = [], pipe_name = ''p''\<rparr>)], schema_registries = [(''p'', None :: unit option)]\<rparr>"]
  by (simp add: register_pipeline_def empty_registry_def has_key_def)

end
