(* ===== verification/Serde.thy ===== *)
theory Serde
  imports Steps Schema
begin

section \<open>Work-order serialization\<close>

text \<open>
  \<open>src/reyn/core/pipeline/serde.py\<close>: a pipeline to the JSON dictionary a work order stores, and
  back.  Encoding refuses the one ambiguity (a literal argument that looks like an expression
  marker); the theorem is that what it accepts decodes to the same pipeline.  The decoders read
  the keys the code reads, with its defaults; a stored value of a type that no encoder writes
  there is \<open>SerdeOutside\<close> (Python would carry it along untyped).
\<close>

datatype serde_exc =
    SerdeCollision string string
  | SerdeUnknownKind pyval
  | SerdeKeyError string
  | SerdeOutside

type_synonym 'a sd = "serde_exc + 'a"

definition EXPRREF_KEY :: string where
  "EXPRREF_KEY = ''__exprref__''"

subsection \<open>Encoding\<close>

definition enc_opt :: "string option \<Rightarrow> pyval" where
  "enc_opt x = (case x of None \<Rightarrow> VNone | Some s \<Rightarrow> VStr s)"

definition enc_list :: "pyval list option \<Rightarrow> pyval" where
  "enc_list x = (case x of None \<Rightarrow> VNone | Some xs \<Rightarrow> VList xs)"

definition enc_int :: "int option \<Rightarrow> pyval" where
  "enc_int x = (case x of None \<Rightarrow> VNone | Some i \<Rightarrow> VInt i)"

definition encode_arg :: "string \<Rightarrow> string \<Rightarrow> arg_value \<Rightarrow> pyval sd" where
  "encode_arg step_name key value =
     (case value of
        ExprRef s \<Rightarrow> Inr (VDict [(EXPRREF_KEY, VStr s)])
      | Literal_arg v \<Rightarrow>
          (case v of
             VDict d \<Rightarrow> if has_key d EXPRREF_KEY then Inl (SerdeCollision step_name key) else Inr v
           | _ \<Rightarrow> Inr v))"

definition encode_transform :: "transform_step \<Rightarrow> pyval" where
  "encode_transform s =
     VDict [(''kind'', VStr ''transform''), (''value'', VStr (tr_value s)), (''output'', enc_opt (tr_output s))]"

definition encode_tool :: "tool_step \<Rightarrow> pyval sd" where
  "encode_tool s =
     rbind (traverse (\<lambda>(k, v). rbind (encode_arg (tool_name s) k v) (\<lambda>j. Inr (k, j))) (tool_args s)) (\<lambda>args.
       Inr (VDict [(''kind'', VStr ''tool''), (''name'', VStr (tool_name s)), (''args'', VDict args),
         (''output'', enc_opt (tool_output s)), (''schema'', enc_opt (tool_schema s)),
         (''on_error'', enc_opt (tool_on_error s))]))"

definition encode_agent :: "agent_step \<Rightarrow> pyval" where
  "encode_agent s =
     VDict [(''kind'', VStr ''agent''), (''prompt'', VStr (agent_prompt s)), (''identity'', enc_opt (agent_identity s)),
       (''capabilities'', enc_list (agent_capabilities s)), (''schema'', enc_opt (agent_schema s)),
       (''model'', enc_opt (agent_model s)), (''output'', enc_opt (agent_output s))]"

definition encode_pass_entries :: "pass_entries \<Rightarrow> pyval" where
  "encode_pass_entries entries = VList (map (\<lambda>(name, e). VList [VStr name, VStr e]) entries)"

definition encode_call :: "call_step \<Rightarrow> pyval" where
  "encode_call s =
     VDict [(''kind'', VStr ''call''), (''pipeline'', VStr (call_pipeline s)),
       (''pass'', encode_pass_entries (call_pass s)), (''output'', enc_opt (call_output s))]"

definition encode_match_case :: "match_case \<Rightarrow> pyval" where
  "encode_match_case c =
     VDict [(''pipeline'', VStr (case_pipeline c)), (''pass'', encode_pass_entries (case_pass c))]"

definition encode_match :: "match_step \<Rightarrow> pyval" where
  "encode_match s =
     VDict [(''kind'', VStr ''match''), (''on'', VStr (match_on s)),
       (''cases'', VDict (map (\<lambda>(l, c). (l, encode_match_case c)) (match_cases s))),
       (''default'', case match_default s of None \<Rightarrow> VNone | Some c \<Rightarrow> encode_match_case c),
       (''output'', enc_opt (match_output s))]"

definition encode_fold :: "string \<Rightarrow> pyval \<Rightarrow> string \<Rightarrow> list_source \<Rightarrow> int option \<Rightarrow> pyval" where
  "encode_fold init do_dict out source max_items =
     VDict [(''kind'', VStr ''fold''), (''over'', enc_opt (over source)), (''items'', enc_list (items source)),
       (''init'', VStr init), (''do'', do_dict), (''output'', VStr out), (''max_items'', enc_int max_items)]"

definition encode_for_each ::
  "pyval \<Rightarrow> pyval \<Rightarrow> string \<Rightarrow> list_source \<Rightarrow> int option \<Rightarrow> string option \<Rightarrow> pyval" where
  "encode_for_each do_dict collect_dict on_error source max_parallel out =
     VDict [(''kind'', VStr ''for_each''), (''over'', enc_opt (over source)), (''items'', enc_list (items source)),
       (''max_parallel'', enc_int max_parallel), (''on_error'', VStr on_error), (''do'', do_dict),
       (''collect'', collect_dict), (''output'', enc_opt out)]"

definition encode_parallel :: "pyval dict \<Rightarrow> pyval \<Rightarrow> string \<Rightarrow> string option \<Rightarrow> pyval" where
  "encode_parallel branch_dicts collect_dict on_error out =
     VDict [(''kind'', VStr ''parallel''), (''branches'', VDict branch_dicts), (''collect'', collect_dict),
       (''on_error'', VStr on_error), (''output'', enc_opt out)]"

fun step_to_dict :: "step \<Rightarrow> pyval sd" where
  "step_to_dict (TransformStep s) = Inr (encode_transform s)"
| "step_to_dict (ToolStep s) = encode_tool s"
| "step_to_dict (AgentStep s) = Inr (encode_agent s)"
| "step_to_dict (CallStep s) = Inr (encode_call s)"
| "step_to_dict (MatchStep s) = Inr (encode_match s)"
| "step_to_dict (FoldStep init do' out source max_items) =
     rbind (step_to_dict do') (\<lambda>d. Inr (encode_fold init d out source max_items))"
| "step_to_dict (ForEachStep do' collect on_error source max_parallel out) =
     rbind (step_to_dict do') (\<lambda>d. rbind (step_to_dict collect) (\<lambda>c.
       Inr (encode_for_each d c on_error source max_parallel out)))"
| "step_to_dict (ParallelStep branches collect on_error out) =
     rbind (traverse (\<lambda>(name, s). rbind (step_to_dict s) (\<lambda>d. Inr (name, d))) branches) (\<lambda>bs.
     rbind (step_to_dict collect) (\<lambda>c. Inr (encode_parallel bs c on_error out)))"

definition pipeline_to_dict :: "pipeline \<Rightarrow> pyval sd" where
  "pipeline_to_dict p =
     rbind (traverse step_to_dict (steps p)) (\<lambda>ss.
       Inr (VDict [(''description'', VStr (description p)), (''name'', VStr (pipe_name p)), (''steps'', VList ss)]))"

subsection \<open>Decoding\<close>

definition item :: "pyval \<Rightarrow> string \<Rightarrow> pyval sd" where
  "item data k =
     (case data of
        VDict d \<Rightarrow> (case dget d k of None \<Rightarrow> Inl (SerdeKeyError k) | Some v \<Rightarrow> Inr v)
      | _ \<Rightarrow> Inl SerdeOutside)"

definition str_item :: "pyval \<Rightarrow> string \<Rightarrow> string sd" where
  "str_item data k = rbind (item data k) (\<lambda>v. case v of VStr s \<Rightarrow> Inr s | _ \<Rightarrow> Inl SerdeOutside)"

text \<open>\<open>data.get(k)\<close> of an optional string, list or integer: missing and \<open>None\<close> are the same.\<close>

definition get_or_none :: "pyval \<Rightarrow> string \<Rightarrow> pyval sd" where
  "get_or_none data k =
     (case data of
        VDict d \<Rightarrow> Inr (case dget d k of None \<Rightarrow> VNone | Some v \<Rightarrow> v)
      | _ \<Rightarrow> Inl SerdeOutside)"

definition opt_str :: "pyval \<Rightarrow> string \<Rightarrow> string option sd" where
  "opt_str data k =
     rbind (get_or_none data k) (\<lambda>v. case v of VNone \<Rightarrow> Inr None | VStr s \<Rightarrow> Inr (Some s) | _ \<Rightarrow> Inl SerdeOutside)"

definition opt_list :: "pyval \<Rightarrow> string \<Rightarrow> pyval list option sd" where
  "opt_list data k =
     rbind (get_or_none data k) (\<lambda>v. case v of VNone \<Rightarrow> Inr None | VList xs \<Rightarrow> Inr (Some xs) | _ \<Rightarrow> Inl SerdeOutside)"

definition opt_int :: "pyval \<Rightarrow> string \<Rightarrow> int option sd" where
  "opt_int data k =
     rbind (get_or_none data k) (\<lambda>v. case v of VNone \<Rightarrow> Inr None | VInt i \<Rightarrow> Inr (Some i) | _ \<Rightarrow> Inl SerdeOutside)"

text \<open>\<open>dict(data.get(k) or {})\<close>, and \<open>str(data.get(k) or default)\<close>.\<close>

definition dict_or_empty :: "pyval \<Rightarrow> string \<Rightarrow> pyval dict sd" where
  "dict_or_empty data k =
     rbind (get_or_none data k) (\<lambda>v.
       if \<not> truthy v then Inr [] else (case v of VDict d \<Rightarrow> Inr d | _ \<Rightarrow> Inl SerdeOutside))"

definition str_or :: "pyval \<Rightarrow> string \<Rightarrow> string \<Rightarrow> string sd" where
  "str_or data k dflt = rbind (get_or_none data k) (\<lambda>v. Inr (if truthy v then py_str v else dflt))"

definition decode_arg :: "pyval \<Rightarrow> arg_value" where
  "decode_arg value =
     (case value of
        VDict [(k, VStr s)] \<Rightarrow> if k = EXPRREF_KEY then ExprRef s else Literal_arg value
      | _ \<Rightarrow> Literal_arg value)"

definition decode_transform :: "pyval \<Rightarrow> transform_step sd" where
  "decode_transform data =
     rbind (str_item data ''value'') (\<lambda>v. rbind (opt_str data ''output'') (\<lambda>out.
       Inr \<lparr>tr_value = v, tr_output = out\<rparr>))"

definition decode_tool :: "pyval \<Rightarrow> tool_step sd" where
  "decode_tool data =
     rbind (str_item data ''name'') (\<lambda>name.
     rbind (dict_or_empty data ''args'') (\<lambda>args.
     rbind (opt_str data ''output'') (\<lambda>out.
     rbind (opt_str data ''schema'') (\<lambda>sch.
     rbind (opt_str data ''on_error'') (\<lambda>oe.
       Inr \<lparr>tool_name = name, tool_args = map (\<lambda>(k, v). (k, decode_arg v)) args, tool_output = out,
            tool_schema = sch, tool_on_error = oe\<rparr>)))))"

definition decode_agent :: "pyval \<Rightarrow> agent_step sd" where
  "decode_agent data =
     rbind (opt_list data ''capabilities'') (\<lambda>caps.
     rbind (str_item data ''prompt'') (\<lambda>prompt.
     rbind (opt_str data ''identity'') (\<lambda>ident.
     rbind (opt_str data ''schema'') (\<lambda>sch.
     rbind (opt_str data ''model'') (\<lambda>model.
     rbind (opt_str data ''output'') (\<lambda>out.
       Inr \<lparr>agent_prompt = prompt, agent_identity = ident, agent_capabilities = caps, agent_schema = sch,
            agent_model = model, agent_output = out\<rparr>))))))"

definition decode_pass_entries :: "pyval \<Rightarrow> pass_entries sd" where
  "decode_pass_entries data =
     (if \<not> truthy data then Inr []
      else (case data of
          VList xs \<Rightarrow>
            traverse (\<lambda>x. case x of VList [VStr n, VStr e] \<Rightarrow> Inr (n, e) | _ \<Rightarrow> Inl SerdeOutside) xs
        | _ \<Rightarrow> Inl SerdeOutside))"

definition decode_call :: "pyval \<Rightarrow> call_step sd" where
  "decode_call data =
     rbind (str_item data ''pipeline'') (\<lambda>p.
     rbind (rbind (get_or_none data ''pass'') decode_pass_entries) (\<lambda>ps.
     rbind (opt_str data ''output'') (\<lambda>out.
       Inr \<lparr>call_pipeline = p, call_pass = ps, call_output = out\<rparr>)))"

definition decode_match_case :: "pyval \<Rightarrow> match_case sd" where
  "decode_match_case data =
     rbind (str_item data ''pipeline'') (\<lambda>p.
     rbind (rbind (get_or_none data ''pass'') decode_pass_entries) (\<lambda>ps.
       Inr \<lparr>case_pipeline = p, case_pass = ps\<rparr>))"

definition decode_match :: "pyval \<Rightarrow> match_step sd" where
  "decode_match data =
     rbind (get_or_none data ''default'') (\<lambda>raw_default.
     rbind (str_item data ''on'') (\<lambda>on.
     rbind (dict_or_empty data ''cases'') (\<lambda>cs.
     rbind (traverse (\<lambda>(l, c). rbind (decode_match_case c) (\<lambda>x. Inr (l, x))) cs) (\<lambda>cases.
     rbind (if raw_default = VNone then Inr None
            else rbind (decode_match_case raw_default) (\<lambda>c. Inr (Some c))) (\<lambda>dflt.
     rbind (opt_str data ''output'') (\<lambda>out.
       Inr \<lparr>match_on = on, match_cases = cases, match_default = dflt, match_output = out\<rparr>))))))"

definition decode_source :: "pyval \<Rightarrow> list_source sd" where
  "decode_source data =
     rbind (opt_str data ''over'') (\<lambda>ov. rbind (opt_list data ''items'') (\<lambda>xs. Inr \<lparr>over = ov, items = xs\<rparr>))"


text \<open>
  The three decoders of the nesting kinds take the step decoder as an argument, as the encoders'
  source calls back \<open>step_from_dict\<close>; the congruence rules say they call it on parts only.
\<close>

definition decode_fold :: "(pyval \<Rightarrow> step sd) \<Rightarrow> pyval \<Rightarrow> step sd" where
  "decode_fold dec data =
     rbind (str_item data ''init'') (\<lambda>init.
     rbind (rbind (item data ''do'') dec) (\<lambda>do'.
     rbind (str_item data ''output'') (\<lambda>out.
     rbind (decode_source data) (\<lambda>source.
     rbind (opt_int data ''max_items'') (\<lambda>max_items.
       Inr (FoldStep init do' out source max_items))))))"

definition decode_for_each :: "(pyval \<Rightarrow> step sd) \<Rightarrow> pyval \<Rightarrow> step sd" where
  "decode_for_each dec data =
     rbind (rbind (item data ''do'') dec) (\<lambda>do'.
     rbind (rbind (item data ''collect'') dec) (\<lambda>collect.
     rbind (str_item data ''on_error'') (\<lambda>on_error.
     rbind (decode_source data) (\<lambda>source.
     rbind (opt_int data ''max_parallel'') (\<lambda>max_parallel.
     rbind (opt_str data ''output'') (\<lambda>out.
       Inr (ForEachStep do' collect on_error source max_parallel out)))))))"

definition decode_parallel :: "(pyval \<Rightarrow> step sd) \<Rightarrow> pyval \<Rightarrow> step sd" where
  "decode_parallel dec data =
     rbind (dict_or_empty data ''branches'') (\<lambda>bs.
     rbind (traverse (\<lambda>(name, d). rbind (dec d) (\<lambda>s. Inr (name, s))) bs) (\<lambda>branches.
     rbind (rbind (item data ''collect'') dec) (\<lambda>collect.
     rbind (str_or data ''on_error'' ''abort'') (\<lambda>on_error.
     rbind (opt_str data ''output'') (\<lambda>out.
       Inr (ParallelStep branches collect on_error out))))))"

lemma item_size: "item data k = Inr v \<Longrightarrow> size v < size data"
  by (auto simp: item_def simp del: pyval.size split: pyval.splits option.splits dest: dget_size)

lemma dict_or_empty_size: "dict_or_empty data k = Inr d \<Longrightarrow> (n, v) \<in> set d \<Longrightarrow> size v < size data"
  by (auto simp: dict_or_empty_def get_or_none_def simp del: pyval.size
      split: pyval.splits option.splits if_splits dest!: dget_size dest: dict_size_mem)

lemma decode_fold_cong [fundef_cong]:
  assumes "data = data'" and "\<And>d. size d < size data' \<Longrightarrow> dec d = dec' d"
  shows "decode_fold dec data = decode_fold dec' data'"
  unfolding decode_fold_def assms(1)
  by (intro rbind_cong refl assms(2)) (rule item_size)

lemma decode_for_each_cong [fundef_cong]:
  assumes "data = data'" and "\<And>d. size d < size data' \<Longrightarrow> dec d = dec' d"
  shows "decode_for_each dec data = decode_for_each dec' data'"
  unfolding decode_for_each_def assms(1)
  by (intro rbind_cong refl assms(2)) (erule item_size)+

lemma decode_parallel_cong [fundef_cong]:
  assumes "data = data'" and "\<And>d. size d < size data' \<Longrightarrow> dec d = dec' d"
  shows "decode_parallel dec data = decode_parallel dec' data'"
  unfolding decode_parallel_def assms(1)
  by (intro rbind_cong traverse_cong refl)
    (auto intro!: rbind_cong assms(2) dest: dict_or_empty_size item_size)

function step_from_dict :: "pyval \<Rightarrow> step sd" where
  "step_from_dict data =
     rbind (get_or_none data ''kind'') (\<lambda>kind.
       if kind = VStr ''transform'' then rbind (decode_transform data) (\<lambda>s. Inr (TransformStep s))
       else if kind = VStr ''tool'' then rbind (decode_tool data) (\<lambda>s. Inr (ToolStep s))
       else if kind = VStr ''agent'' then rbind (decode_agent data) (\<lambda>s. Inr (AgentStep s))
       else if kind = VStr ''call'' then rbind (decode_call data) (\<lambda>s. Inr (CallStep s))
       else if kind = VStr ''match'' then rbind (decode_match data) (\<lambda>s. Inr (MatchStep s))
       else if kind = VStr ''fold'' then decode_fold step_from_dict data
       else if kind = VStr ''for_each'' then decode_for_each step_from_dict data
       else if kind = VStr ''parallel'' then decode_parallel step_from_dict data
       else Inl (SerdeUnknownKind kind))"
  by pat_completeness auto
termination
  by (relation "measure size") auto

declare step_from_dict.simps [simp del]

definition pipeline_from_dict :: "pyval \<Rightarrow> pipeline sd" where
  "pipeline_from_dict data =
     rbind (case data of
         VDict d \<Rightarrow> (case dget d ''steps'' of
             None \<Rightarrow> Inr [] | Some (VList ss) \<Rightarrow> Inr ss | Some _ \<Rightarrow> Inl SerdeOutside)
       | _ \<Rightarrow> Inl SerdeOutside) (\<lambda>ds.
     rbind (traverse step_from_dict ds) (\<lambda>ss.
     rbind (str_or data ''description'' []) (\<lambda>descr.
     rbind (str_or data ''name'' []) (\<lambda>name.
       Inr \<lparr>steps = ss, description = descr, pipe_name = name\<rparr>))))"


subsection \<open>Schema registries\<close>

definition registry_as_dict :: "schemas \<Rightarrow> pyval dict" where
  "registry_as_dict S = S"

fun register_entries :: "pyval dict \<Rightarrow> schemas \<Rightarrow> schemas sres" where
  "register_entries [] S = Inr S"
| "register_entries ((name, schema) # ds) S =
     (case register name schema S of
        (Inl e, _) \<Rightarrow> Inl e
      | (Inr _, S') \<Rightarrow> register_entries ds S')"

definition schema_registry_from_dict :: "pyval dict option \<Rightarrow> schemas sres" where
  "schema_registry_from_dict data =
     register_entries (case data of None \<Rightarrow> [] | Some d \<Rightarrow> d) []"

subsection \<open>Decoding undoes encoding\<close>

lemma get_or_none_simp [simp]: "get_or_none (VDict d) k = Inr (case dget d k of None \<Rightarrow> VNone | Some v \<Rightarrow> v)"
  by (simp add: get_or_none_def)

lemma item_simp [simp]:
  "item (VDict d) k = (case dget d k of None \<Rightarrow> Inl (SerdeKeyError k) | Some v \<Rightarrow> Inr v)"
  by (simp add: item_def)

lemma opt_simps [simp]:
  "dget d k = Some (VStr s) \<Longrightarrow> str_item (VDict d) k = Inr s"
  "dget d k = Some (enc_opt x) \<Longrightarrow> opt_str (VDict d) k = Inr x"
  "dget d k = Some (enc_list y) \<Longrightarrow> opt_list (VDict d) k = Inr y"
  "dget d k = Some (enc_int i) \<Longrightarrow> opt_int (VDict d) k = Inr i"
  "dget d k = Some (VDict e) \<Longrightarrow> dict_or_empty (VDict d) k = Inr e"
  "dget d k = Some (VStr s) \<Longrightarrow> s \<noteq> [] \<Longrightarrow> str_or (VDict d) k dflt = Inr s"
  "dget d k = Some (VStr s) \<Longrightarrow> str_or (VDict d) k [] = Inr s"
  by (auto simp: str_item_def opt_str_def opt_list_def opt_int_def dict_or_empty_def str_or_def
      enc_opt_def enc_list_def enc_int_def split: option.splits)

lemma decode_encode_arg: "encode_arg n k v = Inr j \<Longrightarrow> decode_arg j = v"
  by (auto simp: encode_arg_def decode_arg_def has_key_def split: arg_value.splits pyval.splits if_splits
      list.splits prod.splits option.splits)

lemma decode_encode_pass: "decode_pass_entries (encode_pass_entries ps) = Inr ps"
proof -
  have "traverse (\<lambda>x. case x of VList [VStr n, VStr e] \<Rightarrow> Inr (n, e) | _ \<Rightarrow> Inl SerdeOutside)
      (map (\<lambda>(n, e). VList [VStr n, VStr e]) ps) = Inr ps"
    by (induction ps) auto
  then show ?thesis
    by (simp add: decode_pass_entries_def encode_pass_entries_def)
qed

lemma traverse_assoc_inverse:
  assumes "traverse (\<lambda>(k, v). rbind (f k v) (\<lambda>j. Inr (k, j))) ps = Inr qs"
    and "\<And>k v j. (k, v) \<in> set ps \<Longrightarrow> f k v = Inr j \<Longrightarrow> g j = Inr v"
  shows "traverse (\<lambda>(k, j). rbind (g j) (\<lambda>v. Inr (k, v))) qs = Inr ps"
  using assms by (induction ps arbitrary: qs) fastforce+

lemma decode_encode_args:
  "traverse (\<lambda>(k, v). rbind (encode_arg n k v) (\<lambda>j. Inr (k, j))) ps = Inr qs
    \<Longrightarrow> map (\<lambda>(k, v). (k, decode_arg v)) qs = ps"
  by (induction ps arbitrary: qs) (auto dest: decode_encode_arg)

lemma decode_encode_case: "decode_match_case (encode_match_case c) = Inr c"
  by (simp add: decode_match_case_def encode_match_case_def decode_encode_pass)

lemma encode_match_case_not_None [simp]: "encode_match_case c \<noteq> VNone"
  by (simp add: encode_match_case_def)

lemma decode_encode_cases:
  "traverse (\<lambda>(l, c). rbind (decode_match_case c) (\<lambda>x. Inr (l, x))) (map (\<lambda>(l, c). (l, encode_match_case c)) cs) = Inr cs"
  by (induction cs) (auto simp: decode_encode_case)

lemma decode_encode_source:
  "dget d ''over'' = Some (enc_opt (over s)) \<Longrightarrow> dget d ''items'' = Some (enc_list (items s))
    \<Longrightarrow> decode_source (VDict d) = Inr s"
  by (simp add: decode_source_def)

lemma step_kind:
  assumes "dget d ''kind'' = Some (VStr k)"
  shows "k = ''transform'' \<Longrightarrow> step_from_dict (VDict d) = rbind (decode_transform (VDict d)) (\<lambda>s. Inr (TransformStep s))"
    and "k = ''tool'' \<Longrightarrow> step_from_dict (VDict d) = rbind (decode_tool (VDict d)) (\<lambda>s. Inr (ToolStep s))"
    and "k = ''agent'' \<Longrightarrow> step_from_dict (VDict d) = rbind (decode_agent (VDict d)) (\<lambda>s. Inr (AgentStep s))"
    and "k = ''call'' \<Longrightarrow> step_from_dict (VDict d) = rbind (decode_call (VDict d)) (\<lambda>s. Inr (CallStep s))"
    and "k = ''match'' \<Longrightarrow> step_from_dict (VDict d) = rbind (decode_match (VDict d)) (\<lambda>s. Inr (MatchStep s))"
    and "k = ''fold'' \<Longrightarrow> step_from_dict (VDict d) = decode_fold step_from_dict (VDict d)"
    and "k = ''for_each'' \<Longrightarrow> step_from_dict (VDict d) = decode_for_each step_from_dict (VDict d)"
    and "k = ''parallel'' \<Longrightarrow> step_from_dict (VDict d) = decode_parallel step_from_dict (VDict d)"
  using assms by (subst step_from_dict.simps, simp)+

text \<open>
  The one value that does not survive: an empty \<open>on_error\<close> of a \<open>parallel\<close>, which decodes to
  \<open>abort\<close> (what it means at execution).
\<close>

fun serde_ok :: "step \<Rightarrow> bool" where
  "serde_ok (FoldStep _ do' _ _ _) = serde_ok do'"
| "serde_ok (ForEachStep do' collect _ _ _ _) = (serde_ok do' \<and> serde_ok collect)"
| "serde_ok (ParallelStep branches collect on_error _) =
     (on_error \<noteq> [] \<and> (\<forall>(_, s)\<in>set branches. serde_ok s) \<and> serde_ok collect)"
| "serde_ok _ = True"

lemma decode_encode_match: "decode_match (encode_match s) = Inr s"
  by (cases "match_default s")
    (simp_all add: decode_match_def encode_match_def decode_encode_cases decode_encode_case)

lemma step_roundtrip: "step_to_dict s = Inr d \<Longrightarrow> serde_ok s \<Longrightarrow> step_from_dict d = Inr s"
proof (induction s arbitrary: d)
  case (TransformStep s)
  then show ?case by (auto simp: encode_transform_def decode_transform_def step_kind)
next
  case (ToolStep s)
  then obtain args where a: "traverse (\<lambda>(k, v). rbind (encode_arg (tool_name s) k v) (\<lambda>j. Inr (k, j))) (tool_args s) = Inr args"
    and d: "d = VDict [(''kind'', VStr ''tool''), (''name'', VStr (tool_name s)), (''args'', VDict args),
         (''output'', enc_opt (tool_output s)), (''schema'', enc_opt (tool_schema s)),
         (''on_error'', enc_opt (tool_on_error s))]"
    by (auto simp: encode_tool_def)
  show ?case by (simp add: d step_kind decode_tool_def decode_encode_args [OF a])
next
  case (AgentStep s)
  then show ?case by (auto simp: encode_agent_def decode_agent_def step_kind)
next
  case (CallStep s)
  then show ?case by (auto simp: encode_call_def decode_call_def step_kind decode_encode_pass)
next
  case (MatchStep s)
  then have d: "d = encode_match s" by simp
  have "step_from_dict (encode_match s) = rbind (decode_match (encode_match s)) (\<lambda>s. Inr (MatchStep s))"
    unfolding encode_match_def by (rule step_kind(5)) simp_all
  then show ?case by (simp add: d decode_encode_match)
next
  case (FoldStep init do' out source max_items)
  then obtain e where "step_from_dict e = Inr do'" "d = encode_fold init e out source max_items" by auto
  then show ?case by (simp add: encode_fold_def step_kind decode_fold_def decode_encode_source)
next
  case (ForEachStep do' collect on_error source max_parallel out)
  then obtain e c where "step_from_dict e = Inr do'" "step_from_dict c = Inr collect"
    "d = encode_for_each e c on_error source max_parallel out" by auto
  then show ?case by (simp add: encode_for_each_def step_kind decode_for_each_def decode_encode_source)
next
  case (ParallelStep branches collect on_error out)
  from ParallelStep.prems obtain bs c
    where bs: "traverse (\<lambda>(name, s). rbind (step_to_dict s) (\<lambda>d. Inr (name, d))) branches = Inr bs"
      and c: "step_to_dict collect = Inr c" and d: "d = encode_parallel bs c on_error out"
    by auto
  have "traverse (\<lambda>(name, j). rbind (step_from_dict j) (\<lambda>s. Inr (name, s))) bs = Inr branches"
    using bs by (rule traverse_assoc_inverse) (use ParallelStep in fastforce)
  moreover have "step_from_dict c = Inr collect" using ParallelStep c by simp
  ultimately show ?case using ParallelStep.prems(2) by (simp add: d encode_parallel_def step_kind decode_parallel_def)
qed


text \<open>The steps encoding refuses: a literal tool argument that is a dictionary with the marker key.\<close>

fun ambiguous_arg :: "arg_value \<Rightarrow> bool" where
  "ambiguous_arg (Literal_arg (VDict d)) = has_key d EXPRREF_KEY"
| "ambiguous_arg _ = False"

fun ambiguous :: "step \<Rightarrow> bool" where
  "ambiguous (ToolStep s) = (\<exists>(_, v)\<in>set (tool_args s). ambiguous_arg v)"
| "ambiguous (FoldStep _ do' _ _ _) = ambiguous do'"
| "ambiguous (ForEachStep do' collect _ _ _ _) = (ambiguous do' \<or> ambiguous collect)"
| "ambiguous (ParallelStep branches collect _ _) = ((\<exists>(_, s)\<in>set branches. ambiguous s) \<or> ambiguous collect)"
| "ambiguous _ = False"

lemma traverse_fails: "(\<exists>e. traverse f xs = Inl e) \<longleftrightarrow> (\<exists>x\<in>set xs. \<exists>e. f x = Inl e)"
proof (induction xs)
  case (Cons x xs)
  then show ?case by (cases "f x"; cases "traverse f xs") auto
qed simp

lemma rbind_fails: "(\<exists>e. rbind m f = Inl e) \<longleftrightarrow> (\<exists>e. m = Inl e) \<or> (\<exists>a. m = Inr a \<and> (\<exists>e. f a = Inl e))"
  by (cases m) auto

lemma assoc_fails: "(\<exists>e. traverse (\<lambda>(k, v). rbind (f k v) (\<lambda>j. Inr (k, j))) ps = Inl e)
    \<longleftrightarrow> (\<exists>(k, v)\<in>set ps. \<exists>e. f k v = Inl e)"
  unfolding traverse_fails by (rule bex_cong) (auto simp: rbind_eq_Inl)

lemma encode_arg_fails: "(\<exists>e. encode_arg n k v = Inl e) \<longleftrightarrow> ambiguous_arg v"
  by (auto simp: encode_arg_def split: arg_value.splits pyval.splits)

lemma encode_fails: "(\<exists>e. step_to_dict s = Inl e) \<longleftrightarrow> ambiguous s"
proof (induction s)
  case (ToolStep s)
  have "(\<exists>e. encode_tool s = Inl e) \<longleftrightarrow> (\<exists>(k, v)\<in>set (tool_args s). \<exists>e. encode_arg (tool_name s) k v = Inl e)"
    unfolding encode_tool_def rbind_fails assoc_fails by simp
  then show ?case by (simp add: encode_arg_fails)
next
  case (ForEachStep do' collect on_error source max_parallel out)
  then show ?case by (cases "step_to_dict do'"; cases "step_to_dict collect") auto
next
  case (ParallelStep branches collect on_error out)
  have b: "(\<exists>(k, s)\<in>set branches. \<exists>e. step_to_dict s = Inl e) \<longleftrightarrow> (\<exists>(k, s)\<in>set branches. ambiguous s)"
    using ParallelStep by fastforce
  show ?case
    unfolding step_to_dict.simps rbind_fails assoc_fails
    using b traverse_fails [of "\<lambda>(name, s). rbind (step_to_dict s) (\<lambda>d. Inr (name, d))" branches]
      ParallelStep.IH(2) assoc_fails [of "\<lambda>_. step_to_dict" branches]
    by (cases "traverse (\<lambda>(name, s). rbind (step_to_dict s) (\<lambda>d. Inr (name, d))) branches";
        cases "step_to_dict collect") auto
qed (auto simp: rbind_eq_Inl)

lemma steps_roundtrip:
  "traverse step_to_dict ss = Inr ds \<Longrightarrow> \<forall>s\<in>set ss. serde_ok s \<Longrightarrow> traverse step_from_dict ds = Inr ss"
  by (induction ss arbitrary: ds) (auto dest: step_roundtrip)

text \<open>C35: A pipeline is refused by the encoder exactly if one of its steps holds an ambiguous
  argument, and every pipeline it accepts comes back unchanged from the stored dictionary, at
  any nesting of the steps.\<close>

theorem pipeline_roundtrip:
  assumes "\<forall>s\<in>set (steps p). serde_ok s"
  shows "((\<exists>e. pipeline_to_dict p = Inl e) \<longleftrightarrow> (\<exists>s\<in>set (steps p). ambiguous s))
    \<and> (pipeline_to_dict p = Inr d \<longrightarrow> pipeline_from_dict d = Inr p)"
proof (rule conjI)
  show "(\<exists>e. pipeline_to_dict p = Inl e) \<longleftrightarrow> (\<exists>s\<in>set (steps p). ambiguous s)"
    unfolding pipeline_to_dict_def rbind_fails by (simp add: traverse_fails encode_fails)
  show "pipeline_to_dict p = Inr d \<longrightarrow> pipeline_from_dict d = Inr p"
    using assms by (auto simp: pipeline_to_dict_def pipeline_from_dict_def steps_roundtrip)
qed

definition sample_pipeline :: pipeline where
  "sample_pipeline = \<lparr>
     steps = [ToolStep \<lparr>tool_name = ''t'', tool_args = [(''x'', ExprRef ''ctx.a''), (''y'', Literal_arg (VDict [(''k'', VNone)]))],
         tool_output = Some ''o'', tool_schema = None, tool_on_error = Some ''skip''\<rparr>,
       ParallelStep [(''b'', FoldStep ''0'' (TransformStep \<lparr>tr_value = ''pipe'', tr_output = None\<rparr>) ''s''
           \<lparr>over = Some ''ctx.xs'', items = None\<rparr> (Some 3))]
         (CallStep \<lparr>call_pipeline = ''p'', call_pass = [(''a'', ''1'')], call_output = None\<rparr>) ''skip'' None],
     description = ''demo'', pipe_name = ''s''\<rparr>"

theorem pipeline_roundtrip_witness:
  "rbind (pipeline_to_dict sample_pipeline) pipeline_from_dict = Inr sample_pipeline"
proof -
  have ok: "\<forall>s\<in>set (steps sample_pipeline). serde_ok s" by code_simp
  have na: "\<not> (\<exists>s\<in>set (steps sample_pipeline). ambiguous s)" by code_simp
  show ?thesis
  proof (cases "pipeline_to_dict sample_pipeline")
    case (Inl e)
    with pipeline_roundtrip [OF ok] na show ?thesis by blast
  next
    case (Inr d)
    with pipeline_roundtrip [OF ok, of d] show ?thesis by simp
  qed
qed

subsection \<open>A stored schema registry comes back\<close>

inductive reachable_registry :: "schemas \<Rightarrow> bool" where
  rr_new: "reachable_registry []"
| rr_register: "reachable_registry S \<Longrightarrow> register name schema S = (out, S') \<Longrightarrow> out \<noteq> Inl SchemaTypeError
    \<Longrightarrow> reachable_registry S'"

definition stored_ok :: "string \<Rightarrow> pyval \<Rightarrow> bool" where
  "stored_ok name s \<longleftrightarrow> check_schema_shape name s = Inr () \<and> normalize_schema name s = s"

lemma check_shape_normalize:
  "check_schema_shape name schema = Inr () \<Longrightarrow> check_schema_shape name (normalize_schema name schema) = Inr ()"
  by (cases schema) (auto simp: check_schema_shape_def normalize_schema_def)

lemma normalize_idem: "normalize_schema name (normalize_schema name schema) = normalize_schema name schema"
  by (cases schema) (auto simp: normalize_schema_def)

lemma dset_entries_named: "(\<forall>(n, s)\<in>set S. P n s) \<Longrightarrow> P k v \<Longrightarrow> \<forall>(n, s)\<in>set (dset k v S). P n s"
  by (induction S) auto

lemma reachable_ok: "reachable_registry S \<Longrightarrow> registry_ok S \<and> (\<forall>(n, s)\<in>set S. stored_ok n s)"
proof (induction rule: reachable_registry.induct)
  case (rr_register S name schema out S')
  note at = register_atomic [OF conjunct1 [OF rr_register.IH] rr_register.hyps(2,3)]
  show ?case
  proof (cases "out = Inr ()")
    case True
    then have c: "check_schema_shape name schema = Inr ()"
      and S': "S' = dset name (normalize_schema name schema) S"
      using rr_register.hyps(2) by (auto simp: register_def Let_def split: sum.splits option.splits)
    have "stored_ok name (normalize_schema name schema)"
      unfolding stored_ok_def using check_shape_normalize [OF c] normalize_idem by simp
    with at rr_register.IH dset_entries_named [of S stored_ok] S' show ?thesis by simp
  next
    case False
    with at rr_register.IH show ?thesis by auto
  qed
qed (simp add: registry_ok_Nil)

lemma find_ref_cycle_ok: "registry_ok S \<Longrightarrow> find_ref_cycle S = Inr None"
proof (cases "find_ref_cycle S")
  case (Inl e)
  assume ok: "registry_ok S"
  with Inl find_ref_cycle_depth [of S] dfs_all_Inl [of "length S" S "dkeys S"] show ?thesis
    by (fastforce simp: find_ref_cycle_def has_key_dkeys registry_ok_def simp del: dfs_all.simps)
next
  case (Inr r)
  assume ok: "registry_ok S"
  show ?thesis
  proof (cases r)
    case (Some c)
    have "is_cycle S c"
      using dfs_all_spec(2) [OF dfs_start, of "dkeys S" S "length S" c] Inr
      by (simp add: Some find_ref_cycle_def has_key_dkeys)
    with ok is_cycle_not_acyclic show ?thesis by (auto simp: registry_ok_def)
  qed (simp add: Inr)
qed

lemma registry_ok_prefix: "registry_ok (S @ T) \<Longrightarrow> registry_ok S"
proof -
  assume ok: "registry_ok (S @ T)"
  have k: "dget (S @ T) a = dget S a" if "has_key S a" for a
    using that ok by (fastforce simp: map_add_def has_key_def registry_ok_def dkeys_def map_of_eq_None_iff
        split: option.splits dest: dget_mem)
  then have n: "node_refs (S @ T) a = node_refs S a" if "has_key S a" for a
    using that by (simp add: node_refs_def)
  have key: "has_key (S @ T) a" if "has_key S a" for a
    using that by (simp add: has_key_dkeys dkeys_def)
  have "ref_edges S \<subseteq> ref_edges (S @ T)"
    using key n by (auto simp: ref_edges_def) (metis has_key_def node_refs_def option.simps(4) sum.distinct(1))
  then have "acyclic (ref_edges S)" using ok acyclic_subset by (auto simp: registry_ok_def)
  moreover have "\<exists>rs. node_refs S a = Inr rs" if "has_key S a" for a
    using ok key [OF that] unfolding n [OF that, symmetric] by (simp add: registry_ok_def)
  ultimately show ?thesis using ok by (auto simp: registry_ok_def dkeys_def)
qed

lemma register_entries_append:
  "registry_ok (S @ ds) \<Longrightarrow> \<forall>(n, s)\<in>set ds. stored_ok n s \<Longrightarrow> register_entries ds S = Inr (S @ ds)"
proof (induction ds arbitrary: S)
  case (Cons p ds)
  obtain n s where p: "p = (n, s)" by force
  have new: "\<not> has_key S n"
    using Cons.prems(1) by (auto simp: registry_ok_def dkeys_def has_key_dkeys p)
  have "registry_ok (S @ [(n, s)])" using registry_ok_prefix [of "S @ [(n, s)]" ds] Cons.prems(1) by (simp add: p)
  then have "register n s S = (Inr (), S @ [(n, s)])"
    using Cons.prems(2) find_ref_cycle_ok by (auto simp: register_def stored_ok_def p dset_new [OF new])
  with Cons.IH [of "S @ [(n, s)]"] Cons.prems show ?case by (simp add: p)
qed simp

text \<open>Every registry that registrations built is rebuilt from its stored dictionary exactly,
  whatever the order in which its schemas refer to each other.\<close>

theorem schema_registry_roundtrip:
  assumes "reachable_registry S"
  shows "schema_registry_from_dict (Some (registry_as_dict S)) = Inr S"
  using register_entries_append [of "[]" S] reachable_ok [OF assms]
  by (simp add: schema_registry_from_dict_def registry_as_dict_def)

theorem schema_registry_roundtrip_witness:
  "schema_registry_from_dict (Some (registry_as_dict (snd (register ''a''
      (VDict [(''fields'', VDict [(''x'', VDict [(''type'', VStr ''ref''), (''schema'', VStr ''b'')])])]) []))))
    = Inr [(''a'', VDict [(''fields'', VDict [(''x'', VDict [(''type'', VStr ''ref''), (''schema'', VStr ''b'')])]),
        (''name'', VStr ''a'')])]"
proof -
  let ?a = "VDict [(''fields'', VDict [(''x'', VDict [(''type'', VStr ''ref''), (''schema'', VStr ''b'')])])]"
  let ?S = "[(''a'', VDict [(''fields'', VDict [(''x'', VDict [(''type'', VStr ''ref''), (''schema'', VStr ''b'')])]),
      (''name'', VStr ''a'')])]"
  have r: "register ''a'' ?a [] = (Inr (), ?S)" by code_simp
  have "reachable_registry ?S" using rr_register [OF rr_new r] by simp
  from schema_registry_roundtrip [OF this] show ?thesis by (simp add: r)
qed

end
