(* ===== verification/Canonical.thy ===== *)
theory Canonical
  imports PyValue
begin

section \<open>Canonical tool results\<close>

text \<open>
  The core of \<open>src/reyn/core/offload/canonical.py\<close>: the shape every tool result is brought to
  (text, attachments, signal fields), the declarations that say which mapper shapes which
  producer, the shared error seam, the lossless fallback, and the two audits.  A mapper is
  named in the declaration table and interpreted by a function argument (\<open>mappers\<close>); a mapper
  answers with a canonical result, a discriminator miss, or an exception of its own.
\<close>

datatype attachment = Structured pyval | Media pyval

record canonical =
  c_text :: string
  c_attachments :: "attachment list"
  c_source_ref :: pyval
  c_meta :: "pyval dict"
  c_miss :: bool

datatype canonical_decl = Mapper string | STRUCTURED_PASSTHROUGH | CANONICAL_TODO | UNDECLARED

type_synonym declarations = "canonical_decl dict"

datatype mapper_exc = CanonicalDiscriminatorMiss | MapperError string

type_synonym mappers = "string \<Rightarrow> pyval dict \<Rightarrow> mapper_exc + canonical"

datatype declare_exc = UndeclaredProducer string | ConflictingDeclaration string canonical_decl canonical_decl

definition declare_canonical :: "string \<Rightarrow> canonical_decl \<Rightarrow> declarations \<Rightarrow> declare_exc + declarations" where
  "declare_canonical source_id decl ds =
     (if decl = UNDECLARED then Inl (UndeclaredProducer source_id)
      else (case dget ds source_id of
          Some existing \<Rightarrow>
            if existing \<noteq> decl then Inl (ConflictingDeclaration source_id existing decl)
            else Inr (dset source_id decl ds)
        | None \<Rightarrow> Inr (dset source_id decl ds)))"

definition canonical_declaration :: "declarations \<Rightarrow> pyval \<Rightarrow> canonical_decl option" where
  "canonical_declaration ds source_id = (case source_id of VStr s \<Rightarrow> dget ds s | _ \<Rightarrow> None)"

subsection \<open>Errors\<close>

definition dget_truthy :: "pyval dict \<Rightarrow> string \<Rightarrow> bool" where
  "dget_truthy d k = (case dget d k of None \<Rightarrow> False | Some v \<Rightarrow> truthy v)"

definition is_error :: "pyval dict \<Rightarrow> bool" where
  "is_error result \<longleftrightarrow> dget_truthy result ''isError'' \<or> dget result ''status'' = Some (VStr ''error'')"

definition ERROR_MESSAGE_FIELDS :: "string list" where
  "ERROR_MESSAGE_FIELDS = [''error_message'', ''error'', ''error_kind'']"

definition is_error_result :: "pyval \<Rightarrow> bool" where
  "is_error_result result =
     (case result of
        VDict d \<Rightarrow> dget_truthy d ''isError'' \<or> list_ex (dget_truthy d) ERROR_MESSAGE_FIELDS
      | _ \<Rightarrow> False)"

text \<open>\<open>message_of\<close> is the body of the loop: the message a field holds, if it holds one.\<close>

definition message_of :: "pyval dict \<Rightarrow> string \<Rightarrow> string option" where
  "message_of result field =
     (case dget result field of
        None \<Rightarrow> None
      | Some (VDict d) \<Rightarrow>
          (if dget_truthy d ''message'' then map_option py_str (dget d ''message'')
           else if dget_truthy d ''kind'' then map_option py_str (dget d ''kind'')
           else None)
      | Some value \<Rightarrow> if truthy value then Some (py_str value) else None)"

definition extract_error_message :: "pyval dict \<Rightarrow> string" where
  "extract_error_message result =
     (case message_of result ''error_message'' of
        Some m \<Rightarrow> m
      | None \<Rightarrow>
          (case message_of result ''error'' of
             Some m \<Rightarrow> m
           | None \<Rightarrow>
               (case dget result ''error_kind'' of
                  Some k \<Rightarrow> if truthy k then ''error: '' @ py_str k else ''error''
                | None \<Rightarrow> ''error'')))"

definition error_to_canonical :: "pyval dict \<Rightarrow> canonical" where
  "error_to_canonical result =
     \<lparr>c_text = extract_error_message result, c_attachments = [Structured (VDict result)],
      c_source_ref = VNone, c_meta = [(''isError'', VBool True)], c_miss = False\<rparr>"

subsection \<open>Canonicalization\<close>

definition fallback_structured :: "pyval dict \<Rightarrow> bool \<Rightarrow> canonical" where
  "fallback_structured result discriminator_miss =
     \<lparr>c_text = (if is_error result then extract_error_message result else []),
      c_attachments = [Structured (VDict result)], c_source_ref = VNone,
      c_meta = (if is_error result then [(''isError'', VBool True)] else []), c_miss = discriminator_miss\<rparr>"

definition to_canonical :: "declarations \<Rightarrow> mappers \<Rightarrow> pyval dict \<Rightarrow> pyval \<Rightarrow> mapper_exc + canonical" where
  "to_canonical ds mappers result source =
     (case canonical_declaration ds source of
        None \<Rightarrow> Inr (fallback_structured result False)
      | Some STRUCTURED_PASSTHROUGH \<Rightarrow> Inr (fallback_structured result False)
      | Some decl \<Rightarrow>
          if is_error_result (VDict result) then Inr (error_to_canonical result)
          else (case decl of
              Mapper m \<Rightarrow>
                (case mappers m result of
                   Inl CanonicalDiscriminatorMiss \<Rightarrow> Inr (fallback_structured result True)
                 | r \<Rightarrow> r)
            | CANONICAL_TODO \<Rightarrow> Inr (fallback_structured result False)
            | _ \<Rightarrow> Inl (MapperError ''not callable'')))"

definition canonical_fallback_reason :: "declarations \<Rightarrow> pyval \<Rightarrow> bool \<Rightarrow> canonical option \<Rightarrow> string option" where
  "canonical_fallback_reason ds source structured_offloaded canonical =
     (if (case canonical of None \<Rightarrow> False | Some c \<Rightarrow> c_miss c) then Some ''discriminator_miss''
      else (case canonical_declaration ds source of
          None \<Rightarrow> Some ''unregistered''
        | Some CANONICAL_TODO \<Rightarrow> Some ''canonical_todo''
        | Some STRUCTURED_PASSTHROUGH \<Rightarrow> if structured_offloaded then Some ''passthrough_oversized'' else None
        | Some _ \<Rightarrow> None))"

definition canonical_degraded_reason :: "pyval \<Rightarrow> canonical \<Rightarrow> string option" where
  "canonical_degraded_reason result canonical =
     (case result of
        VDict d \<Rightarrow>
          if is_error d \<or> dget_truthy (c_meta canonical) ''isError'' then None
          else if py_strip (c_text canonical) \<noteq> [] then None
          else if c_attachments canonical \<noteq> [] then None
          else Some ''empty_canonical''
      | _ \<Rightarrow> None)"

subsection \<open>Envelopes\<close>

text \<open>\<open>walk_source\<close> is \<open>_walk\<close>, with the tag found so far passed along.\<close>

definition CANONICAL_SOURCE_KEY :: string where
  "CANONICAL_SOURCE_KEY = ''_canonical_source''"

lemma dict_elem_size: "(k, v) \<in> set d \<Longrightarrow> size v < size_list (size_prod (\<lambda>_. 0) size) d"
  by (induction d) (auto simp: less_Suc_eq_le dest: trans_le_add2)

lemma filter_dict_size: "size_list (size_prod (\<lambda>_. 0) (size :: pyval \<Rightarrow> nat)) (filter P d)
    \<le> size_list (size_prod (\<lambda>_. 0) size) d"
  by (induction d) auto

function walk_source :: "pyval \<Rightarrow> pyval dict \<Rightarrow> pyval \<times> pyval dict" where
  "walk_source source d =
     (let source' = (case dget d CANONICAL_SOURCE_KEY of None \<Rightarrow> source | Some v \<Rightarrow> v);
          cleaned = filter (\<lambda>(k, v). k \<noteq> CANONICAL_SOURCE_KEY) d
      in case dget cleaned ''data'' of
           Some (VDict inner) \<Rightarrow>
             (case walk_source source' inner of (source'', inner') \<Rightarrow> (source'', dset ''data'' (VDict inner') cleaned))
         | _ \<Rightarrow> (source', cleaned))"
  by pat_completeness auto
termination
  by (relation "measure (\<lambda>(_, d). size (VDict d))")
    (auto dest!: dget_mem dict_elem_size Suc_lessD intro: less_le_trans [OF _ filter_dict_size])

declare walk_source.simps [simp del]

definition extract_canonical_source :: "pyval \<Rightarrow> pyval \<times> pyval" where
  "extract_canonical_source result =
     (case result of
        VDict d \<Rightarrow> (case walk_source VNone d of (source, cleaned) \<Rightarrow> (source, VDict cleaned))
      | v \<Rightarrow> (VNone, v))"

definition is_envelope :: "pyval dict \<Rightarrow> bool" where
  "is_envelope d \<longleftrightarrow>
     (case dget d ''data'' of Some v \<Rightarrow> is_dict v | None \<Rightarrow> False)
     \<and> set (dkeys d) \<subseteq> {''status'', ''data'', ''error''} \<and> \<not> has_key d ''kind''"

function unwrap_dict :: "pyval dict \<Rightarrow> pyval dict" where
  "unwrap_dict d =
     (if is_envelope d
      then (case dget d ''data'' of Some (VDict inner) \<Rightarrow> unwrap_dict inner | _ \<Rightarrow> d)
      else d)"
  by pat_completeness auto
termination
  by (relation "measure (\<lambda>d. size (VDict d))") (auto dest!: dget_mem dict_elem_size)

declare unwrap_dict.simps [simp del]

definition unwrap_dispatch_envelope :: "pyval \<Rightarrow> pyval" where
  "unwrap_dispatch_envelope result = (case result of VDict d \<Rightarrow> VDict (unwrap_dict d) | v \<Rightarrow> v)"

definition canonical_to_ctx_fields :: "canonical \<Rightarrow> pyval" where
  "canonical_to_ctx_fields canonical =
     (let items = [d. Structured d \<leftarrow> c_attachments canonical] in
      VDict ((''text'', VStr (c_text canonical))
        # (case items of [] \<Rightarrow> [] | [d] \<Rightarrow> [(''structured'', d)] | _ \<Rightarrow> [(''structured'', VList items)])
        @ (if c_meta canonical = [] then [] else [(''meta'', VDict (c_meta canonical))])))"


subsection \<open>Nothing is lost\<close>

lemma float_repr_nonempty: "float_repr f \<noteq> []"
  by (cases f) (auto simp: float_repr_pos_def Let_def)

lemma py_str_truthy: "truthy v \<Longrightarrow> py_str v \<noteq> []"
  by (cases v) (auto simp: int_str_def float_repr_nonempty)

lemma extract_error_message_nonempty: "extract_error_message d \<noteq> []"
proof -
  have m: "message_of d f \<noteq> Some []" for f
  proof (cases "dget d f")
    case (Some v)
    then show ?thesis
    proof (cases "\<exists>e. v = VDict e")
      case True
      then obtain e where e: "v = VDict e" by blast
      have "map_option py_str (dget e k) \<noteq> Some []" if "dget_truthy e k" for k
        using that py_str_truthy by (auto simp: dget_truthy_def split: option.splits)
      with Some e show ?thesis by (auto simp: message_of_def)
    next
      case False
      with Some have "message_of d f = (if truthy v then Some (py_str v) else None)"
        by (cases v) (auto simp: message_of_def)
      with py_str_truthy show ?thesis by auto
    qed
  qed (simp add: message_of_def)
  show ?thesis
    using m [of "''error_message''"] m [of "''error''"] by (auto simp: extract_error_message_def split: option.splits)
qed

definition mapped_by :: "declarations \<Rightarrow> mappers \<Rightarrow> pyval dict \<Rightarrow> pyval \<Rightarrow> canonical \<Rightarrow> bool" where
  "mapped_by ds mappers result source c \<longleftrightarrow>
     (\<exists>m. canonical_declaration ds source = Some (Mapper m) \<and> mappers m result = Inr c \<and> \<not> is_error_result (VDict result))"

lemma to_canonical_cases:
  assumes "to_canonical ds mappers result source = Inr c"
  obtains (mapped) "mapped_by ds mappers result source c"
  | (error) "c = error_to_canonical result" "is_error_result (VDict result)"
      "canonical_declaration ds source \<noteq> None"
  | (fallback) b where "c = fallback_structured result b"
      "canonical_declaration ds source \<notin> {None, Some STRUCTURED_PASSTHROUGH} \<Longrightarrow> \<not> is_error_result (VDict result)"
      "b \<Longrightarrow> \<exists>m. canonical_declaration ds source = Some (Mapper m)"
      "\<not> b \<Longrightarrow> canonical_declaration ds source \<in> {None, Some STRUCTURED_PASSTHROUGH, Some CANONICAL_TODO}"
  using assms
  by (auto simp: to_canonical_def mapped_by_def
      split: option.split_asm canonical_decl.split_asm if_split_asm sum.split_asm mapper_exc.split_asm)


definition whole_in_ctx :: "pyval dict \<Rightarrow> canonical \<Rightarrow> bool" where
  "whole_in_ctx result c \<longleftrightarrow> vget (canonical_to_ctx_fields c) ''structured'' = Some (VDict result)"

definition flagged :: "canonical \<Rightarrow> bool" where
  "flagged c \<longleftrightarrow> dget (c_meta c) ''isError'' = Some (VBool True) \<and> c_text c \<noteq> []"

lemma fallback_facts:
  "whole_in_ctx result (fallback_structured result b)"
  "canonical_degraded_reason (VDict result) (fallback_structured result b) = None"
  "is_error result \<Longrightarrow> flagged (fallback_structured result b)"
  "c_miss (fallback_structured result b) = b"
  by (simp_all add: whole_in_ctx_def flagged_def fallback_structured_def canonical_to_ctx_fields_def
      canonical_degraded_reason_def extract_error_message_nonempty)

lemma error_facts:
  "whole_in_ctx result (error_to_canonical result)"
  "canonical_degraded_reason (VDict result) (error_to_canonical result) = None"
  "flagged (error_to_canonical result)"
  "\<not> c_miss (error_to_canonical result)"
  by (simp_all add: whole_in_ctx_def flagged_def error_to_canonical_def canonical_to_ctx_fields_def
      canonical_degraded_reason_def dget_truthy_def extract_error_message_nonempty)



text \<open>The fallback audit is exact: for the canonical form of a result it names a reason
  precisely if the producer is unknown, declared without a mapper of its own yet, or its mapper
  missed its discriminator.\<close>

theorem fallback_reason_exact:
  assumes "to_canonical ds mappers result source = Inr c"
    and "\<forall>m r c'. mappers m r = Inr c' \<longrightarrow> \<not> c_miss c'"
  shows "canonical_fallback_reason ds source False (Some c) \<noteq> None \<longleftrightarrow>
    canonical_declaration ds source \<in> {None, Some CANONICAL_TODO}
    \<or> (\<exists>m. canonical_declaration ds source = Some (Mapper m)
         \<and> \<not> is_error_result (VDict result) \<and> mappers m result = Inl CanonicalDiscriminatorMiss)"
proof -
  have nm: "\<not> c_miss (error_to_canonical result)" "\<not> c_miss (fallback_structured result False)"
    "c_miss (fallback_structured result True)"
    by (simp_all add: error_facts fallback_facts)
  show ?thesis
    using assms nm unfolding to_canonical_def canonical_fallback_reason_def
    by (cases "canonical_declaration ds source")
      (auto split: canonical_decl.splits if_split_asm sum.split_asm mapper_exc.split_asm)
qed

theorem fallback_reason_exact_witness:
  "canonical_fallback_reason [(''t'', Mapper ''m'')] (VStr ''t'') False
     (Some (fallback_structured [(''kind'', VStr ''x'')] True)) = Some ''discriminator_miss''"
proof -
  let ?m = "\<lambda>_ _. Inl CanonicalDiscriminatorMiss :: mapper_exc + canonical"
  have "to_canonical [(''t'', Mapper ''m'')] ?m [(''kind'', VStr ''x'')] (VStr ''t'')
      = Inr (fallback_structured [(''kind'', VStr ''x'')] True)"
    by code_simp
  from fallback_reason_exact [OF this]
  have "canonical_fallback_reason [(''t'', Mapper ''m'')] (VStr ''t'') False
     (Some (fallback_structured [(''kind'', VStr ''x'')] True)) \<noteq> None"
    by (simp add: canonical_declaration_def is_error_result_def dget_truthy_def ERROR_MESSAGE_FIELDS_def)
  then show ?thesis by (simp add: canonical_fallback_reason_def fallback_structured_def)
qed

subsection \<open>The source tag\<close>

text \<open>The tags along the chain of \<open>data\<close> envelopes, outermost first.\<close>

function source_tags :: "pyval dict \<Rightarrow> pyval list" where
  "source_tags d =
     (case dget d CANONICAL_SOURCE_KEY of None \<Rightarrow> [] | Some v \<Rightarrow> [v])
     @ (case dget d ''data'' of Some (VDict inner) \<Rightarrow> source_tags inner | _ \<Rightarrow> [])"
  by pat_completeness auto
termination
  by (relation "measure (\<lambda>d. size (VDict d))") (auto dest!: dget_mem dict_elem_size)

declare source_tags.simps [simp del]

lemma dget_filter_key: "k \<noteq> k' \<Longrightarrow> dget (filter (\<lambda>(a, v). a \<noteq> k') d) k = dget d k"
  by (induction d) auto

lemma dget_filtered: "dget (filter (\<lambda>(a, v). a \<noteq> k) d) k = None"
  by (induction d) auto

lemma data_not_tag [simp]: "''data'' \<noteq> CANONICAL_SOURCE_KEY"
  by (simp add: CANONICAL_SOURCE_KEY_def)

lemma walk_source_spec:
  "walk_source source d = (source', d') \<Longrightarrow>
     source' = last (source # source_tags d) \<and> source_tags d' = []"
proof (induction source d arbitrary: source' d' rule: walk_source.induct)
  case (1 source d)
  let ?s = "case dget d CANONICAL_SOURCE_KEY of None \<Rightarrow> source | Some v \<Rightarrow> v"
  let ?c = "filter (\<lambda>(k, v). k \<noteq> CANONICAL_SOURCE_KEY) d"
  have dat: "dget ?c ''data'' = dget d ''data''" by (rule dget_filter_key) simp
  have tag: "dget ?c CANONICAL_SOURCE_KEY = None" by (rule dget_filtered)
  show ?case
  proof (cases "\<exists>inner. dget d ''data'' = Some (VDict inner)")
    case True
    then obtain inner where i: "dget d ''data'' = Some (VDict inner)" by blast
    obtain s2 inner' where w: "walk_source ?s inner = (s2, inner')" by force
    have ih: "s2 = last (?s # source_tags inner)" "source_tags inner' = []"
      using "1.IH" [OF refl refl _ _ w] dat i by auto
    have "walk_source source d = (s2, dset ''data'' (VDict inner') ?c)"
      by (subst walk_source.simps) (simp add: dat i w)
    moreover have "source_tags (dset ''data'' (VDict inner') ?c) = []"
      by (subst source_tags.simps) (simp add: tag ih(2) data_not_tag [symmetric])
    moreover have "last (source # source_tags d) = last (?s # source_tags inner)"
      by (subst source_tags.simps [of d]) (simp add: i split: option.splits)
    ultimately show ?thesis using "1.prems" ih(1) by simp
  next
    case False
    then have w: "walk_source source d = (?s, ?c)"
      by (subst walk_source.simps, cases "dget d ''data''", simp add: dat Let_def,
          cases "the (dget d ''data'')") (simp_all add: dat Let_def)
    have "source_tags ?c = []"
      using False by (subst source_tags.simps) (auto simp: dat tag split: option.splits pyval.splits)
    moreover have "source_tags d = (case dget d CANONICAL_SOURCE_KEY of None \<Rightarrow> [] | Some v \<Rightarrow> [v])"
      using False by (subst source_tags.simps) (auto split: option.splits pyval.splits)
    ultimately show ?thesis using "1.prems" w by (auto split: option.splits)
  qed
qed

text \<open>The tag split off a dispatch result is the innermost tag of the envelope chain, and
  the cleaned result carries none.\<close>

theorem extract_source_deepest:
  "case extract_canonical_source (VDict d) of
     (source, cleaned) \<Rightarrow> source = last (VNone # source_tags d) \<and> (\<exists>e. cleaned = VDict e \<and> source_tags e = [])"
  using walk_source_spec [of VNone d]
  by (cases "walk_source VNone d") (simp add: extract_canonical_source_def)

end
