(* ===== verification/ExecState.thy ===== *)
theory ExecState
  imports Steps Schema ExprParse Canonical
begin

section \<open>The state of a pipeline run\<close>

text \<open>
  What a run of \<open>src/reyn/core/pipeline/executor.py\<close> reads and changes: the collaborators it is
  given (\<open>_RunDeps\<close>), the spawn budget, the recovery snapshots it records, its progress events,
  and the recorders of the fan-out items it is inside of.  The world outside (tools, spawned
  sessions) is a type variable \<open>'w\<close>; what the run asks of it are functions of \<open>run_deps\<close>.
\<close>

subsection \<open>Exceptions and outcomes\<close>

datatype exec_reason =
    OnErrorUnrecognized string
  | TransformFailed string eval_reason
  | NoSchemaRegistry string string string
  | SchemaMismatch string string string "validation_error list" "string option"
  | ToolFailed string string string string
  | NoIdentity string
  | NoAgentRegistry string
  | SpawnCapReached string int int
  | PromptRefFailed string "parse_exc + expr_exc"
  | AgentFailed string string
  | NoPipelineRegistry string
  | TargetNotRegistered string string
  | PassFailed string string string "parse_exc + expr_exc"
  | MatchOnFailed string eval_reason
  | NoMatchingCase string string
  | BothListSources string string
  | OverFailed string string eval_reason
  | NotAListSource string string string
  | InitFailed string eval_reason
  | FanOutTooDeep string string int int
  | CanonicalErrorResult string string string
  | ItemFailed string nat string exc
  | BranchFailed string string string exc
and exc =
    PipelineExecutionError exec_reason
  | PipelineCancelled nat
  | ExprRaised "parse_exc + expr_exc"
  | ToolRaised string
  | AgentRaised string
  | ValidateRaised schema_exc
  | MapperRaised mapper_exc
  | SemaphoreValueError
  | MissingResultKey string

datatype 'a outcome = Ret 'a | Raise exc | Diverge

subsection \<open>State\<close>

record snapshot =
  step_index :: nat
  named_stores :: ctx
  pipe_data :: pyval
  completed_step_results :: "pyval dict"

datatype run_event =
    StepStarted nat string nat
  | StepCompleted nat string nat
  | CanonicalFallbackUsed pyval string
  | CanonicalDegraded pyval string

text \<open>
  One recorder of a fan-out item (\<open>_make_fan_out_sub_step_recorder\<close>): the coordinator's growing
  results (\<open>_FanOutRecordBox\<close>), the item's key prefix, and the keys it forwarded already.
\<close>

record fan_recorder =
  box :: "pyval dict"
  prefix :: string
  forwarded :: "string list"

text \<open>
  \<open>journal\<close> lists the recorded generations, oldest first, each with the durability it was
  recorded with and the world at that moment (what a crash right after it would leave behind).
  \<open>frame\<close> is the frozen outer frame of the top-level step being run, \<open>recorders\<close> the stack of
  fan-out recorders around the current item, innermost first.
\<close>

record 'w generation =
  gen_snapshot :: snapshot
  gen_durable :: bool
  gen_world :: 'w

record 'w run_state =
  world :: 'w
  journal :: "'w generation list"
  spent :: int
  events :: "run_event list"
  frame :: snapshot
  recorders :: "fan_recorder list"

datatype on_error_kind = OnContinue | OnAbort | OnRetry

record on_error =
  oe_kind :: on_error_kind
  retries :: nat

datatype fan_action = RunTask nat | TakeResult

datatype agent_exc = AgentStepError string | AgentOtherError string

record agent_request =
  req_identity :: string
  req_prompt :: string
  req_capabilities :: "pyval list option"
  req_schema :: "string option"
  req_model :: "string option"

text \<open>
  \<open>registry\<close> is \<open>run_agent_step\<close> on the agent registry, \<open>None\<close> when none was passed; \<open>state_log\<close>
  says whether generations can be recorded; \<open>exc_text\<close> is \<open>str\<close> of an exception; \<open>schedule\<close> is
  the order in which the event loop runs the tasks of a fan-out and wakes its coordinator.
\<close>

record 'w run_deps =
  tool_dispatch :: "string \<Rightarrow> pyval dict \<Rightarrow> 'w \<Rightarrow> (string + pyval) \<times> 'w"
  state_log :: bool
  schema_registry :: "schemas option"
  registry :: "(agent_request \<Rightarrow> 'w \<Rightarrow> (agent_exc + pyval) \<times> 'w) option"
  default_identity :: "string option"
  pipeline_registry :: "schemas pipeline_registry option"
  event_log :: bool
  cancel_check :: "('w \<Rightarrow> bool) option"
  fan_out_depth :: int
  max_fan_out_depth :: int
  spawn_cap :: int
  canonical_decls :: declarations
  canonical_mappers :: mappers
  exc_text :: "exc \<Rightarrow> string"
  schedule :: "string \<Rightarrow> nat list \<Rightarrow> fan_action list"

type_synonym ('w, 'a) exec = "'w run_state \<Rightarrow> 'a outcome \<times> 'w run_state"

definition xret :: "'a \<Rightarrow> ('w, 'a) exec" where
  "xret x st = (Ret x, st)"

definition xraise :: "exc \<Rightarrow> ('w, 'a) exec" where
  "xraise e st = (Raise e, st)"

definition xbind :: "('w, 'a) exec \<Rightarrow> ('a \<Rightarrow> ('w, 'b) exec) \<Rightarrow> ('w, 'b) exec" where
  "xbind m f st =
     (case m st of
        (Ret x, st') \<Rightarrow> f x st'
      | (Raise e, st') \<Rightarrow> (Raise e, st')
      | (Diverge, st') \<Rightarrow> (Diverge, st'))"

definition xlift :: "('e \<Rightarrow> exc) \<Rightarrow> 'e + 'a \<Rightarrow> ('w, 'a) exec" where
  "xlift f r = (case r of Inl e \<Rightarrow> xraise (f e) | Inr x \<Rightarrow> xret x)"

definition fail :: "exec_reason \<Rightarrow> ('w, 'a) exec" where
  "fail r = xraise (PipelineExecutionError r)"

lemma xret_simp: "xret x st = (Ret x, st)" by (simp add: xret_def)
lemma xraise_simp: "xraise e st = (Raise e, st)" by (simp add: xraise_def)
lemma fail_simp: "fail r st = (Raise (PipelineExecutionError r), st)" by (simp add: fail_def xraise_def)

lemma xlift_simps:
  "xlift f (Inl e) st = (Raise (f e), st)"
  "xlift f (Inr x) st = (Ret x, st)"
  by (simp_all add: xlift_def xret_def xraise_def)

lemma xbind_simps:
  "m st = (Ret x, st') \<Longrightarrow> xbind m f st = f x st'"
  "m st = (Raise e, st') \<Longrightarrow> xbind m f st = (Raise e, st')"
  "m st = (Diverge, st') \<Longrightarrow> xbind m f st = (Diverge, st')"
  by (simp_all add: xbind_def)

lemmas exec_simps = xret_simp xraise_simp fail_simp xlift_simps xbind_simps

lemma xbind_Ret: "xbind m f st = (Ret y, st'') \<longleftrightarrow> (\<exists>x st'. m st = (Ret x, st') \<and> f x st' = (Ret y, st''))"
  by (auto simp: xbind_def split: prod.splits outcome.splits)

subsection \<open>Recording\<close>

text \<open>
  \<open>forward\<close> passes a call of the innermost recorder outward: each recorder adds the keys below
  its item that it has not forwarded yet to its box and hands the box on; without such keys the
  call ends there.  What comes out at the top is recorded with the frozen frame.
\<close>

fun forward :: "fan_recorder list \<Rightarrow> pyval dict \<Rightarrow> fan_recorder list \<times> pyval dict option" where
  "forward [] completed = ([], Some completed)"
| "forward (r # rs) completed =
     (let new = filter (\<lambda>(k, v). starts_with k (prefix r) \<and> k \<notin> set (forwarded r)) completed in
      if new = [] then (r # rs, None)
      else
        let b = dmerge (box r) new; (rs', out) = forward rs b
        in (r\<lparr>box := b, forwarded := forwarded r @ map fst new\<rparr> # rs', out))"

definition record_pipeline_state :: "'w run_deps \<Rightarrow> snapshot \<Rightarrow> bool \<Rightarrow> 'w run_state \<Rightarrow> 'w run_state" where
  "record_pipeline_state deps snap durable st =
     (if \<not> state_log deps then st
      else st\<lparr>journal := journal st @ [\<lparr>gen_snapshot = snap, gen_durable = durable, gen_world = world st\<rparr>]\<rparr>)"

definition record_completed :: "'w run_deps \<Rightarrow> pyval dict \<Rightarrow> bool \<Rightarrow> ('w, unit) exec" where
  "record_completed deps completed durable st =
     (case forward (recorders st) completed of
        (rs, out) \<Rightarrow>
          (Ret (), case out of
             None \<Rightarrow> st\<lparr>recorders := rs\<rparr>
           | Some c \<Rightarrow> record_pipeline_state deps ((frame st)\<lparr>completed_step_results := c\<rparr>) durable
               (st\<lparr>recorders := rs\<rparr>)))"

definition emit :: "'w run_deps \<Rightarrow> run_event \<Rightarrow> ('w, unit) exec" where
  "emit deps e st = (Ret (), if event_log deps then st\<lparr>events := events st @ [e]\<rparr> else st)"

subsection \<open>Contexts\<close>

text \<open>The context of a step: named stores, pipe data, and the names a loop adds (\<open>item\<close>, \<open>acc\<close>).\<close>

record step_context =
  ctx_stores :: ctx
  ctx_pipe :: pyval
  ctx_loop :: "pyval dict"

definition expr_context :: "step_context \<Rightarrow> ctx" where
  "expr_context c = [(''ctx'', VDict (ctx_stores c)), (''pipe'', ctx_pipe c)] @ ctx_loop c"

type_synonym step_result = "pyval \<times> bool \<times> pyval dict"

text \<open>\<open>evaluate_expr\<close> under an \<open>except ExprEvalError\<close>; what it does not catch is raised as it is.\<close>

definition eval_wrapped :: "(eval_reason \<Rightarrow> exec_reason) \<Rightarrow> string \<Rightarrow> step_context \<Rightarrow> ('w, pyval) exec" where
  "eval_wrapped wrap src c =
     (case evaluate_expr src (expr_context c) of
        Inr v \<Rightarrow> xret v
      | Inl (Inr (ExprEvalError r)) \<Rightarrow> fail (wrap r)
      | Inl e \<Rightarrow> xraise (ExprRaised e))"

text \<open>The same under \<open>except (ExprEvalError, ExprParseError)\<close>.\<close>

definition eval_wrapped_both ::
  "(parse_exc + expr_exc \<Rightarrow> exec_reason) \<Rightarrow> string \<Rightarrow> step_context \<Rightarrow> ('w, pyval) exec" where
  "eval_wrapped_both wrap src c =
     (case evaluate_expr src (expr_context c) of
        Inr v \<Rightarrow> xret v
      | Inl (Inr (ExprEvalError r)) \<Rightarrow> fail (wrap (Inr (ExprEvalError r)))
      | Inl (Inl (ExprParseError r)) \<Rightarrow> fail (wrap (Inl (ExprParseError r)))
      | Inl e \<Rightarrow> xraise (ExprRaised e))"

definition bind_output :: "string option \<Rightarrow> pyval \<Rightarrow> ctx \<Rightarrow> ctx" where
  "bind_output output result stores =
     (case output of Some (c # cs) \<Rightarrow> dset (c # cs) result stores | _ \<Rightarrow> stores)"

end
