(* ===== verification/Executor.thy ===== *)
theory Executor
  imports ExecState
begin

section \<open>The step runners\<close>

text \<open>
  The runners of \<open>src/reyn/core/pipeline/executor.py\<close>, one definition per function.  A runner of a
  step that holds other steps takes the dispatcher \<open>r\<close> as an argument; \<open>dispatch\<close> ties the knot
  with a bound on the nesting depth of steps at run time (a pipeline may call itself).
\<close>

subsection \<open>Error policies\<close>

definition FAN_OUT_DROPPED_KEY :: string where
  "FAN_OUT_DROPPED_KEY = ''__fan_out_dropped__''"

definition PARALLEL_BRANCH_ERRORS_KEY :: string where
  "PARALLEL_BRANCH_ERRORS_KEY = ''__branch_errors__''"

text \<open>\<open>^retry\((\d+)\)$\<close>; the anchor \<open>$\<close> also matches before a final newline.\<close>

definition retry_digits :: "string \<Rightarrow> string option" where
  "retry_digits raw =
     (let body = drop 6 raw; digits = takeWhile is_digit body; rest = dropWhile is_digit body in
      if starts_with raw ''retry('' \<and> digits \<noteq> [] \<and> (rest = '')'' \<or> rest = [CHR '')'', CHR 0x0A])
      then Some digits else None)"

definition parse_on_error :: "string \<Rightarrow> exec_reason + on_error" where
  "parse_on_error raw =
     (if raw = ''continue'' then Inr \<lparr>oe_kind = OnContinue, retries = 0\<rparr>
      else if raw = ''abort'' then Inr \<lparr>oe_kind = OnAbort, retries = 0\<rparr>
      else (case retry_digits raw of
          Some ds \<Rightarrow> Inr \<lparr>oe_kind = OnRetry, retries = str_nat ds\<rparr>
        | None \<Rightarrow> Inl (OnErrorUnrecognized raw)))"

definition attempts_of :: "on_error \<Rightarrow> nat" where
  "attempts_of oe = 1 + (if oe_kind oe = OnRetry then retries oe else 0)"

definition tool_step_canonical_error :: "step \<Rightarrow> pyval \<Rightarrow> string option" where
  "tool_step_canonical_error s result =
     (case s of
        ToolStep _ \<Rightarrow>
          (case vget result ''meta'' of
             Some (VDict meta) \<Rightarrow>
               if dget_truthy meta ''isError'' then
                 (case vget result ''text'' of
                    Some t \<Rightarrow> if truthy t then Some (py_str t) else Some ''tool step returned a canonical error result''
                  | None \<Rightarrow> Some ''tool step returned a canonical error result'')
               else None
           | _ \<Rightarrow> None)
      | _ \<Rightarrow> None)"

definition is_dropped_marker :: "pyval \<Rightarrow> bool" where
  "is_dropped_marker v =
     (case v of VDict d \<Rightarrow> set (dkeys d) = {FAN_OUT_DROPPED_KEY, ''error''} | _ \<Rightarrow> False)"

definition dropped_marker :: "string \<Rightarrow> pyval" where
  "dropped_marker err = VDict [(FAN_OUT_DROPPED_KEY, VBool True), (''error'', VStr err)]"

definition consume_spawn :: "'w run_deps \<Rightarrow> string \<Rightarrow> ('w, unit) exec" where
  "consume_spawn deps label st =
     (if spawn_cap deps \<noteq> 0 \<and> spawn_cap deps \<le> spent st
      then (Raise (PipelineExecutionError (SpawnCapReached label (spawn_cap deps) (spent st))), st)
      else (Ret (), st\<lparr>spent := spent st + 1\<rparr>))"

subsection \<open>Prompt templates\<close>

definition prompt_char :: "char \<Rightarrow> bool" where
  "prompt_char c \<longleftrightarrow> c \<noteq> CHR ''{'' \<and> c \<noteq> CHR ''}''"

text \<open>
  A template split at its references: literal characters and the texts between braces.
\<close>

datatype prompt_part = PromptChar char | PromptRef string

function prompt_parts :: "string \<Rightarrow> prompt_part list" where
  "prompt_parts [] = []"
| "prompt_parts (c # cs) =
     (let ref = takeWhile prompt_char cs; rest = dropWhile prompt_char cs in
      if c = CHR ''{'' \<and> ref \<noteq> [] \<and> take 1 rest = ''}''
      then PromptRef (py_strip ref) # prompt_parts (drop 1 rest)
      else PromptChar c # prompt_parts cs)"
  by pat_completeness auto
termination
  by (relation "measure length")
    (auto simp: less_Suc_eq_le intro: le_trans [OF diff_le_self length_dropWhile_le])

fun render_prompt :: "prompt_part list \<Rightarrow> step_context \<Rightarrow> ('w, string) exec" where
  "render_prompt [] c = xret []"
| "render_prompt (PromptChar x # ps) c = xbind (render_prompt ps c) (\<lambda>rest. xret (x # rest))"
| "render_prompt (PromptRef ref # ps) c =
     xbind (eval_wrapped_both (PromptRefFailed ref) ref c) (\<lambda>v.
     xbind (render_prompt ps c) (\<lambda>rest. xret (py_str v @ rest)))"

definition interpolate_prompt :: "string \<Rightarrow> step_context \<Rightarrow> ('w, string) exec" where
  "interpolate_prompt template c = render_prompt (prompt_parts template) c"

subsection \<open>Leaf steps\<close>

definition run_transform_step ::
  "transform_step \<Rightarrow> step_context \<Rightarrow> string \<Rightarrow> pyval dict \<Rightarrow> ('w, step_result) exec" where
  "run_transform_step s c label completed =
     xbind (eval_wrapped (TransformFailed label) (tr_value s) c) (\<lambda>v. xret (v, False, completed))"

definition resolve_args :: "arg_value dict \<Rightarrow> step_context \<Rightarrow> ('w, pyval dict) exec" where
  "resolve_args args c =
     xlift ExprRaised (traverse (\<lambda>(k, a).
       case a of
         ExprRef e \<Rightarrow> rbind (evaluate_expr e (expr_context c)) (\<lambda>v. Inr (k, v))
       | Literal_arg v \<Rightarrow> Inr (k, v)) args)"

definition call_tool :: "'w run_deps \<Rightarrow> string \<Rightarrow> pyval dict \<Rightarrow> ('w, pyval) exec" where
  "call_tool deps name args st =
     (case tool_dispatch deps name args (world st) of
        (Inl msg, w) \<Rightarrow> (Raise (ToolRaised msg), st\<lparr>world := w\<rparr>)
      | (Inr v, w) \<Rightarrow> (Ret v, st\<lparr>world := w\<rparr>))"

definition tool_message :: "pyval \<Rightarrow> string option" where
  "tool_message result =
     (case result of
        VDict d \<Rightarrow>
          (case (if dget_truthy d ''error'' then dget d ''error'' else dget d ''content'') of
             Some (VStr m) \<Rightarrow> if py_strip m \<noteq> [] then Some m else None
           | _ \<Rightarrow> None)
      | _ \<Rightarrow> None)"

definition verify_schema :: "'w run_deps \<Rightarrow> string \<Rightarrow> tool_step \<Rightarrow> pyval \<Rightarrow> ('w, unit) exec" where
  "verify_schema deps label s result =
     (case tool_schema s of
        None \<Rightarrow> xret ()
      | Some sch \<Rightarrow>
          (case schema_registry deps of
             None \<Rightarrow> fail (NoSchemaRegistry label (tool_name s) sch)
           | Some S \<Rightarrow>
               xbind (xlift ValidateRaised (validate result (VStr sch) S)) (\<lambda>vr.
                 if conforming vr then xret ()
                 else fail (SchemaMismatch label (tool_name s) sch (errors vr) (tool_message result)))))"

definition emit_reason :: "'w run_deps \<Rightarrow> (string \<Rightarrow> run_event) \<Rightarrow> string option \<Rightarrow> ('w, unit) exec" where
  "emit_reason deps ev reason = (case reason of None \<Rightarrow> xret () | Some x \<Rightarrow> emit deps (ev x))"

definition ctx_fields :: "'w run_deps \<Rightarrow> pyval \<Rightarrow> pyval \<Rightarrow> ('w, pyval) exec" where
  "ctx_fields deps source result =
     (case result of
        VDict d \<Rightarrow>
          (let inner = unwrap_dict d in
           xbind (xlift MapperRaised (to_canonical (canonical_decls deps) (canonical_mappers deps) inner source)) (\<lambda>c.
           xbind (emit_reason deps (CanonicalFallbackUsed source)
             (canonical_fallback_reason (canonical_decls deps) source False (Some c))) (\<lambda>_.
           xbind (emit_reason deps (CanonicalDegraded source) (canonical_degraded_reason (VDict inner) c)) (\<lambda>_.
             xret (canonical_to_ctx_fields c)))))
      | VStr t \<Rightarrow> xret (VDict [(''text'', VStr t)])
      | v \<Rightarrow> xret (VDict [(''text'', VStr []), (''structured'', v)]))"

definition dispatch_tool_step_once ::
  "'w run_deps \<Rightarrow> tool_step \<Rightarrow> step_context \<Rightarrow> string \<Rightarrow> pyval dict \<Rightarrow> ('w, step_result) exec" where
  "dispatch_tool_step_once deps s c label completed =
     xbind (resolve_args (tool_args s) c) (\<lambda>args.
     xbind (call_tool deps (tool_name s) args) (\<lambda>raw.
     (case extract_canonical_source raw of
        (source, result) \<Rightarrow>
          xbind (verify_schema deps label s result) (\<lambda>_.
          xbind (ctx_fields deps source result) (\<lambda>v. xret (v, True, completed))))))"

datatype attempt_failure = RaisedFailure exc | ErrorResult pyval

text \<open>
  The attempt loop of \<open>_run_tool_step\<close>: the first clean result, or the last failure.
\<close>

fun tool_attempts ::
  "nat \<Rightarrow> attempt_failure \<Rightarrow> 'w run_deps \<Rightarrow> tool_step \<Rightarrow> step_context \<Rightarrow> string \<Rightarrow> pyval dict
    \<Rightarrow> ('w, attempt_failure + step_result) exec" where
  "tool_attempts 0 last_failure deps s c label completed = xret (Inl last_failure)"
| "tool_attempts (Suc n) last_failure deps s c label completed = (\<lambda>st.
     (case dispatch_tool_step_once deps s c label completed st of
        (Ret (v, durable, completed'), st') \<Rightarrow>
          (if tool_step_canonical_error (ToolStep s) v = None then (Ret (Inr (v, durable, completed')), st')
           else tool_attempts n (ErrorResult v) deps s c label completed st')
      | (Raise e, st') \<Rightarrow> tool_attempts n (RaisedFailure e) deps s c label completed st'
      | (Diverge, st') \<Rightarrow> (Diverge, st')))"

definition tool_give_up ::
  "'w run_deps \<Rightarrow> tool_step \<Rightarrow> on_error \<Rightarrow> string \<Rightarrow> pyval dict \<Rightarrow> attempt_failure \<Rightarrow> ('w, step_result) exec" where
  "tool_give_up deps s oe label completed failure =
     (if oe_kind oe = OnContinue then
        (case failure of
           ErrorResult v \<Rightarrow> xret (v, True, completed)
         | RaisedFailure e \<Rightarrow>
             xret (canonical_to_ctx_fields (error_to_canonical [(''error'', VStr (exc_text deps e))]), True, completed))
      else
        fail (ToolFailed label (tool_name s) (case tool_on_error s of None \<Rightarrow> [] | Some raw \<Rightarrow> raw)
          (case failure of
             RaisedFailure e \<Rightarrow> exc_text deps e
           | ErrorResult v \<Rightarrow> (case tool_step_canonical_error (ToolStep s) v of None \<Rightarrow> ''None'' | Some m \<Rightarrow> m))))"

definition run_tool_step ::
  "'w run_deps \<Rightarrow> tool_step \<Rightarrow> step_context \<Rightarrow> string \<Rightarrow> pyval dict \<Rightarrow> ('w, step_result) exec" where
  "run_tool_step deps s c label completed =
     (case tool_on_error s of
        None \<Rightarrow> dispatch_tool_step_once deps s c label completed
      | Some raw \<Rightarrow>
          xbind (xlift PipelineExecutionError (parse_on_error raw)) (\<lambda>oe.
          xbind (tool_attempts (attempts_of oe) (ErrorResult VNone) deps s c label completed) (\<lambda>outcome.
            case outcome of
              Inr res \<Rightarrow> xret res
            | Inl failure \<Rightarrow> tool_give_up deps s oe label completed failure)))"

definition run_agent_step ::
  "'w run_deps \<Rightarrow> agent_step \<Rightarrow> step_context \<Rightarrow> string \<Rightarrow> pyval dict \<Rightarrow> ('w, step_result) exec" where
  "run_agent_step deps s c label completed =
     (case (case agent_identity s of Some (x # xs) \<Rightarrow> Some (x # xs) | _ \<Rightarrow> default_identity deps) of
        None \<Rightarrow> fail (NoIdentity label)
      | Some identity \<Rightarrow>
          (case registry deps of
             None \<Rightarrow> fail (NoAgentRegistry label)
           | Some run \<Rightarrow>
               xbind (consume_spawn deps label) (\<lambda>_.
               xbind (interpolate_prompt (agent_prompt s) c) (\<lambda>prompt. (\<lambda>st.
                 (case run \<lparr>req_identity = identity, req_prompt = prompt, req_capabilities = agent_capabilities s,
                      req_schema = agent_schema s, req_model = agent_model s\<rparr> (world st) of
                    (Inr v, w) \<Rightarrow> (Ret (v, True, completed), st\<lparr>world := w\<rparr>)
                  | (Inl (AgentStepError m), w) \<Rightarrow>
                      (Raise (PipelineExecutionError (AgentFailed label m)), st\<lparr>world := w\<rparr>)
                  | (Inl (AgentOtherError m), w) \<Rightarrow> (Raise (AgentRaised m), st\<lparr>world := w\<rparr>)))))))"


subsection \<open>Scopes\<close>

text \<open>
  The dispatcher's type.  The arguments are the fields of \<open>_StepInvocation\<close>; the recorder is the
  stack in the state.
\<close>

type_synonym 'w dispatcher =
  "'w run_deps \<Rightarrow> step \<Rightarrow> step_context \<Rightarrow> string \<Rightarrow> pyval dict \<Rightarrow> ('w, step_result) exec"

text \<open>
  \<open>run_scope\<close> walks the remaining steps of a sub-scope from index \<open>j\<close>; a step whose key has a
  result is replayed, not run.
\<close>

fun run_scope ::
  "'w dispatcher \<Rightarrow> 'w run_deps \<Rightarrow> string \<Rightarrow> nat \<Rightarrow> step list \<Rightarrow> ctx \<Rightarrow> pyval \<Rightarrow> pyval dict \<Rightarrow> bool
    \<Rightarrow> ('w, pyval \<times> ctx \<times> pyval dict \<times> bool) exec" where
  "run_scope r deps scope j [] stores pipe completed any_durable =
     xret (pipe, stores, completed, any_durable)"
| "run_scope r deps scope j (s # ss) stores pipe completed any_durable =
     (let key = scope @ ''.'' @ nat_str j in
      case dget completed key of
        Some result \<Rightarrow>
          run_scope r deps scope (Suc j) ss (bind_output (step_output s) result stores) result completed any_durable
      | None \<Rightarrow>
          xbind (r deps s \<lparr>ctx_stores = stores, ctx_pipe = pipe, ctx_loop = []\<rparr> key completed) (\<lambda>(result, durable, completed').
          (let completed'' = dset key result completed' in
           xbind (record_completed deps completed'' durable) (\<lambda>_.
             run_scope r deps scope (Suc j) ss (bind_output (step_output s) result stores) result completed''
               (any_durable \<or> durable)))))"

definition find_callee :: "'w run_deps \<Rightarrow> string \<Rightarrow> string \<Rightarrow> ('w, pipeline) exec" where
  "find_callee deps label name =
     (case pipeline_registry deps of
        None \<Rightarrow> fail (NoPipelineRegistry label)
      | Some reg \<Rightarrow> (case get_pipeline reg name of Inl _ \<Rightarrow> fail (TargetNotRegistered label name) | Inr p \<Rightarrow> xret p))"

fun eval_pass_entries :: "pass_entries \<Rightarrow> step_context \<Rightarrow> string \<Rightarrow> ctx \<Rightarrow> ('w, ctx) exec" where
  "eval_pass_entries [] c label resolved = xret resolved"
| "eval_pass_entries ((name, e) # es) c label resolved =
     xbind (eval_wrapped_both (PassFailed label name e) e c) (\<lambda>v.
       eval_pass_entries es c label (dset name v resolved))"

definition run_callee ::
  "'w dispatcher \<Rightarrow> 'w run_deps \<Rightarrow> pipeline \<Rightarrow> pass_entries \<Rightarrow> step_context \<Rightarrow> string \<Rightarrow> string \<Rightarrow> pyval dict
    \<Rightarrow> ('w, step_result) exec" where
  "run_callee r deps callee entries c label scope completed =
     xbind (eval_pass_entries entries c label []) (\<lambda>sub_stores.
     xbind (run_scope r deps scope 0 (steps callee) sub_stores (ctx_pipe c) completed False) (\<lambda>(pipe, _, completed', any_durable).
       xret (pipe, any_durable, completed')))"

definition run_call_step ::
  "'w dispatcher \<Rightarrow> 'w run_deps \<Rightarrow> call_step \<Rightarrow> step_context \<Rightarrow> string \<Rightarrow> pyval dict \<Rightarrow> ('w, step_result) exec" where
  "run_call_step r deps s c label completed =
     xbind (find_callee deps label (call_pipeline s)) (\<lambda>callee.
       run_callee r deps callee (call_pass s) c label (label @ ''.call'') completed)"

definition run_match_step ::
  "'w dispatcher \<Rightarrow> 'w run_deps \<Rightarrow> match_step \<Rightarrow> step_context \<Rightarrow> string \<Rightarrow> pyval dict \<Rightarrow> ('w, step_result) exec" where
  "run_match_step r deps s c label completed =
     xbind (eval_wrapped (MatchOnFailed label) (match_on s) c) (\<lambda>raw_value.
     (case (case dget (match_cases s) (py_str raw_value) of Some k \<Rightarrow> Some k | None \<Rightarrow> match_default s) of
        None \<Rightarrow> fail (NoMatchingCase label (py_str raw_value))
      | Some k \<Rightarrow>
          xbind (find_callee deps label (case_pipeline k)) (\<lambda>callee.
            run_callee r deps callee (case_pass k) c label (label @ ''.match'') completed)))"

subsection \<open>Sequential loops\<close>

definition list_slice_to :: "int \<Rightarrow> 'a list \<Rightarrow> 'a list" where
  "list_slice_to n xs = (if 0 \<le> n then take (nat n) xs else take (length xs - nat (- n)) xs)"

definition resolve_list_source :: "list_source \<Rightarrow> step_context \<Rightarrow> string \<Rightarrow> string \<Rightarrow> ('w, pyval list) exec" where
  "resolve_list_source ls c label knd =
     (if over ls \<noteq> None \<and> items ls \<noteq> None then fail (BothListSources label knd)
      else
        xbind (case over ls of
            Some e \<Rightarrow> eval_wrapped (OverFailed label knd) e c
          | None \<Rightarrow> (case items ls of Some xs \<Rightarrow> xret (VList xs) | None \<Rightarrow> xret (ctx_pipe c))) (\<lambda>source.
        case source of
          VList xs \<Rightarrow> xret xs
        | v \<Rightarrow> fail (NotAListSource label knd (type_name v))))"

text \<open>The iterations of a fold from index \<open>k\<close> on.\<close>

fun fold_items ::
  "'w dispatcher \<Rightarrow> 'w run_deps \<Rightarrow> step \<Rightarrow> string \<Rightarrow> pyval \<Rightarrow> nat \<Rightarrow> pyval list \<Rightarrow> ctx \<Rightarrow> pyval \<Rightarrow> pyval dict \<Rightarrow> bool
    \<Rightarrow> ('w, step_result) exec" where
  "fold_items r deps do' label outer_pipe k [] stores acc completed any_durable =
     xret (acc, any_durable, completed)"
| "fold_items r deps do' label outer_pipe k (x # xs) stores acc completed any_durable =
     (let key = label @ ''.fold.'' @ nat_str k in
      case dget completed key of
        Some acc' \<Rightarrow> fold_items r deps do' label outer_pipe (Suc k) xs stores acc' completed any_durable
      | None \<Rightarrow>
          xbind (r deps do' \<lparr>ctx_stores = stores, ctx_pipe = outer_pipe,
              ctx_loop = [(''item'', x), (''acc'', acc)]\<rparr> key completed) (\<lambda>(result, durable, completed').
          (let completed'' = dset key result completed' in
           xbind (record_completed deps completed'' durable) (\<lambda>_.
             fold_items r deps do' label outer_pipe (Suc k) xs (bind_output (step_output do') result stores)
               result completed'' (any_durable \<or> durable)))))"

definition run_fold_step ::
  "'w dispatcher \<Rightarrow> 'w run_deps \<Rightarrow> string \<Rightarrow> step \<Rightarrow> list_source \<Rightarrow> int option \<Rightarrow> step_context \<Rightarrow> string \<Rightarrow> pyval dict
    \<Rightarrow> ('w, step_result) exec" where
  "run_fold_step r deps init do' ls max_items c label completed =
     xbind (resolve_list_source ls c label ''fold'') (\<lambda>xs.
     xbind (eval_wrapped (InitFailed label) init c) (\<lambda>acc.
       fold_items r deps do' label (ctx_pipe c) 0
         (case max_items of None \<Rightarrow> xs | Some n \<Rightarrow> list_slice_to n xs) (ctx_stores c) acc completed False))"


subsection \<open>Concurrent fan-out\<close>

text \<open>
  A task of a fan-out runs its step with a recorder of its own on the stack, at most
  \<open>attempts\<close> times, each attempt from the coordinator's results as they are by then.
\<close>

definition push_recorder :: "pyval dict \<Rightarrow> string \<Rightarrow> 'w run_state \<Rightarrow> 'w run_state" where
  "push_recorder b item_label st =
     st\<lparr>recorders := \<lparr>box = b, prefix = item_label @ ''.'', forwarded = []\<rparr> # recorders st\<rparr>"

definition pop_recorder :: "'w run_state \<Rightarrow> 'w run_state" where
  "pop_recorder st = st\<lparr>recorders := tl (recorders st)\<rparr>"

definition step_tool_name :: "step \<Rightarrow> string" where
  "step_tool_name s = (case s of ToolStep t \<Rightarrow> tool_name t | _ \<Rightarrow> [])"

fun fan_task ::
  "nat \<Rightarrow> exc \<Rightarrow> 'w dispatcher \<Rightarrow> 'w run_deps \<Rightarrow> step \<Rightarrow> step_context \<Rightarrow> string \<Rightarrow> pyval dict
    \<Rightarrow> ('w, (exc + pyval \<times> bool) \<times> pyval dict) exec" where
  "fan_task 0 last_exc r deps s c item_label b = xret (Inl last_exc, b)"
| "fan_task (Suc n) last_exc r deps s c item_label b = (\<lambda>st.
     (case r deps s c item_label b (push_recorder b item_label st) of
        (out, st') \<Rightarrow>
          let b' = box (hd (recorders st')); st'' = pop_recorder st' in
          (case out of
             Ret (v, durable, _) \<Rightarrow>
               (case tool_step_canonical_error s v of
                  None \<Rightarrow> (Ret (Inr (v, durable), b'), st'')
                | Some m \<Rightarrow>
                    fan_task n (PipelineExecutionError (CanonicalErrorResult item_label (step_tool_name s) m))
                      r deps s c item_label b' st'')
           | Raise e \<Rightarrow> fan_task n e r deps s c item_label b' st''
           | Diverge \<Rightarrow> (Diverge, st''))))"

text \<open>
  The coordinator.  \<open>RunTask i\<close> lets the pending task \<open>i\<close> run to its end, \<open>TakeResult\<close> wakes the
  coordinator for the result that is waiting longest; an action that is not possible is skipped.
\<close>

fun fan_loop ::
  "(nat \<Rightarrow> pyval dict \<Rightarrow> ('w, (exc + pyval \<times> bool) \<times> pyval dict) exec) \<Rightarrow> (nat \<Rightarrow> string) \<Rightarrow> (nat \<Rightarrow> exc \<Rightarrow> exec_reason)
    \<Rightarrow> on_error \<Rightarrow> 'w run_deps \<Rightarrow> fan_action list \<Rightarrow> nat list \<Rightarrow> (nat \<times> (exc + pyval \<times> bool)) list
    \<Rightarrow> pyval dict \<Rightarrow> bool \<Rightarrow> ('w, pyval dict \<times> bool) exec" where
  "fan_loop task key_of abort oe deps [] pending queue b any_durable = xret (b, any_durable)"
| "fan_loop task key_of abort oe deps (RunTask i # acts) pending queue b any_durable =
     (if i \<in> set pending then
        xbind (task i b) (\<lambda>(res, b').
          fan_loop task key_of abort oe deps acts (removeAll i pending) (queue @ [(i, res)]) b' any_durable)
      else fan_loop task key_of abort oe deps acts pending queue b any_durable)"
| "fan_loop task key_of abort oe deps (TakeResult # acts) pending [] b any_durable =
     fan_loop task key_of abort oe deps acts pending [] b any_durable"
| "fan_loop task key_of abort oe deps (TakeResult # acts) pending ((i, Inr (v, durable)) # queue) b any_durable =
     (let b' = dset (key_of i) v b in
      xbind (record_completed deps b' durable) (\<lambda>_.
        fan_loop task key_of abort oe deps acts pending queue b' (any_durable \<or> durable)))"
| "fan_loop task key_of abort oe deps (TakeResult # acts) pending ((i, Inl e) # queue) b any_durable =
     (if oe_kind oe = OnContinue then
        (let b' = dset (key_of i) (dropped_marker (exc_text deps e)) b in
         xbind (record_completed deps b' True) (\<lambda>_.
           fan_loop task key_of abort oe deps acts pending queue b' True))
      else fail (abort i e))"

text \<open>Whatever the event loop does first, in the end every task has run and been taken.\<close>

definition fan_schedule :: "'w run_deps \<Rightarrow> string \<Rightarrow> nat list \<Rightarrow> fan_action list" where
  "fan_schedule deps label pending =
     schedule deps label pending @ map RunTask pending @ map (\<lambda>_. TakeResult) pending"

definition enter_fan_out :: "'w run_deps \<Rightarrow> string \<Rightarrow> string \<Rightarrow> ('w, 'w run_deps) exec" where
  "enter_fan_out deps label knd =
     (let next_depth = fan_out_depth deps + 1 in
      if max_fan_out_depth deps \<noteq> 0 \<and> max_fan_out_depth deps < next_depth
      then fail (FanOutTooDeep label knd next_depth (max_fan_out_depth deps))
      else xret (deps\<lparr>fan_out_depth := next_depth\<rparr>))"

definition result_at :: "pyval dict \<Rightarrow> string \<Rightarrow> exc + pyval" where
  "result_at completed key =
     (case dget completed key of None \<Rightarrow> Inl (MissingResultKey key) | Some v \<Rightarrow> Inr v)"

text \<open>The end of both fan-outs: \<open>collect\<close> runs once and its result is recorded under its key.\<close>

definition run_collect ::
  "'w dispatcher \<Rightarrow> 'w run_deps \<Rightarrow> 'w run_deps \<Rightarrow> step \<Rightarrow> ctx \<Rightarrow> pyval \<Rightarrow> string \<Rightarrow> pyval dict \<Rightarrow> bool
    \<Rightarrow> ('w, step_result) exec" where
  "run_collect r deps child collect stores pipe collect_key b any_durable =
     xbind (r child collect \<lparr>ctx_stores = stores, ctx_pipe = pipe, ctx_loop = []\<rparr> collect_key b) (\<lambda>(v, durable, b').
     (let b'' = dset collect_key v b' in
      xbind (record_completed deps b'' durable) (\<lambda>_. xret (v, any_durable \<or> durable, b''))))"

definition for_each_key :: "string \<Rightarrow> nat \<Rightarrow> string" where
  "for_each_key label i = label @ ''.for_each.'' @ nat_str i"

definition for_each_results :: "pyval dict \<Rightarrow> string \<Rightarrow> nat \<Rightarrow> exc + pyval list" where
  "for_each_results completed label n =
     rbind (traverse (\<lambda>i. result_at completed (for_each_key label i)) [0..<n]) (\<lambda>vs.
       Inr (filter (\<lambda>v. \<not> is_dropped_marker v) vs))"

definition run_for_each_step ::
  "'w dispatcher \<Rightarrow> 'w run_deps \<Rightarrow> step \<Rightarrow> step \<Rightarrow> string \<Rightarrow> list_source \<Rightarrow> int option \<Rightarrow> step_context \<Rightarrow> string
    \<Rightarrow> pyval dict \<Rightarrow> ('w, step_result) exec" where
  "run_for_each_step r deps do' collect on_err ls max_parallel c label completed =
     (let collect_key = label @ ''.for_each.collect'' in
      case dget completed collect_key of
        Some v \<Rightarrow> xret (v, False, completed)
      | None \<Rightarrow>
          xbind (resolve_list_source ls c label ''for_each'') (\<lambda>xs.
          xbind (xlift PipelineExecutionError (parse_on_error on_err)) (\<lambda>oe.
          xbind (enter_fan_out deps label ''for_each'') (\<lambda>child.
          (let pending = filter (\<lambda>i. \<not> has_key completed (for_each_key label i)) [0..<length xs] in
           xbind
             (if pending = [] then xret (completed, False)
              else if (case max_parallel of Some m \<Rightarrow> m < 0 | None \<Rightarrow> False) then xraise SemaphoreValueError
              else fan_loop
                (\<lambda>i b. fan_task (attempts_of oe) SemaphoreValueError r child do'
                   \<lparr>ctx_stores = ctx_stores c, ctx_pipe = ctx_pipe c, ctx_loop = [(''item'', xs ! i)]\<rparr>
                   (for_each_key label i) b)
                (for_each_key label) (\<lambda>i e. ItemFailed label i on_err e) oe deps
                (fan_schedule deps label pending) pending [] completed False) (\<lambda>(b, any_durable).
           xbind (xlift id (for_each_results b label (length xs))) (\<lambda>rs.
             run_collect r deps child collect (ctx_stores c) (VList rs) collect_key b any_durable)))))))"

definition parallel_key :: "string \<Rightarrow> string \<Rightarrow> string" where
  "parallel_key label name = label @ ''.parallel.'' @ name"

definition parallel_outcomes :: "pyval dict \<Rightarrow> string \<Rightarrow> string list \<Rightarrow> exc + (string \<times> pyval) list" where
  "parallel_outcomes completed label names =
     traverse (\<lambda>name. rbind (result_at completed (parallel_key label name)) (\<lambda>v. Inr (name, v))) names"

definition parallel_results :: "pyval dict \<Rightarrow> string \<Rightarrow> string list \<Rightarrow> exc + pyval dict" where
  "parallel_results completed label names =
     rbind (parallel_outcomes completed label names) (\<lambda>vs.
       Inr (dict_of (filter (\<lambda>(_, v). \<not> is_dropped_marker v) vs)))"

definition parallel_branch_errors :: "pyval dict \<Rightarrow> string \<Rightarrow> string list \<Rightarrow> exc + pyval dict" where
  "parallel_branch_errors completed label names =
     rbind (parallel_outcomes completed label names) (\<lambda>vs.
       Inr (dict_of (map (\<lambda>(name, v). (name, case vget v ''error'' of None \<Rightarrow> VStr [] | Some e \<Rightarrow> e))
         (filter (\<lambda>(_, v). is_dropped_marker v) vs))))"

definition run_parallel_step ::
  "'w dispatcher \<Rightarrow> 'w run_deps \<Rightarrow> (string \<times> step) list \<Rightarrow> step \<Rightarrow> string \<Rightarrow> step_context \<Rightarrow> string
    \<Rightarrow> pyval dict \<Rightarrow> ('w, step_result) exec" where
  "run_parallel_step r deps branches collect on_err c label completed =
     (let collect_key = label @ ''.parallel.collect''; names = map fst branches in
      case dget completed collect_key of
        Some v \<Rightarrow> xret (v, False, completed)
      | None \<Rightarrow>
          xbind (xlift PipelineExecutionError (parse_on_error on_err)) (\<lambda>oe.
          xbind (enter_fan_out deps label ''parallel'') (\<lambda>child.
          (let pending = filter (\<lambda>i. \<not> has_key completed (parallel_key label (names ! i))) [0..<length names] in
           xbind
             (if pending = [] then xret (completed, False)
              else fan_loop
                (\<lambda>i b. fan_task (attempts_of oe) SemaphoreValueError r child (snd (branches ! i))
                   \<lparr>ctx_stores = ctx_stores c, ctx_pipe = ctx_pipe c, ctx_loop = []\<rparr>
                   (parallel_key label (names ! i)) b)
                (\<lambda>i. parallel_key label (names ! i)) (\<lambda>i e. BranchFailed label (names ! i) on_err e) oe deps
                (fan_schedule deps label pending) pending [] completed False) (\<lambda>(b, any_durable).
           xbind (xlift id (parallel_results b label names)) (\<lambda>results.
           xbind (xlift id (parallel_branch_errors b label names)) (\<lambda>errs.
             run_collect r deps child collect (ctx_stores c)
               (VDict (if errs = [] then results else dset PARALLEL_BRANCH_ERRORS_KEY (VDict errs) results))
               collect_key b any_durable)))))))"

subsection \<open>Dispatch\<close>

fun dispatch :: "nat \<Rightarrow> 'w dispatcher" where
  "dispatch 0 deps s c label completed = (\<lambda>st. (Diverge, st))"
| "dispatch (Suc n) deps s c label completed =
     (case s of
        TransformStep t \<Rightarrow> run_transform_step t c label completed
      | ToolStep t \<Rightarrow> run_tool_step deps t c label completed
      | AgentStep t \<Rightarrow> run_agent_step deps t c label completed
      | CallStep t \<Rightarrow> run_call_step (dispatch n) deps t c label completed
      | MatchStep t \<Rightarrow> run_match_step (dispatch n) deps t c label completed
      | FoldStep init do' out ls max_items \<Rightarrow>
          run_fold_step (dispatch n) deps init do' ls max_items c label completed
      | ForEachStep do' collect on_err ls max_parallel out \<Rightarrow>
          run_for_each_step (dispatch n) deps do' collect on_err ls max_parallel c label completed
      | ParallelStep branches collect on_err out \<Rightarrow>
          run_parallel_step (dispatch n) deps branches collect on_err c label completed)"

fun step_kind :: "step \<Rightarrow> string" where
  "step_kind (TransformStep _) = ''transform''"
| "step_kind (ToolStep _) = ''tool''"
| "step_kind (AgentStep _) = ''agent''"
| "step_kind (CallStep _) = ''call''"
| "step_kind (MatchStep _) = ''match''"
| "step_kind (FoldStep _ _ _ _ _) = ''fold''"
| "step_kind (ForEachStep _ _ _ _ _ _) = ''for_each''"
| "step_kind (ParallelStep _ _ _ _) = ''parallel''"

subsection \<open>Running a pipeline\<close>

definition poll_cancel :: "'w run_deps \<Rightarrow> nat \<Rightarrow> ('w, unit) exec" where
  "poll_cancel deps i st =
     (case cancel_check deps of
        Some chk \<Rightarrow> if chk (world st) then (Raise (PipelineCancelled i), st) else (Ret (), st)
      | None \<Rightarrow> (Ret (), st))"

definition freeze_frame :: "snapshot \<Rightarrow> ('w, unit) exec" where
  "freeze_frame snap st = (Ret (), st\<lparr>frame := snap\<rparr>)"

definition record_snapshot :: "'w run_deps \<Rightarrow> snapshot \<Rightarrow> bool \<Rightarrow> ('w, unit) exec" where
  "record_snapshot deps snap durable st = (Ret (), record_pipeline_state deps snap durable st)"

fun run_steps ::
  "nat \<Rightarrow> 'w run_deps \<Rightarrow> nat \<Rightarrow> nat \<Rightarrow> step list \<Rightarrow> ctx \<Rightarrow> pyval \<Rightarrow> pyval dict \<Rightarrow> ('w, snapshot) exec" where
  "run_steps n deps n_steps i [] named pipe completed =
     xret \<lparr>step_index = n_steps, named_stores = named, pipe_data = pipe, completed_step_results = completed\<rparr>"
| "run_steps n deps n_steps i (s # ss) named pipe completed =
     xbind (poll_cancel deps i) (\<lambda>_.
     xbind (emit deps (StepStarted i (step_kind s) n_steps)) (\<lambda>_.
     xbind (freeze_frame \<lparr>step_index = i, named_stores = named, pipe_data = pipe, completed_step_results = completed\<rparr>) (\<lambda>_.
     xbind (dispatch n deps s \<lparr>ctx_stores = named, ctx_pipe = pipe, ctx_loop = []\<rparr> (nat_str i) completed) (\<lambda>(result, durable, completed').
     (let completed'' = dset (nat_str i) result completed'; named' = bind_output (step_output s) result named in
      xbind (record_snapshot deps \<lparr>step_index = Suc i, named_stores = named', pipe_data = result,
          completed_step_results = completed''\<rparr> durable) (\<lambda>_.
      xbind (emit deps (StepCompleted (Suc i) (step_kind s) n_steps)) (\<lambda>_.
        run_steps n deps n_steps (Suc i) ss named' result completed'')))))))"

definition DEFAULT_MAX_FAN_OUT_DEPTH :: int where
  "DEFAULT_MAX_FAN_OUT_DEPTH = 5"

definition DEFAULT_MAX_PIPELINE_SPAWNS :: int where
  "DEFAULT_MAX_PIPELINE_SPAWNS = 100"

text \<open>
  \<open>run_from\<close> starts with a fresh budget; the world, the journal and the events go on from the
  state it is given.
\<close>

definition run_from ::
  "nat \<Rightarrow> 'w run_deps \<Rightarrow> int option \<Rightarrow> int option \<Rightarrow> pipeline \<Rightarrow> snapshot \<Rightarrow> ('w, snapshot) exec" where
  "run_from n deps max_depth max_spawns p start st =
     run_steps n
       (deps\<lparr>fan_out_depth := 0,
          max_fan_out_depth := (case max_depth of None \<Rightarrow> DEFAULT_MAX_FAN_OUT_DEPTH | Some m \<Rightarrow> m),
          spawn_cap := (case max_spawns of None \<Rightarrow> DEFAULT_MAX_PIPELINE_SPAWNS | Some m \<Rightarrow> m)\<rparr>)
       (length (steps p)) (step_index start) (drop (step_index start) (steps p))
       (named_stores start) (pipe_data start) (completed_step_results start)
       (st\<lparr>spent := 0, recorders := []\<rparr>)"

definition run_pipeline ::
  "nat \<Rightarrow> 'w run_deps \<Rightarrow> int option \<Rightarrow> int option \<Rightarrow> pipeline \<Rightarrow> ctx option \<Rightarrow> ('w, snapshot) exec" where
  "run_pipeline n deps max_depth max_spawns p initial_context =
     run_from n deps max_depth max_spawns p
       \<lparr>step_index = 0, named_stores = (case initial_context of None \<Rightarrow> [] | Some c \<Rightarrow> c), pipe_data = VNone,
        completed_step_results = []\<rparr>"

definition resume_pipeline ::
  "nat \<Rightarrow> 'w run_deps \<Rightarrow> int option \<Rightarrow> int option \<Rightarrow> pipeline \<Rightarrow> snapshot option \<Rightarrow> ('w, snapshot) exec" where
  "resume_pipeline n deps max_depth max_spawns p snap =
     (case snap of
        None \<Rightarrow> run_pipeline n deps max_depth max_spawns p None
      | Some s \<Rightarrow> run_from n deps max_depth max_spawns p s)"

end
