(* ===== verification/ExecFacts.thy ===== *)
theory ExecFacts
  imports Executor
begin

section \<open>What every step keeps\<close>

text \<open>
  A small logic for the runners.  \<open>good cap P c m sel\<close> says: started with results \<open>c\<close>, the
  computation \<open>m\<close> only adds results under keys in \<open>P\<close>, records generations that grow from one to
  the next and carry the frozen outer frame, stays within the spawn cap \<open>cap\<close>, and hands back
  (\<open>sel\<close>) the results it really has.  The rules follow the shape of the runners; the locale
  \<open>step_runner\<close> is what a runner of compositional steps may rely on of the dispatcher.
\<close>

subsection \<open>Growing results\<close>

definition extends :: "pyval dict \<Rightarrow> pyval dict \<Rightarrow> bool" where
  "extends c c' \<longleftrightarrow> (\<forall>k v. dget c k = Some v \<longrightarrow> dget c' k = Some v)"

definition grows :: "(string \<Rightarrow> bool) \<Rightarrow> pyval dict \<Rightarrow> pyval dict \<Rightarrow> bool" where
  "grows P c c' \<longleftrightarrow> extends c c' \<and> (\<forall>k. dget c k = None \<longrightarrow> dget c' k \<noteq> None \<longrightarrow> P k)"

fun progress :: "pyval dict \<Rightarrow> pyval dict list \<Rightarrow> pyval dict \<Rightarrow> bool" where
  "progress a [] b = extends a b"
| "progress a (x # xs) b = (extends a x \<and> progress x xs b)"

lemma extends_refl [simp]: "extends c c" by (simp add: extends_def)

lemma extends_trans: "extends a b \<Longrightarrow> extends b c \<Longrightarrow> extends a c" by (simp add: extends_def)

lemma grows_refl [simp]: "grows P c c" by (simp add: grows_def)

lemma grows_trans: "grows P a b \<Longrightarrow> grows P b c \<Longrightarrow> grows P a c"
  unfolding grows_def by (metis extends_trans)

lemma grows_weaken: "grows P a b \<Longrightarrow> (\<And>k. P k \<Longrightarrow> Q k) \<Longrightarrow> grows Q a b"
  by (simp add: grows_def)

lemma grows_None: "grows P a b \<Longrightarrow> dget a k = None \<Longrightarrow> \<not> P k \<Longrightarrow> dget b k = None"
  unfolding grows_def by blast

lemma grows_dset: "dget c k = None \<Longrightarrow> P k \<Longrightarrow> grows P c (dset k v c)"
  by (auto simp: grows_def extends_def)

lemma progress_extends: "progress a xs b \<Longrightarrow> extends a b"
  by (induction xs arbitrary: a) (auto intro: extends_trans)

lemma progress_pre: "extends a b \<Longrightarrow> progress b xs c \<Longrightarrow> progress a xs c"
  by (cases xs) (auto intro: extends_trans)

lemma progress_append: "progress a xs b \<Longrightarrow> progress b ys c \<Longrightarrow> progress a (xs @ ys) c"
  by (induction xs arbitrary: a) (auto intro: progress_pre)

subsection \<open>Recorder stacks\<close>

text \<open>
  Each box holds, below its item's prefix, only results the computation inside has.  \<open>base_results\<close>
  are the results the next generation extends.
\<close>

fun coupled :: "fan_recorder list \<Rightarrow> pyval dict \<Rightarrow> bool" where
  "coupled [] c = distinct (dkeys c)"
| "coupled (r # rs) c =
     (distinct (dkeys c) \<and> (\<forall>k v. starts_with k (prefix r) \<longrightarrow> dget (box r) k = Some v \<longrightarrow> dget c k = Some v)
      \<and> coupled rs (box r))"

fun base_results :: "fan_recorder list \<Rightarrow> pyval dict \<Rightarrow> pyval dict" where
  "base_results [] c = c"
| "base_results (r # rs) c = base_results rs (box r)"

definition recs_grow :: "fan_recorder list \<Rightarrow> fan_recorder list \<Rightarrow> bool" where
  "recs_grow = list_all2 (\<lambda>r r'. prefix r' = prefix r \<and> grows (\<lambda>k. starts_with k (prefix r)) (box r) (box r'))"

lemma recs_grow_refl [simp]: "recs_grow rs rs"
  by (simp add: recs_grow_def list.rel_refl)

lemma recs_grow_trans: "recs_grow a b \<Longrightarrow> recs_grow b c \<Longrightarrow> recs_grow a c"
  unfolding recs_grow_def
  by (erule (1) list_all2_trans [rotated 2, rotated -1]) (auto intro: grows_trans)

lemma coupled_distinct: "coupled rs c \<Longrightarrow> distinct (dkeys c)"
  by (cases rs) auto

lemma coupled_extends: "coupled rs c \<Longrightarrow> extends c c' \<Longrightarrow> distinct (dkeys c') \<Longrightarrow> coupled rs c'"
  by (cases rs) (auto simp: extends_def)

lemma coupled_push: "coupled rs c \<Longrightarrow> coupled (\<lparr>box = c, prefix = p, forwarded = f\<rparr> # rs) c"
  using coupled_distinct by auto

lemma base_distinct: "coupled rs c \<Longrightarrow> distinct (dkeys (base_results rs c))"
  by (induction rs arbitrary: c) auto

lemma base_extends: "extends c c' \<Longrightarrow> extends (base_results rs c) (base_results rs c')"
  by (cases rs) auto

lemma dget_filter_keys: "distinct (dkeys c) \<Longrightarrow> dget (rev (filter (\<lambda>(k, v). Q k) c)) k = (if Q k then dget c k else None)"
proof -
  assume d: "distinct (dkeys c)"
  then have "distinct (dkeys (filter (\<lambda>(k, v). Q k) c))"
    by (induction c) (auto simp: dkeys_def)
  then have "dget (rev (filter (\<lambda>(k, v). Q k) c)) k = dget (filter (\<lambda>(k, v). Q k) c) k" by (rule dget_rev)
  also have "\<dots> = (if Q k then dget c k else None)" by (induction c) auto
  finally show ?thesis .
qed

lemma merge_new:
  fixes b c :: "pyval dict" and F :: "string set" and p :: string
  assumes "distinct (dkeys c)" and "distinct (dkeys b)"
    and "\<forall>k v. starts_with k p \<longrightarrow> dget b k = Some v \<longrightarrow> dget c k = Some v"
  defines "b' \<equiv> dmerge b (filter (\<lambda>(k, v). starts_with k p \<and> k \<notin> F) c)"
  shows "grows (\<lambda>k. starts_with k p) b b'" and "distinct (dkeys b')"
    and "\<forall>k v. starts_with k p \<longrightarrow> dget b' k = Some v \<longrightarrow> dget c k = Some v"
proof -
  have g: "dget b' k = (if starts_with k p \<and> k \<notin> F \<and> dget c k \<noteq> None then dget c k else dget b k)" for k
    unfolding b'_def dget_dmerge using dget_filter_keys [OF assms(1), of "\<lambda>k. starts_with k p \<and> k \<notin> F" k]
    by (auto split: option.splits)
  show "grows (\<lambda>k. starts_with k p) b b'" and "\<forall>k v. starts_with k p \<longrightarrow> dget b' k = Some v \<longrightarrow> dget c k = Some v"
    using assms(3) unfolding grows_def extends_def g by auto
  show "distinct (dkeys b')" unfolding b'_def by (rule distinct_dkeys_dmerge) (rule assms(2))
qed

lemma forward_spec:
  assumes "coupled rs c" and "forward rs c = (rs', out)"
  shows "recs_grow rs rs' \<and> coupled rs' c
    \<and> (case out of None \<Rightarrow> base_results rs' c = base_results rs c
        | Some x \<Rightarrow> base_results rs' c = x \<and> extends (base_results rs c) x)"
  using assms
proof (induction rs arbitrary: c rs' out)
  case (Cons r rs)
  let ?new = "filter (\<lambda>(k, v). starts_with k (prefix r) \<and> k \<notin> set (forwarded r)) c"
  let ?b = "dmerge (box r) ?new"
  show ?case
  proof (cases "?new = []")
    case True
    then have "(rs', out) = (r # rs, None)" using Cons.prems(2) by (simp add: Let_def)
    with Cons.prems show ?thesis by simp
  next
    case False
    obtain rs'' o' where f: "forward rs ?b = (rs'', o')" by (metis surj_pair)
    from False Cons.prems(2) have r': "rs' = r\<lparr>box := ?b, forwarded := forwarded r @ map fst ?new\<rparr> # rs''" "out = o'"
      by (simp_all add: Let_def f split: if_split_asm)
    have d: "distinct (dkeys c)" "distinct (dkeys (box r))"
      using Cons.prems(1) coupled_distinct [of rs "box r"] by simp_all
    note m = merge_new [where F = "set (forwarded r)" and p = "prefix r", OF d]
    have pre: "\<forall>k v. starts_with k (prefix r) \<longrightarrow> dget (box r) k = Some v \<longrightarrow> dget c k = Some v"
      using Cons.prems(1) by simp
    have cb: "coupled rs ?b"
      using coupled_extends [of rs "box r" ?b] Cons.prems(1) m(1) [OF pre] m(2) [OF pre] by (simp add: grows_def)
    note ih = Cons.IH [OF cb f]
    have e: "extends (base_results rs (box r)) (base_results rs ?b)"
      using m(1) [OF pre] by (intro base_extends) (simp add: grows_def)
    have "recs_grow (r # rs) rs'" and "coupled rs' c"
      using ih m [OF pre] d(1) by (simp_all add: r' recs_grow_def)
    moreover have "case out of None \<Rightarrow> base_results rs' c = base_results (r # rs) c
        | Some x \<Rightarrow> base_results rs' c = x \<and> extends (base_results (r # rs) c) x"
    proof (cases out)
      case None
      then have "rs \<noteq> []" using f r'(2) by auto
      then have "base_results rs ?b = base_results rs (box r)" by (cases rs) simp_all
      with None ih show ?thesis by (simp add: r')
    next
      case (Some x)
      with ih have "base_results rs'' ?b = x" "extends (base_results rs ?b) x" by (simp_all add: r')
      with Some e show ?thesis using extends_trans by (auto simp: r'(1))
    qed
    ultimately show ?thesis by blast
  qed
qed simp

subsection \<open>The logic\<close>

definition advances :: "int \<Rightarrow> (string \<Rightarrow> bool) \<Rightarrow> 'w run_state \<Rightarrow> pyval dict \<Rightarrow> 'w run_state \<Rightarrow> pyval dict \<Rightarrow> bool" where
  "advances cap P st c st' c' \<longleftrightarrow>
     coupled (recorders st') c' \<and> grows P c c' \<and> recs_grow (recorders st) (recorders st') \<and> frame st' = frame st
     \<and> spent st \<le> spent st' \<and> (cap \<noteq> 0 \<longrightarrow> spent st' \<le> max (spent st) cap)
     \<and> (\<exists>J. journal st' = journal st @ J
          \<and> (\<forall>g\<in>set J. \<exists>x. distinct (dkeys x) \<and> gen_snapshot g = (frame st)\<lparr>completed_step_results := x\<rparr>)
          \<and> progress (base_results (recorders st) c) (map (completed_step_results \<circ> gen_snapshot) J)
              (base_results (recorders st') c'))"

definition good :: "int \<Rightarrow> (string \<Rightarrow> bool) \<Rightarrow> pyval dict \<Rightarrow> ('w, 'a) exec \<Rightarrow> ('a \<Rightarrow> pyval dict) \<Rightarrow> bool" where
  "good cap P c m sel \<longleftrightarrow>
     (\<forall>st out st'. coupled (recorders st) c \<longrightarrow> m st = (out, st') \<longrightarrow>
        (\<exists>c'. advances cap P st c st' c' \<and> (\<forall>x. out = Ret x \<longrightarrow> sel x = c')))"

text \<open>A quiet computation changes only the world, the events and (within the cap) the budget.\<close>

definition quiet :: "int \<Rightarrow> ('w, 'a) exec \<Rightarrow> bool" where
  "quiet cap m \<longleftrightarrow>
     (\<forall>st out st'. m st = (out, st') \<longrightarrow>
        recorders st' = recorders st \<and> frame st' = frame st \<and> journal st' = journal st
        \<and> spent st \<le> spent st' \<and> (cap \<noteq> 0 \<longrightarrow> spent st' \<le> max (spent st) cap))"

lemma quietD:
  assumes "quiet cap m" and "m st = (out, st')"
  shows "recorders st' = recorders st" "frame st' = frame st" "journal st' = journal st"
    "spent st \<le> spent st'" "cap \<noteq> 0 \<Longrightarrow> spent st' \<le> max (spent st) cap"
  using assms(1) [unfolded quiet_def, rule_format, OF assms(2)] by simp_all

lemma goodD:
  assumes "good cap P c m sel" and "coupled (recorders st) c" and "m st = (out, st')"
  obtains c' where "advances cap P st c st' c'" and "\<And>x. out = Ret x \<Longrightarrow> sel x = c'"
  using assms(1) [unfolded good_def, rule_format, OF assms(2,3)] by blast

lemma advances_refl: "coupled (recorders st) c \<Longrightarrow> advances cap P st c st c"
  by (auto simp: advances_def)

lemma advances_trans:
  assumes "advances cap P st c st1 c1" and "advances cap P st1 c1 st2 c2"
  shows "advances cap P st c st2 c2"
proof -
  from assms(1) obtain J where J: "journal st1 = journal st @ J"
    "\<forall>g\<in>set J. \<exists>x. distinct (dkeys x) \<and> gen_snapshot g = (frame st)\<lparr>completed_step_results := x\<rparr>"
    "progress (base_results (recorders st) c) (map (completed_step_results \<circ> gen_snapshot) J)
       (base_results (recorders st1) c1)"
    by (auto simp: advances_def)
  from assms obtain K where K: "journal st2 = journal st1 @ K"
    "\<forall>g\<in>set K. \<exists>x. distinct (dkeys x) \<and> gen_snapshot g = (frame st)\<lparr>completed_step_results := x\<rparr>"
    "progress (base_results (recorders st1) c1) (map (completed_step_results \<circ> gen_snapshot) K)
       (base_results (recorders st2) c2)"
    by (auto simp: advances_def)
  have "journal st2 = journal st @ (J @ K) \<and> (\<forall>g\<in>set (J @ K). \<exists>x. distinct (dkeys x) \<and> gen_snapshot g = (frame st)\<lparr>completed_step_results := x\<rparr>)
      \<and> progress (base_results (recorders st) c) (map (completed_step_results \<circ> gen_snapshot) (J @ K))
          (base_results (recorders st2) c2)"
    using J K progress_append [OF J(3) K(3)] by auto
  then show ?thesis
    using assms unfolding advances_def by (auto intro: grows_trans recs_grow_trans)
qed

lemma advances_weaken: "advances cap P st c st' c' \<Longrightarrow> (\<And>k. P k \<Longrightarrow> Q k) \<Longrightarrow> advances cap Q st c st' c'"
  using grows_weaken unfolding advances_def by blast

lemma advances_dset:
  assumes "coupled (recorders st) c" and "dget c k = None" and "P k"
  shows "advances cap P st c st (dset k v c)"
proof -
  have g: "grows P c (dset k v c)" using assms by (intro grows_dset)
  then have "coupled (recorders st) (dset k v c)"
    using assms(1) coupled_distinct [OF assms(1)] distinct_dkeys_dset
    by (intro coupled_extends [OF assms(1)]) (auto simp: grows_def)
  with g show ?thesis by (auto simp: advances_def grows_def intro: base_extends)
qed

lemma good_I:
  "(\<And>st out st'. coupled (recorders st) c \<Longrightarrow> m st = (out, st') \<Longrightarrow>
      \<exists>c'. advances cap P st c st' c' \<and> (\<forall>x. out = Ret x \<longrightarrow> sel x = c')) \<Longrightarrow> good cap P c m sel"
  by (auto simp: good_def)

lemma good_weaken: "good cap Q c m sel \<Longrightarrow> (\<And>k. Q k \<Longrightarrow> P k) \<Longrightarrow> good cap P c m sel"
  using advances_weaken [of cap Q _ c _ _ P] unfolding good_def by blast

lemma good_ret: "sel x = c \<Longrightarrow> good cap P c (xret x) sel"
  by (auto simp: good_def xret_def intro: advances_refl)

lemma good_raise: "good cap P c (xraise e) sel"
  by (auto simp: good_def xraise_def intro: advances_refl)

lemma good_fail: "good cap P c (fail e) sel"
  unfolding fail_def by (rule good_raise)

lemma good_diverge: "good cap P c (\<lambda>st. (Diverge, st)) sel"
  by (auto simp: good_def intro: advances_refl)

lemma advances_quiet:
  assumes "quiet cap m" and "m st = (out, st')" and "advances cap P st' c st'' c'"
  shows "advances cap P st c st'' c'"
proof -
  note q = quietD [OF assms(1,2)]
  have "spent st \<le> spent st''" "cap \<noteq> 0 \<Longrightarrow> spent st'' \<le> max (spent st) cap"
    using assms(3) q(4,5) unfolding advances_def by linarith+
  with assms(3) show ?thesis unfolding advances_def q by blast
qed

lemma good_quiet_bind_ret:
  assumes "quiet cap m" and "\<And>x st st'. m st = (Ret x, st') \<Longrightarrow> good cap P c (f x) sel"
  shows "good cap P c (xbind m f) sel"
proof (rule good_I)
  fix st out st' assume c: "coupled (recorders st) c" and b: "xbind m f st = (out, st')"
  obtain o1 st1 where m: "m st = (o1, st1)" by (metis surj_pair)
  have r: "recorders st1 = recorders st" by (rule quietD(1) [OF assms(1) m])
  have q0: "advances cap P st c st1 c"
    using c r by (intro advances_quiet [OF assms(1) m] advances_refl) simp
  show "\<exists>c'. advances cap P st c st' c' \<and> (\<forall>x. out = Ret x \<longrightarrow> sel x = c')"
  proof (cases o1)
    case (Ret x)
    with b m have "f x st1 = (out, st')" by (simp add: xbind_def)
    moreover have "coupled (recorders st1) c" using c r by simp
    ultimately obtain c' where "advances cap P st1 c st' c'" "\<And>x. out = Ret x \<Longrightarrow> sel x = c'"
      using goodD [OF assms(2) [OF m [unfolded Ret]]] by metis
    then show ?thesis using advances_quiet [OF assms(1) m] by blast
  next
    case (Raise e)
    then have "st' = st1" "out = Raise e" using b m by (simp_all add: xbind_def)
    with q0 show ?thesis by auto
  next
    case Diverge
    then have "st' = st1" "out = Diverge" using b m by (simp_all add: xbind_def)
    with q0 show ?thesis by auto
  qed
qed

lemma good_quiet_bind:
  assumes "quiet cap m" and "\<And>x. good cap P c (f x) sel"
  shows "good cap P c (xbind m f) sel"
  using assms by (rule good_quiet_bind_ret)

lemma good_bind:
  assumes "good cap Q c m s" and "\<And>k. Q k \<Longrightarrow> P k" and "\<And>x. grows Q c (s x) \<Longrightarrow> good cap P (s x) (f x) sel"
  shows "good cap P c (xbind m f) sel"
proof (rule good_I)
  fix st out st' assume c: "coupled (recorders st) c" and b: "xbind m f st = (out, st')"
  obtain o1 st1 where m: "m st = (o1, st1)" by (metis surj_pair)
  from assms(1) c m obtain c1 where a: "advances cap Q st c st1 c1" "\<And>x. o1 = Ret x \<Longrightarrow> s x = c1"
    unfolding good_def by meson
  have a': "advances cap P st c st1 c1" using a(1) assms(2) by (rule advances_weaken)
  show "\<exists>c'. advances cap P st c st' c' \<and> (\<forall>x. out = Ret x \<longrightarrow> sel x = c')"
  proof (cases o1)
    case (Ret x)
    with b m have f: "f x st1 = (out, st')" by (simp add: xbind_def)
    have "good cap P c1 (f x) sel"
      using assms(3) [of x] a(1) a(2) [OF Ret] by (auto simp: advances_def)
    moreover have "coupled (recorders st1) c1" using a(1) by (simp add: advances_def)
    ultimately obtain c2 where "advances cap P st1 c1 st' c2" "\<forall>x. out = Ret x \<longrightarrow> sel x = c2"
      using f unfolding good_def by meson
    with advances_trans [OF a'] show ?thesis by blast
  qed (use b m a' in \<open>auto simp: xbind_def\<close>)
qed

lemma good_dset:
  assumes "dget c k = None" and "P k" and "good cap P (dset k v c) m sel"
  shows "good cap P c m sel"
proof (rule good_I)
  fix st out st' assume c: "coupled (recorders st) c" and b: "m st = (out, st')"
  note d = advances_dset [where P = P and cap = cap and v = v, OF c assms(1,2)]
  have "coupled (recorders st) (dset k v c)" using d by (simp add: advances_def)
  with assms(3) b obtain c' where "advances cap P st (dset k v c) st' c'" "\<forall>x. out = Ret x \<longrightarrow> sel x = c'"
    unfolding good_def by meson
  with advances_trans [OF d] show "\<exists>c'. advances cap P st c st' c' \<and> (\<forall>x. out = Ret x \<longrightarrow> sel x = c')"
    by blast
qed

lemma good_record: "good cap P c (record_completed deps c d) (\<lambda>_. c)"
proof (rule good_I)
  fix st :: "'a run_state" and out st'
  assume c: "coupled (recorders st) c" and b: "record_completed deps c d st = (out, st')"
  obtain rs o' where f: "forward (recorders st) c = (rs, o')" by (metis surj_pair)
  note s = forward_spec [OF c f]
  show "\<exists>c'. advances cap P st c st' c' \<and> (\<forall>x. out = Ret x \<longrightarrow> c = c')"
  proof (cases o')
    case None
    with b s show ?thesis by (auto simp: record_completed_def f advances_def)
  next
    case (Some x)
    with s have "distinct (dkeys x)" using base_distinct [of rs c] by simp
    with b s Some show ?thesis
      by (auto simp: record_completed_def record_pipeline_state_def f advances_def)
  qed
qed


subsection \<open>Quiet computations\<close>

lemma quiet_ret [simp]: "quiet cap (xret x)" by (simp add: quiet_def xret_def)
lemma quiet_raise [simp]: "quiet cap (xraise e)" by (simp add: quiet_def xraise_def)
lemma quiet_fail [simp]: "quiet cap (fail e)" by (simp add: fail_def)
lemma quiet_lift [simp]: "quiet cap (xlift f r)" by (simp add: xlift_def split: sum.split)

lemma quiet_after:
  assumes "quiet cap m" and "m st = (o1, st1)" and "quiet cap k" and "k st1 = (out, st')"
  shows "recorders st' = recorders st \<and> frame st' = frame st \<and> journal st' = journal st
        \<and> spent st \<le> spent st' \<and> (cap \<noteq> 0 \<longrightarrow> spent st' \<le> max (spent st) cap)"
  using quietD [OF assms(1,2)] quietD [OF assms(3,4)] by auto

lemma quiet_bind:
  assumes "quiet cap m" and "\<And>x. quiet cap (f x)"
  shows "quiet cap (xbind m f)"
  unfolding quiet_def
proof (intro allI impI)
  fix st out st' assume b: "xbind m f st = (out, st')"
  obtain o1 st1 where m: "m st = (o1, st1)" by (metis surj_pair)
  have "\<exists>k. quiet cap k \<and> k st1 = (out, st')"
  proof (cases o1)
    case (Ret x)
    with b m have "f x st1 = (out, st')" by (simp add: xbind_def)
    with assms(2) show ?thesis by blast
  next
    case (Raise e)
    with b m have "xraise e st1 = (out, st')" by (simp add: xbind_def xraise_def)
    with quiet_raise [of cap e] show ?thesis by blast
  next
    case Diverge
    with b m have "(\<lambda>st. (Diverge, st)) st1 = (out, st')" by (simp add: xbind_def)
    moreover have "quiet cap (\<lambda>st. (Diverge, st))" by (simp add: quiet_def)
    ultimately show ?thesis by blast
  qed
  with quiet_after [OF assms(1) m] show "recorders st' = recorders st \<and> frame st' = frame st \<and> journal st' = journal st
      \<and> spent st \<le> spent st' \<and> (cap \<noteq> 0 \<longrightarrow> spent st' \<le> max (spent st) cap)"
    by blast
qed

lemma quiet_eval [simp]: "quiet cap (eval_wrapped w e c)"
  by (simp add: eval_wrapped_def split: sum.split expr_exc.split)

lemma quiet_eval_both [simp]: "quiet cap (eval_wrapped_both w e c)"
  by (simp add: eval_wrapped_both_def split: sum.split expr_exc.split parse_exc.split)

lemma quiet_emit [simp]: "quiet cap (emit deps e)"
  by (auto simp: quiet_def emit_def)

lemma quiet_spawn: "cap = spawn_cap deps \<Longrightarrow> quiet cap (consume_spawn deps label)"
  by (auto simp: quiet_def consume_spawn_def split: if_splits)

lemma quiet_tool [simp]: "quiet cap (call_tool deps name args)"
  by (auto simp: quiet_def call_tool_def split: prod.splits sum.splits)

lemma quiet_render [simp]: "quiet cap (render_prompt ps c)"
  by (induction ps c rule: render_prompt.induct) (auto intro!: quiet_bind)

lemma quiet_once: "quiet cap (dispatch_tool_step_once deps s c label completed)"
  unfolding dispatch_tool_step_once_def resolve_args_def verify_schema_def ctx_fields_def emit_reason_def Let_def
  by (auto intro!: quiet_bind split: prod.splits option.splits pyval.splits)

lemma quiet_attempts: "quiet cap (tool_attempts n l deps s c label completed)"
proof (induction n arbitrary: l)
  case (Suc n)
  have q: "quiet cap (dispatch_tool_step_once deps s c label completed)" by (rule quiet_once)
  show ?case
    unfolding quiet_def
  proof (intro allI impI)
    fix st out st' assume a: "tool_attempts (Suc n) l deps s c label completed st = (out, st')"
    obtain o1 st1 where m: "dispatch_tool_step_once deps s c label completed st = (o1, st1)" by (metis surj_pair)
    have "(\<exists>k. quiet cap k \<and> k st1 = (out, st'))"
    proof (cases o1)
      case (Ret x)
      obtain v d c' where x: "x = (v, d, c')" by (cases x)
      show ?thesis
      proof (cases "tool_step_canonical_error (ToolStep s) v")
        case None
        with a m Ret x have "xret (Inr (v, d, c')) st1 = (out, st')" by (simp add: xret_def)
        then show ?thesis using quiet_ret [of cap "Inr (v, d, c')"] by blast
      next
        case (Some e)
        with a m Ret x have "tool_attempts n (ErrorResult v) deps s c label completed st1 = (out, st')" by simp
        then show ?thesis using Suc.IH by blast
      qed
    next
      case (Raise e)
      with a m have "tool_attempts n (RaisedFailure e) deps s c label completed st1 = (out, st')" by simp
      then show ?thesis using Suc.IH by blast
    next
      case Diverge
      with a m have "(\<lambda>st. (Diverge, st)) st1 = (out, st')" by simp
      moreover have "quiet cap (\<lambda>st. (Diverge, st))" by (simp add: quiet_def)
      ultimately show ?thesis by blast
    qed
    with quiet_after [OF q m] show "recorders st' = recorders st \<and> frame st' = frame st \<and> journal st' = journal st
        \<and> spent st \<le> spent st' \<and> (cap \<noteq> 0 \<longrightarrow> spent st' \<le> max (spent st) cap)"
      by blast
  qed
qed simp


subsection \<open>Keys\<close>

definition below :: "string \<Rightarrow> string \<Rightarrow> bool" where
  "below p k \<longleftrightarrow> starts_with k (p @ ''.'')"

definition at_or_below :: "string \<Rightarrow> string \<Rightarrow> bool" where
  "at_or_below p k \<longleftrightarrow> k = p \<or> below p k"

lemma below_iff: "below p k \<longleftrightarrow> (\<exists>x. k = p @ ''.'' @ x)"
  by (auto simp: below_def starts_with_iff)

lemma not_below_self [simp]: "\<not> below p p"
  by (simp add: below_iff)

lemma below_append [simp]: "below p (p @ CHR ''.'' # x)"
  by (simp add: below_iff)

lemma below_trans: "below p q \<Longrightarrow> below q k \<Longrightarrow> below p k"
  by (auto simp: below_iff)

lemma at_or_below_trans: "below p q \<Longrightarrow> at_or_below q k \<Longrightarrow> below p k"
  by (auto simp: at_or_below_def intro: below_trans)

text \<open>
  The names a pipeline gives the branches of its \<open>parallel\<close> steps become parts of keys: they must
  be distinct, hold no dot, and not be the word the \<open>collect\<close> step's key ends in.
\<close>

fun names_ok :: "step \<Rightarrow> bool" where
  "names_ok (FoldStep _ do' _ _ _) = names_ok do'"
| "names_ok (ForEachStep do' collect _ _ _ _) = (names_ok do' \<and> names_ok collect)"
| "names_ok (ParallelStep branches collect _ _) =
     (distinct (map fst branches)
      \<and> (\<forall>(name, s)\<in>set branches. CHR ''.'' \<notin> set name \<and> name \<noteq> ''collect'' \<and> names_ok s)
      \<and> names_ok collect)"
| "names_ok _ = True"

definition targets_ok :: "'w run_deps \<Rightarrow> bool" where
  "targets_ok deps \<longleftrightarrow>
     (\<forall>reg name p. pipeline_registry deps = Some reg \<longrightarrow> get_pipeline reg name = Inr p \<longrightarrow> (\<forall>s\<in>set (steps p). names_ok s))"

subsection \<open>The runners, given a dispatcher that keeps the rules\<close>

lemma quiet_pass [simp]: "quiet cap (eval_pass_entries es c label resolved)"
  by (induction es c label resolved rule: eval_pass_entries.induct) (auto intro!: quiet_bind)

lemma quiet_source [simp]: "quiet cap (resolve_list_source ls c label knd)"
  unfolding resolve_list_source_def
  by (auto intro!: quiet_bind split: option.split pyval.split)

lemma quiet_fan_out [simp]: "quiet cap (enter_fan_out deps label knd)"
  by (simp add: enter_fan_out_def Let_def)

locale step_runner =
  fixes r :: "'w dispatcher"
  assumes runner: "names_ok s \<Longrightarrow> targets_ok deps \<Longrightarrow>
    good (spawn_cap deps) (below label) completed (r deps s c label completed) (\<lambda>(_, _, x). x)"
begin

lemma scope_good:
  "\<forall>s\<in>set ss. names_ok s \<Longrightarrow> targets_ok deps \<Longrightarrow>
    good (spawn_cap deps) (below scope) completed (run_scope r deps scope j ss stores pipe completed dur) (\<lambda>(_, _, x, _). x)"
proof (induction ss arbitrary: j stores pipe completed dur)
  case Nil
  then show ?case by (simp add: good_ret)
next
  case (Cons s ss)
  let ?key = "scope @ ''.'' @ nat_str j"
  have k: "below scope ?key" by (simp add: below_iff)
  show ?case
  proof (cases "dget completed ?key")
    case (Some v)
    with Cons show ?thesis by simp
  next
    case None
    have "good (spawn_cap deps) (below scope) completed
        (xbind (r deps s \<lparr>ctx_stores = stores, ctx_pipe = pipe, ctx_loop = []\<rparr> ?key completed) (\<lambda>(result, durable, completed').
          xbind (record_completed deps (dset ?key result completed') durable) (\<lambda>_.
             run_scope r deps scope (Suc j) ss (bind_output (step_output s) result stores) result
               (dset ?key result completed') (dur \<or> durable)))) (\<lambda>(_, _, x, _). x)"
    proof (rule good_bind)
      show "good (spawn_cap deps) (below ?key) completed
          (r deps s \<lparr>ctx_stores = stores, ctx_pipe = pipe, ctx_loop = []\<rparr> ?key completed) (\<lambda>(_, _, x). x)"
        using Cons.prems by (intro runner) simp_all
      show "below scope k'" if "below ?key k'" for k' using below_trans [OF k that] .
      fix x :: step_result assume g: "grows (below ?key) completed ((\<lambda>(_, _, x). x) x)"
      obtain v d c' where x: "x = (v, d, c')" by (cases x)
      have n: "dget c' ?key = None" using grows_None [OF _ None] g by (simp add: x)
      show "good (spawn_cap deps) (below scope) ((\<lambda>(_, _, x). x) x)
          (case x of (result, durable, completed') \<Rightarrow>
            xbind (record_completed deps (dset ?key result completed') durable) (\<lambda>_.
             run_scope r deps scope (Suc j) ss (bind_output (step_output s) result stores) result
               (dset ?key result completed') (dur \<or> durable))) (\<lambda>(_, _, x, _). x)"
        unfolding x prod.case
        by (rule good_dset [where P = "below scope", OF n k], rule good_bind [OF good_record])
          (use Cons in auto)
    qed
    with None show ?thesis by (simp add: Let_def)
  qed
qed

lemma callee_good:
  assumes "\<forall>s\<in>set (steps callee). names_ok s" and "targets_ok deps" and "below label scope"
  shows "good (spawn_cap deps) (below label) completed
    (run_callee r deps callee es c lab scope completed) (\<lambda>(_, _, x). x)"
  unfolding run_callee_def
  by (rule good_quiet_bind [OF quiet_pass], rule good_bind [OF scope_good [OF assms(1,2)]])
    (auto intro: below_trans [OF assms(3)] good_ret split: prod.split)

lemma quiet_find: "quiet cap (find_callee deps label name)"
  by (simp add: find_callee_def split: option.split sum.split)

lemma find_callee_ok: "targets_ok deps \<Longrightarrow> find_callee deps label name st = (Ret p, st') \<Longrightarrow> \<forall>s\<in>set (steps p). names_ok s"
  by (auto simp: find_callee_def targets_ok_def exec_simps split: option.splits sum.splits)

lemma call_good:
  "targets_ok deps \<Longrightarrow>
    good (spawn_cap deps) (below label) completed (run_call_step r deps s c label completed) (\<lambda>(_, _, x). x)"
  unfolding run_call_step_def
  by (rule good_quiet_bind_ret [OF quiet_find], rule callee_good) (auto dest: find_callee_ok)

lemma match_good:
  "targets_ok deps \<Longrightarrow>
    good (spawn_cap deps) (below label) completed (run_match_step r deps s c label completed) (\<lambda>(_, _, x). x)"
  unfolding run_match_step_def
  by (rule good_quiet_bind [OF quiet_eval])
    (auto intro!: good_fail good_quiet_bind_ret [OF quiet_find] callee_good dest: find_callee_ok split: option.split)

lemma fold_items_good:
  "names_ok do' \<Longrightarrow> targets_ok deps \<Longrightarrow>
    good (spawn_cap deps) (below label) completed
      (fold_items r deps do' label pipe k xs stores acc completed dur) (\<lambda>(_, _, x). x)"
proof (induction xs arbitrary: k stores acc completed dur)
  case Nil
  then show ?case by (simp add: good_ret)
next
  case (Cons y xs)
  let ?key = "label @ ''.fold.'' @ nat_str k"
  have k: "below label ?key" by (simp add: below_iff)
  show ?case
  proof (cases "dget completed ?key")
    case (Some v)
    with Cons show ?thesis by simp
  next
    case None
    let ?c = "\<lparr>ctx_stores = stores, ctx_pipe = pipe, ctx_loop = [(''item'', y), (''acc'', acc)]\<rparr>"
    let ?rest = "\<lambda>(result, durable, completed').
          xbind (record_completed deps (dset ?key result completed') durable) (\<lambda>_.
             fold_items r deps do' label pipe (Suc k) xs (bind_output (step_output do') result stores)
               result (dset ?key result completed') (dur \<or> durable))"
    have "good (spawn_cap deps) (below label) completed (xbind (r deps do' ?c ?key completed) ?rest) (\<lambda>(_, _, x). x)"
    proof (rule good_bind)
      show "good (spawn_cap deps) (below ?key) completed (r deps do' ?c ?key completed) (\<lambda>(_, _, x). x)"
        using Cons.prems by (intro runner)
      show "below label k'" if "below ?key k'" for k' using below_trans [OF k that] .
      fix x :: step_result assume g: "grows (below ?key) completed ((\<lambda>(_, _, x). x) x)"
      obtain v d c' where x: "x = (v, d, c')" by (cases x)
      have n: "dget c' ?key = None" using grows_None [OF _ None] g by (simp add: x)
      show "good (spawn_cap deps) (below label) ((\<lambda>(_, _, x). x) x) (?rest x) (\<lambda>(_, _, x). x)"
        unfolding x prod.case
        by (rule good_dset [where P = "below label", OF n k], rule good_bind [OF good_record])
          (use Cons in auto)
    qed
    with None show ?thesis by (simp add: Let_def)
  qed
qed

lemma fold_good:
  "names_ok do' \<Longrightarrow> targets_ok deps \<Longrightarrow>
    good (spawn_cap deps) (below label) completed
      (run_fold_step r deps init do' ls max_items c label completed) (\<lambda>(_, _, x). x)"
  unfolding run_fold_step_def
  by (intro good_quiet_bind quiet_source quiet_eval fold_items_good)

end

subsection \<open>Fan-out\<close>

lemma fan_loop_good:
  assumes task: "\<And>i b. i \<in> I \<Longrightarrow> good cap (below (key_of i)) b (task i b) snd"
    and inj: "inj_on key_of I" and sep: "\<And>i j. i \<in> I \<Longrightarrow> j \<in> I \<Longrightarrow> \<not> below (key_of i) (key_of j)"
  shows "set pending \<union> fst ` set queue \<subseteq> I \<Longrightarrow> distinct (map fst queue) \<Longrightarrow> set pending \<inter> fst ` set queue = {}
    \<Longrightarrow> \<forall>i\<in>set pending \<union> fst ` set queue. dget b (key_of i) = None
    \<Longrightarrow> good cap (\<lambda>k. \<exists>i\<in>I. at_or_below (key_of i) k) b
          (fan_loop task key_of abort oe deps acts pending queue b dur) fst"
proof (induction acts arbitrary: pending queue b dur)
  case Nil
  then show ?case by (simp add: good_ret)
next
  case (Cons act acts)
  let ?P = "\<lambda>k. \<exists>i\<in>I. at_or_below (key_of i) k"
  show ?case
  proof (cases act)
    case (RunTask i)
    show ?thesis
    proof (cases "i \<in> set pending")
      case True
      then have i: "i \<in> I" using Cons.prems(1) by auto
      have "good cap ?P b (xbind (task i b) (\<lambda>(res, b').
          fan_loop task key_of abort oe deps acts (removeAll i pending) (queue @ [(i, res)]) b' dur)) fst"
      proof (rule good_bind [OF task [OF i]])
        show "?P k" if "below (key_of i) k" for k using that i by (auto simp: at_or_below_def)
        fix x :: "(exc + pyval \<times> bool) \<times> pyval dict" assume g: "grows (below (key_of i)) b (snd x)"
        obtain res b' where x: "x = (res, b')" by (cases x)
        have n: "\<forall>j\<in>set pending \<union> fst ` set queue. dget b' (key_of j) = None"
        proof
          fix j assume j: "j \<in> set pending \<union> fst ` set queue"
          then have "j \<in> I" using Cons.prems(1) by blast
          then show "dget b' (key_of j) = None"
            using grows_None [OF g, of "key_of j"] sep [OF i] Cons.prems(4) j by (simp add: x)
        qed
        show "good cap ?P (snd x) (case x of (res, b') \<Rightarrow>
            fan_loop task key_of abort oe deps acts (removeAll i pending) (queue @ [(i, res)]) b' dur) fst"
          unfolding x prod.case snd_conv
          by (rule Cons.IH) (use Cons.prems True n in auto)
      qed
      with True RunTask show ?thesis by simp
    next
      case False
      with RunTask Cons show ?thesis by simp
    qed
  next
    case TakeResult
    show ?thesis
    proof (cases queue)
      case Nil
      with TakeResult Cons show ?thesis by simp
    next
      case (Cons q qs)
      obtain i res where q: "q = (i, res)" by (cases q)
      have i: "i \<in> I" "dget b (key_of i) = None" using Cons.prems Cons q by auto
      have P: "?P (key_of i)" using i by (auto simp: at_or_below_def)
      have next_good: "good cap ?P b (xbind (record_completed deps (dset (key_of i) w b) d) (\<lambda>_.
          fan_loop task key_of abort oe deps acts pending qs (dset (key_of i) w b) dur')) fst" for w d dur'
      proof (rule good_dset [where P = ?P, OF i(2) P], rule good_bind [OF good_record])
        have ni: "i \<notin> set pending \<union> fst ` set qs"
          using Cons.prems(2,3) by (auto simp: \<open>queue = q # qs\<close> q)
        have "key_of j \<noteq> key_of i" if j: "j \<in> set pending \<union> fst ` set qs" for j
        proof
          assume "key_of j = key_of i"
          moreover have "j \<in> I" using j Cons.prems(1) by (auto simp: \<open>queue = q # qs\<close>)
          ultimately have "j = i" using inj_onD [OF inj] i(1) by blast
          with ni j show False by blast
        qed
        then show "good cap ?P (dset (key_of i) w b)
            (fan_loop task key_of abort oe deps acts pending qs (dset (key_of i) w b) dur') fst" for x :: unit
          using \<open>queue = q # qs\<close> Cons.prems by (intro Cons.IH) auto
      qed
      show ?thesis
      proof (cases res)
        case (Inl e)
        with next_good TakeResult Cons q good_fail show ?thesis by (auto simp: Let_def)
      next
        case (Inr vd)
        with next_good TakeResult Cons q show ?thesis by (cases vd) (auto simp: Let_def)
      qed
    qed
  qed
qed

lemma enter_child:
  "enter_fan_out deps label knd st = (Ret child, st') \<Longrightarrow> targets_ok child = targets_ok deps \<and> spawn_cap child = spawn_cap deps"
  by (auto simp: enter_fan_out_def exec_simps targets_ok_def Let_def split: if_splits)

lemma letter_notin_nat_str: "\<not> is_digit c \<Longrightarrow> c \<notin> set (nat_str n)"
  using nat_str_digits by blast

lemma dot_split: "CHR ''.'' \<notin> set m \<Longrightarrow> m \<noteq> n @ CHR ''.'' # x"
  by auto

lemma for_each_keys:
  "inj_on (for_each_key label) I"
  "\<not> below (for_each_key label i) (for_each_key label j)"
  "\<not> at_or_below (for_each_key label i) (label @ ''.for_each.collect'')"
  "below label (for_each_key label i)"
proof -
  show "inj_on (for_each_key label) I" by (auto simp: inj_on_def for_each_key_def)
  show "\<not> below (for_each_key label i) (for_each_key label j)"
    using dot_split [OF dot_notin_nat_str [of j]] by (simp add: for_each_key_def below_iff)
  have "nat_str i @ x \<noteq> ''collect''" for x
  proof
    assume "nat_str i @ x = ''collect''"
    then have "hd (nat_str i) = CHR ''c''" using nat_str_nonempty [of i] by (metis hd_append2 list.sel(1))
    with letter_notin_nat_str [of "CHR ''c''" i] hd_in_set [OF nat_str_nonempty [of i]] show False
      by (simp add: is_digit_def)
  qed
  from this [of "[]"] this show "\<not> at_or_below (for_each_key label i) (label @ ''.for_each.collect'')"
    by (simp add: at_or_below_def for_each_key_def below_iff) metis
  show "below label (for_each_key label i)" by (simp add: for_each_key_def)
qed

lemma parallel_keys:
  assumes "\<forall>name\<in>set names. CHR ''.'' \<notin> set name \<and> name \<noteq> ''collect''" and "distinct names"
  shows "inj_on (\<lambda>i. parallel_key label (names ! i)) {..<length names}"
    and "i < length names \<Longrightarrow> j < length names \<Longrightarrow>
      \<not> below (parallel_key label (names ! i)) (parallel_key label (names ! j))"
    and "i < length names \<Longrightarrow> \<not> at_or_below (parallel_key label (names ! i)) (label @ ''.parallel.collect'')"
    and "below label (parallel_key label n)"
proof -
  show "inj_on (\<lambda>i. parallel_key label (names ! i)) {..<length names}"
    using assms(2) by (auto simp: inj_on_def parallel_key_def nth_eq_iff_index_eq)
  show "\<not> below (parallel_key label (names ! i)) (parallel_key label (names ! j))"
    if "i < length names" "j < length names"
    using dot_split assms(1) that by (auto simp: parallel_key_def below_iff)
  show "\<not> at_or_below (parallel_key label (names ! i)) (label @ ''.parallel.collect'')" if "i < length names"
    using dot_split [of "''collect''" "names ! i"] assms(1) that
    by (auto simp: at_or_below_def parallel_key_def below_iff)
  show "below label (parallel_key label n)" by (simp add: parallel_key_def)
qed

end
