(* ===== verification/ExecInv.thy ===== *)
theory ExecInv
  imports ExecFacts
begin

section \<open>Invariants of a run\<close>

text \<open>
  The fan-out runners and the dispatcher keep the rules of the logic, so every run does; the
  properties are what that means for the recorded generations and the spawn budget.
\<close>

subsection \<open>Fan-out runners\<close>

context step_runner
begin

lemma attempt_good:
  assumes "names_ok s" and "targets_ok deps" and "coupled (recorders st) b"
    and r: "r deps s c lab b (push_recorder b lab st) = (out, st')"
  shows "advances (spawn_cap deps) (below lab) st b (pop_recorder st') (box (hd (recorders st')))"
proof -
  let ?rec = "\<lparr>box = b, prefix = lab @ ''.'', forwarded = []\<rparr>"
  have push: "recorders (push_recorder b lab st) = ?rec # recorders st" "frame (push_recorder b lab st) = frame st"
    "spent (push_recorder b lab st) = spent st" "journal (push_recorder b lab st) = journal st"
    by (simp_all add: push_recorder_def)
  have "coupled (recorders (push_recorder b lab st)) b"
    unfolding push(1) using assms(3) by (rule coupled_push)
  from goodD [OF runner [OF assms(1,2)] this r] obtain c'
    where a: "advances (spawn_cap deps) (below lab) (push_recorder b lab st) b st' c'" by blast
  then obtain rec' rs' where rs: "recorders st' = rec' # rs'"
    and g: "grows (below lab) b (box rec')" and rg: "recs_grow (recorders st) rs'"
    unfolding advances_def push recs_grow_def below_def by (auto simp: list_all2_Cons1)
  have "coupled rs' (box rec')" using a by (simp add: advances_def rs)
  with a g rg show ?thesis
    unfolding advances_def push by (simp add: rs pop_recorder_def)
qed

lemma fan_task_good:
  "names_ok s \<Longrightarrow> targets_ok deps \<Longrightarrow> good (spawn_cap deps) (below lab) b (fan_task n e r deps s c lab b) snd"
proof (induction n arbitrary: e b)
  case 0
  then show ?case by (simp add: good_ret)
next
  case (Suc n)
  show ?case
  proof (rule good_I)
    fix st out st' assume cp: "coupled (recorders st) b" and f: "fan_task (Suc n) e r deps s c lab b st = (out, st')"
    obtain o1 st1 where m: "r deps s c lab b (push_recorder b lab st) = (o1, st1)" by (metis surj_pair)
    let ?b = "box (hd (recorders st1))"
    note a = attempt_good [OF Suc.prems cp m]
    have retry: "\<exists>c'. advances (spawn_cap deps) (below lab) st b st' c' \<and> (\<forall>x. out = Ret x \<longrightarrow> snd x = c')"
      if "fan_task n e' r deps s c lab ?b (pop_recorder st1) = (out, st')" for e'
    proof -
      have "coupled (recorders (pop_recorder st1)) ?b" using a by (simp add: advances_def)
      from goodD [OF Suc.IH [OF Suc.prems] this that]
      show ?thesis using advances_trans [OF a] by metis
    qed
    show "\<exists>c'. advances (spawn_cap deps) (below lab) st b st' c' \<and> (\<forall>x. out = Ret x \<longrightarrow> snd x = c')"
    proof (cases o1)
      case (Ret x)
      obtain v d c' where x: "x = (v, d, c')" by (cases x)
      show ?thesis
      proof (cases "tool_step_canonical_error s v")
        case None
        with f m Ret x have "out = Ret (Inr (v, d), ?b)" "st' = pop_recorder st1" by (simp_all add: Let_def)
        with a show ?thesis by auto
      next
        case (Some m')
        with f m Ret x show ?thesis by (intro retry) (simp add: Let_def)
      qed
    next
      case (Raise e')
      with f m show ?thesis by (intro retry) (simp add: Let_def)
    next
      case Diverge
      with f m have "out = Diverge" "st' = pop_recorder st1" by (simp_all add: Let_def)
      with a show ?thesis by auto
    qed
  qed
qed

lemma collect_good:
  assumes "names_ok collect" and "targets_ok child" and "spawn_cap child = spawn_cap deps" and none: "dget b key = None"
    and k: "below label key"
  shows "good (spawn_cap deps) (below label) b
    (run_collect r deps child collect stores pipe key b dur) (\<lambda>(_, _, x). x)"
  unfolding run_collect_def
proof (rule good_bind)
  show "good (spawn_cap deps) (below key) b
      (r child collect \<lparr>ctx_stores = stores, ctx_pipe = pipe, ctx_loop = []\<rparr> key b) (\<lambda>(_, _, x). x)"
    using runner [OF assms(1,2)] assms(3) by simp
  show "below label k'" if "below key k'" for k' using below_trans [OF k that] .
  fix x :: step_result assume g: "grows (below key) b ((\<lambda>(_, _, x). x) x)"
  obtain v d b' where x: "x = (v, d, b')" by (cases x)
  have n: "dget b' key = None" using grows_None [OF _ none] g by (simp add: x)
  show "good (spawn_cap deps) (below label) ((\<lambda>(_, _, x). x) x)
      (case x of (v, durable, b') \<Rightarrow> let b'' = dset key v b' in
        xbind (record_completed deps b'' durable) (\<lambda>_. xret (v, dur \<or> durable, b''))) (\<lambda>(_, _, x). x)"
    unfolding x prod.case Let_def
    by (rule good_dset [where P = "below label", OF n k], rule good_bind [OF good_record]) (auto intro: good_ret)
qed

lemma for_each_good:
  assumes "names_ok do'" "names_ok collect" "targets_ok deps"
  shows "good (spawn_cap deps) (below label) completed
    (run_for_each_step r deps do' collect on_err ls max_parallel c label completed) (\<lambda>(_, _, x). x)"
proof (cases "dget completed (label @ ''.for_each.collect'')")
  case (Some v)
  then show ?thesis by (simp add: run_for_each_step_def good_ret)
next
  case None
  let ?key = "for_each_key label" and ?coll = "label @ ''.for_each.collect''"
  let ?P = "\<lambda>k. \<exists>i\<in>UNIV. at_or_below (?key i) k"
  have PP: "below label k" if "?P k" for k
    using that at_or_below_trans [OF for_each_keys(4)] by blast
  show ?thesis
    unfolding run_for_each_step_def Let_def None option.case
  proof (rule good_quiet_bind [OF quiet_source], rule good_quiet_bind [OF quiet_lift], rule good_quiet_bind_ret [OF quiet_fan_out])
    fix xs :: "pyval list" and oe child and st st' :: "'w run_state"
    assume "enter_fan_out deps label ''for_each'' st = (Ret child, st')"
    from enter_child [OF this] assms(3) have ch: "targets_ok child" "spawn_cap child = spawn_cap deps" by auto
    let ?pending = "filter (\<lambda>i. \<not> has_key completed (?key i)) [0..<length xs]"
    let ?task = "\<lambda>i b. fan_task (attempts_of oe) SemaphoreValueError r child do'
                   \<lparr>ctx_stores = ctx_stores c, ctx_pipe = ctx_pipe c, ctx_loop = [(''item'', xs ! i)]\<rparr> (?key i) b"
    have loop: "good (spawn_cap deps) ?P completed
        (fan_loop ?task ?key (\<lambda>i e. ItemFailed label i on_err e) oe deps
          (fan_schedule deps label ?pending) ?pending [] completed False) fst"
      by (rule fan_loop_good)
        (use fan_task_good [OF assms(1) ch(1)] ch(2) for_each_keys in \<open>auto simp: has_key_def\<close>)
    show "good (spawn_cap deps) (below label) completed
       (xbind (if ?pending = [] then xret (completed, False)
               else if (case max_parallel of Some m \<Rightarrow> m < 0 | None \<Rightarrow> False) then xraise SemaphoreValueError
               else fan_loop ?task ?key (\<lambda>i e. ItemFailed label i on_err e) oe deps
                 (fan_schedule deps label ?pending) ?pending [] completed False)
         (\<lambda>(b, any_durable). xbind (xlift id (for_each_results b label (length xs))) (\<lambda>rs.
            run_collect r deps child collect (ctx_stores c) (VList rs) ?coll b any_durable))) (\<lambda>(_, _, x). x)"
    proof (rule good_bind [where Q = ?P and s = fst])
      show "good (spawn_cap deps) ?P completed (if ?pending = [] then xret (completed, False)
               else if (case max_parallel of Some m \<Rightarrow> m < 0 | None \<Rightarrow> False) then xraise SemaphoreValueError
               else fan_loop ?task ?key (\<lambda>i e. ItemFailed label i on_err e) oe deps
                 (fan_schedule deps label ?pending) ?pending [] completed False) fst"
        using loop good_ret [of fst "(completed, False)" completed] good_raise by (auto split: if_split)
    next
      fix x :: "pyval dict \<times> bool" assume g: "grows ?P completed (fst x)"
      obtain b d where x: "x = (b, d)" by (cases x)
      have "dget b ?coll = None" using grows_None [OF g None] for_each_keys(3) by (simp add: x)
      then show "good (spawn_cap deps) (below label) (fst x)
          (case x of (b, any_durable) \<Rightarrow> xbind (xlift id (for_each_results b label (length xs))) (\<lambda>rs.
            run_collect r deps child collect (ctx_stores c) (VList rs) ?coll b any_durable)) (\<lambda>(_, _, x). x)"
        unfolding x prod.case fst_conv
        by (intro good_quiet_bind quiet_lift collect_good) (use assms ch in simp_all)
    qed (rule PP)
  qed
qed

lemma parallel_good:
  assumes names: "distinct (map fst branches)"
      "\<forall>(name, s)\<in>set branches. CHR ''.'' \<notin> set name \<and> name \<noteq> ''collect'' \<and> names_ok s"
    and "names_ok collect" "targets_ok deps"
  shows "good (spawn_cap deps) (below label) completed
    (run_parallel_step r deps branches collect on_err c label completed) (\<lambda>(_, _, x). x)"
proof (cases "dget completed (label @ ''.parallel.collect'')")
  case (Some v)
  then show ?thesis by (simp add: run_parallel_step_def good_ret)
next
  case None
  let ?names = "map fst branches" and ?coll = "label @ ''.parallel.collect''"
  let ?key = "\<lambda>i. parallel_key label (?names ! i)"
  let ?P = "\<lambda>k. \<exists>i\<in>{..<length ?names}. at_or_below (?key i) k"
  have "\<forall>name\<in>set ?names. CHR ''.'' \<notin> set name \<and> name \<noteq> ''collect''" using names(2) by auto
  note keys = parallel_keys [OF this names(1), where label = label]
  have PP: "below label k" if "?P k" for k
    using that at_or_below_trans [OF keys(4)] by blast
  have nPcoll: "\<not> ?P ?coll" using keys(3) by blast
  show ?thesis
    unfolding run_parallel_step_def Let_def None option.case
  proof (rule good_quiet_bind [OF quiet_lift], rule good_quiet_bind_ret [OF quiet_fan_out])
    fix oe child and st st' :: "'w run_state"
    assume "enter_fan_out deps label ''parallel'' st = (Ret child, st')"
    from enter_child [OF this] assms(4) have ch: "targets_ok child" "spawn_cap child = spawn_cap deps" by auto
    let ?pending = "filter (\<lambda>i. \<not> has_key completed (?key i)) [0..<length ?names]"
    let ?task = "\<lambda>i b. fan_task (attempts_of oe) SemaphoreValueError r child (snd (branches ! i))
                   \<lparr>ctx_stores = ctx_stores c, ctx_pipe = ctx_pipe c, ctx_loop = []\<rparr> (?key i) b"
    let ?loop = "fan_loop ?task ?key (\<lambda>i e. BranchFailed label (?names ! i) on_err e) oe deps
          (fan_schedule deps label ?pending) ?pending [] completed False"
    have task: "good (spawn_cap deps) (below (?key i)) b (?task i b) snd" if "i \<in> {..<length ?names}" for i b
    proof -
      have "names_ok (snd (branches ! i))" using that names(2) nth_mem [of i branches] by fastforce
      from fan_task_good [OF this ch(1)] ch(2) show ?thesis by simp
    qed
    have loop: "good (spawn_cap deps) ?P completed ?loop fst"
      by (rule fan_loop_good [OF task keys(1)]) (use keys(2) in \<open>auto simp: has_key_def\<close>)
    show "good (spawn_cap deps) (below label) completed
       (xbind (if ?pending = [] then xret (completed, False) else ?loop)
         (\<lambda>(b, any_durable). xbind (xlift id (parallel_results b label ?names)) (\<lambda>results.
            xbind (xlift id (parallel_branch_errors b label ?names)) (\<lambda>errs.
              run_collect r deps child collect (ctx_stores c)
               (VDict (if errs = [] then results else dset PARALLEL_BRANCH_ERRORS_KEY (VDict errs) results))
               ?coll b any_durable)))) (\<lambda>(_, _, x). x)"
    proof (rule good_bind [where Q = ?P and s = fst])
      show "good (spawn_cap deps) ?P completed (if ?pending = [] then xret (completed, False) else ?loop) fst"
      proof (cases "?pending = []")
        case True
        show ?thesis unfolding if_P [OF True] by (rule good_ret) simp
      next
        case False
        show ?thesis unfolding if_not_P [OF False] by (rule loop)
      qed
    next
      fix x :: "pyval dict \<times> bool" assume g: "grows ?P completed (fst x)"
      obtain b d where x: "x = (b, d)" by (cases x)
      have "dget b ?coll = None" using grows_None [OF g None nPcoll] by (simp add: x)
      then show "good (spawn_cap deps) (below label) (fst x)
          (case x of (b, any_durable) \<Rightarrow> xbind (xlift id (parallel_results b label ?names)) (\<lambda>results.
            xbind (xlift id (parallel_branch_errors b label ?names)) (\<lambda>errs.
              run_collect r deps child collect (ctx_stores c)
               (VDict (if errs = [] then results else dset PARALLEL_BRANCH_ERRORS_KEY (VDict errs) results))
               ?coll b any_durable))) (\<lambda>(_, _, x). x)"
        unfolding x prod.case fst_conv
        by (intro good_quiet_bind quiet_lift collect_good) (use assms ch in simp_all)
    qed (rule PP)
  qed
qed

end

subsection \<open>The dispatcher keeps the rules\<close>

lemma transform_good:
  "good cap P completed (run_transform_step s c label completed) (\<lambda>(_, _, x). x)"
  unfolding run_transform_step_def by (intro good_quiet_bind quiet_eval good_ret) simp

lemma once_returns:
  "dispatch_tool_step_once deps s c label completed st = (Ret (v, d, x), st') \<Longrightarrow> x = completed"
  by (auto simp: dispatch_tool_step_once_def xbind_Ret exec_simps split: prod.split_asm) (metis surj_pair)

lemma once_good:
  "good cap P completed (dispatch_tool_step_once deps s c label completed) (\<lambda>(_, _, x). x)"
  unfolding dispatch_tool_step_once_def resolve_args_def verify_schema_def ctx_fields_def emit_reason_def Let_def
  by (auto intro!: good_quiet_bind good_ret quiet_bind split: prod.splits option.splits pyval.splits)

lemma attempts_return:
  "tool_attempts n l deps s c label completed st = (Ret (Inr (v, d, x)), st') \<Longrightarrow> x = completed"
  by (induction n arbitrary: l st)
    (auto simp: exec_simps split: prod.splits outcome.splits if_splits dest: once_returns)

lemma tool_good:
  "good cap P completed (run_tool_step deps s c label completed) (\<lambda>(_, _, x). x)"
proof (cases "tool_on_error s")
  case None
  then show ?thesis by (simp add: run_tool_step_def once_good)
next
  case (Some raw)
  have res: "good cap P completed (case outcome of Inr res \<Rightarrow> xret res
      | Inl failure \<Rightarrow> tool_give_up deps s oe label completed failure) (\<lambda>(_, _, x). x)"
    if a: "tool_attempts n l deps s c label completed st = (Ret outcome, st')" for outcome oe n l st st'
  proof (cases outcome)
    case (Inl f)
    then show ?thesis
      by (auto simp: tool_give_up_def intro: good_ret good_fail split: attempt_failure.split)
  next
    case (Inr res)
    with a show ?thesis by (cases res) (auto intro!: good_ret dest: attempts_return)
  qed
  show ?thesis
    unfolding run_tool_step_def Some option.case
    by (intro good_quiet_bind [OF quiet_lift] good_quiet_bind_ret [OF quiet_attempts] res)
qed

lemma agent_good:
  "good (spawn_cap deps) P completed (run_agent_step deps s c label completed) (\<lambda>(_, _, x). x)"
proof -
  have call: "good cap P completed (\<lambda>st. case run req (world st) of
      (Inr v, w) \<Rightarrow> (Ret (v, True, completed), st\<lparr>world := w\<rparr>)
    | (Inl (AgentStepError m), w) \<Rightarrow> (Raise (PipelineExecutionError (AgentFailed label m)), st\<lparr>world := w\<rparr>)
    | (Inl (AgentOtherError m), w) \<Rightarrow> (Raise (AgentRaised m), st\<lparr>world := w\<rparr>)) (\<lambda>(_, _, x). x)"
    for cap and run :: "agent_request \<Rightarrow> 'a \<Rightarrow> (agent_exc + pyval) \<times> 'a" and req
  proof (rule good_I)
    fix st :: "'a run_state" and out st'
    assume c: "coupled (recorders st) completed"
      and e: "(case run req (world st) of
          (Inr v, w) \<Rightarrow> (Ret (v, True, completed), st\<lparr>world := w\<rparr>)
        | (Inl (AgentStepError m), w) \<Rightarrow> (Raise (PipelineExecutionError (AgentFailed label m)), st\<lparr>world := w\<rparr>)
        | (Inl (AgentOtherError m), w) \<Rightarrow> (Raise (AgentRaised m), st\<lparr>world := w\<rparr>)) = (out, st')"
    then have "(\<exists>w. st' = st\<lparr>world := w\<rparr>) \<and> (\<forall>x. out = Ret x \<longrightarrow> (case x of (_, _, y) \<Rightarrow> y) = completed)"
      by (auto split: prod.splits sum.splits agent_exc.splits)
    moreover have "advances cap P st completed (st\<lparr>world := w\<rparr>) completed" for w
      using c by (simp add: advances_def)
    ultimately show "\<exists>c'. advances cap P st completed st' c' \<and> (\<forall>x. out = Ret x \<longrightarrow> (case x of (_, _, y) \<Rightarrow> y) = c')"
      by auto
  qed
  show ?thesis
    unfolding run_agent_step_def interpolate_prompt_def
    by (auto intro!: good_fail good_quiet_bind quiet_spawn call split: option.split)
qed

lemma dispatch_runner: "step_runner (dispatch n)"
proof (induction n)
  case 0
  show ?case by unfold_locales (simp add: good_diverge)
next
  case (Suc n)
  note prev = step_runner.call_good step_runner.match_good step_runner.fold_good
    step_runner.for_each_good step_runner.parallel_good
  show ?case
  proof
    fix s :: step and deps :: "'a run_deps" and label completed c
    assume "names_ok s" "targets_ok deps"
    then show "good (spawn_cap deps) (below label) completed (dispatch (Suc n) deps s c label completed) (\<lambda>(_, _, x). x)"
      using transform_good tool_good agent_good prev [OF Suc.IH]
      by (cases s) auto
  qed
qed

interpretation runs: step_runner "dispatch n" for n
  by (rule dispatch_runner)

end
