(* ===== verification/ExecRun.thy ===== *)
theory ExecRun
  imports ExecInv
begin

section \<open>Recovery: what a run leaves on disk\<close>

text \<open>
  A run step by step, the consistency of every recorded generation, and the properties of runs
  and resumed runs of \<open>src/reyn/core/pipeline/executor.py\<close> that follow.
\<close>

subsection \<open>Consistent generations\<close>

text \<open>
  What a recorded snapshot must be for \<open>resume\<close> to continue from it: every step before its index
  has its result, the stores and the pipe data are what replaying those results gives, and the
  remaining keys belong to the step at the index.
\<close>

fun replay :: "step list \<Rightarrow> pyval dict \<Rightarrow> nat \<Rightarrow> ctx \<Rightarrow> pyval \<Rightarrow> ctx \<times> pyval" where
  "replay ss completed 0 init pipe = (init, pipe)"
| "replay ss completed (Suc i) init pipe =
     (let v = the (dget completed (nat_str i)) in
      (bind_output (step_output (ss ! i)) v (fst (replay ss completed i init pipe)), v))"

definition consistent :: "step list \<Rightarrow> ctx \<Rightarrow> snapshot \<Rightarrow> bool" where
  "consistent ss init g \<longleftrightarrow>
     distinct (dkeys (completed_step_results g)) \<and> step_index g \<le> length ss
     \<and> (\<forall>j<step_index g. dget (completed_step_results g) (nat_str j) \<noteq> None)
     \<and> (named_stores g, pipe_data g) = replay ss (completed_step_results g) (step_index g) init VNone
     \<and> (\<forall>k. dget (completed_step_results g) k \<noteq> None \<longrightarrow>
          (\<exists>j<step_index g. at_or_below (nat_str j) k) \<or> below (nat_str (step_index g)) k)"

definition later :: "snapshot \<Rightarrow> snapshot \<Rightarrow> bool" where
  "later g h \<longleftrightarrow> step_index g \<le> step_index h \<and> extends (completed_step_results g) (completed_step_results h)"

lemma later_refl [simp]: "later g g" by (simp add: later_def)

lemma later_trans: "later a b \<Longrightarrow> later b c \<Longrightarrow> later a c"
  unfolding later_def by (auto intro: extends_trans)

text \<open>A run's generations, each later than the one before, from \<open>s\<close> to \<open>t\<close>.\<close>

fun chain :: "snapshot \<Rightarrow> snapshot list \<Rightarrow> snapshot \<Rightarrow> bool" where
  "chain s [] t = later s t"
| "chain s (g # gs) t = (later s g \<and> chain g gs t)"

lemma chain_append: "chain s gs t \<Longrightarrow> chain t hs u \<Longrightarrow> chain s (gs @ hs) u"
proof (induction gs arbitrary: s)
  case Nil
  then show ?case by (cases hs) (auto intro: later_trans)
qed auto

lemma replay_extends:
  "extends c c' \<Longrightarrow> \<forall>j<i. dget c (nat_str j) \<noteq> None \<Longrightarrow> replay ss c' i init pipe = replay ss c i init pipe"
proof (induction i)
  case (Suc i)
  then obtain v where "dget c (nat_str i) = Some v" by auto
  moreover with Suc.prems(1) have "dget c' (nat_str i) = Some v" by (simp add: extends_def)
  ultimately show ?case using Suc by (simp add: Let_def)
qed simp

lemma key_not_below: "j < i \<Longrightarrow> \<not> at_or_below (nat_str j) (nat_str i)"
  using dot_split [OF dot_notin_nat_str [of i]] by (auto simp: at_or_below_def below_iff)

lemma consistent_fresh: "consistent ss init g \<Longrightarrow> dget (completed_step_results g) (nat_str (step_index g)) = None"
proof -
  assume c: "consistent ss init g"
  have "\<not> (\<exists>j<step_index g. at_or_below (nat_str j) (nat_str (step_index g)))" using key_not_below by blast
  then show ?thesis using c not_below_self unfolding consistent_def by blast
qed

lemma consistent_grow:
  assumes "consistent ss init g" and "grows (below (nat_str (step_index g))) (completed_step_results g) c"
    and "distinct (dkeys c)"
  shows "consistent ss init (g\<lparr>completed_step_results := c\<rparr>)"
proof -
  have e: "extends (completed_step_results g) c" using assms(2) by (simp add: grows_def)
  have dn: "\<forall>j<step_index g. dget (completed_step_results g) (nat_str j) \<noteq> None"
    using assms(1) by (simp add: consistent_def)
  have "\<forall>j<step_index g. dget c (nat_str j) \<noteq> None"
    using dn e by (fastforce simp: extends_def)
  moreover have "(\<exists>j<step_index g. at_or_below (nat_str j) k) \<or> below (nat_str (step_index g)) k"
    if "dget c k \<noteq> None" for k
    using assms(1,2) that unfolding consistent_def grows_def by blast
  ultimately show ?thesis
    using assms(1,3) replay_extends [OF e dn] by (simp add: consistent_def)
qed

lemma consistent_step:
  assumes g: "consistent ss init g" and i: "step_index g < length ss"
    and c: "grows (below (nat_str (step_index g))) (completed_step_results g) c" "distinct (dkeys c)"
  shows "consistent ss init \<lparr>step_index = Suc (step_index g),
     named_stores = bind_output (step_output (ss ! step_index g)) v (named_stores g), pipe_data = v,
     completed_step_results = dset (nat_str (step_index g)) v c\<rparr>"
proof -
  let ?i = "step_index g" and ?c = "dset (nat_str (step_index g)) v c"
  have n: "dget c (nat_str ?i) = None" using grows_None [OF c(1) consistent_fresh [OF g]] by simp
  note cg = consistent_grow [OF g c]
  have "replay ss ?c ?i init VNone = replay ss c ?i init VNone"
    using cg n by (intro replay_extends) (auto simp: consistent_def extends_def)
  moreover have "(named_stores g, pipe_data g) = replay ss c ?i init VNone"
    using cg by (simp add: consistent_def)
  ultimately have "fst (replay ss ?c ?i init VNone) = named_stores g" by (metis fst_conv)
  then have r: "replay ss ?c (Suc ?i) init VNone = (bind_output (step_output (ss ! ?i)) v (named_stores g), v)"
    by (simp add: Let_def)
  have k: "(\<exists>j<Suc ?i. at_or_below (nat_str j) k)" if "dget ?c k \<noteq> None" for k
  proof (cases "k = nat_str ?i")
    case True
    then show ?thesis by (auto simp: at_or_below_def)
  next
    case False
    with that have "dget c k \<noteq> None" by simp
    then have "(\<exists>j<?i. at_or_below (nat_str j) k) \<or> below (nat_str ?i) k"
      using cg by (simp add: consistent_def)
    then show ?thesis by (auto simp: at_or_below_def less_Suc_eq)
  qed
  show ?thesis
    using i cg k r distinct_dkeys_dset [OF c(2)] unfolding consistent_def
    by (auto simp: less_Suc_eq simp del: replay.simps)
qed

lemma chain_between:
  "progress (completed_step_results s) (map completed_step_results gs) c
    \<Longrightarrow> \<forall>g\<in>set gs. step_index g = step_index s \<Longrightarrow> step_index s \<le> step_index t
    \<Longrightarrow> extends c (completed_step_results t) \<Longrightarrow> chain s gs t"
proof (induction gs arbitrary: s)
  case Nil
  then show ?case using extends_trans by (auto simp: later_def)
next
  case (Cons g gs)
  from Cons.prems show ?case by (auto simp: later_def intro!: Cons.IH)
qed

lemma progress_bounds:
  "progress a xs b \<Longrightarrow> x \<in> set xs \<Longrightarrow> extends a x \<and> extends x b"
proof (induction xs arbitrary: a)
  case (Cons y xs)
  then show ?case using progress_extends extends_trans by (metis progress.simps(2) set_ConsD)
qed simp

lemma grows_between: "extends a x \<Longrightarrow> extends x b \<Longrightarrow> grows P a b \<Longrightarrow> grows P a x"
  unfolding grows_def extends_def by (metis option.exhaust option.distinct(1))


subsection \<open>A run, step by step\<close>

definition cancelled :: "'w run_deps \<Rightarrow> 'w run_state \<Rightarrow> bool" where
  "cancelled deps st \<longleftrightarrow> (case cancel_check deps of Some chk \<Rightarrow> chk (world st) | None \<Rightarrow> False)"

definition begin_step :: "'w run_deps \<Rightarrow> nat \<Rightarrow> step \<Rightarrow> snapshot \<Rightarrow> 'w run_state \<Rightarrow> 'w run_state" where
  "begin_step deps n_steps s g st =
     (snd (emit deps (StepStarted (step_index g) (step_kind s) n_steps) st))\<lparr>frame := g\<rparr>"

definition end_step :: "'w run_deps \<Rightarrow> nat \<Rightarrow> step \<Rightarrow> snapshot \<Rightarrow> bool \<Rightarrow> 'w run_state \<Rightarrow> 'w run_state" where
  "end_step deps n_steps s h durable st =
     snd (emit deps (StepCompleted (step_index h) (step_kind s) n_steps) (record_pipeline_state deps h durable st))"

definition next_snapshot :: "step \<Rightarrow> snapshot \<Rightarrow> pyval \<Rightarrow> pyval dict \<Rightarrow> snapshot" where
  "next_snapshot s g v c =
     \<lparr>step_index = Suc (step_index g), named_stores = bind_output (step_output s) v (named_stores g), pipe_data = v,
      completed_step_results = dset (nat_str (step_index g)) v c\<rparr>"

abbreviation run_rest :: "nat \<Rightarrow> 'w run_deps \<Rightarrow> nat \<Rightarrow> step list \<Rightarrow> snapshot \<Rightarrow> ('w, snapshot) exec" where
  "run_rest n deps n_steps ss g \<equiv>
     run_steps n deps n_steps (step_index g) ss (named_stores g) (pipe_data g) (completed_step_results g)"

abbreviation top_context :: "snapshot \<Rightarrow> step_context" where
  "top_context g \<equiv> \<lparr>ctx_stores = named_stores g, ctx_pipe = pipe_data g, ctx_loop = []\<rparr>"

lemma run_rest_Cons:
  "run_rest n deps n_steps (s # ss) g st =
     (if cancelled deps st then (Raise (PipelineCancelled (step_index g)), st)
      else (case dispatch n deps s (top_context g) (nat_str (step_index g)) (completed_step_results g)
            (begin_step deps n_steps s g st) of
          (Ret (v, durable, c), st1) \<Rightarrow>
            run_rest n deps n_steps ss (next_snapshot s g v c)
              (end_step deps n_steps s (next_snapshot s g v c) durable st1)
        | (Raise e, st1) \<Rightarrow> (Raise e, st1)
        | (Diverge, st1) \<Rightarrow> (Diverge, st1)))"
  by (cases g)
    (auto simp: poll_cancel_def emit_def freeze_frame_def record_snapshot_def begin_step_def end_step_def next_snapshot_def
      cancelled_def xbind_def Let_def split: option.splits prod.splits outcome.splits)

lemma begin_step_simps [simp]:
  "recorders (begin_step deps n_steps s g st) = recorders st"
  "frame (begin_step deps n_steps s g st) = g"
  "journal (begin_step deps n_steps s g st) = journal st"
  "spent (begin_step deps n_steps s g st) = spent st"
  "world (begin_step deps n_steps s g st) = world st"
  by (simp_all add: begin_step_def emit_def)

lemma end_step_simps [simp]:
  "recorders (end_step deps n_steps s h d st) = recorders st"
  "spent (end_step deps n_steps s h d st) = spent st"
  "world (end_step deps n_steps s h d st) = world st"
  "journal (end_step deps n_steps s h d st) =
     journal st @ (if state_log deps then [\<lparr>gen_snapshot = h, gen_durable = d, gen_world = world st\<rparr>] else [])"
  by (simp_all add: end_step_def emit_def record_pipeline_state_def)

definition run_ok :: "int \<Rightarrow> step list \<Rightarrow> ctx \<Rightarrow> snapshot \<Rightarrow> snapshot \<Rightarrow> 'w run_state \<Rightarrow> 'w run_state \<Rightarrow> bool" where
  "run_ok cap ss init g t st st' \<longleftrightarrow>
     (\<exists>J. journal st' = journal st @ J \<and> chain g (map gen_snapshot J) t
        \<and> (\<forall>x\<in>set J. consistent ss init (gen_snapshot x)))
     \<and> consistent ss init t \<and> spent st \<le> spent st' \<and> (cap \<noteq> 0 \<longrightarrow> spent st' \<le> max (spent st) cap)"

lemma run_ok_trans: "run_ok cap ss init g t st st1 \<Longrightarrow> run_ok cap ss init t u st1 st2 \<Longrightarrow> run_ok cap ss init g u st st2"
proof -
  assume a: "run_ok cap ss init g t st st1" and b: "run_ok cap ss init t u st1 st2"
  from a obtain J where J: "journal st1 = journal st @ J" "chain g (map gen_snapshot J) t"
    "\<forall>x\<in>set J. consistent ss init (gen_snapshot x)" by (auto simp: run_ok_def)
  from b obtain K where K: "journal st2 = journal st1 @ K" "chain t (map gen_snapshot K) u"
    "\<forall>x\<in>set K. consistent ss init (gen_snapshot x)" by (auto simp: run_ok_def)
  have "journal st2 = journal st @ (J @ K) \<and> chain g (map gen_snapshot (J @ K)) u
      \<and> (\<forall>x\<in>set (J @ K). consistent ss init (gen_snapshot x))"
    using J K chain_append by auto
  with a b show ?thesis unfolding run_ok_def by auto
qed

lemma step_run_ok:
  assumes "targets_ok deps" and "names_ok s" and g: "consistent ss init g" and rec: "recorders st = []"
    and d: "dispatch n deps s (top_context g) (nat_str (step_index g)) (completed_step_results g)
            (begin_step deps n_steps s g st) = (out, st1)"
  shows "\<exists>c. grows (below (nat_str (step_index g))) (completed_step_results g) c \<and> distinct (dkeys c)
    \<and> (\<forall>v dur x. out = Ret (v, dur, x) \<longrightarrow> x = c) \<and> recorders st1 = []
    \<and> run_ok (spawn_cap deps) ss init g (g\<lparr>completed_step_results := c\<rparr>) st st1"
proof -
  let ?c0 = "completed_step_results g" and ?i = "nat_str (step_index g)"
  have cp: "coupled (recorders (begin_step deps n_steps s g st)) ?c0"
    using g by (simp add: rec consistent_def)
  from goodD [OF runs.runner [OF assms(2,1)] cp d] obtain c
    where a: "advances (spawn_cap deps) (below ?i) (begin_step deps n_steps s g st) ?c0 st1 c"
      and o: "\<And>x. out = Ret x \<Longrightarrow> (case x of (_, _, y) \<Rightarrow> y) = c" by metis
  have r1: "recorders st1 = []" using a rec by (auto simp: advances_def recs_grow_def)
  from a have gr: "grows (below ?i) ?c0 c" and dc: "distinct (dkeys c)"
    by (auto simp: advances_def r1)
  from a obtain J where J: "journal st1 = journal st @ J"
    and f: "\<forall>x\<in>set J. \<exists>y. distinct (dkeys y) \<and> gen_snapshot x = g\<lparr>completed_step_results := y\<rparr>"
    and pr: "progress ?c0 (map (completed_step_results \<circ> gen_snapshot) J) c"
    by (auto simp: advances_def rec r1)
  have cons: "consistent ss init (gen_snapshot x)" if x: "x \<in> set J" for x
  proof -
    from f x obtain y where y: "distinct (dkeys y)" "gen_snapshot x = g\<lparr>completed_step_results := y\<rparr>" by blast
    have "y \<in> set (map (completed_step_results \<circ> gen_snapshot) J)" using x y(2) by force
    from progress_bounds [OF pr this] grows_between [OF _ _ gr] have "grows (below ?i) ?c0 y" by blast
    with y consistent_grow [OF g] show ?thesis by simp
  qed
  have "chain g (map gen_snapshot J) (g\<lparr>completed_step_results := c\<rparr>)"
    using pr f by (intro chain_between [where c = c]) auto
  then have "run_ok (spawn_cap deps) ss init g (g\<lparr>completed_step_results := c\<rparr>) st st1"
    using a J cons consistent_grow [OF g gr dc] by (auto simp: run_ok_def advances_def)
  with gr dc o r1 show ?thesis by (intro exI [of _ c]) auto
qed

lemma run_steps_ok:
  assumes "targets_ok deps" and "\<forall>s\<in>set ss. names_ok s"
  shows "rest = drop (step_index g) ss \<Longrightarrow> consistent ss init g \<Longrightarrow> recorders st = [] \<Longrightarrow>
    run_rest n deps (length ss) rest g st = (out, st') \<Longrightarrow>
    \<exists>t. run_ok (spawn_cap deps) ss init g t st st' \<and> (\<forall>fin. out = Ret fin \<longrightarrow> fin = t \<and> step_index t = length ss)"
proof (induction rest arbitrary: g st)
  case Nil
  then have "step_index g = length ss" by (simp add: consistent_def)
  then have "\<lparr>step_index = length ss, named_stores = named_stores g, pipe_data = pipe_data g,
      completed_step_results = completed_step_results g\<rparr> = g" by (cases g) simp
  with Nil have "out = Ret g" "st' = st" by (simp_all add: xret_def)
  with Nil \<open>step_index g = length ss\<close> show ?case by (intro exI [of _ g]) (simp add: run_ok_def)
next
  case (Cons s rest)
  let ?st = "begin_step deps (length ss) s g st"
  have i: "step_index g < length ss" using Cons.prems(1) by (cases "step_index g < length ss") auto
  then have s: "s = ss ! step_index g" "rest = drop (Suc (step_index g)) ss"
    using Cons.prems(1) by (simp_all add: Cons_nth_drop_Suc [symmetric])
  have stay: ?case if "st' = st" "\<forall>fin. out \<noteq> Ret fin"
    using that Cons.prems(2) by (intro exI [of _ g]) (simp add: run_ok_def)
  show ?case
  proof (cases "cancelled deps st")
    case True
    then show ?thesis using Cons.prems(4) stay unfolding run_rest_Cons by auto
  next
    case False
    obtain o1 st1 where d: "dispatch n deps s (top_context g) (nat_str (step_index g)) (completed_step_results g) ?st = (o1, st1)"
      by (metis surj_pair)
    have "names_ok s" using assms(2) i s(1) by simp
    from step_run_ok [OF assms(1) this Cons.prems(2,3) d] obtain c
      where c: "grows (below (nat_str (step_index g))) (completed_step_results g) c" "distinct (dkeys c)"
        and o: "\<And>v dur x. o1 = Ret (v, dur, x) \<Longrightarrow> x = c" and r1: "recorders st1 = []"
        and ok: "run_ok (spawn_cap deps) ss init g (g\<lparr>completed_step_results := c\<rparr>) st st1" by blast
    show ?thesis
    proof (cases o1)
      case (Ret res)
      obtain v dur where res: "res = (v, dur, c)" using o Ret by (metis surj_pair)
      let ?h = "next_snapshot s g v c" and ?st2 = "end_step deps (length ss) s (next_snapshot s g v c) dur st1"
      have h: "consistent ss init ?h"
        using consistent_step [OF Cons.prems(2) i c, of v] by (simp add: next_snapshot_def s(1) [symmetric])
      have ext: "later (g\<lparr>completed_step_results := c\<rparr>) ?h"
        using grows_None [OF c(1) consistent_fresh [OF Cons.prems(2)]]
        by (auto simp: later_def next_snapshot_def extends_def)
      have rec_ok: "run_ok (spawn_cap deps) ss init (g\<lparr>completed_step_results := c\<rparr>) ?h st1 ?st2"
        using h ext unfolding run_ok_def end_step_simps
        by (cases "state_log deps") auto
      have "run_rest n deps (length ss) rest ?h ?st2 = (out, st')"
        using Cons.prems(4) False d Ret res unfolding run_rest_Cons by simp
      from Cons.IH [OF _ h _ this] s(2) r1 obtain t
        where "run_ok (spawn_cap deps) ss init ?h t ?st2 st'" "\<forall>fin. out = Ret fin \<longrightarrow> fin = t \<and> step_index t = length ss"
        by (auto simp: next_snapshot_def)
      with run_ok_trans [OF run_ok_trans [OF ok rec_ok]] show ?thesis by blast
    next
      case (Raise e)
      with Cons.prems(4) False d have "out = Raise e" "st' = st1" unfolding run_rest_Cons by simp_all
      with ok show ?thesis by auto
    next
      case Diverge
      with Cons.prems(4) False d have "out = Diverge" "st' = st1" unfolding run_rest_Cons by simp_all
      with ok show ?thesis by auto
    qed
  qed
qed


subsection \<open>Properties of runs\<close>

definition initial_stores :: "ctx option \<Rightarrow> ctx" where
  "initial_stores initial_context = (case initial_context of None \<Rightarrow> [] | Some c \<Rightarrow> c)"

definition effective_cap :: "int option \<Rightarrow> int" where
  "effective_cap max_spawns = (case max_spawns of None \<Rightarrow> DEFAULT_MAX_PIPELINE_SPAWNS | Some m \<Rightarrow> m)"

lemma run_from_ok:
  assumes "targets_ok deps" and "\<forall>s\<in>set (steps p). names_ok s" and "consistent (steps p) init g"
    and "run_from n deps max_depth max_spawns p g st = (out, st')"
  shows "\<exists>t. run_ok (effective_cap max_spawns) (steps p) init g t (st\<lparr>spent := 0, recorders := []\<rparr>) st'
    \<and> (\<forall>fin. out = Ret fin \<longrightarrow> fin = t \<and> step_index t = length (steps p))"
proof -
  let ?deps = "deps\<lparr>fan_out_depth := 0,
          max_fan_out_depth := (case max_depth of None \<Rightarrow> DEFAULT_MAX_FAN_OUT_DEPTH | Some m \<Rightarrow> m),
          spawn_cap := effective_cap max_spawns\<rparr>"
  have "targets_ok ?deps" using assms(1) by (simp add: targets_ok_def)
  moreover have "run_rest n ?deps (length (steps p)) (drop (step_index g) (steps p)) g (st\<lparr>spent := 0, recorders := []\<rparr>) = (out, st')"
    using assms(4) by (simp add: run_from_def effective_cap_def)
  ultimately show ?thesis
    using run_steps_ok [OF _ assms(2) refl assms(3), of ?deps "st\<lparr>spent := 0, recorders := []\<rparr>"] by simp
qed

definition fresh_snapshot :: "ctx option \<Rightarrow> snapshot" where
  "fresh_snapshot initial_context =
     \<lparr>step_index = 0, named_stores = initial_stores initial_context, pipe_data = VNone, completed_step_results = []\<rparr>"

lemma fresh_consistent: "consistent ss (initial_stores ic) (fresh_snapshot ic)"
  by (simp add: consistent_def fresh_snapshot_def dkeys_def)

lemma run_is_from_fresh: "run_pipeline n deps max_depth max_spawns p ic = run_from n deps max_depth max_spawns p (fresh_snapshot ic)"
  by (simp add: run_pipeline_def fresh_snapshot_def initial_stores_def)

text \<open>
  The generations that can be on disk: recorded by a run, or by resuming from one that can be on
  disk, in whatever world and with whatever collaborators.
\<close>

inductive recoverable :: "'w itself \<Rightarrow> pipeline \<Rightarrow> ctx option \<Rightarrow> snapshot \<Rightarrow> bool"
  for ty :: "'w itself" and p :: pipeline and ic :: "ctx option" where
  rec_run: "targets_ok (deps :: 'w run_deps) \<Longrightarrow> run_pipeline n deps max_depth max_spawns p ic st = (out, st')
    \<Longrightarrow> journal st' = journal st @ J \<Longrightarrow> x \<in> set J \<Longrightarrow> recoverable ty p ic (gen_snapshot x)"
| rec_resume: "recoverable ty p ic g \<Longrightarrow> targets_ok (deps :: 'w run_deps)
    \<Longrightarrow> resume_pipeline n deps max_depth max_spawns p (Some g) st = (out, st')
    \<Longrightarrow> journal st' = journal st @ J \<Longrightarrow> x \<in> set J \<Longrightarrow> recoverable ty p ic (gen_snapshot x)"

lemma recoverable_ok:
  "recoverable ty p ic g \<Longrightarrow> \<forall>s\<in>set (steps p). names_ok s \<Longrightarrow> consistent (steps p) (initial_stores ic) g"
proof (induction rule: recoverable.induct)
  case (rec_run deps n max_depth max_spawns st out st' J x)
  with run_from_ok [OF rec_run.hyps(1) rec_run.prems fresh_consistent] show ?case
    by (fastforce simp: run_is_from_fresh run_ok_def)
next
  case (rec_resume g deps n max_depth max_spawns st out st' J x)
  with run_from_ok [OF rec_resume.hyps(2) rec_resume.prems rec_resume.IH [OF rec_resume.prems]] show ?case
    by (fastforce simp: resume_pipeline_def run_ok_def)
qed

text \<open>C5: Every generation that can be on disk is consistent: all steps before its index have
  their results, and its stores and pipe data are exactly what replaying those results gives,
  after any number of crashes and resumes, and also for the generations recorded in the middle
  of a nested step.\<close>

theorem recoverable_consistent:
  assumes "recoverable ty p ic g" and "\<forall>s\<in>set (steps p). names_ok s"
  shows "consistent (steps p) (initial_stores ic) g"
  using assms by (rule recoverable_ok)

text \<open>Resuming from a generation never loses progress: what is recorded from then on, up to
  the final state, has at least its step index and keeps all its results, each generation
  extending the one before.\<close>

theorem resume_keeps_progress:
  assumes "recoverable TYPE('w) p ic g" and "\<forall>s\<in>set (steps p). names_ok s" and "targets_ok (deps :: 'w run_deps)"
    and "resume_pipeline n deps max_depth max_spawns p (Some g) st = (out, st')"
  shows "\<exists>J t. journal st' = journal st @ J \<and> chain g (map gen_snapshot J) t
    \<and> (\<forall>fin. out = Ret fin \<longrightarrow> fin = t \<and> step_index fin = length (steps p))"
proof -
  have "run_from n deps max_depth max_spawns p g st = (out, st')" using assms(4) by (simp add: resume_pipeline_def)
  from run_from_ok [OF assms(3,2) recoverable_ok [OF assms(1,2)] this]
  show ?thesis unfolding run_ok_def by fastforce
qed


definition quiet_deps :: "unit run_deps" where
  "quiet_deps = \<lparr>tool_dispatch = (\<lambda>name args w. (Inr (VStr name), w)), state_log = True, schema_registry = None,
     registry = Some (\<lambda>req w. (Inr (VStr (req_prompt req)), w)), default_identity = Some ''me'', pipeline_registry = None,
     event_log = True, cancel_check = None, fan_out_depth = 0, max_fan_out_depth = 5, spawn_cap = 2,
     canonical_decls = [], canonical_mappers = (\<lambda>_ _. Inl CanonicalDiscriminatorMiss), exc_text = (\<lambda>_. []),
     schedule = (\<lambda>_ _. [])\<rparr>"

definition start_state :: "'w \<Rightarrow> 'w run_state" where
  "start_state w = \<lparr>world = w, journal = [], spent = 0, events = [], frame = fresh_snapshot None, recorders = []\<rparr>"

definition demo_pipeline :: pipeline where
  "demo_pipeline = \<lparr>
     steps = [ForEachStep
         (AgentStep \<lparr>agent_prompt = ''hi {item}'', agent_identity = None, agent_capabilities = None, agent_schema = None,
            agent_model = None, agent_output = None\<rparr>)
         (TransformStep \<lparr>tr_value = ''pipe'', tr_output = None\<rparr>) ''continue''
         \<lparr>over = None, items = Some [VInt 1, VInt 2]\<rparr> None (Some ''a'')],
     description = [], pipe_name = ''p''\<rparr>"

definition demo_run :: "snapshot outcome \<times> unit run_state" where
  "demo_run = run_pipeline 3 quiet_deps None (Some 1) demo_pipeline None (start_state ())"

definition demo_generation :: snapshot where
  "demo_generation = gen_snapshot (hd (journal (snd demo_run)))"

definition demo_resume :: "snapshot outcome \<times> unit run_state" where
  "demo_resume = resume_pipeline 3 quiet_deps None (Some 1) demo_pipeline (Some demo_generation) (start_state ())"

lemma demo_ok: "\<forall>s\<in>set (steps demo_pipeline). names_ok s" by code_simp

lemma quiet_targets: "targets_ok quiet_deps" by (simp add: targets_ok_def quiet_deps_def)

lemma demo_recoverable: "recoverable TYPE(unit) demo_pipeline None demo_generation"
proof -
  have r: "run_pipeline 3 quiet_deps None (Some 1) demo_pipeline None (start_state ()) = (fst demo_run, snd demo_run)"
    by (simp add: demo_run_def)
  have "journal (snd demo_run) \<noteq> []" by code_simp
  then have "hd (journal (snd demo_run)) \<in> set (journal (snd demo_run))" by simp
  from rec_run [OF quiet_targets r _ this] show ?thesis
    unfolding demo_generation_def by (simp add: start_state_def)
qed

theorem recoverable_consistent_witness:
  "consistent (steps demo_pipeline) [] demo_generation"
  using recoverable_consistent [OF demo_recoverable demo_ok] by (simp add: initial_stores_def)

theorem resume_keeps_progress_witness:
  "\<exists>J t. journal (snd demo_resume) = J \<and> chain demo_generation (map gen_snapshot J) t"
  using resume_keeps_progress [OF demo_recoverable demo_ok quiet_targets, of 3 None "Some 1" "start_state ()"
      "fst demo_resume" "snd demo_resume"]
  by (auto simp: demo_resume_def start_state_def)


end
