(* ===== verification/ExecResume.thy ===== *)
theory ExecResume
  imports ExecRun
begin

section \<open>A resumed run is the run\<close>

text \<open>
  For pipelines without fan-out: resuming from any recorded generation, in the world as it was
  when the generation was recorded, ends in the same state of the run and of the world as if the
  run had never been interrupted.  The locale \<open>resumable_runner\<close> is what a nested scope relies on
  of the dispatcher; \<open>cut\<close> enumerates the points a computation can be resumed from.
\<close>

subsection \<open>Cut points\<close>

definition strip :: "'w generation \<Rightarrow> pyval dict \<times> 'w" where
  "strip g = (completed_step_results (gen_snapshot g), gen_world g)"

definition cut :: "pyval dict \<Rightarrow> 'w \<Rightarrow> 'w generation list \<Rightarrow> pyval dict \<Rightarrow> 'w \<Rightarrow> 'w generation list \<Rightarrow> bool" where
  "cut c w J c2 w2 J2 \<longleftrightarrow>
     (c2 = c \<and> w2 = w \<and> J2 = J) \<or> (\<exists>J1 g. J = J1 @ g # J2 \<and> strip g = (c2, w2))"

lemma cut_start: "cut c w J c w J" by (simp add: cut_def)

lemma cut_Nil: "cut c w [] c2 w2 J2 \<longleftrightarrow> c2 = c \<and> w2 = w \<and> J2 = []" by (auto simp: cut_def)

lemma cut_append:
  assumes "cut c w (A @ B) c2 w2 J2"
  obtains (here) A2 where "cut c w A c2 w2 A2" "J2 = A2 @ B"
  | (there) J1 g where "B = J1 @ g # J2" "strip g = (c2, w2)"
  using assms
proof (cases "c2 = c \<and> w2 = w \<and> J2 = A @ B")
  case True
  then show ?thesis using here [of A] by (simp add: cut_def)
next
  case False
  with assms obtain J1 g where J: "A @ B = J1 @ g # J2" "strip g = (c2, w2)" by (auto simp: cut_def)
  then consider U where "A = J1 @ g # U" "J2 = U @ B" | U where "B = U @ g # J2"
    by (auto simp: append_eq_append_conv2 append_eq_Cons_conv)
  then show ?thesis
  proof cases
    case 1
    with J(2) here [of U] show ?thesis by (auto simp: cut_def)
  next
    case 2
    with J(2) there show ?thesis by blast
  qed
qed

text \<open>\<open>rejoins\<close>: the computation, started in \<open>st2\<close>, ends like the one that ended in \<open>st'\<close>.\<close>

definition rejoins :: "(step_result outcome \<times> 'w run_state) \<Rightarrow> 'w run_state \<Rightarrow> pyval \<Rightarrow> pyval dict \<Rightarrow> 'w run_state \<Rightarrow> 'w generation list \<Rightarrow> bool" where
  "rejoins res st2 v c' st' J2 \<longleftrightarrow>
     (\<exists>d2 st2' K. res = (Ret (v, d2, c'), st2') \<and> recorders st2' = [] \<and> world st2' = world st'
        \<and> spent st2' \<le> spent st' \<and> journal st2' = journal st2 @ K \<and> map strip K = map strip J2)"

definition resumable :: "(pyval dict \<Rightarrow> ('w, step_result) exec) \<Rightarrow> bool" where
  "resumable m \<longleftrightarrow>
     (\<forall>c st v d c' st' J c2 w2 J2 st2. coupled (recorders st) c \<longrightarrow> recorders st = [] \<longrightarrow> m c st = (Ret (v, d, c'), st')
        \<longrightarrow> journal st' = journal st @ J \<longrightarrow> cut c (world st) J c2 w2 J2
        \<longrightarrow> recorders st2 = [] \<longrightarrow> world st2 = w2 \<longrightarrow> spent st2 \<le> spent st
        \<longrightarrow> rejoins (m c2 st2) st2 v c' st' J2)"

lemma resumable_I:
  "(\<And>c st v d c' st' J c2 J2 st2. distinct (dkeys c) \<Longrightarrow> recorders st = [] \<Longrightarrow> m c st = (Ret (v, d, c'), st')
      \<Longrightarrow> journal st' = journal st @ J \<Longrightarrow> cut c (world st) J c2 (world st2) J2
      \<Longrightarrow> recorders st2 = [] \<Longrightarrow> spent st2 \<le> spent st \<Longrightarrow> rejoins (m c2 st2) st2 v c' st' J2) \<Longrightarrow> resumable m"
  by (auto simp: resumable_def)

lemma resumableD:
  assumes "resumable m" and "distinct (dkeys c)" and "recorders st = []" and "m c st = (Ret (v, d, c'), st')"
    and "journal st' = journal st @ J" and "cut c (world st) J c2 (world st2) J2"
    and "recorders st2 = []" and "spent st2 \<le> spent st"
  obtains d2 st2' K where "m c2 st2 = (Ret (v, d2, c'), st2')" "recorders st2' = []" "world st2' = world st'"
    "spent st2' \<le> spent st'" "journal st2' = journal st2 @ K" "map strip K = map strip J2"
  using assms unfolding resumable_def rejoins_def by (metis coupled.simps(1))

subsection \<open>Computations the world determines\<close>

definition by_world :: "('w, 'a) exec \<Rightarrow> bool" where
  "by_world m \<longleftrightarrow>
     (\<forall>st st2. world st2 = world st \<longrightarrow>
        fst (m st2) = fst (m st) \<and> world (snd (m st2)) = world (snd (m st)) \<and> spent (snd (m st)) = spent st
        \<and> recorders (snd (m st)) = recorders st \<and> journal (snd (m st)) = journal st)"

lemma by_worldD:
  assumes "by_world m" and "m st = (out, st')" and "world st2 = world st"
  obtains st2' where "m st2 = (out, st2')" "world st2' = world st'" "spent st2' = spent st2"
    "recorders st2' = recorders st2" "journal st2' = journal st2"
  using assms unfolding by_world_def by (metis fst_conv prod.collapse snd_conv)

lemma by_world_same:
  assumes "by_world m" and "m st = (out, st')"
  shows "spent st' = spent st" "recorders st' = recorders st" "journal st' = journal st"
  using assms unfolding by_world_def by (metis snd_conv)+

lemma by_world_ret [simp]: "by_world (xret x)" by (simp add: by_world_def xret_def)
lemma by_world_raise [simp]: "by_world (xraise e)" by (simp add: by_world_def xraise_def)
lemma by_world_fail [simp]: "by_world (fail e)" by (simp add: fail_def)
lemma by_world_lift [simp]: "by_world (xlift f r)" by (simp add: xlift_def split: sum.split)
lemma by_world_emit [simp]: "by_world (emit deps e)" by (simp add: by_world_def emit_def)

lemma by_world_eval [simp]: "by_world (eval_wrapped w e c)"
  by (simp add: eval_wrapped_def split: sum.split expr_exc.split)

lemma by_world_eval_both [simp]: "by_world (eval_wrapped_both w e c)"
  by (simp add: eval_wrapped_both_def split: sum.split expr_exc.split parse_exc.split)

lemma by_world_tool [simp]: "by_world (call_tool deps name args)"
  by (auto simp: by_world_def call_tool_def split: prod.splits sum.splits)

lemma by_world_bind:
  assumes "by_world m" and "\<And>x. by_world (f x)"
  shows "by_world (xbind m f)"
  unfolding by_world_def
proof (intro allI impI)
  fix st st2 :: "'a run_state" assume w: "world st2 = world st"
  obtain o1 st1 where m: "m st = (o1, st1)" by (metis surj_pair)
  have m2: "m st2 = (o1, snd (m st2))" and w2: "world (snd (m st2)) = world st1"
    and s: "spent st1 = spent st" "recorders st1 = recorders st" "journal st1 = journal st"
    using assms(1) [unfolded by_world_def, rule_format, OF w] m by (metis fst_conv snd_conv prod.collapse)+
  show "fst (xbind m f st2) = fst (xbind m f st) \<and> world (snd (xbind m f st2)) = world (snd (xbind m f st))
      \<and> spent (snd (xbind m f st)) = spent st \<and> recorders (snd (xbind m f st)) = recorders st
      \<and> journal (snd (xbind m f st)) = journal st"
  proof (cases o1)
    case (Ret x)
    have "xbind m f st = f x st1" "xbind m f st2 = f x (snd (m st2))"
      using xbind_simps(1) m m2 Ret by metis+
    with assms(2) [of x, unfolded by_world_def, rule_format, OF w2] s show ?thesis by simp
  next
    case (Raise e)
    have "xbind m f st = (Raise e, st1)" "xbind m f st2 = (Raise e, snd (m st2))"
      using xbind_simps(2) m m2 Raise by metis+
    with w2 s show ?thesis by simp
  next
    case Diverge
    have "xbind m f st = (Diverge, st1)" "xbind m f st2 = (Diverge, snd (m st2))"
      using xbind_simps(3) m m2 Diverge by metis+
    with w2 s show ?thesis by simp
  qed
qed

lemma by_world_render [simp]: "by_world (render_prompt ps c)"
  by (induction ps c rule: render_prompt.induct) (auto intro!: by_world_bind)

lemma by_world_once: "by_world (dispatch_tool_step_once deps s c label completed)"
  unfolding dispatch_tool_step_once_def resolve_args_def verify_schema_def ctx_fields_def emit_reason_def Let_def
  by (auto intro!: by_world_bind split: prod.splits option.splits pyval.splits)

lemma by_world_attempts: "by_world (tool_attempts n l deps s c label completed)"
proof (induction n arbitrary: l)
  case (Suc n)
  show ?case
    unfolding by_world_def
  proof (intro allI impI)
    fix st st2 :: "'a run_state" assume w: "world st2 = world st"
    let ?m = "dispatch_tool_step_once deps s c label completed"
    obtain o1 st1 where m: "?m st = (o1, st1)" by (metis surj_pair)
    from by_worldD [OF by_world_once m w] obtain st3 where m2: "?m st2 = (o1, st3)" "world st3 = world st1" by metis
    note s = by_world_same [OF by_world_once m]
    have k: "(\<exists>k. by_world k \<and> tool_attempts (Suc n) l deps s c label completed st = k st1
        \<and> tool_attempts (Suc n) l deps s c label completed st2 = k st3)"
    proof (cases o1)
      case (Ret x)
      obtain v d c' where x: "x = (v, d, c')" by (cases x)
      show ?thesis
      proof (cases "tool_step_canonical_error (ToolStep s) v")
        case None
        with m m2 Ret x show ?thesis
          by (intro exI [of _ "xret (Inr (v, d, c'))"]) (simp add: xret_def)
      next
        case (Some e)
        with m m2 Ret x Suc.IH [of "ErrorResult v"] show ?thesis
          by (intro exI [of _ "tool_attempts n (ErrorResult v) deps s c label completed"]) simp
      qed
    next
      case (Raise e)
      with m m2 Suc.IH [of "RaisedFailure e"] show ?thesis
        by (intro exI [of _ "tool_attempts n (RaisedFailure e) deps s c label completed"]) simp
    next
      case Diverge
      with m m2 show ?thesis
        by (intro exI [of _ "\<lambda>st. (Diverge, st)"]) (simp add: by_world_def)
    qed
    then obtain k where k: "by_world k" "tool_attempts (Suc n) l deps s c label completed st = k st1"
      "tool_attempts (Suc n) l deps s c label completed st2 = k st3" by blast
    from k(1) [unfolded by_world_def, rule_format, OF m2(2)] s
    show "fst (tool_attempts (Suc n) l deps s c label completed st2) = fst (tool_attempts (Suc n) l deps s c label completed st)
      \<and> world (snd (tool_attempts (Suc n) l deps s c label completed st2)) = world (snd (tool_attempts (Suc n) l deps s c label completed st))
      \<and> spent (snd (tool_attempts (Suc n) l deps s c label completed st)) = spent st
      \<and> recorders (snd (tool_attempts (Suc n) l deps s c label completed st)) = recorders st
      \<and> journal (snd (tool_attempts (Suc n) l deps s c label completed st)) = journal st"
      unfolding k(2,3) by simp
  qed
qed simp


subsection \<open>Leaf steps\<close>

lemma leaf_resumable:
  assumes "\<And>c. by_world (m c)" and "\<And>c st v d x st'. m c st = (Ret (v, d, x), st') \<Longrightarrow> x = c"
  shows "resumable m"
proof (rule resumable_I)
  fix c c' c2 v d J J2 and st st' st2 :: "'a run_state"
  assume r: "recorders st = []" and m: "m c st = (Ret (v, d, c'), st')"
    and J: "journal st' = journal st @ J" and k: "cut c (world st) J c2 (world st2) J2"
    and r2: "recorders st2 = []" and sp: "spent st2 \<le> spent st"
  note same = by_world_same [OF assms(1) m]
  have "J = []" using J same(3) by simp
  then have k2: "c2 = c" "world st2 = world st" "J2 = []" using k by (simp_all add: cut_Nil)
  from by_worldD [OF assms(1) m k2(2)] obtain st2' where "m c st2 = (Ret (v, d, c'), st2')"
    "world st2' = world st'" "spent st2' = spent st2" "recorders st2' = recorders st2" "journal st2' = journal st2" .
  then show "rejoins (m c2 st2) st2 v c' st' J2"
    using k2 same r2 sp by (auto simp: rejoins_def)
qed

definition returns :: "pyval dict \<Rightarrow> ('w, step_result) exec \<Rightarrow> bool" where
  "returns c m \<longleftrightarrow> (\<forall>st v d x st'. m st = (Ret (v, d, x), st') \<longrightarrow> x = c)"

lemma returnsD: "returns c m \<Longrightarrow> m st = (Ret (v, d, x), st') \<Longrightarrow> x = c"
  unfolding returns_def by blast

lemma returns_bind: "(\<And>x st st'. m st = (Ret x, st') \<Longrightarrow> returns c (f x)) \<Longrightarrow> returns c (xbind m f)"
  unfolding returns_def xbind_Ret by blast

lemma returns_simps [simp]: "returns c (xret (v, d, c))" "returns c (fail why)" "returns c (xraise e)"
  by (simp_all add: returns_def xret_def fail_def xraise_def)

lemma transform_resumable: "resumable (run_transform_step s c label)"
proof (rule leaf_resumable)
  show "by_world (run_transform_step s c label completed)" for completed :: "pyval dict"
    unfolding run_transform_step_def by (intro by_world_bind by_world_eval by_world_ret)
  show "x = completed" if "run_transform_step s c label completed st = (Ret (v, d, x), st')"
    for completed st v d x st'
  proof -
    have "returns completed (run_transform_step s c label completed)"
      unfolding run_transform_step_def by (intro returns_bind) simp
    then show ?thesis using that by (rule returnsD)
  qed
qed

lemma tool_by_world: "by_world (run_tool_step deps s c label completed)"
  unfolding run_tool_step_def tool_give_up_def
  by (auto intro!: by_world_bind by_world_once by_world_attempts split: option.split sum.split attempt_failure.split)

lemma tool_returns: "run_tool_step deps s c label completed st = (Ret (v, d, x), st') \<Longrightarrow> x = completed"
proof -
  have give_up: "returns completed (tool_give_up deps s oe label completed f)" for oe f
    by (simp add: tool_give_up_def split: attempt_failure.split)
  have inr: "returns completed (xret res)"
    if "tool_attempts n l deps s c label completed st = (Ret (Inr res), st')" for n l st st' res
    using that by (cases res) (auto dest: attempts_return)
  have "returns completed (run_tool_step deps s c label completed)"
    unfolding run_tool_step_def
    by (cases "tool_on_error s")
      (auto intro!: returns_bind give_up inr split: sum.split simp: returns_def [of _ "dispatch_tool_step_once deps s c label completed"]
        dest: once_returns)
  then show "run_tool_step deps s c label completed st = (Ret (v, d, x), st') \<Longrightarrow> x = completed"
    by (rule returnsD)
qed

lemma tool_resumable: "resumable (run_tool_step deps s c label)"
  by (rule leaf_resumable) (auto intro: tool_by_world dest: tool_returns)

text \<open>An agent step also charges the budget: with less spent, the charge cannot fail.\<close>

definition call_agent ::
  "(agent_request \<Rightarrow> 'w \<Rightarrow> (agent_exc + pyval) \<times> 'w) \<Rightarrow> agent_step \<Rightarrow> string \<Rightarrow> step_context \<Rightarrow> string \<Rightarrow> pyval dict \<Rightarrow> ('w, step_result) exec" where
  "call_agent run s identity c label completed =
     xbind (interpolate_prompt (agent_prompt s) c) (\<lambda>prompt. (\<lambda>st.
       (case run \<lparr>req_identity = identity, req_prompt = prompt, req_capabilities = agent_capabilities s,
                      req_schema = agent_schema s, req_model = agent_model s\<rparr> (world st) of
                    (Inr v, w) \<Rightarrow> (Ret (v, True, completed), st\<lparr>world := w\<rparr>)
                  | (Inl (AgentStepError m), w) \<Rightarrow>
                      (Raise (PipelineExecutionError (AgentFailed label m)), st\<lparr>world := w\<rparr>)
                  | (Inl (AgentOtherError m), w) \<Rightarrow> (Raise (AgentRaised m), st\<lparr>world := w\<rparr>))))"

lemma call_agent_by_world: "by_world (call_agent run s identity c label completed)"
  unfolding call_agent_def interpolate_prompt_def
  by (rule by_world_bind [OF by_world_render])
    (auto simp: by_world_def split: prod.splits sum.splits agent_exc.splits)

lemma call_agent_returns: "call_agent run s identity c label completed st = (Ret (v, d, x), st') \<Longrightarrow> x = completed"
proof -
  have "returns completed (call_agent run s identity c label completed)"
    unfolding call_agent_def
    by (intro returns_bind) (auto simp: returns_def split: prod.splits sum.splits agent_exc.splits)
  then show "call_agent run s identity c label completed st = (Ret (v, d, x), st') \<Longrightarrow> x = completed"
    by (rule returnsD)
qed

lemma agent_step_cases:
  obtains (fails) r where "\<And>completed. run_agent_step deps s c label completed = fail r"
  | (spawns) run identity where "\<And>completed. run_agent_step deps s c label completed =
      xbind (consume_spawn deps label) (\<lambda>_. call_agent run s identity c label completed)"
proof (cases "case agent_identity s of Some (x # xs) \<Rightarrow> Some (x # xs) | _ \<Rightarrow> default_identity deps")
  case None
  then show ?thesis by (intro fails [of "NoIdentity label"]) (simp add: run_agent_step_def)
next
  case (Some identity)
  show ?thesis
  proof (cases "registry deps")
    case None
    with Some show ?thesis by (intro fails [of "NoAgentRegistry label"]) (simp add: run_agent_step_def)
  next
    case (Some run)
    with \<open>_ = Some identity\<close> show ?thesis
      by (intro spawns [of run identity]) (simp add: run_agent_step_def call_agent_def)
  qed
qed

lemma agent_resumable: "resumable (run_agent_step deps s c label)"
proof (rule resumable_I)
  fix x c' c2 v d J J2 and st st' st2 :: "'a run_state"
  assume r: "recorders st = []" and m: "run_agent_step deps s c label x st = (Ret (v, d, c'), st')"
    and J: "journal st' = journal st @ J" and k: "cut x (world st) J c2 (world st2) J2"
    and r2: "recorders st2 = []" and sp: "spent st2 \<le> spent st"
  show "rejoins (run_agent_step deps s c label c2 st2) st2 v c' st' J2"
  proof (cases rule: agent_step_cases [of deps s c label])
    case (fails e)
    with m show ?thesis by (simp add: fail_simp)
  next
    case (spawns run identity)
    from m obtain st1 where sp1: "consume_spawn deps label st = (Ret (), st1)"
      and m1: "call_agent run s identity c label x st1 = (Ret (v, d, c'), st')"
      by (auto simp: spawns xbind_Ret)
    have st1: "st1 = st\<lparr>spent := spent st + 1\<rparr>" "spawn_cap deps = 0 \<or> spent st < spawn_cap deps"
      using sp1 by (auto simp: consume_spawn_def split: if_splits)
    let ?st3 = "st2\<lparr>spent := spent st2 + 1\<rparr>"
    have sp2: "consume_spawn deps label st2 = (Ret (), ?st3)"
      using st1(2) sp by (auto simp: consume_spawn_def)
    note same = by_world_same [OF call_agent_by_world m1]
    have "J = []" using J same(3) by (simp add: st1(1))
    then have k2: "c2 = x" "world st2 = world st" "J2 = []" using k by (simp_all add: cut_Nil)
    have "world ?st3 = world st1" using k2 by (simp add: st1(1))
    from by_worldD [OF call_agent_by_world m1 this] obtain st2' where
      "call_agent run s identity c label x ?st3 = (Ret (v, d, c'), st2')"
      "world st2' = world st'" "spent st2' = spent ?st3" "recorders st2' = recorders ?st3" "journal st2' = journal ?st3" .
    moreover have "c' = x" using call_agent_returns [OF m1] .
    ultimately show ?thesis
      using k2 same r2 sp by (auto simp: rejoins_def spawns st1(1) xbind_simps(1) [of "consume_spawn deps label", OF sp2])
  qed
qed

subsection \<open>Nested scopes\<close>

text \<open>
  Without fan-out, and without a fold whose \<open>do\<close> binds an output (its loop-local stores are not
  restored on replay).
\<close>

fun sequential :: "step \<Rightarrow> bool" where
  "sequential (FoldStep _ do' _ _ _) = ((step_output do' = None \<or> step_output do' = Some []) \<and> sequential do')"
| "sequential (ForEachStep _ _ _ _ _ _) = False"
| "sequential (ParallelStep _ _ _ _) = False"
| "sequential _ = True"

definition targets_sequential :: "'w run_deps \<Rightarrow> bool" where
  "targets_sequential deps \<longleftrightarrow>
     (\<forall>reg name p. pipeline_registry deps = Some reg \<longrightarrow> get_pipeline reg name = Inr p \<longrightarrow> (\<forall>s\<in>set (steps p). sequential s))"

lemma sequential_names: "sequential s \<Longrightarrow> names_ok s"
  by (induction s) auto

lemma targets_sequential_ok: "targets_sequential deps \<Longrightarrow> targets_ok deps"
  using sequential_names unfolding targets_sequential_def targets_ok_def by blast

text \<open>
  The same for a computation with a durability flag and a result of any type, of which \<open>sel\<close> is
  what must come out the same.
\<close>

definition resumable_by :: "('a \<Rightarrow> 'b) \<Rightarrow> (bool \<Rightarrow> pyval dict \<Rightarrow> ('w, 'a) exec) \<Rightarrow> bool" where
  "resumable_by sel M \<longleftrightarrow>
     (\<forall>dur dur2 c st x st' J c2 J2 st2. distinct (dkeys c) \<longrightarrow> recorders st = [] \<longrightarrow> M dur c st = (Ret x, st')
        \<longrightarrow> journal st' = journal st @ J \<longrightarrow> cut c (world st) J c2 (world st2) J2
        \<longrightarrow> recorders st2 = [] \<longrightarrow> spent st2 \<le> spent st
        \<longrightarrow> (\<exists>x2 st2' K. M dur2 c2 st2 = (Ret x2, st2') \<and> sel x2 = sel x \<and> recorders st2' = []
              \<and> world st2' = world st' \<and> spent st2' \<le> spent st'
              \<and> journal st2' = journal st2 @ K \<and> map strip K = map strip J2))"

lemma resumable_byD:
  assumes "resumable_by sel M" and "distinct (dkeys c)" and "recorders st = []" and "M dur c st = (Ret x, st')"
    and "journal st' = journal st @ J" and "cut c (world st) J c2 (world st2) J2"
    and "recorders st2 = []" and "spent st2 \<le> spent st"
  obtains x2 st2' K where "M dur2 c2 st2 = (Ret x2, st2')" "sel x2 = sel x" "recorders st2' = []"
    "world st2' = world st'" "spent st2' \<le> spent st'" "journal st2' = journal st2 @ K" "map strip K = map strip J2"
  using assms(1) [unfolded resumable_by_def, rule_format, OF assms(2-8), of dur2] by blast

lemma good_run:
  assumes "good cap P c m s" and "distinct (dkeys c)" and "recorders st = []" and "m st = (out, st')"
  obtains J c' where "journal st' = journal st @ J" "recorders st' = []" "grows P c c'" "distinct (dkeys c')"
    "progress c (map (completed_step_results \<circ> gen_snapshot) J) c'" "\<And>x. out = Ret x \<Longrightarrow> s x = c'" "spent st \<le> spent st'"
proof -
  have "coupled (recorders st) c" using assms(2,3) by simp
  from goodD [OF assms(1) this assms(4)] obtain c' where a: "advances cap P st c st' c'" "\<And>x. out = Ret x \<Longrightarrow> s x = c'" by metis
  have r: "recorders st' = []" using a(1) assms(3) by (auto simp: advances_def recs_grow_def)
  from a(1) show ?thesis using that a(2) r by (auto simp: advances_def assms(3))
qed

lemma cut_grows:
  assumes "cut c w J c2 w2 J2" and "progress c (map (completed_step_results \<circ> gen_snapshot) J) c'" and "grows P c c'"
  shows "grows P c c2"
proof (cases "c2 = c")
  case False
  with assms(1) have "c2 \<in> set (map (completed_step_results \<circ> gen_snapshot) J)"
    by (auto simp: cut_def strip_def)
  from progress_bounds [OF assms(2) this] grows_between [OF _ _ assms(3)] show ?thesis by blast
qed simp

lemma record_here:
  "recorders st = [] \<Longrightarrow> record_completed deps c d st =
     (Ret (), st\<lparr>journal := journal st @ (if state_log deps
        then [\<lparr>gen_snapshot = (frame st)\<lparr>completed_step_results := c\<rparr>, gen_durable = d, gen_world = world st\<rparr>] else [])\<rparr>)"
  by (cases st) (simp add: record_completed_def record_pipeline_state_def)

lemma resumable_by_ret:
  assumes "\<And>dur dur2 c. sel (f dur c) = sel (f dur2 c)"
  shows "resumable_by sel (\<lambda>dur c. xret (f dur c))"
  unfolding resumable_by_def
  by (auto simp: xret_def cut_Nil assms)

text \<open>Evaluating an expression or finding a pipeline neither reads nor changes the state.\<close>

definition stateless :: "('w, 'a) exec \<Rightarrow> bool" where
  "stateless m \<longleftrightarrow> (\<exists>out. \<forall>st. m st = (out, st))"

lemma stateless_simps [simp]: "stateless (xret x)" "stateless (xraise e)" "stateless (fail why)"
  by (auto simp: stateless_def xret_def xraise_def fail_def)

lemma stateless_lift [simp]: "stateless (xlift f r)" by (simp add: xlift_def split: sum.split)

lemma stateless_eval [simp]: "stateless (eval_wrapped w e c)"
  by (simp add: eval_wrapped_def split: sum.split expr_exc.split)

lemma stateless_eval_both [simp]: "stateless (eval_wrapped_both w e c)"
  by (simp add: eval_wrapped_both_def split: sum.split expr_exc.split parse_exc.split)

lemma stateless_bind:
  assumes "stateless m" and "\<And>x. stateless (f x)"
  shows "stateless (xbind m f)"
proof -
  from assms(1) obtain out where m: "m st = (out, st)" for st by (auto simp: stateless_def)
  show ?thesis
  proof (cases out)
    case (Ret x)
    then have "xbind m f = f x" by (intro ext) (simp add: xbind_def m)
    with assms(2) show ?thesis by simp
  qed (auto simp: stateless_def xbind_def m)
qed

lemma stateless_pass [simp]: "stateless (eval_pass_entries es c label resolved)"
  by (induction es c label resolved rule: eval_pass_entries.induct) (auto intro!: stateless_bind)

lemma stateless_source [simp]: "stateless (resolve_list_source ls c label knd)"
  unfolding resolve_list_source_def
  by (auto intro!: stateless_bind split: option.split pyval.split)

lemma stateless_find [simp]: "stateless (find_callee deps label name)"
  by (simp add: find_callee_def split: option.split sum.split)

lemma resumable_by_const:
  assumes "stateless m" and "\<And>x st st'. m st = (Ret x, st') \<Longrightarrow> resumable_by sel (f x)"
  shows "resumable_by sel (\<lambda>dur c. xbind m (\<lambda>x. f x dur c))"
proof -
  from assms(1) obtain out where m: "m st = (out, st)" for st by (auto simp: stateless_def)
  show ?thesis
  proof (cases out)
    case (Ret x)
    then have "(\<lambda>dur c. xbind m (\<lambda>x. f x dur c)) = f x" by (intro ext) (simp add: xbind_def m)
    with assms(2) [OF m [unfolded Ret]] show ?thesis by simp
  qed (simp_all add: resumable_by_def xbind_def m)
qed

lemma resumable_by_map:
  assumes M: "resumable_by sel (M :: bool \<Rightarrow> pyval dict \<Rightarrow> ('w, 'a) exec)" and s: "\<And>x y. sel x = sel y \<Longrightarrow> sel' (g x) = sel' (g y)"
  shows "resumable_by sel' (\<lambda>dur c. xbind (M dur c) (\<lambda>x. xret (g x)))"
  unfolding resumable_by_def
proof (intro allI impI)
  fix dur dur2 c x st st' J c2 J2 and st2 :: "'w run_state"
  assume dc: "distinct (dkeys c)" and r: "recorders st = []" and n: "xbind (M dur c) (\<lambda>x. xret (g x)) st = (Ret x, st')"
    and J: "journal st' = journal st @ J" and k: "cut c (world st) J c2 (world st2) J2"
    and r2: "recorders st2 = []" and sp: "spent st2 \<le> spent st"
  from n obtain y where m: "M dur c st = (Ret y, st')" and x: "x = g y" by (auto simp: xbind_Ret xret_def)
  from resumable_byD [OF M dc r m J k r2 sp, of dur2] obtain x2 st2' K where
    "M dur2 c2 st2 = (Ret x2, st2')" "sel x2 = sel y" "recorders st2' = []" "world st2' = world st'"
    "spent st2' \<le> spent st'" "journal st2' = journal st2 @ K" "map strip K = map strip J2" .
  with s [of x2 y] show "\<exists>x2 st2' K. xbind (M dur2 c2) (\<lambda>x. xret (g x)) st2 = (Ret x2, st2') \<and> sel' x2 = sel' x \<and> recorders st2' = []
              \<and> world st2' = world st' \<and> spent st2' \<le> spent st'
              \<and> journal st2' = journal st2 @ K \<and> map strip K = map strip J2"
    by (intro exI [of _ "g x2"] exI [of _ st2'] exI [of _ K]) (simp add: xbind_def xret_def x)
qed

lemma resumable_from: "resumable_by (\<lambda>(v, d, c). (v, c)) (\<lambda>_. m) \<Longrightarrow> resumable m"
proof (rule resumable_I)
  fix c c' c2 v d J J2 and st st' st2 :: "'a run_state"
  assume M: "resumable_by (\<lambda>(v, d, c). (v, c)) (\<lambda>_. m)"
    and "distinct (dkeys c)" "recorders st = []" "m c st = (Ret (v, d, c'), st')"
    "journal st' = journal st @ J" "cut c (world st) J c2 (world st2) J2" "recorders st2 = []" "spent st2 \<le> spent st"
  from resumable_byD [OF this] obtain x2 st2' K where j: "m c2 st2 = (Ret x2, st2')"
    "(case x2 of (v, d, c) \<Rightarrow> (v, c)) = (case (v, d, c') of (v, d, c) \<Rightarrow> (v, c))" "recorders st2' = []"
    "world st2' = world st'" "spent st2' \<le> spent st'" "journal st2' = journal st2 @ K" "map strip K = map strip J2" .
  then obtain d2 where "x2 = (v, d2, c')" by (cases x2) auto
  with j show "rejoins (m c2 st2) st2 v c' st' J2" unfolding rejoins_def by blast
qed

locale resumable_runner = step_runner r for r :: "'w dispatcher" +
  assumes resumes: "sequential s \<Longrightarrow> targets_sequential deps \<Longrightarrow> resumable (r deps s c label)"
begin

lemma keyed_resumes:
  assumes s: "sequential s" "targets_sequential deps"
    and cont: "\<And>v. resumable_by sel (M v)"
    and cont_good: "\<And>v dur c. good cap P c (M v dur c) out"
  shows "resumable_by sel (\<lambda>dur c. case dget c key of
       Some v \<Rightarrow> M v dur c
     | None \<Rightarrow> xbind (r deps s ctx key c) (\<lambda>(v, d, c'). xbind (record_completed deps (dset key v c') d) (\<lambda>_.
         M v (dur \<or> d) (dset key v c'))))" (is "resumable_by sel ?N")
  unfolding resumable_by_def
proof (intro allI impI)
  fix dur dur2 c st x st' J c2 J2 and st2 :: "'w run_state"
  assume dc: "distinct (dkeys c)" and r: "recorders st = []" and n: "?N dur c st = (Ret x, st')"
    and J: "journal st' = journal st @ J" and k: "cut c (world st) J c2 (world st2) J2"
    and r2: "recorders st2 = []" and sp: "spent st2 \<le> spent st"
  show "\<exists>x2 st2' K. ?N dur2 c2 st2 = (Ret x2, st2') \<and> sel x2 = sel x \<and> recorders st2' = []
              \<and> world st2' = world st' \<and> spent st2' \<le> spent st'
              \<and> journal st2' = journal st2 @ K \<and> map strip K = map strip J2"
  proof (cases "dget c key")
    case (Some v)
    then have m: "M v dur c st = (Ret x, st')" using n by simp
    from good_run [OF cont_good dc r m] J cut_grows [OF k] have "grows P c c2" by (metis same_append_eq)
    then have "dget c2 key = Some v" using Some by (simp add: grows_def extends_def)
    with resumable_byD [OF cont dc r m J k r2 sp, of dur2] show ?thesis by simp metis
  next
    case None
    obtain v d c1 st1 where m: "r deps s ctx key c st = (Ret (v, d, c1), st1)"
      and rest: "xbind (record_completed deps (dset key v c1) d) (\<lambda>_. M v (dur \<or> d) (dset key v c1)) st1 = (Ret x, st')"
      using n None by (auto simp: xbind_Ret)
    from good_run [OF runner [OF sequential_names [OF s(1)] targets_sequential_ok [OF s(2)]] dc r m]
    obtain Jr where Jr: "journal st1 = journal st @ Jr" "recorders st1 = []" and g: "grows (below key) c c1"
      and d1: "distinct (dkeys c1)" and pr: "progress c (map (completed_step_results \<circ> gen_snapshot) Jr) c1"
      and sp1: "spent st \<le> spent st1"
      by (metis (no_types, lifting) case_prod_conv)
    let ?c1 = "dset key v c1"
    define G where "G = (if state_log deps
        then [\<lparr>gen_snapshot = (frame st1)\<lparr>completed_step_results := ?c1\<rparr>, gen_durable = d, gen_world = world st1\<rparr>] else [])"
    let ?st1 = "st1\<lparr>journal := journal st1 @ G\<rparr>"
    have rec1: "record_completed deps ?c1 d st1 = (Ret (), ?st1)" using record_here [OF Jr(2)] by (simp add: G_def)
    then have mr: "M v (dur \<or> d) ?c1 ?st1 = (Ret x, st')" using rest by (simp add: xbind_def rec1)
    have dc1: "distinct (dkeys ?c1)" using d1 by (rule distinct_dkeys_dset)
    have r1: "recorders ?st1 = []" using Jr(2) by simp
    from good_run [OF cont_good dc1 r1 mr] obtain Jm c' where Jm: "journal st' = journal ?st1 @ Jm"
      and prm: "progress ?c1 (map (completed_step_results \<circ> gen_snapshot) Jm) c'" and gm: "grows P ?c1 c'" by metis
    have JJ: "J = Jr @ (G @ Jm)" using J Jr(1) Jm by simp
    from k [unfolded JJ] show ?thesis
    proof (cases rule: cut_append)
      case (here A2)
      have n2: "dget c2 key = None"
        using grows_None [OF cut_grows [OF here(1) pr g] None] by simp
      from resumableD [OF resumes [OF s] dc r m Jr(1) here(1) r2 sp]
      obtain d2 st3 K1 where m2: "r deps s ctx key c2 st2 = (Ret (v, d2, c1), st3)" and r3: "recorders st3 = []"
        and w3: "world st3 = world st1" and s3: "spent st3 \<le> spent st1"
        and K1: "journal st3 = journal st2 @ K1" "map strip K1 = map strip A2" by metis
      define G3 where "G3 = (if state_log deps
        then [\<lparr>gen_snapshot = (frame st3)\<lparr>completed_step_results := ?c1\<rparr>, gen_durable = d2, gen_world = world st3\<rparr>] else [])"
      let ?st3 = "st3\<lparr>journal := journal st3 @ G3\<rparr>"
      have rec3: "record_completed deps ?c1 d2 st3 = (Ret (), ?st3)" using record_here [OF r3] by (simp add: G3_def)
      have GG: "map strip G3 = map strip G" using w3 by (simp add: G_def G3_def strip_def)
      have k3: "cut ?c1 (world ?st1) Jm ?c1 (world ?st3) Jm" using w3 by (simp add: cut_start)
      from resumable_byD [OF cont dc1 r1 mr Jm k3, of "dur2 \<or> d2"] r3 s3
      obtain x2 st2' K where "M v (dur2 \<or> d2) ?c1 ?st3 = (Ret x2, st2')" "sel x2 = sel x" "recorders st2' = []"
        "world st2' = world st'" "spent st2' \<le> spent st'" "journal st2' = journal ?st3 @ K" "map strip K = map strip Jm"
        by auto
      with n2 m2 K1 GG here(2) show ?thesis
        by (intro exI [of _ x2] exI [of _ st2'] exI [of _ "K1 @ G3 @ K"])
          (simp add: xbind_def rec3)
    next
      case (there J1 g')
      have k2: "cut ?c1 (world ?st1) Jm c2 (world st2) J2"
        using there by (cases J1) (auto simp: G_def cut_def strip_def split: if_splits)
      have "dget c2 key = Some v" using cut_grows [OF k2 prm gm] by (simp add: grows_def extends_def)
      moreover have "spent st2 \<le> spent ?st1" using sp sp1 by simp
      ultimately show ?thesis using resumable_byD [OF cont dc1 r1 mr Jm k2 r2, of dur2] by simp metis
    qed
  qed
qed

lemma scope_resumes:
  "\<forall>s\<in>set ss. sequential s \<Longrightarrow> targets_sequential deps \<Longrightarrow>
    resumable_by (\<lambda>(p, s, c, d). (p, s, c)) (\<lambda>dur c. run_scope r deps scope j ss stores pipe c dur)"
proof (induction ss arbitrary: j stores pipe)
  case Nil
  then show ?case by (simp add: resumable_by_ret)
next
  case (Cons s ss)
  have eq: "(\<lambda>dur c. run_scope r deps scope j (s # ss) stores pipe c dur) =
     (\<lambda>dur c. case dget c (scope @ ''.'' @ nat_str j) of
       Some v \<Rightarrow> run_scope r deps scope (Suc j) ss (bind_output (step_output s) v stores) v c dur
     | None \<Rightarrow> xbind (r deps s \<lparr>ctx_stores = stores, ctx_pipe = pipe, ctx_loop = []\<rparr> (scope @ ''.'' @ nat_str j) c)
         (\<lambda>(v, d, c'). xbind (record_completed deps (dset (scope @ ''.'' @ nat_str j) v c') d) (\<lambda>_.
           run_scope r deps scope (Suc j) ss (bind_output (step_output s) v stores) v (dset (scope @ ''.'' @ nat_str j) v c') (dur \<or> d))))"
    by (intro ext) (simp only: run_scope.simps Let_def)
  have good: "good (spawn_cap deps) (below scope) c
      (run_scope r deps scope (Suc j) ss (bind_output (step_output s) v stores) v c dur) (\<lambda>(_, _, x, _). x)" for v dur c
    using Cons.prems sequential_names targets_sequential_ok by (intro scope_good) auto
  show ?case
    unfolding eq by (rule keyed_resumes [OF _ Cons.prems(2) _ good]) (use Cons in auto)
qed

lemma callee_resumes:
  assumes "\<forall>s\<in>set (steps callee). sequential s" and "targets_sequential deps"
  shows "resumable_by (\<lambda>(v, d, c). (v, c)) (\<lambda>dur. run_callee r deps callee es c lab scope)"
  unfolding run_callee_def
proof (rule resumable_by_const [OF stateless_pass])
  fix sub
  have eq: "(\<lambda>x :: pyval \<times> ctx \<times> pyval dict \<times> bool. xret (fst x, snd (snd (snd x)), fst (snd (snd x)))) =
      (\<lambda>(pipe, _, completed', any_durable). xret (pipe, any_durable, completed'))" by auto
  have "resumable_by (\<lambda>(p, s, c, d). (p, s, c)) (\<lambda>dur completed. run_scope r deps scope 0 (steps callee) sub (ctx_pipe c) completed False)"
    using scope_resumes [OF assms, of scope 0 sub "ctx_pipe c"] by (auto simp: resumable_by_def)
  then have "resumable_by (\<lambda>(v, d, c). (v, c)) (\<lambda>dur completed. xbind (run_scope r deps scope 0 (steps callee) sub (ctx_pipe c) completed False)
      (\<lambda>x. xret (fst x, snd (snd (snd x)), fst (snd (snd x)))))"
    by (rule resumable_by_map) auto
  then show "resumable_by (\<lambda>(v, d, c). (v, c)) (\<lambda>dur completed. xbind (run_scope r deps scope 0 (steps callee) sub (ctx_pipe c) completed False)
      (\<lambda>(pipe, _, completed', any_durable). xret (pipe, any_durable, completed')))"
    unfolding eq .
qed

lemma found_sequential: "targets_sequential deps \<Longrightarrow> find_callee deps label name st = (Ret p, st') \<Longrightarrow> \<forall>s\<in>set (steps p). sequential s"
  by (auto simp: find_callee_def targets_sequential_def exec_simps split: option.splits sum.splits)

lemma call_resumes: "targets_sequential deps \<Longrightarrow> resumable (run_call_step r deps s c label)"
  unfolding run_call_step_def
  by (intro resumable_from resumable_by_const [OF stateless_find] callee_resumes) (auto dest: found_sequential)

lemma match_resumes: "targets_sequential deps \<Longrightarrow> resumable (run_match_step r deps s c label)"
proof (rule resumable_from)
  assume t: "targets_sequential deps"
  have f: "resumable_by (\<lambda>(v, d, c). (v, c)) (\<lambda>dur completed. fail why)" for why
    by (simp add: resumable_by_def fail_simp)
  show "resumable_by (\<lambda>(v, d, c). (v, c)) (\<lambda>_. run_match_step r deps s c label)"
    unfolding run_match_step_def
  proof (rule resumable_by_const [OF stateless_eval])
    fix raw
    show "resumable_by (\<lambda>(v, d, c). (v, c)) (\<lambda>_ completed.
        case (case dget (match_cases s) (py_str raw) of Some k \<Rightarrow> Some k | None \<Rightarrow> match_default s) of
          None \<Rightarrow> fail (NoMatchingCase label (py_str raw))
        | Some k \<Rightarrow> xbind (find_callee deps label (case_pipeline k)) (\<lambda>callee.
            run_callee r deps callee (case_pass k) c label (label @ ''.match'') completed))"
    proof (cases "case dget (match_cases s) (py_str raw) of Some k \<Rightarrow> Some k | None \<Rightarrow> match_default s")
      case None
      show ?thesis unfolding None option.case by (rule f)
    next
      case (Some k)
      show ?thesis
        unfolding Some option.case
        by (rule resumable_by_const [OF stateless_find]) (intro callee_resumes found_sequential [OF t] t)
    qed
  qed
qed

lemma fold_items_resumes:
  "sequential do' \<Longrightarrow> step_output do' = None \<or> step_output do' = Some [] \<Longrightarrow> targets_sequential deps \<Longrightarrow>
    resumable_by (\<lambda>(v, d, c). (v, c)) (\<lambda>dur c. fold_items r deps do' label pipe k xs stores acc c dur)"
proof (induction xs arbitrary: k acc)
  case Nil
  then show ?case by (simp add: resumable_by_ret)
next
  case (Cons y xs)
  have b: "bind_output (step_output do') v stores = stores" for v
    using Cons.prems(2) by (auto simp: bind_output_def)
  let ?key = "label @ ''.fold.'' @ nat_str k"
  have eq: "(\<lambda>dur c. fold_items r deps do' label pipe k (y # xs) stores acc c dur) =
     (\<lambda>dur c. case dget c ?key of
       Some v \<Rightarrow> fold_items r deps do' label pipe (Suc k) xs stores v c dur
     | None \<Rightarrow> xbind (r deps do' \<lparr>ctx_stores = stores, ctx_pipe = pipe, ctx_loop = [(''item'', y), (''acc'', acc)]\<rparr> ?key c)
         (\<lambda>(v, d, c'). xbind (record_completed deps (dset ?key v c') d) (\<lambda>_.
           fold_items r deps do' label pipe (Suc k) xs stores v (dset ?key v c') (dur \<or> d))))"
    by (intro ext) (simp only: fold_items.simps Let_def b)
  have good: "good (spawn_cap deps) (below label) c
      (fold_items r deps do' label pipe (Suc k) xs stores v c dur) (\<lambda>(_, _, x). x)" for v dur c
    using Cons.prems sequential_names targets_sequential_ok by (intro fold_items_good) auto
  show ?case
    unfolding eq by (rule keyed_resumes [OF Cons.prems(1,3) _ good]) (use Cons in auto)
qed

lemma fold_resumes:
  assumes "sequential do'" and "step_output do' = None \<or> step_output do' = Some []" and "targets_sequential deps"
  shows "resumable (run_fold_step r deps init do' ls max_items c label)"
proof (rule resumable_from)
  have "resumable_by (\<lambda>(v, d, c). (v, c)) (\<lambda>dur c. fold_items r deps do' label pipe k xs stores acc c False)" for pipe k xs stores acc
    using fold_items_resumes [OF assms, of label pipe k xs stores acc] by (auto simp: resumable_by_def)
  then show "resumable_by (\<lambda>(v, d, c). (v, c)) (\<lambda>_. run_fold_step r deps init do' ls max_items c label)"
    unfolding run_fold_step_def
    by (intro resumable_by_const [OF stateless_source] resumable_by_const [OF stateless_eval])
qed

end

subsection \<open>The dispatcher resumes\<close>

lemma dispatch_Suc_eqs:
  "dispatch (Suc n) deps (TransformStep t) c label = run_transform_step t c label"
  "dispatch (Suc n) deps (ToolStep u) c label = run_tool_step deps u c label"
  "dispatch (Suc n) deps (AgentStep a) c label = run_agent_step deps a c label"
  "dispatch (Suc n) deps (CallStep x) c label = run_call_step (dispatch n) deps x c label"
  "dispatch (Suc n) deps (MatchStep m) c label = run_match_step (dispatch n) deps m c label"
  "dispatch (Suc n) deps (FoldStep init do' out ls max_items) c label =
     run_fold_step (dispatch n) deps init do' ls max_items c label"
  by (intro ext, simp)+

lemma dispatch_resumes: "resumable_runner (dispatch n)"
proof (induction n)
  case 0
  have "resumable (dispatch 0 deps s c label)" for deps s c label
    by (simp add: resumable_def)
  then show ?case using dispatch_runner unfolding resumable_runner_def resumable_runner_axioms_def by blast
next
  case (Suc n)
  note prev = resumable_runner.call_resumes [OF Suc.IH] resumable_runner.match_resumes [OF Suc.IH]
    resumable_runner.fold_resumes [OF Suc.IH]
  have "resumable (dispatch (Suc n) deps s c label)" if "sequential s" "targets_sequential deps"
    for deps :: "'a run_deps" and s c label
    using that by (cases s)
      (simp_all add: dispatch_Suc_eqs transform_resumable tool_resumable agent_resumable prev)
  then show ?case
    using dispatch_runner unfolding resumable_runner_def resumable_runner_axioms_def by blast
qed

interpretation resuming: resumable_runner "dispatch n" for n
  by (rule dispatch_resumes)

subsection \<open>Whole runs\<close>

text \<open>A generation without its durability flag.\<close>

definition recorded :: "'w generation \<Rightarrow> snapshot \<times> 'w" where
  "recorded g = (gen_snapshot g, gen_world g)"

definition run_cut ::
  "snapshot \<Rightarrow> 'w \<Rightarrow> 'w generation list \<Rightarrow> snapshot \<Rightarrow> 'w \<Rightarrow> 'w generation list \<Rightarrow> bool" where
  "run_cut g w J g2 w2 J2 \<longleftrightarrow>
     (g2 = g \<and> w2 = w \<and> J2 = J) \<or> (\<exists>J1 x. J = J1 @ x # J2 \<and> recorded x = (g2, w2))"

definition framed :: "snapshot \<Rightarrow> 'w generation list \<Rightarrow> bool" where
  "framed g J \<longleftrightarrow> (\<forall>x\<in>set J. \<exists>y. distinct (dkeys y) \<and> gen_snapshot x = g\<lparr>completed_step_results := y\<rparr>)"

lemma framed_same:
  "framed g K \<Longrightarrow> framed g J \<Longrightarrow> map strip K = map strip J \<Longrightarrow> map recorded K = map recorded J"
proof (induction K arbitrary: J)
  case (Cons x K)
  then obtain y J' where J: "J = y # J'" "strip y = strip x" "map strip K = map strip J'" by (cases J) auto
  from Cons.prems obtain a b where "gen_snapshot x = g\<lparr>completed_step_results := a\<rparr>"
    "gen_snapshot y = g\<lparr>completed_step_results := b\<rparr>" by (auto simp: framed_def J)
  with J(2) have "recorded y = recorded x" by (simp add: strip_def recorded_def)
  with J Cons show ?case by (auto simp: framed_def)
qed simp

lemma run_cut_append:
  assumes "run_cut g w (A @ B) g2 w2 J2" and "framed g A" and "distinct (dkeys (completed_step_results g))"
  obtains (here) A2 where "cut (completed_step_results g) w A (completed_step_results g2) w2 A2" "J2 = A2 @ B"
      "g2 = g\<lparr>completed_step_results := completed_step_results g2\<rparr>" "framed g A2"
      "distinct (dkeys (completed_step_results g2))"
  | (there) J1 x where "B = J1 @ x # J2" "recorded x = (g2, w2)"
  using assms(1)
proof (cases "g2 = g \<and> w2 = w \<and> J2 = A @ B")
  case True
  then show ?thesis using assms(2,3) here [of A] by (simp add: cut_start)
next
  case False
  with assms(1) obtain J1 x where J: "A @ B = J1 @ x # J2" "recorded x = (g2, w2)" by (auto simp: run_cut_def)
  then consider U where "A = J1 @ x # U" "J2 = U @ B" | U where "B = U @ x # J2"
    by (auto simp: append_eq_append_conv2 append_eq_Cons_conv)
  then show ?thesis
  proof cases
    case 1
    then obtain y where y: "distinct (dkeys y)" "gen_snapshot x = g\<lparr>completed_step_results := y\<rparr>"
      using assms(2) by (auto simp: framed_def)
    with J(2) have "g2 = g\<lparr>completed_step_results := y\<rparr>" by (simp add: recorded_def)
    moreover have "cut (completed_step_results g) w A (completed_step_results g2) w2 U"
      using 1 J(2) unfolding cut_def by (intro disjI2 exI [of _ J1] exI [of _ x]) (simp add: strip_def recorded_def)
    ultimately show ?thesis using 1 y assms(2) here [of U] by (auto simp: framed_def)
  next
    case 2
    with J(2) there show ?thesis by blast
  qed
qed

lemma dispatch_trace:
  assumes "targets_ok deps" and "names_ok s" and "distinct (dkeys (completed_step_results g))" and "recorders st = []"
    and "dispatch n deps s c label (completed_step_results g) (begin_step deps n_steps s g st) = (out, st1)"
  obtains J where "journal st1 = journal st @ J" "framed g J" "recorders st1 = []"
    "\<And>v d x. out = Ret (v, d, x) \<Longrightarrow> distinct (dkeys x)"
proof -
  have cp: "coupled (recorders (begin_step deps n_steps s g st)) (completed_step_results g)"
    using assms(3,4) by simp
  from goodD [OF runs.runner [OF assms(2,1)] cp assms(5)] obtain c
    where a: "advances (spawn_cap deps) (below label) (begin_step deps n_steps s g st) (completed_step_results g) st1 c"
      and o: "\<And>x. out = Ret x \<Longrightarrow> (case x of (_, _, y) \<Rightarrow> y) = c" by metis
  have r1: "recorders st1 = []" using a assms(4) by (auto simp: advances_def recs_grow_def)
  then show ?thesis using that a o assms(4) by (auto simp: advances_def framed_def)
qed

lemma run_rest_resumes:
  assumes t: "targets_sequential deps" and q: "\<forall>s\<in>set ss. sequential s" and nc: "cancel_check deps = None"
  shows "rest = drop (step_index g) ss \<Longrightarrow> consistent ss init g \<Longrightarrow> recorders st = [] \<Longrightarrow>
    run_rest n deps (length ss) rest g st = (Ret fin, st') \<Longrightarrow> journal st' = journal st @ J \<Longrightarrow>
    run_cut g (world st) J g2 (world st2) J2 \<Longrightarrow> recorders st2 = [] \<Longrightarrow> spent st2 \<le> spent st \<Longrightarrow>
    \<exists>st2' K. run_rest n deps (length ss) (drop (step_index g2) ss) g2 st2 = (Ret fin, st2') \<and> world st2' = world st'
      \<and> spent st2' \<le> spent st' \<and> journal st2' = journal st2 @ K \<and> map recorded K = map recorded J2"
proof (induction rest arbitrary: g st J g2 st2 J2)
  case Nil
  then have "J = []" by (simp add: xret_def)
  with Nil have "g2 = g" "J2 = []" "world st2 = world st" by (auto simp: run_cut_def)
  with Nil show ?case by (auto simp: xret_def)
next
  case (Cons s rest)
  note names = targets_sequential_ok [OF t]
  have i: "step_index g < length ss" using Cons.prems(1) by (cases "step_index g < length ss") auto
  then have s: "s = ss ! step_index g" "rest = drop (Suc (step_index g)) ss"
    using Cons.prems(1) by (simp_all add: Cons_nth_drop_Suc [symmetric])
  have sq: "sequential s" using q i s(1) by simp
  let ?c = "completed_step_results g" and ?lab = "nat_str (step_index g)"
  let ?b = "begin_step deps (length ss) s g st"
  obtain v d c1 st1 where m: "dispatch n deps s (top_context g) ?lab ?c ?b = (Ret (v, d, c1), st1)"
    and rest: "run_rest n deps (length ss) rest (next_snapshot s g v c1) (end_step deps (length ss) s (next_snapshot s g v c1) d st1) = (Ret fin, st')"
    using Cons.prems(4) unfolding run_rest_Cons
    by (auto simp: cancelled_def nc split: prod.splits outcome.splits)
  let ?h = "next_snapshot s g v c1"
  let ?e = "end_step deps (length ss) s ?h d st1"
  have dc: "distinct (dkeys ?c)" using Cons.prems(2) by (simp add: consistent_def)
  from dispatch_trace [OF names sequential_names [OF sq] dc Cons.prems(3) m] obtain Jr where
    Jr: "journal st1 = journal st @ Jr" "framed g Jr" and r1: "recorders st1 = []" by metis
  from step_run_ok [OF names sequential_names [OF sq] Cons.prems(2,3) m] have
    gr: "grows (below ?lab) ?c c1" and dc1: "distinct (dkeys c1)" and sp1: "spent st \<le> spent st1"
    by (auto simp: run_ok_def)
  have h: "consistent ss init ?h"
    using consistent_step [OF Cons.prems(2) i gr dc1, of v] by (simp add: next_snapshot_def s(1) [symmetric])
  have hs: "rest = drop (step_index ?h) ss" using s(2) by (simp add: next_snapshot_def)
  define G where "G = (if state_log deps then [\<lparr>gen_snapshot = ?h, gen_durable = d, gen_world = world st1\<rparr>] else [])"
  have je: "journal ?e = journal st1 @ G" by (simp add: G_def)
  have re: "recorders ?e = []" using r1 by simp
  from run_steps_ok [OF names _ hs h re rest] q sequential_names obtain Jm where Jm: "journal st' = journal ?e @ Jm"
    by (auto simp: run_ok_def)
  have J: "J = Jr @ (G @ Jm)" using Cons.prems(5) Jr(1) je Jm by simp
  from Cons.prems(6) [unfolded J] Jr(2) dc show ?case
  proof (cases rule: run_cut_append)
    case (here A2)
    have i2: "step_index g2 = step_index g" "named_stores g2 = named_stores g" "pipe_data g2 = pipe_data g"
      by (simp_all add: here(3) [THEN arg_cong [where f = step_index]] here(3) [THEN arg_cong [where f = named_stores]]
        here(3) [THEN arg_cong [where f = pipe_data]])
    let ?b2 = "begin_step deps (length ss) s g2 st2"
    have k: "cut ?c (world ?b) Jr (completed_step_results g2) (world ?b2) A2" using here(1) by simp
    have jb: "journal st1 = journal ?b @ Jr" "recorders ?b = []" "recorders ?b2 = []" "spent ?b2 \<le> spent ?b"
      using Jr(1) Cons.prems(3,7,8) by simp_all
    from resumableD [OF resuming.resumes [OF sq t] dc jb(2) m jb(1) k jb(3,4)]
    obtain d2 st3 K1 where m2: "dispatch n deps s (top_context g2) ?lab (completed_step_results g2) ?b2 = (Ret (v, d2, c1), st3)"
      and r3: "recorders st3 = []" and w3: "world st3 = world st1" and s3: "spent st3 \<le> spent st1"
      and K1: "journal st3 = journal ?b2 @ K1" "map strip K1 = map strip A2"
      unfolding i2 by metis
    have n2: "next_snapshot s g2 v c1 = ?h" by (simp add: next_snapshot_def i2)
    let ?e3 = "end_step deps (length ss) s ?h d2 st3"
    have k3: "run_cut ?h (world ?e) Jm ?h (world ?e3) Jm" using w3 by (simp add: run_cut_def)
    have r4: "recorders ?e3 = []" "spent ?e3 \<le> spent ?e" using r3 s3 by simp_all
    from Cons.IH [OF hs h re rest Jm k3 r4] obtain st2' K where
      ih: "run_rest n deps (length ss) rest ?h ?e3 = (Ret fin, st2')" "world st2' = world st'"
        "spent st2' \<le> spent st'" "journal st2' = journal ?e3 @ K" "map recorded K = map recorded Jm"
      unfolding hs [symmetric] by blast
    have dr: "drop (step_index g2) ss = s # rest" using Cons.prems(1) i2(1) by simp
    from dispatch_trace [OF names sequential_names [OF sq] here(5) Cons.prems(7) m2] K1(1)
    have "framed g2 K1" by (metis begin_step_simps(3) same_append_eq)
    then have "framed g K1" using here(3) unfolding framed_def by (metis snapshot.update_convs(4) snapshot.surjective)
    from framed_same [OF this here(4) K1(2)] have K: "map recorded K1 = map recorded A2" .
    define G3 where "G3 = (if state_log deps then [\<lparr>gen_snapshot = ?h, gen_durable = d2, gen_world = world st3\<rparr>] else [])"
    have GG: "map recorded G3 = map recorded G" using w3 by (simp add: G_def G3_def recorded_def)
    have j3: "journal ?e3 = journal st2 @ K1 @ G3" using K1(1) by (simp add: G3_def)
    have "run_rest n deps (length ss) (drop (step_index g2) ss) g2 st2 = (Ret fin, st2')"
      unfolding dr run_rest_Cons using m2 ih(1) by (simp add: cancelled_def nc i2 n2)
    then show ?thesis using ih here(2) K GG j3 by (intro exI [of _ st2'] exI [of _ "K1 @ G3 @ K"]) simp
  next
    case (there J1 x)
    have "run_cut ?h (world ?e) Jm g2 (world st2) J2"
      using there by (cases J1) (auto simp: G_def run_cut_def recorded_def split: if_splits)
    moreover have "spent st2 \<le> spent ?e" using Cons.prems(8) sp1 by simp
    ultimately show ?thesis using Cons.IH [OF hs h re rest Jm _ Cons.prems(7)] by blast
  qed
qed


definition sequential_demo :: pipeline where
  "sequential_demo = \<lparr>
     steps = [
       AgentStep \<lparr>agent_prompt = ''go'', agent_identity = None, agent_capabilities = None, agent_schema = None,
         agent_model = None, agent_output = Some ''a''\<rparr>,
       FoldStep ''0'' (TransformStep \<lparr>tr_value = ''acc + item'', tr_output = None\<rparr>) ''sum''
         \<lparr>over = None, items = Some [VInt 1, VInt 2]\<rparr> None],
     description = [], pipe_name = ''q''\<rparr>"

definition sequential_run :: "snapshot outcome \<times> unit run_state" where
  "sequential_run = run_pipeline 3 quiet_deps None None sequential_demo None (start_state ())"

definition sequential_final :: snapshot where
  "sequential_final = (case fst sequential_run of Ret s \<Rightarrow> s | _ \<Rightarrow> fresh_snapshot None)"


end
