(* ===== verification/ExecFuel.thy ===== *)
theory ExecFuel
  imports ExecResume
begin

section \<open>Fuel and termination\<close>

text \<open>
  \<open>dispatch\<close> bounds the nesting of steps at run time.  More fuel never changes a result; a pipeline
  whose calls form no cycle has enough fuel from some point on; and a pipeline that calls itself
  has none, as the code has no guard on the call depth.
\<close>

subsection \<open>More fuel, the same result\<close>

definition approx :: "('w, 'a) exec \<Rightarrow> ('w, 'a) exec \<Rightarrow> bool" where
  "approx m m' \<longleftrightarrow> (\<forall>st. fst (m st) = Diverge \<or> m' st = m st)"

lemma approx_refl [simp]: "approx m m" by (simp add: approx_def)

lemma approx_diverge [simp]: "approx (\<lambda>st. (Diverge, st)) m" by (simp add: approx_def)

lemma approx_trans: "approx a b \<Longrightarrow> approx b c \<Longrightarrow> approx a c" by (metis approx_def)

lemma approxD: "approx m m' \<Longrightarrow> m st = (out, st') \<Longrightarrow> out \<noteq> Diverge \<Longrightarrow> m' st = (out, st')"
  by (metis approx_def fst_conv)

lemma approx_bind:
  assumes "approx m m'" and "\<And>x. approx (f x) (f' x)"
  shows "approx (xbind m f) (xbind m' f')"
  unfolding approx_def
proof
  fix st
  obtain out st1 where m: "m st = (out, st1)" by (metis surj_pair)
  show "fst (xbind m f st) = Diverge \<or> xbind m' f' st = xbind m f st"
  proof (cases out)
    case (Ret x)
    then show ?thesis using approxD [OF assms(1) m] assms(2) [of x] by (simp add: xbind_def m approx_def)
  next
    case (Raise e)
    then show ?thesis using approxD [OF assms(1) m] by (simp add: xbind_def m)
  qed (simp add: xbind_def m)
qed

lemma approx_bind_same: "(\<And>x. approx (f x) (f' x)) \<Longrightarrow> approx (xbind m f) (xbind m f')"
  by (rule approx_bind [OF approx_refl])

locale approximation =
  fixes r r' :: "'w dispatcher"
  assumes approximates: "approx (r deps s c label completed) (r' deps s c label completed)"
begin

lemma scope_approx:
  "approx (run_scope r deps scope j ss stores pipe completed d) (run_scope r' deps scope j ss stores pipe completed d)"
proof (induction ss arbitrary: j stores pipe completed d)
  case (Cons s ss)
  then show ?case
    by (auto simp: Let_def intro!: approx_bind approx_bind_same approximates split: option.split prod.split)
qed simp

lemma callee_approx:
  "approx (run_callee r deps callee es c label scope completed) (run_callee r' deps callee es c label scope completed)"
  unfolding run_callee_def by (intro approx_bind_same approx_bind scope_approx approx_refl)

lemma call_approx: "approx (run_call_step r deps s c label completed) (run_call_step r' deps s c label completed)"
  unfolding run_call_step_def by (intro approx_bind_same callee_approx)

lemma match_approx: "approx (run_match_step r deps s c label completed) (run_match_step r' deps s c label completed)"
  unfolding run_match_step_def
  by (auto intro!: approx_bind_same callee_approx split: option.split)

lemma fold_items_approx:
  "approx (fold_items r deps do' label pipe k xs stores acc completed d) (fold_items r' deps do' label pipe k xs stores acc completed d)"
proof (induction xs arbitrary: k stores acc completed d)
  case (Cons x xs)
  then show ?case
    by (auto simp: Let_def intro!: approx_bind approx_bind_same approximates split: option.split prod.split)
qed simp

lemma fold_approx:
  "approx (run_fold_step r deps init do' ls max_items c label completed) (run_fold_step r' deps init do' ls max_items c label completed)"
  unfolding run_fold_step_def by (intro approx_bind_same fold_items_approx)

lemma task_approx: "approx (fan_task n l r deps s c label b) (fan_task n l r' deps s c label b)"
proof (induction n arbitrary: l b)
  case (Suc n)
  show ?case
    unfolding approx_def
  proof
    fix st
    obtain out st1 where m: "r deps s c label b (push_recorder b label st) = (out, st1)" by (metis surj_pair)
    show "fst (fan_task (Suc n) l r deps s c label b st) = Diverge
        \<or> fan_task (Suc n) l r' deps s c label b st = fan_task (Suc n) l r deps s c label b st"
    proof (cases "out = Diverge")
      case False
      then have "r' deps s c label b (push_recorder b label st) = (out, st1)" using approxD [OF approximates m] by simp
      with m Suc.IH show ?thesis
        by (auto simp: Let_def approx_def split: outcome.split option.split prod.split)
    qed (simp add: m Let_def)
  qed
qed simp

lemma collect_approx:
  "approx (run_collect r deps child collect stores pipe key b d) (run_collect r' deps child collect stores pipe key b d)"
  unfolding run_collect_def by (intro approx_bind approximates approx_refl)

end

lemma loop_approx:
  assumes "\<And>i b. approx (task i b) (task' i b)"
  shows "approx (fan_loop task key_of ab oe deps acts pending queue b d) (fan_loop task' key_of ab oe deps acts pending queue b d)"
proof (induction acts arbitrary: pending queue b d)
  case (Cons act acts)
  show ?case
  proof (cases act)
    case (RunTask i)
    then show ?thesis using Cons.IH by (auto intro!: approx_bind assms split: prod.split)
  next
    case TakeResult
    show ?thesis
    proof (cases queue)
      case Nil
      then show ?thesis using TakeResult Cons.IH by simp
    next
      case (Cons x rest)
      then show ?thesis
        using TakeResult Cons.IH by (cases x; cases "snd x") (auto simp: Let_def intro!: approx_bind_same)
    qed
  qed
qed simp

context approximation
begin

lemma for_each_approx:
  "approx (run_for_each_step r deps do' collect on_err ls mp c label completed)
     (run_for_each_step r' deps do' collect on_err ls mp c label completed)"
  unfolding run_for_each_step_def Let_def
  by (auto intro!: approx_bind_same approx_bind loop_approx task_approx collect_approx split: option.split prod.split)

lemma parallel_approx:
  "approx (run_parallel_step r deps branches collect on_err c label completed)
     (run_parallel_step r' deps branches collect on_err c label completed)"
  unfolding run_parallel_step_def Let_def
  by (auto intro!: approx_bind_same approx_bind loop_approx task_approx collect_approx split: option.split prod.split)

end

lemma dispatch_fan_eqs:
  "dispatch (Suc n) deps (ForEachStep do' collect on_err ls mp out) c label =
     run_for_each_step (dispatch n) deps do' collect on_err ls mp c label"
  "dispatch (Suc n) deps (ParallelStep branches collect on_err out) c label =
     run_parallel_step (dispatch n) deps branches collect on_err c label"
  by (intro ext, simp)+

lemma dispatch_approximation: "approximation (dispatch n) (dispatch (Suc n))"
proof (induction n)
  case 0
  then show ?case by unfold_locales simp
next
  case (Suc n)
  note steps = approximation.call_approx [OF Suc.IH] approximation.match_approx [OF Suc.IH]
    approximation.fold_approx [OF Suc.IH] approximation.for_each_approx [OF Suc.IH] approximation.parallel_approx [OF Suc.IH]
  show ?case
  proof
    fix deps :: "'a run_deps" and s c label completed
    show "approx (dispatch (Suc n) deps s c label completed) (dispatch (Suc (Suc n)) deps s c label completed)"
      by (cases s) (simp_all only: dispatch_Suc_eqs dispatch_fan_eqs steps approx_refl)
  qed
qed

interpretation more_fuel: approximation "dispatch n" "dispatch (Suc n)" for n
  by (rule dispatch_approximation)

lemma run_steps_approx:
  "approx (run_steps n deps N i ss named pipe completed) (run_steps (Suc n) deps N i ss named pipe completed)"
proof (induction ss arbitrary: i named pipe completed)
  case (Cons s ss)
  then show ?case
    by (auto simp: Let_def simp del: dispatch.simps intro!: approx_bind approx_bind_same more_fuel.approximates split: prod.split)
qed simp

lemma run_pipeline_approx:
  "approx (run_pipeline n deps md ms p ic) (run_pipeline (n + k) deps md ms p ic)"
proof (induction k)
  case (Suc k)
  have "approx (run_pipeline (n + k) deps md ms p ic) (run_pipeline (Suc (n + k)) deps md ms p ic)"
    using run_steps_approx unfolding approx_def run_pipeline_def run_from_def by blast
  with approx_trans [OF Suc.IH] show ?case by simp
qed simp

text \<open>The fuel of the dispatcher is not part of what a pipeline computes: once a run ends, with a
  result or an exception, every run with more fuel ends in the same way and in the same state.\<close>

theorem fuel_irrelevant:
  assumes "run_pipeline n deps max_depth max_spawns p ic st = (out, st')" and "out \<noteq> Diverge" and "n \<le> m"
  shows "run_pipeline m deps max_depth max_spawns p ic st = (out, st')"
  using approxD [OF run_pipeline_approx assms(1,2), of "m - n"] assms(3) by simp

theorem fuel_irrelevant_witness:
  "run_pipeline 10 quiet_deps None (Some 1) demo_pipeline None (start_state ()) = demo_run"
proof -
  have "fst demo_run \<noteq> Diverge" by code_simp
  then show ?thesis
    using fuel_irrelevant [of 3 quiet_deps None "Some 1" demo_pipeline None "start_state ()" "fst demo_run" "snd demo_run" 10]
    by (simp add: demo_run_def)
qed


subsection \<open>Enough fuel\<close>

definition ends :: "('w, 'a) exec \<Rightarrow> bool" where
  "ends m \<longleftrightarrow> (\<forall>st. fst (m st) \<noteq> Diverge)"

lemma ends_simps [simp]: "ends (xret x)" "ends (xraise e)" "ends (fail why)" "ends (xlift f a)"
  "ends (record_completed deps b d)" "ends (emit deps ev)" "ends (consume_spawn deps label)" "ends (call_tool deps name args)"
  by (simp_all add: ends_def xret_def xraise_def fail_def xlift_def record_completed_def emit_def consume_spawn_def call_tool_def
      split: sum.split prod.split)

lemma ends_bind:
  assumes "ends m" and "\<And>x st st'. m st = (Ret x, st') \<Longrightarrow> ends (f x)"
  shows "ends (xbind m f)"
  unfolding ends_def
proof
  fix st
  obtain out st1 where m: "m st = (out, st1)" by (metis surj_pair)
  then show "fst (xbind m f st) \<noteq> Diverge"
    using assms(1) assms(2) [of st _ st1] by (cases out) (auto simp: xbind_def ends_def dest: spec [of _ st])
qed

lemma ends_const: "stateless m \<Longrightarrow> ends m \<Longrightarrow> (\<And>x. ends (f x)) \<Longrightarrow> ends (xbind m f)"
  by (rule ends_bind)

lemma ends_eval [simp]: "ends (eval_wrapped w e c)" "ends (eval_wrapped_both w2 e c)"
  by (simp_all add: eval_wrapped_def eval_wrapped_both_def split: sum.split expr_exc.split parse_exc.split)

lemma ends_render [simp]: "ends (render_prompt ps c)"
  by (induction ps c rule: render_prompt.induct) (auto intro!: ends_bind)

lemma ends_pass [simp]: "ends (eval_pass_entries es c label resolved)"
  by (induction es c label resolved rule: eval_pass_entries.induct) (auto intro!: ends_bind)

lemma ends_source [simp]: "ends (resolve_list_source ls c label knd)"
  unfolding resolve_list_source_def by (auto intro!: ends_bind split: option.split pyval.split)

lemma ends_find [simp]: "ends (find_callee deps label name)"
  by (simp add: find_callee_def split: option.split sum.split)

lemma ends_once: "ends (dispatch_tool_step_once deps s c label completed)"
  unfolding dispatch_tool_step_once_def resolve_args_def verify_schema_def ctx_fields_def emit_reason_def Let_def
  by (auto intro!: ends_bind split: prod.splits option.splits pyval.splits)

lemma ends_attempts [simp]: "ends (tool_attempts n l deps s c label completed)"
proof (induction n arbitrary: l)
  case (Suc n)
  show ?case
    unfolding ends_def
  proof
    fix st
    obtain out st1 where m: "dispatch_tool_step_once deps s c label completed st = (out, st1)" by (metis surj_pair)
    then have "out \<noteq> Diverge" using ends_once unfolding ends_def by (metis fst_conv)
    with m Suc show "fst (tool_attempts (Suc n) l deps s c label completed st) \<noteq> Diverge"
      by (auto simp: ends_def split: outcome.split prod.split)
  qed
qed simp

lemma ends_tool [simp]: "ends (run_tool_step deps s c label completed)"
  unfolding run_tool_step_def tool_give_up_def
  by (auto intro!: ends_bind ends_once split: option.split sum.split attempt_failure.split)

lemma ends_agent [simp]: "ends (run_agent_step deps s c label completed)"
proof (cases rule: agent_step_cases [of deps s c label])
  case (spawns run identity)
  have "ends (call_agent run s identity c label completed)"
    unfolding call_agent_def interpolate_prompt_def
    by (intro ends_bind ends_render) (auto simp: ends_def split: prod.splits sum.splits agent_exc.splits)
  then show ?thesis unfolding spawns by (intro ends_bind) simp_all
qed simp

text \<open>\<open>ends_on r R s\<close>: the dispatcher \<open>r\<close> ends on the step \<open>s\<close>, given the pipeline registry \<open>R\<close>.\<close>

definition ends_on :: "'w dispatcher \<Rightarrow> schemas pipeline_registry option \<Rightarrow> step \<Rightarrow> bool" where
  "ends_on r R s \<longleftrightarrow> (\<forall>deps c label completed. pipeline_registry deps = R \<longrightarrow> ends (r deps s c label completed))"

lemma ends_onD: "ends_on r (pipeline_registry deps) s \<Longrightarrow> ends (r deps s c label completed)"
  by (simp add: ends_on_def)

lemma ends_scope:
  "\<forall>s\<in>set ss. ends_on r (pipeline_registry deps) s \<Longrightarrow> ends (run_scope r deps scope j ss stores pipe completed d)"
proof (induction ss arbitrary: j stores pipe completed d)
  case (Cons s ss)
  then show ?case by (auto simp: Let_def intro!: ends_bind ends_onD [where r = r] split: option.split prod.split)
qed simp

lemma ends_callee:
  "\<forall>s\<in>set (steps p). ends_on r (pipeline_registry deps) s \<Longrightarrow> ends (run_callee r deps p es c label scope completed)"
  unfolding run_callee_def by (auto intro!: ends_bind ends_scope split: prod.split)

definition callee_ends :: "'w dispatcher \<Rightarrow> schemas pipeline_registry option \<Rightarrow> string \<Rightarrow> bool" where
  "callee_ends r R name \<longleftrightarrow>
     (\<forall>reg p. R = Some reg \<longrightarrow> get_pipeline reg name = Inr p \<longrightarrow> (\<forall>s\<in>set (steps p). ends_on r R s))"

lemma ends_found:
  "callee_ends r (pipeline_registry deps) name \<Longrightarrow>
     ends (xbind (find_callee deps label name) (\<lambda>p. run_callee r deps p es c label scope completed))"
  by (intro ends_bind ends_find ends_callee)
    (auto simp: callee_ends_def find_callee_def exec_simps split: option.splits sum.splits)

lemma ends_call: "callee_ends r R (call_pipeline s) \<Longrightarrow> pipeline_registry deps = R \<Longrightarrow> ends (run_call_step r deps s c label completed)"
  unfolding run_call_step_def by (auto intro!: ends_found)

definition match_targets :: "match_step \<Rightarrow> string list" where
  "match_targets s = map (\<lambda>(_, k). case_pipeline k) (match_cases s)
     @ (case match_default s of None \<Rightarrow> [] | Some k \<Rightarrow> [case_pipeline k])"

lemma ends_match:
  assumes "\<forall>t\<in>set (match_targets s). callee_ends r (pipeline_registry deps) t"
  shows "ends (run_match_step r deps s c label completed)"
  unfolding run_match_step_def
proof (intro ends_bind ends_eval)
  fix raw
  let ?k = "case dget (match_cases s) (py_str raw) of Some k \<Rightarrow> Some k | None \<Rightarrow> match_default s"
  show "ends (case ?k of None \<Rightarrow> fail (NoMatchingCase label (py_str raw))
      | Some k \<Rightarrow> xbind (find_callee deps label (case_pipeline k)) (\<lambda>callee.
          run_callee r deps callee (case_pass k) c label (label @ ''.match'') completed))"
  proof (cases ?k)
    case (Some k)
    then have "case_pipeline k \<in> set (match_targets s)"
      by (force simp: match_targets_def dest: dget_mem split: option.splits)
    then show ?thesis unfolding Some option.case using assms by (intro ends_found) blast
  qed simp
qed

lemma ends_fold_items:
  "ends_on r (pipeline_registry deps) do' \<Longrightarrow> ends (fold_items r deps do' label pipe k xs stores acc completed d)"
proof (induction xs arbitrary: k stores acc completed d)
  case (Cons x xs)
  then show ?case by (auto simp: Let_def intro!: ends_bind ends_onD [where r = r] split: option.split prod.split)
qed simp

lemma ends_fold: "ends_on r (pipeline_registry deps) do' \<Longrightarrow> ends (run_fold_step r deps init do' ls mx c label completed)"
  unfolding run_fold_step_def by (intro ends_bind ends_fold_items) simp_all

lemma ends_task: "ends_on r (pipeline_registry deps) s \<Longrightarrow> ends (fan_task n l r deps s c label b)"
proof (induction n arbitrary: l b)
  case (Suc n)
  show ?case
    unfolding ends_def
  proof
    fix st
    obtain out st1 where m: "r deps s c label b (push_recorder b label st) = (out, st1)" by (metis surj_pair)
    with ends_onD [OF Suc.prems] have "out \<noteq> Diverge" unfolding ends_def by (metis fst_conv)
    with m Suc show "fst (fan_task (Suc n) l r deps s c label b st) \<noteq> Diverge"
      by (auto simp: ends_def Let_def split: outcome.split option.split prod.split)
  qed
qed simp

lemma ends_loop:
  "\<forall>i\<in>set pending. \<forall>b. ends (task i b) \<Longrightarrow> ends (fan_loop task key_of ab oe deps acts pending queue b d)"
proof (induction acts arbitrary: pending queue b d)
  case (Cons act acts)
  show ?case
  proof (cases act)
    case (RunTask i)
    then show ?thesis using Cons by (auto intro!: ends_bind split: prod.split)
  next
    case TakeResult
    note IH = Cons.IH [of _ _ _ _, OF Cons.prems]
    show ?thesis
    proof (cases queue)
      case Nil
      then show ?thesis using TakeResult IH by simp
    next
      case (Cons x rest)
      then show ?thesis
        using TakeResult IH by (cases x; cases "snd x") (auto simp: Let_def intro!: ends_bind)
    qed
  qed
qed simp

lemma ends_enter [simp]: "ends (enter_fan_out deps label knd)"
  by (simp add: enter_fan_out_def Let_def)

lemma enter_registry: "enter_fan_out deps label knd st = (Ret child, st') \<Longrightarrow> pipeline_registry child = pipeline_registry deps"
  by (auto simp: enter_fan_out_def Let_def exec_simps split: if_splits)

lemma ends_collect:
  "ends_on r (pipeline_registry child) collect \<Longrightarrow> ends (run_collect r deps child collect stores pipe key b d)"
  unfolding run_collect_def by (auto simp: Let_def intro!: ends_bind ends_onD [where r = r] split: prod.split)

lemma ends_for_each:
  assumes "ends_on r (pipeline_registry deps) do'" and "ends_on r (pipeline_registry deps) collect"
  shows "ends (run_for_each_step r deps do' collect on_err ls mp c label completed)"
  unfolding run_for_each_step_def Let_def
  using assms
  by (auto intro!: ends_bind ends_loop ends_task ends_collect simp: enter_registry split: option.split prod.split)


lemma ends_parallel:
  assumes "\<forall>s\<in>set (map snd branches). ends_on r (pipeline_registry deps) s" and "ends_on r (pipeline_registry deps) collect"
  shows "ends (run_parallel_step r deps branches collect on_err c label completed)"
proof -
  have "ends_on r (pipeline_registry deps) (snd (branches ! i))" if "i < length branches" for i
    using assms(1) that by auto
  then show ?thesis
    using assms(2) unfolding run_parallel_step_def Let_def
    by (auto intro!: ends_bind ends_loop ends_task ends_collect simp: enter_registry split: option.split prod.split)
qed

subsection \<open>Acyclic calls\<close>

fun calls_of :: "step \<Rightarrow> string list" where
  "calls_of (CallStep s) = [call_pipeline s]"
| "calls_of (MatchStep s) = match_targets s"
| "calls_of (FoldStep _ do' _ _ _) = calls_of do'"
| "calls_of (ForEachStep do' collect _ _ _ _) = calls_of do' @ calls_of collect"
| "calls_of (ParallelStep branches collect _ _) = concat (map (\<lambda>b. calls_of (snd b)) branches) @ calls_of collect"
| "calls_of _ = []"

text \<open>\<open>settles R s\<close>: some fuel is enough for the step \<open>s\<close>.\<close>

definition settles :: "'w itself \<Rightarrow> schemas pipeline_registry option \<Rightarrow> nat \<Rightarrow> step \<Rightarrow> bool" where
  "settles ty R n s \<longleftrightarrow> ends_on (dispatch n :: 'w dispatcher) R s"

lemma settles_more: "settles ty R n s \<Longrightarrow> n \<le> m \<Longrightarrow> settles ty R m s"
proof (induction m)
  case (Suc m)
  have "ends (dispatch (Suc m) deps s c label completed)" if "ends (dispatch m deps s c label completed)"
    for deps :: "'a run_deps" and c label completed
    using that more_fuel.approximates unfolding ends_def approx_def by metis
  with Suc show ?case by (cases "n = Suc m") (auto simp: settles_def ends_on_def)
qed simp

lemma settles_all: "\<forall>s\<in>set ss. \<exists>n. settles ty R n s \<Longrightarrow> \<exists>n. \<forall>s\<in>set ss. settles ty R n s"
proof (induction ss)
  case (Cons s ss)
  then obtain n m where "settles ty R n s" "\<forall>s\<in>set ss. settles ty R m s" by auto
  then have "\<forall>s\<in>set (s # ss). settles ty R (max n m) s" by (auto intro: settles_more)
  then show ?case ..
qed simp

lemma settles_I:
  "(\<And>(deps :: 'w run_deps) c label completed. pipeline_registry deps = R \<Longrightarrow> ends (dispatch (Suc n) deps s c label completed))
    \<Longrightarrow> \<exists>n. settles TYPE('w) R n s"
  unfolding settles_def ends_on_def by blast

definition callee_settles :: "'w itself \<Rightarrow> schemas pipeline_registry option \<Rightarrow> string \<Rightarrow> bool" where
  "callee_settles ty R name \<longleftrightarrow>
     (\<forall>reg p. R = Some reg \<longrightarrow> get_pipeline reg name = Inr p \<longrightarrow> (\<forall>s\<in>set (steps p). \<exists>n. settles ty R n s))"

lemma callee_fuel:
  fixes ty :: "'w itself"
  assumes "callee_settles ty R name"
  obtains n where "\<And>m. n \<le> m \<Longrightarrow> callee_ends (dispatch m :: 'w dispatcher) R name"
proof (cases "\<exists>reg p. R = Some reg \<and> get_pipeline reg name = Inr p")
  case True
  then obtain reg p where p: "R = Some reg" "get_pipeline reg name = Inr p" by blast
  with assms have "\<forall>s\<in>set (steps p). \<exists>n. settles ty R n s" by (simp add: callee_settles_def)
  from settles_all [OF this] obtain n where n: "\<forall>s\<in>set (steps p). settles ty R n s" ..
  have "callee_ends (dispatch m :: 'w dispatcher) R name" if "n \<le> m" for m
    using n settles_more [OF _ that] p unfolding callee_ends_def settles_def by fastforce
  then show ?thesis using that by blast
next
  case False
  then show ?thesis using that [of 0] by (auto simp: callee_ends_def)
qed

lemma callees_fuel:
  fixes ty :: "'w itself"
  assumes "\<forall>t\<in>set ts. callee_settles ty R t"
  obtains n where "\<forall>t\<in>set ts. callee_ends (dispatch n :: 'w dispatcher) R t"
proof -
  have "\<exists>n. \<forall>m\<ge>n. \<forall>t\<in>set ts. callee_ends (dispatch m :: 'w dispatcher) R t"
    using assms
  proof (induction ts)
    case (Cons t ts)
    then obtain n where n: "\<forall>m\<ge>n. \<forall>t\<in>set ts. callee_ends (dispatch m :: 'w dispatcher) R t" by auto
    from Cons.prems obtain k where k: "\<And>m. k \<le> m \<Longrightarrow> callee_ends (dispatch m :: 'w dispatcher) R t"
      using callee_fuel by (metis list.set_intros(1))
    from n k have "\<forall>m\<ge>max n k. \<forall>t\<in>set (t # ts). callee_ends (dispatch m :: 'w dispatcher) R t" by simp
    then show ?case ..
  qed simp
  then show ?thesis using that by blast
qed

lemma step_settles:
  "\<forall>t\<in>set (calls_of s). callee_settles TYPE('w) R t \<Longrightarrow> \<exists>n. settles TYPE('w) R n s"
proof (induction s)
  case (TransformStep t)
  show ?case by (rule settles_I [where n = 0]) (simp add: run_transform_step_def ends_bind)
next
  case (CallStep x)
  then obtain n where "callee_ends (dispatch n :: 'w dispatcher) R (call_pipeline x)"
    using callees_fuel [of "[call_pipeline x]"] by auto
  then show ?case by (intro settles_I [where n = n]) (simp add: ends_call)
next
  case (MatchStep x)
  then obtain n where "\<forall>t\<in>set (match_targets x). callee_ends (dispatch n :: 'w dispatcher) R t"
    using callees_fuel [of "match_targets x" "TYPE('w)" R] by auto
  then show ?case by (intro settles_I [where n = n]) (simp add: ends_match)
next
  case (FoldStep init do' out ls mx)
  then obtain n where "settles TYPE('w) R n do'" by auto
  then show ?case by (intro settles_I [where n = n]) (simp add: ends_fold settles_def)
next
  case (ForEachStep do' collect oe ls mp out)
  then have "\<forall>s\<in>set [do', collect]. \<exists>n. settles TYPE('w) R n s" by simp
  from settles_all [OF this] obtain n where "settles TYPE('w) R n do'" "settles TYPE('w) R n collect" by auto
  then show ?case by (intro settles_I [where n = n]) (simp add: ends_for_each settles_def)
next
  case (ParallelStep branches collect oe out)
  then have "\<forall>s\<in>set (collect # map snd branches). \<exists>n. settles TYPE('w) R n s" by fastforce
  from settles_all [OF this] obtain n where "\<forall>s\<in>set (map snd branches). settles TYPE('w) R n s" "settles TYPE('w) R n collect" by auto
  then show ?case by (intro settles_I [where n = n]) (simp add: ends_parallel settles_def)
qed (intro settles_I [where n = 0], simp)+

definition call_graph :: "'w run_deps \<Rightarrow> (string \<times> string) set" where
  "call_graph deps = {(callee, caller). \<exists>reg p s. pipeline_registry deps = Some reg \<and> get_pipeline reg caller = Inr p
     \<and> s \<in> set (steps p) \<and> callee \<in> set (calls_of s)}"

lemma registered_settle:
  assumes "wf (call_graph (deps :: 'w run_deps))"
  shows "callee_settles TYPE('w) (pipeline_registry deps) name"
  using assms
proof (induction name rule: wf_induct_rule)
  case (less name)
  show ?case
    unfolding callee_settles_def
  proof (intro allI impI ballI)
    fix reg p s assume p: "pipeline_registry deps = Some reg" "get_pipeline reg name = Inr p" "s \<in> set (steps p)"
    then have "(t, name) \<in> call_graph deps" if "t \<in> set (calls_of s)" for t
      using that by (auto simp: call_graph_def)
    with less show "\<exists>n. settles TYPE('w) (pipeline_registry deps) n s" by (intro step_settles) auto
  qed
qed

lemma finite_call_graph: "finite (call_graph deps)"
proof (cases "pipeline_registry deps")
  case None
  then show ?thesis by (simp add: call_graph_def)
next
  case (Some reg)
  have "call_graph deps \<subseteq> (\<Union>(name, p)\<in>set (pipelines reg). \<Union>s\<in>set (steps p). (\<lambda>t. (t, name)) ` set (calls_of s))"
    by (force simp: call_graph_def Some get_pipeline_def dest: dget_mem split: option.splits)
  then show ?thesis by (rule finite_subset) auto
qed

lemma ends_steps:
  assumes "\<forall>s\<in>set ss. ends_on (dispatch n :: 'w dispatcher) (pipeline_registry deps) s"
  shows "ends (run_steps n (deps :: 'w run_deps) N i ss named pipe completed)"
  using assms
proof (induction ss arbitrary: i named pipe completed)
  case (Cons s ss)
  have "ends (poll_cancel deps i)" "ends (freeze_frame g)" "ends (record_snapshot deps g d)" for i g d
    by (auto simp: ends_def poll_cancel_def freeze_frame_def record_snapshot_def split: option.split)
  with Cons show ?case
    by (auto simp: Let_def simp del: dispatch.simps intro!: ends_bind ends_onD [where r = "dispatch n"] split: prod.split)
qed simp

text \<open>C28: A pipeline whose call graph has no cycle terminates: some nesting depth is enough for every
  start state, whatever the tools and sessions do, and it is the same for runs and resumed runs.\<close>

theorem acyclic_calls_end:
  assumes "acyclic (call_graph (deps :: 'w run_deps))"
  shows "\<exists>n. \<forall>start st. fst (run_from n deps max_depth max_spawns p start st) \<noteq> Diverge"
proof -
  have "wf (call_graph deps)" using finite_acyclic_wf [OF finite_call_graph assms] .
  then have "callee_settles TYPE('w) (pipeline_registry deps) t" for t by (rule registered_settle)
  then have "\<forall>s\<in>set (steps p). \<exists>n. settles TYPE('w) (pipeline_registry deps) n s" by (intro ballI step_settles) blast
  from settles_all [OF this] obtain n where n: "\<forall>s\<in>set (steps p). settles TYPE('w) (pipeline_registry deps) n s" ..
  have "ends (run_from n deps max_depth max_spawns p start)" for start
  proof -
    let ?deps = "deps\<lparr>fan_out_depth := 0,
          max_fan_out_depth := (case max_depth of None \<Rightarrow> DEFAULT_MAX_FAN_OUT_DEPTH | Some m \<Rightarrow> m),
          spawn_cap := (case max_spawns of None \<Rightarrow> DEFAULT_MAX_PIPELINE_SPAWNS | Some m \<Rightarrow> m)\<rparr>"
    have "ends (run_steps n ?deps (length (steps p)) (step_index start) (drop (step_index start) (steps p))
       (named_stores start) (pipe_data start) (completed_step_results start))"
      using n set_drop_subset by (intro ends_steps) (fastforce simp: settles_def)
    then show ?thesis unfolding ends_def run_from_def by blast
  qed
  then show ?thesis unfolding ends_def by blast
qed

definition call_step :: "string \<Rightarrow> step" where
  "call_step name = CallStep \<lparr>call_pipeline = name, call_pass = [], call_output = None\<rparr>"

definition two_pipelines :: "schemas pipeline_registry" where
  "two_pipelines = \<lparr>pipelines = [
       (''leaf'', \<lparr>steps = [TransformStep \<lparr>tr_value = ''1'', tr_output = None\<rparr>], description = [], pipe_name = ''leaf''\<rparr>),
       (''top'', \<lparr>steps = [call_step ''leaf''], description = [], pipe_name = ''top''\<rparr>)],
     schema_registries = []\<rparr>"

theorem acyclic_calls_end_witness:
  "\<exists>n. \<forall>start st. fst (run_from n (quiet_deps\<lparr>pipeline_registry := Some two_pipelines\<rparr>) None None
     \<lparr>steps = [call_step ''top''], description = [], pipe_name = []\<rparr> start st) \<noteq> Diverge"
proof -
  have "call_graph (quiet_deps\<lparr>pipeline_registry := Some two_pipelines\<rparr>) = {(''leaf'', ''top'')}"
    by (auto simp: call_graph_def two_pipelines_def get_pipeline_def call_step_def split: if_splits)
  moreover have "acyclic {(''leaf'', ''top'')}" by (simp add: acyclic_def trancl_insert)
  ultimately show ?thesis using acyclic_calls_end by metis
qed

subsection \<open>A pipeline that calls itself\<close>

definition self_caller :: pipeline where
  "self_caller = \<lparr>steps = [call_step ''loop''], description = [], pipe_name = ''loop''\<rparr>"

definition loop_deps :: "unit run_deps" where
  "loop_deps = quiet_deps\<lparr>pipeline_registry := Some \<lparr>pipelines = [(''loop'', self_caller)], schema_registries = []\<rparr>\<rparr>"

lemma self_call_diverges:
  "pipeline_registry deps = pipeline_registry loop_deps \<Longrightarrow> (\<And>k. dget completed (scope @ k) = None) \<Longrightarrow>
    fst (dispatch n deps (call_step ''loop'') c scope completed st) = Diverge"
proof (induction n arbitrary: c scope st)
  case (Suc n)
  let ?key = "(scope @ ''.call'') @ ''.'' @ nat_str 0" and ?c = "\<lparr>ctx_stores = [], ctx_pipe = ctx_pipe c, ctx_loop = []\<rparr>"
  have n: "dget completed ?key = None" using Suc.prems(2) [of "''.call'' @ ''.'' @ nat_str 0"] by simp
  have "fst (dispatch n deps (call_step ''loop'') ?c ?key completed st) = Diverge"
    using Suc.prems(2) by (intro Suc.IH [OF Suc.prems(1)]) simp
  then obtain st' where "dispatch n deps (call_step ''loop'') ?c ?key completed st = (Diverge, st')" by (metis prod.collapse)
  with n Suc.prems(1) show ?case
    by (simp add: call_step_def run_call_step_def find_callee_def loop_deps_def get_pipeline_def run_callee_def self_caller_def Let_def xbind_def xret_def)
qed simp


end
