(* ===== verification/ExecLimits.thy ===== *)
theory ExecLimits
  imports ExecFuel
begin

section \<open>What recovery does not restore, and how failures are handled\<close>

text \<open>
  Two shapes of pipelines for which a resumed run of \<open>src/reyn/core/pipeline/executor.py\<close> differs
  from the uninterrupted one, and what a tool step does with its \<open>on_error\<close> policy.
\<close>

subsection \<open>A fold whose do binds an output\<close>

text \<open>
  The loop-local store of a fold is rebuilt from the step's context on resume, and a replayed
  iteration does not bind its output.
\<close>

definition fold_demo :: pipeline where
  "fold_demo = \<lparr>
     steps = [FoldStep ''0'' (TransformStep \<lparr>tr_value = ''get(ctx, \"x\", 0) + item'', tr_output = Some ''x''\<rparr>) ''sum''
         \<lparr>over = None, items = Some [VInt 1, VInt 2]\<rparr> None],
     description = [], pipe_name = ''f''\<rparr>"

definition final_value :: "snapshot outcome \<Rightarrow> pyval option" where
  "final_value out = (case out of Ret s \<Rightarrow> Some (pipe_data s) | _ \<Rightarrow> None)"

definition live_run :: "pipeline \<Rightarrow> snapshot outcome \<times> unit run_state" where
  "live_run p = run_pipeline 3 quiet_deps None None p None (start_state ())"

definition rerun_from :: "pipeline \<Rightarrow> nat \<Rightarrow> snapshot outcome \<times> unit run_state" where
  "rerun_from p i = resume_pipeline 3 quiet_deps None None p
     (Some (gen_snapshot (journal (snd (live_run p)) ! i))) (start_state ())"

definition collect_demo :: pipeline where
  "collect_demo = \<lparr>
     steps = [ParallelStep
         [(''collect'', TransformStep \<lparr>tr_value = ''1'', tr_output = None\<rparr>),
          (''other'', TransformStep \<lparr>tr_value = ''2'', tr_output = None\<rparr>)]
         (TransformStep \<lparr>tr_value = ''pipe'', tr_output = None\<rparr>) ''abort'' (Some ''r'')],
     description = [], pipe_name = ''c''\<rparr>"

text \<open>A fold whose \<open>do\<close> binds an output is not resumed faithfully: crashing after the first
  iteration and resuming gives a different result than running through, because a replayed
  iteration does not bind its output again.\<close>

theorem fold_output_lost:
  "final_value (fst (live_run fold_demo)) = Some (VInt 3) \<and> final_value (fst (rerun_from fold_demo 0)) = Some (VInt 2)"
  by code_simp

subsection \<open>A branch named collect\<close>

text \<open>A parallel branch named \<open>collect\<close> is recorded under the key of the fan-out's own collect
  step: after a crash just behind that branch, the resumed run takes the branch's result for the
  result of the whole step and never runs the other branch or the collect step.\<close>

theorem collect_branch_collision:
  "final_value (fst (live_run collect_demo)) = Some (VDict [(''collect'', VInt 1), (''other'', VInt 2)])
    \<and> final_value (fst (rerun_from collect_demo 0)) = Some (VInt 1)"
  by code_simp

subsection \<open>Tool error policies\<close>

definition failed_once ::
  "'w run_deps \<Rightarrow> tool_step \<Rightarrow> step_context \<Rightarrow> string \<Rightarrow> pyval dict \<Rightarrow> 'w run_state \<Rightarrow> 'w run_state \<Rightarrow> attempt_failure \<Rightarrow> bool" where
  "failed_once deps s c label completed st st' f \<longleftrightarrow>
     (case dispatch_tool_step_once deps s c label completed st of
        (Raise e, st1) \<Rightarrow> st' = st1 \<and> f = RaisedFailure e
      | (Ret (v, _, _), st1) \<Rightarrow> tool_step_canonical_error (ToolStep s) v \<noteq> None \<and> st' = st1 \<and> f = ErrorResult v
      | (Diverge, _) \<Rightarrow> False)"

text \<open>\<open>failed_times k\<close>: \<open>k\<close> attempts in a row fail, each in the state the one before left; \<open>f\<close> is the last failure.\<close>

fun failed_times ::
  "nat \<Rightarrow> 'w run_deps \<Rightarrow> tool_step \<Rightarrow> step_context \<Rightarrow> string \<Rightarrow> pyval dict \<Rightarrow> 'w run_state \<Rightarrow> 'w run_state \<Rightarrow> attempt_failure \<Rightarrow> attempt_failure \<Rightarrow> bool" where
  "failed_times 0 deps s c label completed st st' l f \<longleftrightarrow> st' = st \<and> f = l"
| "failed_times (Suc k) deps s c label completed st st' l f \<longleftrightarrow>
     (\<exists>st1 g. failed_once deps s c label completed st st1 g \<and> failed_times k deps s c label completed st1 st' g f)"

definition clean_after ::
  "nat \<Rightarrow> 'w run_deps \<Rightarrow> tool_step \<Rightarrow> step_context \<Rightarrow> string \<Rightarrow> pyval dict \<Rightarrow> 'w run_state \<Rightarrow> 'w run_state \<Rightarrow> step_result \<Rightarrow> attempt_failure \<Rightarrow> bool" where
  "clean_after k deps s c label completed st st' res l \<longleftrightarrow>
     (\<exists>st1 f. failed_times k deps s c label completed st st1 l f
        \<and> dispatch_tool_step_once deps s c label completed st1 = (Ret res, st')
        \<and> tool_step_canonical_error (ToolStep s) (fst res) = None)"

lemma clean_after_Suc:
  "failed_once deps s c label completed st st1 g \<Longrightarrow> clean_after k deps s c label completed st1 st' res g
    \<Longrightarrow> clean_after (Suc k) deps s c label completed st st' res l"
  unfolding clean_after_def by auto

lemma attempts_policy:
  "tool_attempts n l deps s c label completed st = (out, st') \<Longrightarrow>
   (\<exists>res. out = Ret (Inr res) \<and> (\<exists>k<n. clean_after k deps s c label completed st st' res l))
   \<or> (\<exists>f. out = Ret (Inl f) \<and> failed_times n deps s c label completed st st' l f)"
proof (induction n arbitrary: l st)
  case 0
  then show ?case by (simp add: xret_def)
next
  case (Suc n)
  let ?once = "dispatch_tool_step_once deps s c label completed"
  obtain o1 st1 where m: "?once st = (o1, st1)" by (metis surj_pair)
  have shift: ?case
    if f: "failed_once deps s c label completed st st1 g" and t: "tool_attempts n g deps s c label completed st1 = (out, st')" for g
    using Suc.IH [OF t] clean_after_Suc [OF f] f by (auto 0 3)
  show ?case
  proof (cases o1)
    case (Ret res)
    obtain v d x where res: "res = (v, d, x)" by (cases res)
    show ?thesis
    proof (cases "tool_step_canonical_error (ToolStep s) v")
      case None
      with m Ret res Suc.prems have "out = Ret (Inr res)" "clean_after 0 deps s c label completed st st' res l"
        by (auto simp: clean_after_def)
      then show ?thesis by blast
    next
      case (Some e)
      with m Ret res Suc.prems show ?thesis by (intro shift [of "ErrorResult v"]) (simp_all add: failed_once_def)
    qed
  next
    case (Raise e)
    with m Suc.prems show ?thesis by (intro shift [of "RaisedFailure e"]) (simp_all add: failed_once_def)
  next
    case Diverge
    with m ends_once show ?thesis unfolding ends_def by (metis fst_conv)
  qed
qed

text \<open>A tool step with an \<open>on_error\<close> policy makes at most one attempt, and \<open>n\<close> more for
  \<open>retry(n)\<close>, each in the state the failed one before left, and stops at the first clean one.  When all fail, \<open>continue\<close> binds a
  value, durably, and \<open>abort\<close> and \<open>retry(n)\<close> raise an error that names the policy as written.\<close>

theorem tool_on_error_policy:
  assumes "tool_on_error s = Some raw" and "parse_on_error raw = Inr oe"
    and "run_tool_step deps s c label completed st = (out, st')"
    and "n = (if oe_kind oe = OnRetry then retries oe else 0)"
  shows "(\<exists>res. out = Ret res \<and> (\<exists>k\<le>n. clean_after k deps s c label completed st st' res (ErrorResult VNone)))
    \<or> (\<exists>f. failed_times (Suc n) deps s c label completed st st' (ErrorResult VNone) f
        \<and> (if oe_kind oe = OnContinue then \<exists>v. out = Ret (v, True, completed)
           else \<exists>m. out = Raise (PipelineExecutionError (ToolFailed label (tool_name s) raw m))))"
proof -
  have a: "attempts_of oe = Suc n" using assms(4) by (simp add: attempts_of_def)
  obtain o1 st1 where m: "tool_attempts (Suc n) (ErrorResult VNone) deps s c label completed st = (o1, st1)"
    by (metis surj_pair)
  from attempts_policy [OF m] show ?thesis
  proof (elim disjE exE conjE)
    fix res k assume "o1 = Ret (Inr res)" "k < Suc n" "clean_after k deps s c label completed st st1 res (ErrorResult VNone)"
    moreover from this have "out = Ret res" "st' = st1"
      using assms(1-3) m a by (simp_all add: run_tool_step_def xbind_def xlift_def xret_def)
    ultimately show ?thesis using less_Suc_eq_le by blast
  next
    fix f assume o: "o1 = Ret (Inl f)" and f: "failed_times (Suc n) deps s c label completed st st1 (ErrorResult VNone) f"
    have "tool_give_up deps s oe label completed f st1 = (out, st')"
      using assms(1-3) m o a by (simp add: run_tool_step_def xbind_def xlift_def xret_def)
    then show ?thesis
      using f assms(1) by (auto simp: tool_give_up_def xret_def fail_simp split: if_splits attempt_failure.splits)
  qed
qed

definition flaky_deps :: "nat run_deps" where
  "flaky_deps = \<lparr>tool_dispatch = (\<lambda>name args w. (if w < 2 then Inl ''down'' else Inr (VStr name), w + 1)), state_log = True,
     schema_registry = None, registry = None, default_identity = None, pipeline_registry = None, event_log = True,
     cancel_check = None, fan_out_depth = 0, max_fan_out_depth = 5, spawn_cap = 2, canonical_decls = [],
     canonical_mappers = (\<lambda>_ _. Inl CanonicalDiscriminatorMiss), exc_text = (\<lambda>_. ''down''), schedule = (\<lambda>_ _. [])\<rparr>"

definition flaky_tool :: tool_step where
  "flaky_tool = \<lparr>tool_name = ''t'', tool_args = [], tool_output = None, tool_schema = None, tool_on_error = Some ''retry(1)''\<rparr>"

definition no_context :: step_context where
  "no_context = \<lparr>ctx_stores = [], ctx_pipe = VNone, ctx_loop = []\<rparr>"

theorem tool_on_error_policy_witness:
  "\<exists>f. failed_times 2 flaky_deps flaky_tool no_context ''0'' [] (start_state 0)
     (snd (run_tool_step flaky_deps flaky_tool no_context ''0'' [] (start_state 0))) (ErrorResult VNone) f"
proof -
  have p: "parse_on_error ''retry(1)'' = Inr \<lparr>oe_kind = OnRetry, retries = 1\<rparr>" by code_simp
  have r: "run_tool_step flaky_deps flaky_tool no_context ''0'' [] (start_state 0) =
      (Raise (PipelineExecutionError (ToolFailed ''0'' ''t'' ''retry(1)'' ''down'')),
       snd (run_tool_step flaky_deps flaky_tool no_context ''0'' [] (start_state 0)))"
    by code_simp
  have "tool_on_error flaky_tool = Some ''retry(1)''" by (simp add: flaky_tool_def)
  from tool_on_error_policy [OF this p r refl] show ?thesis by (auto simp: numeral_2_eq_2)
qed

end
