(* ===== verification/DslParser.thy ===== *)
theory DslParser
  imports Executor
begin

section \<open>The pipeline language\<close>

text \<open>
  \<open>src/reyn/core/pipeline/parser.py\<close>: from YAML documents to pipelines.  The YAML loader is not
  code of the repository; \<open>yval\<close> is what it hands over, with \<open>YTag\<close> for a scalar tagged \<open>!expr\<close>
  and \<open>YOther\<close> for values the language gives no meaning to (dates, sets, ...; with their type name
  and truth value).  Where the code accepts a value the step types of the development have no room
  for (an \<open>output\<close> that is not a string, a mapping with keys that are not strings), the result is
  \<open>DslOutside\<close>.  The texts of the messages are not modelled: a reason names the check that failed.
\<close>

subsection \<open>YAML values\<close>

datatype yval =
    YNull
  | YBool bool
  | YInt int
  | YFloat pyfloat
  | YStr string
  | YList "yval list"
  | YMap "(yval \<times> yval) list"
  | YTag string
  | YOther string bool

type_synonym ydict = "(yval \<times> yval) list"

definition yget :: "ydict \<Rightarrow> string \<Rightarrow> yval option" where
  "yget d k = map_of d (YStr k)"

definition yget_or_null :: "ydict \<Rightarrow> string \<Rightarrow> yval" where
  "yget_or_null d k = (case yget d k of None \<Rightarrow> YNull | Some v \<Rightarrow> v)"

definition y_truthy :: "yval \<Rightarrow> bool" where
  "y_truthy v = (case v of
       YNull \<Rightarrow> False | YBool b \<Rightarrow> b | YInt i \<Rightarrow> i \<noteq> 0 | YFloat x \<Rightarrow> truthy (VFloat x) | YStr s \<Rightarrow> s \<noteq> []
     | YList xs \<Rightarrow> xs \<noteq> [] | YMap d \<Rightarrow> d \<noteq> [] | YTag _ \<Rightarrow> True | YOther _ b \<Rightarrow> b)"

text \<open>The values of the development's own type, and back.\<close>

fun to_pyval :: "yval \<Rightarrow> pyval option" where
  "to_pyval YNull = Some VNone"
| "to_pyval (YBool b) = Some (VBool b)"
| "to_pyval (YInt i) = Some (VInt i)"
| "to_pyval (YFloat x) = Some (VFloat x)"
| "to_pyval (YStr s) = Some (VStr s)"
| "to_pyval (YList xs) = map_option VList (those (map to_pyval xs))"
| "to_pyval (YMap d) = map_option VDict
     (those (map (\<lambda>(k, v). case k of YStr s \<Rightarrow> map_option (\<lambda>w. (s, w)) (to_pyval v) | _ \<Rightarrow> None) d))"
| "to_pyval (YTag _) = None"
| "to_pyval (YOther _ _) = None"

fun of_pyval :: "pyval \<Rightarrow> yval" where
  "of_pyval VNone = YNull"
| "of_pyval (VBool b) = YBool b"
| "of_pyval (VInt i) = YInt i"
| "of_pyval (VFloat x) = YFloat x"
| "of_pyval (VStr s) = YStr s"
| "of_pyval (VList xs) = YList (map of_pyval xs)"
| "of_pyval (VDict d) = YMap (map (\<lambda>(k, v). (YStr k, of_pyval v)) d)"

subsection \<open>Errors\<close>

datatype dsl_reason =
    InvalidYaml string
  | TopLevelNotMapping
  | UnsupportedTopLevelKey string
  | NeitherSchemaNorPipeline
  | NoPipelineDocument
  | NotExactlyOne nat
  | DuplicatePipelineName string
  | NotAnExpressionString string
  | MalformedExpression string string parse_reason
  | NestedExprTag
  | PassNotAMapping string
  | PassKeyNotAName string
  | UnknownFields string
  | MissingField string string
  | BadField string string
  | BothSources string
  | BranchNameReserved
  | NotASingleKeyMapping
  | UnknownStepKind
  | BodyNotAMapping string
  | DottedPipelineName string

datatype dsl_exc =
    PipelineParseError dsl_reason
  | DslTypeError
  | DslExprRaised parse_exc
  | DslSchemaRaised schema_exc
  | DslYamlRaised string
  | DslOutside

type_synonym 'a dsl = "dsl_exc + 'a"

definition dsl_fail :: "dsl_reason \<Rightarrow> 'a dsl" where
  "dsl_fail r = Inl (PipelineParseError r)"

definition representable :: "'a option \<Rightarrow> 'a dsl" where
  "representable x = (case x of None \<Rightarrow> Inl DslOutside | Some v \<Rightarrow> Inr v)"

definition need_str :: "yval \<Rightarrow> dsl_exc \<Rightarrow> string dsl" where
  "need_str v e = (case v of YStr s \<Rightarrow> Inr s | _ \<Rightarrow> Inl e)"

definition need_map :: "yval \<Rightarrow> dsl_exc \<Rightarrow> ydict dsl" where
  "need_map v e = (case v of YMap d \<Rightarrow> Inr d | _ \<Rightarrow> Inl e)"

lemma need_Inr [simp]:
  "need_str v e = Inr s \<longleftrightarrow> v = YStr s"
  "need_map v e = Inr d \<longleftrightarrow> v = YMap d"
  by (auto simp: need_str_def need_map_def split: yval.splits)

subsection \<open>Checks\<close>

definition validate_expr_source :: "yval \<Rightarrow> string \<Rightarrow> string dsl" where
  "validate_expr_source src where' =
     (case src of
        YStr s \<Rightarrow>
          (case parse s of
             Inl (ExprParseError r) \<Rightarrow> dsl_fail (MalformedExpression where' s r)
           | Inl e \<Rightarrow> Inl (DslExprRaised e)
           | Inr _ \<Rightarrow> Inr s)
      | _ \<Rightarrow> dsl_fail (NotAnExpressionString where'))"

fun has_tag :: "yval \<Rightarrow> bool" where
  "has_tag (YTag _) = True"
| "has_tag (YMap d) = list_ex (\<lambda>(_, v). has_tag v) d"
| "has_tag (YList xs) = list_ex has_tag xs"
| "has_tag _ = False"

definition reject_nested_expr_tag :: "yval \<Rightarrow> unit dsl" where
  "reject_nested_expr_tag v = (if has_tag v then dsl_fail NestedExprTag else Inr ())"

definition resolve_arg_value :: "yval \<Rightarrow> string \<Rightarrow> arg_value dsl" where
  "resolve_arg_value v where' =
     (case v of
        YTag src \<Rightarrow> rbind (validate_expr_source (YStr src) where') (\<lambda>s. Inr (ExprRef s))
      | _ \<Rightarrow> rbind (reject_nested_expr_tag v) (\<lambda>_. rbind (representable (to_pyval v)) (\<lambda>w. Inr (Literal_arg w))))"

definition pass_entry :: "string \<Rightarrow> yval \<times> yval \<Rightarrow> (string \<times> string) dsl" where
  "pass_entry where' kv =
     (case fst kv of
        YStr (c # cs) \<Rightarrow> rbind (validate_expr_source (snd kv) where') (\<lambda>e. Inr (c # cs, e))
      | _ \<Rightarrow> dsl_fail (PassKeyNotAName where'))"

definition parse_pass_entries :: "yval \<Rightarrow> string \<Rightarrow> pass_entries dsl" where
  "parse_pass_entries raw where' =
     (case raw of
        YMap d \<Rightarrow> traverse (pass_entry where') d
      | _ \<Rightarrow> dsl_fail (PassNotAMapping where'))"

definition or_empty :: "yval \<Rightarrow> yval" where
  "or_empty v = (if y_truthy v then v else YMap [])"

text \<open>
  \<open>sorted\<close> of the unknown keys compares them: with two keys of types Python has no order between,
  it raises before the message is built.
\<close>

fun str_key :: "yval \<Rightarrow> bool" where
  "str_key (YStr _) = True" | "str_key _ = False"

fun number_key :: "yval \<Rightarrow> bool" where
  "number_key (YBool _) = True" | "number_key (YInt _) = True" | "number_key (YFloat _) = True"
| "number_key _ = False"

definition sort_keys :: "yval list \<Rightarrow> unit dsl" where
  "sort_keys ks =
     (if length ks \<le> 1 \<or> list_all str_key ks \<or> list_all number_key ks then Inr ()
      else if list_all (\<lambda>k. str_key k \<or> number_key k \<or> k = YNull) ks then Inl DslTypeError
      else Inl DslOutside)"

definition reject_unknown_keys :: "ydict \<Rightarrow> string list \<Rightarrow> string \<Rightarrow> unit dsl" where
  "reject_unknown_keys doc allowed where' =
     (let extra = filter (\<lambda>k. k \<notin> YStr ` set allowed) (map fst doc) in
      if extra = [] then Inr ()
      else rbind (sort_keys extra) (\<lambda>_. dsl_fail (UnknownFields where')))"

definition required :: "ydict \<Rightarrow> string \<Rightarrow> string \<Rightarrow> yval dsl" where
  "required body where' k = (case yget body k of None \<Rightarrow> dsl_fail (MissingField where' k) | Some v \<Rightarrow> Inr v)"

text \<open>An optional string the code checks, and one it passes on unchecked.\<close>

definition checked_str :: "ydict \<Rightarrow> string \<Rightarrow> string \<Rightarrow> string option dsl" where
  "checked_str body where' k =
     (case yget_or_null body k of
        YNull \<Rightarrow> Inr None
      | YStr s \<Rightarrow> Inr (Some s)
      | _ \<Rightarrow> dsl_fail (BadField where' k))"

definition unchecked_str :: "ydict \<Rightarrow> string \<Rightarrow> string option dsl" where
  "unchecked_str body k =
     (case yget_or_null body k of
        YNull \<Rightarrow> Inr None
      | YStr s \<Rightarrow> Inr (Some s)
      | _ \<Rightarrow> Inl DslOutside)"

definition literal_name :: "yval \<Rightarrow> string \<Rightarrow> string \<Rightarrow> string dsl" where
  "literal_name v where' k =
     (case v of YStr (c # cs) \<Rightarrow> Inr (c # cs) | _ \<Rightarrow> dsl_fail (BadField where' k))"

text \<open>\<open>^retry\(\d+\)$\<close> beside the two words.\<close>

definition policy_text :: "string \<Rightarrow> bool" where
  "policy_text s \<longleftrightarrow> s = ''continue'' \<or> s = ''abort'' \<or> retry_digits s \<noteq> None"

definition positive_int :: "ydict \<Rightarrow> string \<Rightarrow> string \<Rightarrow> int option dsl" where
  "positive_int body where' k =
     (case yget_or_null body k of
        YNull \<Rightarrow> Inr None
      | YInt i \<Rightarrow> if i \<le> 0 then dsl_fail (BadField where' k) else Inr (Some i)
      | _ \<Rightarrow> dsl_fail (BadField where' k))"

subsection \<open>Linear steps\<close>

definition parse_transform_step :: "ydict \<Rightarrow> step dsl" where
  "parse_transform_step body =
     rbind (reject_unknown_keys body [''value'', ''output''] ''transform'') (\<lambda>_.
     rbind (required body ''transform'' ''value'') (\<lambda>v.
     rbind (validate_expr_source v ''transform'') (\<lambda>value.
     rbind (unchecked_str body ''output'') (\<lambda>out.
       Inr (TransformStep \<lparr>tr_value = value, tr_output = out\<rparr>)))))"

definition arg_entry :: "yval \<times> yval \<Rightarrow> (string \<times> arg_value) dsl" where
  "arg_entry kv =
     rbind (resolve_arg_value (snd kv) ''tool'') (\<lambda>a.
     rbind (need_str (fst kv) DslOutside) (\<lambda>k. Inr (k, a)))"

definition checked_policy :: "ydict \<Rightarrow> string \<Rightarrow> string option dsl" where
  "checked_policy body where' =
     (case yget_or_null body ''on_error'' of
        YNull \<Rightarrow> Inr None
      | YStr s \<Rightarrow> if policy_text s then Inr (Some s) else dsl_fail (BadField where' ''on_error'')
      | _ \<Rightarrow> dsl_fail (BadField where' ''on_error''))"

definition parse_tool_step :: "ydict \<Rightarrow> step dsl" where
  "parse_tool_step body =
     rbind (reject_unknown_keys body [''name'', ''args'', ''schema'', ''output'', ''on_error''] ''tool'') (\<lambda>_.
     rbind (required body ''tool'' ''name'') (\<lambda>n.
     rbind (need_str n (PipelineParseError (BadField ''tool'' ''name''))) (\<lambda>name.
     rbind (need_map (or_empty (yget_or_null body ''args'')) (PipelineParseError (BadField ''tool'' ''args''))) (\<lambda>raw_args.
     rbind (traverse arg_entry raw_args) (\<lambda>args.
     rbind (checked_str body ''tool'' ''schema'') (\<lambda>schema.
     rbind (checked_policy body ''tool'') (\<lambda>oe.
     rbind (unchecked_str body ''output'') (\<lambda>out.
       Inr (ToolStep \<lparr>tool_name = name, tool_args = args, tool_output = out, tool_schema = schema,
         tool_on_error = oe\<rparr>)))))))))"

definition parse_capabilities :: "ydict \<Rightarrow> pyval list option dsl" where
  "parse_capabilities body =
     (case yget_or_null body ''capabilities'' of
        YNull \<Rightarrow> Inr None
      | YMap caps \<Rightarrow>
          (case yget caps ''tools'' of
             None \<Rightarrow> dsl_fail (BadField ''agent'' ''capabilities'')
           | Some (YList ts) \<Rightarrow>
               if list_all str_key ts
               then rbind (representable (those (map to_pyval ts))) (\<lambda>ts'. Inr (Some ts'))
               else dsl_fail (BadField ''agent'' ''capabilities.tools'')
           | Some _ \<Rightarrow> dsl_fail (BadField ''agent'' ''capabilities.tools''))
      | _ \<Rightarrow> dsl_fail (BadField ''agent'' ''capabilities''))"

definition parse_agent_step :: "ydict \<Rightarrow> step dsl" where
  "parse_agent_step body =
     rbind (reject_unknown_keys body
         [''prompt'', ''identity'', ''capabilities'', ''schema'', ''model'', ''output''] ''agent'') (\<lambda>_.
     rbind (required body ''agent'' ''prompt'') (\<lambda>p.
     rbind (need_str p (PipelineParseError (BadField ''agent'' ''prompt''))) (\<lambda>prompt.
     rbind (checked_str body ''agent'' ''identity'') (\<lambda>identity.
     rbind (parse_capabilities body) (\<lambda>capabilities.
     rbind (checked_str body ''agent'' ''schema'') (\<lambda>schema.
     rbind (checked_str body ''agent'' ''model'') (\<lambda>model.
     rbind (unchecked_str body ''output'') (\<lambda>out.
       Inr (AgentStep \<lparr>agent_prompt = prompt, agent_identity = identity, agent_capabilities = capabilities,
         agent_schema = schema, agent_model = model, agent_output = out\<rparr>)))))))))"

subsection \<open>Calls\<close>

definition parse_call_step :: "ydict \<Rightarrow> step dsl" where
  "parse_call_step body =
     rbind (reject_unknown_keys body [''pipeline'', ''pass'', ''output''] ''call'') (\<lambda>_.
     rbind (required body ''call'' ''pipeline'') (\<lambda>p.
     rbind (literal_name p ''call'' ''pipeline'') (\<lambda>name.
     rbind (parse_pass_entries (or_empty (yget_or_null body ''pass'')) ''call'') (\<lambda>pass.
     rbind (checked_str body ''call'' ''output'') (\<lambda>out.
       Inr (CallStep \<lparr>call_pipeline = name, call_pass = pass, call_output = out\<rparr>))))))"

definition parse_match_case :: "yval \<Rightarrow> match_case dsl" where
  "parse_match_case raw =
     (case raw of
        YMap body \<Rightarrow>
          rbind (reject_unknown_keys body [''pipeline'', ''pass''] ''match'') (\<lambda>_.
          rbind (required body ''match'' ''pipeline'') (\<lambda>p.
          rbind (literal_name p ''match'' ''pipeline'') (\<lambda>name.
          rbind (parse_pass_entries (or_empty (yget_or_null body ''pass'')) ''match'') (\<lambda>pass.
            Inr \<lparr>case_pipeline = name, case_pass = pass\<rparr>))))
      | _ \<Rightarrow> dsl_fail (BodyNotAMapping ''match''))"

definition labelled_case :: "yval \<times> yval \<Rightarrow> (string \<times> match_case) dsl" where
  "labelled_case kv =
     rbind (parse_match_case (snd kv)) (\<lambda>k.
     rbind (need_str (fst kv) DslOutside) (\<lambda>label. Inr (label, k)))"

definition parse_default :: "ydict \<Rightarrow> match_case option dsl" where
  "parse_default body =
     (case yget_or_null body ''default'' of
        YNull \<Rightarrow> Inr None
      | v \<Rightarrow> rbind (parse_match_case v) (\<lambda>k. Inr (Some k)))"

definition parse_match_step :: "ydict \<Rightarrow> step dsl" where
  "parse_match_step body =
     rbind (reject_unknown_keys body [''on'', ''cases'', ''default'', ''output''] ''match'') (\<lambda>_.
     rbind (required body ''match'' ''on'') (\<lambda>o'.
     rbind (validate_expr_source o' ''match'') (\<lambda>on.
     rbind (need_map (yget_or_null body ''cases'') (PipelineParseError (BadField ''match'' ''cases''))) (\<lambda>raw_cases.
     rbind (if raw_cases = [] then dsl_fail (BadField ''match'' ''cases'') else traverse labelled_case raw_cases) (\<lambda>cases.
     rbind (parse_default body) (\<lambda>default.
     rbind (checked_str body ''match'' ''output'') (\<lambda>out.
       Inr (MatchStep \<lparr>match_on = on, match_cases = cases, match_default = default, match_output = out\<rparr>))))))))"

subsection \<open>Steps that hold steps\<close>

text \<open>
  The parsers of the nesting kinds take the step parser as an argument; the congruence rules say
  they call it on parts of the body only.
\<close>

definition parse_over :: "ydict \<Rightarrow> string \<Rightarrow> string option dsl" where
  "parse_over body where' =
     (case yget_or_null body ''over'' of
        YNull \<Rightarrow> Inr None
      | v \<Rightarrow> rbind (validate_expr_source v where') (\<lambda>s. Inr (Some s)))"

definition parse_items :: "ydict \<Rightarrow> string \<Rightarrow> pyval list option dsl" where
  "parse_items body where' =
     (case yget_or_null body ''items'' of
        YNull \<Rightarrow> Inr None
      | YList xs \<Rightarrow> rbind (reject_nested_expr_tag (YList xs)) (\<lambda>_.
          rbind (representable (those (map to_pyval xs))) (\<lambda>ys. Inr (Some ys)))
      | _ \<Rightarrow> dsl_fail (BadField where' ''items''))"

definition parse_source :: "ydict \<Rightarrow> string \<Rightarrow> list_source dsl" where
  "parse_source body where' =
     (if yget body ''over'' \<noteq> None \<and> yget body ''items'' \<noteq> None then dsl_fail (BothSources where')
      else rbind (parse_over body where') (\<lambda>ov. rbind (parse_items body where') (\<lambda>xs.
        Inr \<lparr>over = ov, items = xs\<rparr>)))"

definition parse_fold_step :: "(yval \<Rightarrow> step dsl) \<Rightarrow> ydict \<Rightarrow> step dsl" where
  "parse_fold_step parse_step body =
     rbind (reject_unknown_keys body [''over'', ''items'', ''init'', ''do'', ''output'', ''max_items''] ''fold'') (\<lambda>_.
     rbind (parse_source body ''fold'') (\<lambda>source.
     rbind (required body ''fold'' ''init'') (\<lambda>i.
     rbind (validate_expr_source i ''fold'') (\<lambda>init.
     rbind (rbind (required body ''fold'' ''do'') parse_step) (\<lambda>do'.
     rbind (literal_name (yget_or_null body ''output'') ''fold'' ''output'') (\<lambda>out.
     rbind (positive_int body ''fold'' ''max_items'') (\<lambda>max_items.
       Inr (FoldStep init do' out source max_items))))))))"

definition needed_policy :: "yval \<Rightarrow> string \<Rightarrow> string dsl" where
  "needed_policy v where' =
     (case v of
        YStr s \<Rightarrow> if policy_text s then Inr s else dsl_fail (BadField where' ''on_error'')
      | _ \<Rightarrow> dsl_fail (BadField where' ''on_error''))"

definition parse_for_each_step :: "(yval \<Rightarrow> step dsl) \<Rightarrow> ydict \<Rightarrow> step dsl" where
  "parse_for_each_step parse_step body =
     rbind (reject_unknown_keys body
         [''over'', ''items'', ''max_parallel'', ''on_error'', ''do'', ''collect'', ''output''] ''for_each'') (\<lambda>_.
     rbind (parse_source body ''for_each'') (\<lambda>source.
     rbind (needed_policy (yget_or_null body ''on_error'') ''for_each'') (\<lambda>oe.
     rbind (rbind (required body ''for_each'' ''do'') parse_step) (\<lambda>do'.
     rbind (rbind (required body ''for_each'' ''collect'') parse_step) (\<lambda>collect.
     rbind (positive_int body ''for_each'' ''max_parallel'') (\<lambda>max_parallel.
     rbind (checked_str body ''for_each'' ''output'') (\<lambda>out.
       Inr (ForEachStep do' collect oe source max_parallel out))))))))"

definition branch_entry :: "(yval \<Rightarrow> step dsl) \<Rightarrow> yval \<times> yval \<Rightarrow> (string \<times> step) dsl" where
  "branch_entry parse_step kv =
     rbind (parse_step (snd kv)) (\<lambda>s.
     rbind (need_str (fst kv) DslOutside) (\<lambda>name. Inr (name, s)))"

definition parse_branches :: "(yval \<Rightarrow> step dsl) \<Rightarrow> yval \<Rightarrow> (string \<times> step) list dsl" where
  "parse_branches parse_step raw =
     rbind (need_map raw (PipelineParseError (BadField ''parallel'' ''branches''))) (\<lambda>d.
       if d = [] then dsl_fail (BadField ''parallel'' ''branches'')
       else if YStr PARALLEL_BRANCH_ERRORS_KEY \<in> set (map fst d) then dsl_fail BranchNameReserved
       else traverse (branch_entry parse_step) d)"

definition parse_parallel_step :: "(yval \<Rightarrow> step dsl) \<Rightarrow> ydict \<Rightarrow> step dsl" where
  "parse_parallel_step parse_step body =
     rbind (reject_unknown_keys body [''branches'', ''collect'', ''on_error'', ''output''] ''parallel'') (\<lambda>_.
     rbind (parse_branches parse_step (yget_or_null body ''branches'')) (\<lambda>branches.
     rbind (needed_policy (case yget body ''on_error'' of None \<Rightarrow> YStr ''abort'' | Some v \<Rightarrow> v) ''parallel'') (\<lambda>oe.
     rbind (rbind (required body ''parallel'' ''collect'') parse_step) (\<lambda>collect.
     rbind (checked_str body ''parallel'' ''output'') (\<lambda>out.
       Inr (ParallelStep branches collect oe out))))))"

lemma entry_size: "kv \<in> set d \<Longrightarrow> size (snd kv) < size (YMap d)"
  by (induction d) (auto simp: less_Suc_eq_le)

lemma yget_size: "yget d k = Some v \<Longrightarrow> size v < size (YMap d)"
  unfolding yget_def using entry_size [of "(YStr k, v)" d] by (auto dest: map_of_SomeD)

lemma required_size: "required d w k = Inr v \<Longrightarrow> size v < size (YMap d)"
  by (auto simp: required_def dsl_fail_def split: option.splits dest: yget_size)

lemma parse_fold_cong [fundef_cong]:
  assumes "body = body'" and "\<And>v. size v < size (YMap body') \<Longrightarrow> ps v = ps' v"
  shows "parse_fold_step ps body = parse_fold_step ps' body'"
  unfolding parse_fold_step_def assms(1)
  by (intro rbind_cong refl) (auto intro!: assms(2) dest: required_size)

lemma parse_for_each_cong [fundef_cong]:
  assumes "body = body'" and "\<And>v. size v < size (YMap body') \<Longrightarrow> ps v = ps' v"
  shows "parse_for_each_step ps body = parse_for_each_step ps' body'"
  unfolding parse_for_each_step_def assms(1)
  by (intro rbind_cong refl) (auto intro!: assms(2) dest: required_size)

lemma parse_parallel_cong [fundef_cong]:
  assumes "body = body'" and "\<And>v. size v < size (YMap body') \<Longrightarrow> ps v = ps' v"
  shows "parse_parallel_step ps body = parse_parallel_step ps' body'"
proof -
  have "parse_branches ps (yget_or_null body' k) = parse_branches ps' (yget_or_null body' k)" for k
  proof (cases "yget body' k")
    case (Some v)
    then have v: "size v < size (YMap body')" by (rule yget_size)
    have "parse_branches ps v = parse_branches ps' v"
    proof (cases v)
      case (YMap d)
      have "branch_entry ps kv = branch_entry ps' kv" if "kv \<in> set d" for kv
        using entry_size [OF that] v unfolding YMap branch_entry_def by (intro rbind_cong assms(2)) simp_all
      then show ?thesis
        unfolding YMap parse_branches_def
        by (auto intro!: rbind_cong traverse_cong)
    qed (simp_all add: parse_branches_def need_map_def)
    with Some show ?thesis by (simp add: yget_or_null_def)
  qed (simp add: yget_or_null_def parse_branches_def need_map_def)
  then show ?thesis
    unfolding parse_parallel_step_def assms(1)
    by (intro rbind_cong refl) (auto intro!: assms(2) dest: required_size)
qed

function parse_step :: "yval \<Rightarrow> step dsl" where
  "parse_step raw =
     (case raw of
        YMap [(knd, body)] \<Rightarrow>
          (if knd \<in> YStr ` {''fold'', ''for_each'', ''parallel'', ''transform'', ''tool'', ''agent'', ''call'', ''match''}
           then (case body of
               YMap d \<Rightarrow>
                 if knd = YStr ''fold'' then parse_fold_step parse_step d
                 else if knd = YStr ''for_each'' then parse_for_each_step parse_step d
                 else if knd = YStr ''parallel'' then parse_parallel_step parse_step d
                 else if knd = YStr ''transform'' then parse_transform_step d
                 else if knd = YStr ''tool'' then parse_tool_step d
                 else if knd = YStr ''agent'' then parse_agent_step d
                 else if knd = YStr ''call'' then parse_call_step d
                 else parse_match_step d
             | _ \<Rightarrow> dsl_fail (BodyNotAMapping ''step''))
           else dsl_fail UnknownStepKind)
      | _ \<Rightarrow> dsl_fail NotASingleKeyMapping)"
  by pat_completeness auto
termination
  by (relation "measure size") auto

declare parse_step.simps [simp del]

subsection \<open>Documents\<close>

definition parse_pipeline_doc :: "ydict \<Rightarrow> pipeline dsl" where
  "parse_pipeline_doc doc =
     rbind (reject_unknown_keys doc [''pipeline'', ''description'', ''steps''] ''pipeline'') (\<lambda>_.
     rbind (literal_name (yget_or_null doc ''pipeline'') ''pipeline'' ''pipeline'') (\<lambda>name.
     if CHR ''.'' \<in> set name then dsl_fail (DottedPipelineName name)
     else
       rbind (case yget doc ''description'' of
           None \<Rightarrow> Inr [] | Some (YStr s) \<Rightarrow> Inr s | Some _ \<Rightarrow> dsl_fail (BadField ''pipeline'' ''description'')) (\<lambda>descr.
       rbind (case yget_or_null doc ''steps'' of
           YList (x # xs) \<Rightarrow> traverse parse_step (x # xs) | _ \<Rightarrow> dsl_fail (BadField ''pipeline'' ''steps'')) (\<lambda>ss.
         Inr \<lparr>steps = ss, description = descr, pipe_name = name\<rparr>))))"

text \<open>The schema registry is the caller's: it keeps what was registered when a later document fails.\<close>

definition parse_schema_doc :: "ydict \<Rightarrow> schemas \<Rightarrow> unit dsl \<times> schemas" where
  "parse_schema_doc doc S =
     (case rbind (literal_name (yget_or_null doc ''schema'') ''schema'' ''schema'') (\<lambda>name.
         rbind (reject_unknown_keys doc [''schema'', ''fields''] ''schema'') (\<lambda>_.
         (case yget_or_null doc ''fields'' of
            YMap (f # fs) \<Rightarrow> rbind (representable (to_pyval (YMap (f # fs)))) (\<lambda>v. Inr (name, v))
          | _ \<Rightarrow> dsl_fail (BadField ''schema'' ''fields'')))) of
       Inl e \<Rightarrow> (Inl e, S)
     | Inr (name, v) \<Rightarrow>
         (case register name (VDict [(''fields'', v)]) S of
            (Inl e, S') \<Rightarrow> (Inl (DslSchemaRaised e), S')
          | (Inr _, S') \<Rightarrow> (Inr (), S')))"

definition UNSUPPORTED_PIPELINE_KEYS :: "string list" where
  "UNSUPPORTED_PIPELINE_KEYS = [''input'', ''defaults'', ''refine'']"

definition unclassified :: "ydict \<Rightarrow> 'a dsl" where
  "unclassified d =
     (case filter (\<lambda>k. yget d k \<noteq> None) UNSUPPORTED_PIPELINE_KEYS of
        k # _ \<Rightarrow> dsl_fail (UnsupportedTopLevelKey k)
      | [] \<Rightarrow> rbind (sort_keys (map fst d)) (\<lambda>_. dsl_fail NeitherSchemaNorPipeline))"

text \<open>The first pass: schemas are registered, pipeline documents collected.\<close>

fun classify_docs :: "yval list \<Rightarrow> schemas \<Rightarrow> ydict list dsl \<times> schemas" where
  "classify_docs [] S = (Inr [], S)"
| "classify_docs (YNull # docs) S = classify_docs docs S"
| "classify_docs (YMap d # docs) S =
     (if yget d ''schema'' \<noteq> None then
        (case parse_schema_doc d S of
           (Inl e, S') \<Rightarrow> (Inl e, S')
         | (Inr _, S') \<Rightarrow> classify_docs docs S')
      else if yget d ''pipeline'' \<noteq> None then
        (case classify_docs docs S of
           (Inl e, S') \<Rightarrow> (Inl e, S')
         | (Inr ds, S') \<Rightarrow> (Inr (d # ds), S'))
      else (unclassified d, S))"
| "classify_docs (_ # docs) S = (dsl_fail TopLevelNotMapping, S)"

fun check_duplicates :: "string list \<Rightarrow> pipeline list \<Rightarrow> unit dsl" where
  "check_duplicates seen [] = Inr ()"
| "check_duplicates seen (p # ps) =
     (if pipe_name p \<in> set seen then dsl_fail (DuplicatePipelineName (pipe_name p))
      else check_duplicates (pipe_name p # seen) ps)"

datatype yaml_exc = YAMLError string | YamlOtherError string

definition parse_docs :: "yval list \<Rightarrow> schemas \<Rightarrow> pipeline list dsl \<times> schemas" where
  "parse_docs docs S =
     (case classify_docs docs S of
        (Inl e, S') \<Rightarrow> (Inl e, S')
      | (Inr ds, S') \<Rightarrow>
          (if ds = [] then dsl_fail NoPipelineDocument
           else rbind (traverse parse_pipeline_doc ds) (\<lambda>ps.
             rbind (check_duplicates [] ps) (\<lambda>_. Inr ps)), S'))"

definition parse_pipeline_docs ::
  "(string \<Rightarrow> yaml_exc + yval list) \<Rightarrow> string \<Rightarrow> schemas \<Rightarrow> pipeline list dsl \<times> schemas" where
  "parse_pipeline_docs load_all text S =
     (case load_all text of
        Inl (YAMLError m) \<Rightarrow> (dsl_fail (InvalidYaml m), S)
      | Inl (YamlOtherError m) \<Rightarrow> (Inl (DslYamlRaised m), S)
      | Inr docs \<Rightarrow> parse_docs docs S)"

definition parse_pipeline_dsl ::
  "(string \<Rightarrow> yaml_exc + yval list) \<Rightarrow> string \<Rightarrow> schemas \<Rightarrow> pipeline dsl \<times> schemas" where
  "parse_pipeline_dsl load_all text S =
     (case parse_pipeline_docs load_all text S of
        (Inl e, S') \<Rightarrow> (Inl e, S')
      | (Inr [p], S') \<Rightarrow> (Inr p, S')
      | (Inr ps, S') \<Rightarrow> (dsl_fail (NotExactlyOne (length ps)), S'))"

end
