(* ===== verification/DslFacts.thy ===== *)
theory DslFacts
  imports DslParser
begin

section \<open>What the parser accepts\<close>

text \<open>
  \<open>step_ok\<close> states the language of the steps without reference to the parser: the parser accepts
  nothing else, and every such step can be written down.
\<close>

subsection \<open>Well-formed steps\<close>

fun opt_all :: "('a \<Rightarrow> bool) \<Rightarrow> 'a option \<Rightarrow> bool" where
  "opt_all P None = True"
| "opt_all P (Some x) = P x"

definition expr_ok :: "string \<Rightarrow> bool" where
  "expr_ok src = (case parse src of Inr _ \<Rightarrow> True | Inl _ \<Rightarrow> False)"

definition pass_ok :: "pass_entries \<Rightarrow> bool" where
  "pass_ok es = list_all (\<lambda>(n, e). n \<noteq> [] \<and> expr_ok e) es"

definition case_ok :: "match_case \<Rightarrow> bool" where
  "case_ok k \<longleftrightarrow> case_pipeline k \<noteq> [] \<and> pass_ok (case_pass k)"

definition source_ok :: "list_source \<Rightarrow> bool" where
  "source_ok ls \<longleftrightarrow> (over ls = None \<or> items ls = None) \<and> opt_all expr_ok (over ls)"

definition arg_ok :: "arg_value \<Rightarrow> bool" where
  "arg_ok a = (case a of ExprRef e \<Rightarrow> expr_ok e | Literal_arg _ \<Rightarrow> True)"

fun step_ok :: "step \<Rightarrow> bool" where
  "step_ok (TransformStep s) = expr_ok (tr_value s)"
| "step_ok (ToolStep s) =
     (distinct (map fst (tool_args s)) \<and> list_all (\<lambda>(_, a). arg_ok a) (tool_args s)
      \<and> opt_all policy_text (tool_on_error s))"
| "step_ok (AgentStep s) = opt_all (list_all is_str) (agent_capabilities s)"
| "step_ok (CallStep s) = (call_pipeline s \<noteq> [] \<and> pass_ok (call_pass s))"
| "step_ok (MatchStep s) =
     (expr_ok (match_on s) \<and> match_cases s \<noteq> [] \<and> distinct (map fst (match_cases s))
      \<and> list_all (\<lambda>(_, k). case_ok k) (match_cases s) \<and> opt_all case_ok (match_default s))"
| "step_ok (FoldStep init do' out ls max_items) =
     (expr_ok init \<and> step_ok do' \<and> out \<noteq> [] \<and> source_ok ls \<and> opt_all ((<) 0) max_items)"
| "step_ok (ForEachStep do' collect oe ls max_parallel out) =
     (step_ok do' \<and> step_ok collect \<and> policy_text oe \<and> source_ok ls \<and> opt_all ((<) 0) max_parallel)"
| "step_ok (ParallelStep branches collect oe out) =
     (branches \<noteq> [] \<and> distinct (map fst branches) \<and> PARALLEL_BRANCH_ERRORS_KEY \<notin> set (map fst branches)
      \<and> list_all (\<lambda>b. step_ok (snd b)) branches \<and> step_ok collect \<and> policy_text oe)"

definition pipeline_ok :: "pipeline \<Rightarrow> bool" where
  "pipeline_ok p \<longleftrightarrow>
     pipe_name p \<noteq> [] \<and> CHR ''.'' \<notin> set (pipe_name p) \<and> steps p \<noteq> [] \<and> list_all step_ok (steps p)"

text \<open>A mapping of the YAML loader is a Python dictionary: its keys are distinct.\<close>

fun yval_ok :: "yval \<Rightarrow> bool" where
  "yval_ok (YMap d) = (distinct (map fst d) \<and> list_all (\<lambda>(_, v). yval_ok v) d)"
| "yval_ok (YList xs) = list_all yval_ok xs"
| "yval_ok _ = True"

subsection \<open>The parts\<close>

lemma dsl_fail_Inr [simp]: "dsl_fail r \<noteq> Inr x" by (simp add: dsl_fail_def)

lemma yget_ok: "yval_ok (YMap d) \<Longrightarrow> yget d k = Some v \<Longrightarrow> yval_ok v"
  unfolding yget_def by (auto simp: list_all_iff dest!: map_of_SomeD)

lemma yget_or_null_ok: "yval_ok (YMap d) \<Longrightarrow> yval_ok (yget_or_null d k)"
  using yget_ok by (auto simp: yget_or_null_def split: option.split simp del: yval_ok.simps(1))

lemma required_Inr: "required d w k = Inr v \<longleftrightarrow> yget d k = Some v"
  by (auto simp: required_def split: option.splits)

lemma validate_ok: "validate_expr_source v w = Inr s \<Longrightarrow> expr_ok s"
  by (auto simp: validate_expr_source_def expr_ok_def split: yval.splits sum.splits parse_exc.splits)

lemma literal_name_ok: "literal_name v w k = Inr s \<Longrightarrow> s \<noteq> []"
  by (auto simp: literal_name_def split: yval.splits list.splits)

lemma traverse_all: "traverse f xs = Inr ys \<Longrightarrow> (\<And>x y. x \<in> set xs \<Longrightarrow> f x = Inr y \<Longrightarrow> P y) \<Longrightarrow> list_all P ys"
proof (induction xs arbitrary: ys)
  case (Cons x xs)
  from Cons.prems(1) obtain y zs where y: "ys = y # zs" "f x = Inr y" "traverse f xs = Inr zs" by auto
  have "P y" by (rule Cons.prems(2) [OF _ y(2)]) simp
  moreover have "list_all P zs" by (rule Cons.IH [OF y(3)]) (rule Cons.prems(2), simp_all)
  ultimately show ?case by (simp add: y(1))
qed simp

lemma traverse_keys:
  "traverse f xs = Inr ys \<Longrightarrow> (\<And>x y. f x = Inr y \<Longrightarrow> fst x = YStr (fst y)) \<Longrightarrow> map fst xs = map (\<lambda>y. YStr (fst y)) ys"
  by (induction xs arbitrary: ys) auto

lemma traverse_distinct:
  assumes "traverse f xs = Inr ys" and "\<And>x y. f x = Inr y \<Longrightarrow> fst x = YStr (fst y)" and "distinct (map fst xs)"
  shows "distinct (map fst ys)"
proof -
  have "map YStr (map fst ys) = map fst xs" using traverse_keys [OF assms(1,2)] by simp
  then have "distinct (map YStr (map fst ys))" using assms(3) by metis
  then show ?thesis using distinct_map [of YStr "map fst ys"] by blast
qed

lemma pass_entries_ok: "parse_pass_entries v w = Inr es \<Longrightarrow> pass_ok es"
  unfolding parse_pass_entries_def pass_ok_def
  by (auto split: yval.splits elim!: traverse_all simp: pass_entry_def split: list.splits dest: validate_ok)

lemma match_case_ok: "parse_match_case v = Inr k \<Longrightarrow> case_ok k"
  by (auto simp: parse_match_case_def case_ok_def split: yval.splits dest: pass_entries_ok literal_name_ok)

lemma parse_source_ok: "parse_source d w = Inr ls \<Longrightarrow> source_ok ls"
  unfolding parse_source_def source_ok_def parse_over_def parse_items_def yget_or_null_def
  by (auto split: if_splits option.splits yval.splits dest: validate_ok)

lemma positive_ok: "positive_int d w k = Inr i \<Longrightarrow> opt_all ((<) 0) i"
  by (auto simp: positive_int_def split: yval.splits if_splits)

lemma needed_policy_ok: "needed_policy v w = Inr s \<Longrightarrow> policy_text s"
  by (auto simp: needed_policy_def split: yval.splits if_splits)

lemma checked_policy_ok: "checked_policy d w = Inr s \<Longrightarrow> opt_all policy_text s"
  by (auto simp: checked_policy_def split: yval.splits if_splits)

lemmas part_ok = validate_ok literal_name_ok pass_entries_ok match_case_ok parse_source_ok positive_ok needed_policy_ok
  checked_policy_ok

lemma arg_entry_key: "arg_entry kv = Inr y \<Longrightarrow> fst kv = YStr (fst y)"
  by (auto simp: arg_entry_def)

lemma arg_entry_ok: "arg_entry kv = Inr y \<Longrightarrow> arg_ok (snd y)"
  by (auto simp: arg_entry_def resolve_arg_value_def arg_ok_def split: yval.splits dest!: validate_ok)

lemma case_key: "labelled_case kv = Inr y \<Longrightarrow> fst kv = YStr (fst y)"
  by (auto simp: labelled_case_def)

lemma branch_key: "branch_entry ps kv = Inr y \<Longrightarrow> fst kv = YStr (fst y)"
  by (auto simp: branch_entry_def)

lemma transform_ok: "parse_transform_step d = Inr s \<Longrightarrow> step_ok s"
  by (auto simp: parse_transform_step_def dest: part_ok)

lemma or_empty_map: "or_empty v = YMap d \<Longrightarrow> v = YMap d \<or> d = []"
  by (auto simp: or_empty_def split: if_splits)

lemma tool_ok:
  assumes "parse_tool_step d = Inr s" and "yval_ok (YMap d)"
  shows "step_ok s"
proof -
  from assms(1) obtain n args sch oe out e where
    a: "or_empty (yget_or_null d ''args'') = YMap e" "traverse arg_entry e = Inr args" and oe: "checked_policy d ''tool'' = Inr oe"
    and s: "s = ToolStep \<lparr>tool_name = n, tool_args = args, tool_output = out, tool_schema = sch, tool_on_error = oe\<rparr>"
    by (auto simp: parse_tool_step_def)
  have "distinct (map fst e)"
    using or_empty_map [OF a(1)] yget_or_null_ok [OF assms(2), of "''args''"] by auto
  then have "distinct (map fst args)" using traverse_distinct [OF a(2) arg_entry_key] by blast
  moreover have "list_all (\<lambda>(_, a). arg_ok a) args"
    using traverse_all [OF a(2), of "\<lambda>(_, a). arg_ok a"] arg_entry_ok by fastforce
  ultimately show ?thesis using checked_policy_ok [OF oe] by (simp add: s)
qed

lemma those_strs: "list_all str_key ts \<Longrightarrow> those (map to_pyval ts) = Some vs \<Longrightarrow> list_all is_str vs"
proof (induction ts arbitrary: vs)
  case (Cons t ts)
  then show ?case by (cases t) (auto split: option.splits)
qed simp

lemma agent_ok: "parse_agent_step d = Inr s \<Longrightarrow> step_ok s"
  by (auto simp: parse_agent_step_def parse_capabilities_def representable_def
      split: yval.splits option.splits if_splits intro: those_strs)

lemma call_ok: "parse_call_step d = Inr s \<Longrightarrow> step_ok s"
  by (auto simp: parse_call_step_def dest: part_ok)

lemma match_ok:
  assumes "parse_match_step d = Inr s" and "yval_ok (YMap d)"
  shows "step_ok s"
proof -
  from assms(1) obtain on e cases default out where
    on: "expr_ok on" and c: "yget_or_null d ''cases'' = YMap e" "e \<noteq> []" "traverse labelled_case e = Inr cases"
    and df: "parse_default d = Inr default"
    and s: "s = MatchStep \<lparr>match_on = on, match_cases = cases, match_default = default, match_output = out\<rparr>"
    by (auto simp: parse_match_step_def split: if_splits dest: validate_ok)
  have "opt_all case_ok default"
    using df by (auto simp: parse_default_def split: yval.splits dest: match_case_ok)
  moreover have "distinct (map fst cases)"
    using yget_or_null_ok [OF assms(2), of "''cases''"] c(1) traverse_distinct [OF c(3) case_key] by auto
  moreover have "list_all (\<lambda>(_, k). case_ok k) cases"
    using traverse_all [OF c(3), of "\<lambda>(_, k). case_ok k"]
    by (fastforce simp: labelled_case_def dest: match_case_ok)
  moreover have "cases \<noteq> []" using traverse_length [OF c(3)] c(2) by auto
  ultimately show ?thesis using on by (simp add: s)
qed

text \<open>The nesting kinds, given a parser of the steps inside.\<close>

definition sound_below :: "ydict \<Rightarrow> (yval \<Rightarrow> step dsl) \<Rightarrow> bool" where
  "sound_below d ps \<longleftrightarrow> (\<forall>v s. size v < size (YMap d) \<longrightarrow> yval_ok v \<longrightarrow> ps v = Inr s \<longrightarrow> step_ok s)"

lemma sound_required:
  "sound_below d ps \<Longrightarrow> yval_ok (YMap d) \<Longrightarrow> rbind (required d w k) ps = Inr s \<Longrightarrow> step_ok s"
proof -
  assume a: "sound_below d ps" "yval_ok (YMap d)" "rbind (required d w k) ps = Inr s"
  from a(3) obtain v where v: "yget d k = Some v" "ps v = Inr s" by (auto simp: required_Inr)
  from a(1) yget_size [OF v(1)] yget_ok [OF a(2) v(1)] v(2) show ?thesis unfolding sound_below_def by blast
qed

lemma fold_ok:
  assumes "parse_fold_step ps d = Inr s" and "yval_ok (YMap d)" and "sound_below d ps"
  shows "step_ok s"
proof -
  from assms(1) obtain source i init do' out mx where
    p: "parse_source d ''fold'' = Inr source" "validate_expr_source i ''fold'' = Inr init" "rbind (required d ''fold'' ''do'') ps = Inr do'"
      "literal_name (yget_or_null d ''output'') ''fold'' ''output'' = Inr out"
      "positive_int d ''fold'' ''max_items'' = Inr mx" and s: "s = FoldStep init do' out source mx"
    by (auto simp: parse_fold_step_def)
  show ?thesis using parse_source_ok [OF p(1)] validate_ok [OF p(2)] literal_name_ok [OF p(4)] sound_required [OF assms(3,2) p(3)] positive_ok [OF p(5)] by (simp add: s)
qed

lemma for_each_ok:
  assumes "parse_for_each_step ps d = Inr s" and "yval_ok (YMap d)" and "sound_below d ps"
  shows "step_ok s"
proof -
  from assms(1) obtain source oe do' collect mp out where
    p: "parse_source d ''for_each'' = Inr source" "policy_text oe" "rbind (required d ''for_each'' ''do'') ps = Inr do'"
      "rbind (required d ''for_each'' ''collect'') ps = Inr collect" "positive_int d ''for_each'' ''max_parallel'' = Inr mp"
    and s: "s = ForEachStep do' collect oe source mp out"
    by (auto simp: parse_for_each_step_def dest: needed_policy_ok)
  show ?thesis
    using parse_source_ok [OF p(1)] p(2) sound_required [OF assms(3,2) p(3)] sound_required [OF assms(3,2) p(4)] positive_ok [OF p(5)]
    by (simp add: s)
qed

lemma parallel_ok:
  assumes "parse_parallel_step ps d = Inr s" and "yval_ok (YMap d)" and "sound_below d ps"
  shows "step_ok s"
proof -
  from assms(1) obtain branches oe collect out e where
    b: "yget_or_null d ''branches'' = YMap e" "e \<noteq> []" "YStr PARALLEL_BRANCH_ERRORS_KEY \<notin> set (map fst e)"
      "traverse (branch_entry ps) e = Inr branches"
    and p: "policy_text oe" "rbind (required d ''parallel'' ''collect'') ps = Inr collect"
    and s: "s = ParallelStep branches collect oe out"
    by (auto simp: parse_parallel_step_def parse_branches_def split: if_splits dest: needed_policy_ok)
  have e: "yval_ok (YMap e)" using yget_or_null_ok [OF assms(2), of "''branches''"] b(1) by simp
  have sz: "size (snd kv) < size (YMap d)" if "kv \<in> set e" for kv
  proof -
    have "yget d ''branches'' = Some (YMap e)" using b(1) by (auto simp: yget_or_null_def split: option.splits)
    from yget_size [OF this] entry_size [OF that] show ?thesis by linarith
  qed
  have "list_all (\<lambda>b. step_ok (snd b)) branches"
    using b(4)
  proof (rule traverse_all)
    fix kv y assume kv: "kv \<in> set e" "branch_entry ps kv = Inr y"
    then obtain z where "ps (snd kv) = Inr z" "snd y = z" by (auto simp: branch_entry_def)
    moreover have "yval_ok (snd kv)" using e kv(1) by (auto simp: list_all_iff)
    ultimately show "step_ok (snd y)" using assms(3) sz [OF kv(1)] by (auto simp: sound_below_def)
  qed
  moreover have k: "map fst e = map (\<lambda>y. YStr (fst y)) branches" using traverse_keys [OF b(4) branch_key] .
  then have "PARALLEL_BRANCH_ERRORS_KEY \<notin> set (map fst branches)" using b(3) unfolding k by auto
  moreover have "distinct (map fst branches)" using traverse_distinct [OF b(4) branch_key] e by simp
  moreover have "branches \<noteq> []" using traverse_length [OF b(4)] b(2) by auto
  ultimately show ?thesis using p(1) sound_required [OF assms(3,2) p(2)] by (simp add: s)
qed

lemma parse_step_sound: "parse_step raw = Inr s \<Longrightarrow> yval_ok raw \<Longrightarrow> step_ok s"
proof (induction raw arbitrary: s rule: measure_induct_rule [where f = size])
  case (less raw)
  from less.prems(1) obtain k d where raw: "raw = YMap [(YStr k, YMap d)]"
    and k: "k \<in> {''fold'', ''for_each'', ''parallel'', ''transform'', ''tool'', ''agent'', ''call'', ''match''}"
    by (subst (asm) parse_step.simps) (auto split: yval.splits list.splits prod.splits if_splits)
  have d: "yval_ok (YMap d)" using less.prems(2) by (simp add: raw)
  have "sound_below d parse_step"
    unfolding sound_below_def
  proof (intro allI impI)
    fix v t assume "size v < size (YMap d)" "yval_ok v" "parse_step v = Inr t"
    then show "step_ok t" by (intro less.IH) (simp_all add: raw)
  qed
  note nested = fold_ok [OF _ d this] for_each_ok [OF _ d this] parallel_ok [OF _ d this]
  show ?case
    using less.prems(1) k nested tool_ok [OF _ d] match_ok [OF _ d] transform_ok agent_ok call_ok
    by (subst (asm) parse_step.simps) (auto simp: raw)
qed

lemma pipeline_doc_ok:
  assumes "parse_pipeline_doc d = Inr p" and "yval_ok (YMap d)"
  shows "pipeline_ok p"
proof -
  from assms(1) obtain name descr raw ss where
    n: "literal_name (yget_or_null d ''pipeline'') ''pipeline'' ''pipeline'' = Inr name" "CHR ''.'' \<notin> set name"
    and r: "yget_or_null d ''steps'' = YList raw" "raw \<noteq> []" "traverse parse_step raw = Inr ss"
    and p: "p = \<lparr>steps = ss, description = descr, pipe_name = name\<rparr>"
    by (auto simp: parse_pipeline_doc_def simp del: traverse.simps split: if_splits yval.splits list.splits)
  have "list_all yval_ok raw" using yget_or_null_ok [OF assms(2), of "''steps''"] by (simp add: r(1))
  then have "list_all step_ok ss"
    by (intro traverse_all [OF r(3)]) (auto simp: list_all_iff intro: parse_step_sound)
  then show ?thesis
    using literal_name_ok [OF n(1)] n(2) r(2) traverse_length [OF r(3)] by (auto simp: p pipeline_ok_def)
qed

lemma unclassified_Inr [simp]: "unclassified d \<noteq> Inr x"
  by (auto simp: unclassified_def split: list.splits)

lemma classify_ok:
  "classify_docs docs S = (Inr ds, S') \<Longrightarrow> list_all yval_ok docs \<Longrightarrow> \<forall>d\<in>set ds. yval_ok (YMap d)"
proof (induction docs S arbitrary: ds S' rule: classify_docs.induct)
  case (3 d docs S)
  from 3(3) show ?case
    using 3(1,2,4) by (auto split: if_splits prod.splits sum.splits)
qed (auto simp: dsl_fail_def)

lemma check_duplicates_Inr: "check_duplicates seen ps = Inr () \<longleftrightarrow> distinct (map pipe_name ps) \<and> set (map pipe_name ps) \<inter> set seen = {}"
  by (induction seen ps rule: check_duplicates.induct) (auto simp: dsl_fail_def)

lemma parse_docs_sound:
  assumes "parse_docs docs S = (Inr ps, S')" and "list_all yval_ok docs"
  shows "ps \<noteq> [] \<and> distinct (map pipe_name ps) \<and> list_all pipeline_ok ps"
proof -
  from assms(1) obtain ds where c: "classify_docs docs S = (Inr ds, S')" "ds \<noteq> []"
    and t: "traverse parse_pipeline_doc ds = Inr ps" "check_duplicates [] ps = Inr ()"
    by (auto simp: parse_docs_def split: prod.splits sum.splits if_splits)
  have "list_all pipeline_ok ps"
    by (rule traverse_all [OF t(1)]) (auto intro: pipeline_doc_ok dest: classify_ok [OF c(1) assms(2), rule_format])
  then show ?thesis using c(2) traverse_length [OF t(1)] t(2) by (auto simp: check_duplicates_Inr)
qed

text \<open>C39: Whatever documents the parser accepts hold at least one pipeline; the names are distinct,
  not empty and without the separator; and all steps are well-formed, however deeply nested: every
  expression in them parses, every error policy is one the executor knows, list sources are
  unambiguous and bounds positive.\<close>

theorem parse_docs_ok:
  assumes "parse_docs docs S = (Inr ps, S')" and "list_all yval_ok docs"
  shows "ps \<noteq> [] \<and> distinct (map pipe_name ps) \<and> list_all pipeline_ok ps"
  using parse_docs_sound [OF assms] .

subsection \<open>Every well-formed step can be written\<close>

definition opt_entry :: "string \<Rightarrow> ('a \<Rightarrow> yval) \<Rightarrow> 'a option \<Rightarrow> ydict" where
  "opt_entry k f x = (case x of None \<Rightarrow> [] | Some v \<Rightarrow> [(YStr k, f v)])"

definition doc_of_arg :: "arg_value \<Rightarrow> yval" where
  "doc_of_arg a = (case a of ExprRef e \<Rightarrow> YTag e | Literal_arg v \<Rightarrow> of_pyval v)"

definition doc_of_pass :: "pass_entries \<Rightarrow> yval" where
  "doc_of_pass es = YMap (map (\<lambda>(n, e). (YStr n, YStr e)) es)"

definition doc_of_case :: "match_case \<Rightarrow> yval" where
  "doc_of_case k = YMap [(YStr ''pipeline'', YStr (case_pipeline k)), (YStr ''pass'', doc_of_pass (case_pass k))]"

definition doc_of_source :: "list_source \<Rightarrow> ydict" where
  "doc_of_source ls = opt_entry ''over'' YStr (over ls) @ opt_entry ''items'' (\<lambda>xs. YList (map of_pyval xs)) (items ls)"

fun doc_of_step :: "step \<Rightarrow> yval" where
  "doc_of_step (TransformStep s) = YMap [(YStr ''transform'', YMap (
     [(YStr ''value'', YStr (tr_value s))] @ opt_entry ''output'' YStr (tr_output s)))]"
| "doc_of_step (ToolStep s) = YMap [(YStr ''tool'', YMap (
     [(YStr ''name'', YStr (tool_name s)), (YStr ''args'', YMap (map (\<lambda>(k, a). (YStr k, doc_of_arg a)) (tool_args s)))]
     @ opt_entry ''schema'' YStr (tool_schema s) @ opt_entry ''on_error'' YStr (tool_on_error s)
     @ opt_entry ''output'' YStr (tool_output s)))]"
| "doc_of_step (AgentStep s) = YMap [(YStr ''agent'', YMap (
     [(YStr ''prompt'', YStr (agent_prompt s))] @ opt_entry ''identity'' YStr (agent_identity s)
     @ opt_entry ''capabilities'' (\<lambda>ts. YMap [(YStr ''tools'', YList (map of_pyval ts))]) (agent_capabilities s)
     @ opt_entry ''schema'' YStr (agent_schema s) @ opt_entry ''model'' YStr (agent_model s)
     @ opt_entry ''output'' YStr (agent_output s)))]"
| "doc_of_step (CallStep s) = YMap [(YStr ''call'', YMap (
     [(YStr ''pipeline'', YStr (call_pipeline s)), (YStr ''pass'', doc_of_pass (call_pass s))]
     @ opt_entry ''output'' YStr (call_output s)))]"
| "doc_of_step (MatchStep s) = YMap [(YStr ''match'', YMap (
     [(YStr ''on'', YStr (match_on s)), (YStr ''cases'', YMap (map (\<lambda>(l, k). (YStr l, doc_of_case k)) (match_cases s)))]
     @ opt_entry ''default'' doc_of_case (match_default s) @ opt_entry ''output'' YStr (match_output s)))]"
| "doc_of_step (FoldStep init do' out ls max_items) = YMap [(YStr ''fold'', YMap (
     doc_of_source ls @ [(YStr ''init'', YStr init), (YStr ''do'', doc_of_step do'), (YStr ''output'', YStr out)]
     @ opt_entry ''max_items'' YInt max_items))]"
| "doc_of_step (ForEachStep do' collect oe ls max_parallel out) = YMap [(YStr ''for_each'', YMap (
     doc_of_source ls @ [(YStr ''on_error'', YStr oe), (YStr ''do'', doc_of_step do'), (YStr ''collect'', doc_of_step collect)]
     @ opt_entry ''max_parallel'' YInt max_parallel @ opt_entry ''output'' YStr out))]"
| "doc_of_step (ParallelStep branches collect oe out) = YMap [(YStr ''parallel'', YMap (
     [(YStr ''branches'', YMap (map (\<lambda>b. (YStr (fst b), doc_of_step (snd b))) branches)),
      (YStr ''collect'', doc_of_step collect), (YStr ''on_error'', YStr oe)] @ opt_entry ''output'' YStr out))]"

definition doc_of_pipeline :: "pipeline \<Rightarrow> yval" where
  "doc_of_pipeline p = YMap [(YStr ''pipeline'', YStr (pipe_name p)), (YStr ''description'', YStr (description p)),
     (YStr ''steps'', YList (map doc_of_step (steps p)))]"

lemma those_all: "(\<And>x. x \<in> set xs \<Longrightarrow> f x = Some (g x)) \<Longrightarrow> those (map f xs) = Some (map g xs)"
  by (induction xs) auto

lemma to_of_pyval [simp]: "to_pyval (of_pyval v) = Some v"
proof (induction v)
  case (VList xs)
  then show ?case using those_all [of xs "to_pyval \<circ> of_pyval" id] by simp
next
  case (VDict d)
  let ?f = "\<lambda>kv. case (case kv of (k, v) \<Rightarrow> (YStr k, of_pyval v)) of (YStr s, v) \<Rightarrow> map_option (Pair s) (to_pyval v) | (_, v) \<Rightarrow> None"
  have "those (map ?f d) = Some (map id d)"
  proof (rule those_all)
    fix kv assume "kv \<in> set d"
    moreover obtain k v where kv: "kv = (k, v)" by (cases kv)
    ultimately have "to_pyval (of_pyval v) = Some v" using VDict [of kv v] by simp
    then show "?f kv = Some (id kv)" by (simp add: kv)
  qed
  then show ?case by (simp add: comp_def)
qed simp_all

lemma those_of [simp]: "those (map (to_pyval \<circ> of_pyval) xs) = Some xs"
  by (induction xs) auto

lemma no_tag [simp]: "\<not> has_tag (of_pyval v)"
  by (induction v) (auto simp: list_ex_iff)

lemma option_keep [simp]: "(case x of None \<Rightarrow> None | Some v \<Rightarrow> Some v) = x"
  "case_option None (Some \<circ> f) x = map_option f x" "(case x of None \<Rightarrow> None | Some v \<Rightarrow> Some (f v)) = map_option f x"
  by (cases x; simp)+

lemma yget_append: "yget (d @ e) k = (case yget d k of None \<Rightarrow> yget e k | Some v \<Rightarrow> Some v)"
  by (auto simp: yget_def map_add_def split: option.splits)

lemma yget_opt: "yget (opt_entry k f x) k' = (if k' = k then map_option f x else None)"
  by (simp add: yget_def opt_entry_def split: option.split)

lemma yget_Cons: "yget ((YStr k, v) # d) k' = (if k' = k then Some v else yget d k')"
  by (simp add: yget_def)

lemma yget_Nil: "yget [] k = None" by (simp add: yget_def)

lemma yget_source: "yget (doc_of_source ls) k = (if k = ''over'' then map_option YStr (over ls)
    else if k = ''items'' then map_option (\<lambda>xs. YList (map of_pyval xs)) (items ls) else None)"
  by (simp add: doc_of_source_def yget_append yget_opt split: option.split)

lemmas yget_simps = yget_append yget_opt yget_Cons yget_Nil yget_source

lemma known_keys: "list_all (\<lambda>k. k \<in> YStr ` set allowed) (map fst d) \<Longrightarrow> reject_unknown_keys d allowed w = Inr ()"
  by (auto simp: reject_unknown_keys_def Let_def filter_empty_conv list_all_iff)

lemma keys_opt: "list_all P (map fst (opt_entry k f x)) \<longleftrightarrow> x = None \<or> P (YStr k)"
  by (auto simp: opt_entry_def split: option.split)

lemma keys_source: "P (YStr ''over'') \<Longrightarrow> P (YStr ''items'') \<Longrightarrow> list_all P (map fst (doc_of_source ls))"
  by (simp add: doc_of_source_def keys_opt)

lemmas written_keys = known_keys keys_opt keys_source

lemma validate_str: "expr_ok s \<Longrightarrow> validate_expr_source (YStr s) w = Inr s"
  by (auto simp: expr_ok_def validate_expr_source_def split: sum.splits)

lemma checked_str_opt: "yget d k = map_option YStr x \<Longrightarrow> checked_str d w k = Inr x"
  by (cases x) (simp_all add: checked_str_def yget_or_null_def)

lemma unchecked_str_opt: "yget d k = map_option YStr x \<Longrightarrow> unchecked_str d k = Inr x"
  by (cases x) (simp_all add: unchecked_str_def yget_or_null_def)

lemma checked_policy_opt: "yget d ''on_error'' = map_option YStr x \<Longrightarrow> opt_all policy_text x \<Longrightarrow> checked_policy d w = Inr x"
  by (cases x) (simp_all add: checked_policy_def yget_or_null_def)

lemma positive_opt: "yget d k = map_option YInt x \<Longrightarrow> opt_all ((<) 0) x \<Longrightarrow> positive_int d w k = Inr x"
  by (cases x) (simp_all add: positive_int_def yget_or_null_def)

lemma literal_written: "s \<noteq> [] \<Longrightarrow> literal_name (YStr s) w k = Inr s"
  by (cases s) (simp_all add: literal_name_def)

lemma pass_written: "pass_ok es \<Longrightarrow> parse_pass_entries (or_empty (doc_of_pass es)) w = Inr es"
proof -
  assume "pass_ok es"
  then have "traverse (pass_entry w) (map (\<lambda>(n, e). (YStr n, YStr e)) es) = Inr es"
    by (induction es) (auto simp: pass_ok_def pass_entry_def validate_str split: list.split)
  then show ?thesis by (cases es) (auto simp: doc_of_pass_def or_empty_def y_truthy_def parse_pass_entries_def)
qed

lemma case_written: "case_ok k \<Longrightarrow> parse_match_case (doc_of_case k) = Inr k"
  by (simp add: parse_match_case_def doc_of_case_def case_ok_def written_keys required_def yget_simps yget_or_null_def
      literal_written pass_written)

lemma source_written:
  assumes "source_ok ls" and "yget d ''over'' = map_option YStr (over ls)"
    and "yget d ''items'' = map_option (\<lambda>xs. YList (map of_pyval xs)) (items ls)"
  shows "parse_source d w = Inr ls"
  using assms
  by (cases ls; cases "over ls"; cases "items ls")
    (simp_all add: parse_source_def parse_over_def parse_items_def yget_source yget_or_null_def source_ok_def validate_str
      reject_nested_expr_tag_def list_ex_iff representable_def)

lemma resolve_untagged:
  "\<not> has_tag v \<Longrightarrow> resolve_arg_value v w = rbind (representable (to_pyval v)) (\<lambda>x. Inr (Literal_arg x))"
  by (cases v) (simp_all add: resolve_arg_value_def reject_nested_expr_tag_def)

lemma args_written: "list_all (\<lambda>(_, a). arg_ok a) as \<Longrightarrow> traverse arg_entry (map (\<lambda>(k, a). (YStr k, doc_of_arg a)) as) = Inr as"
proof (induction as)
  case (Cons ka as)
  obtain k a where ka: "ka = (k, a)" by (cases ka)
  have "resolve_arg_value (doc_of_arg a) ''tool'' = Inr a"
  proof (cases a)
    case (Literal_arg v)
    then show ?thesis
      by (simp add: doc_of_arg_def resolve_untagged representable_def)
  qed (use Cons.prems ka in \<open>simp add: doc_of_arg_def resolve_arg_value_def arg_ok_def validate_str\<close>)
  with Cons show ?case by (simp add: ka arg_entry_def need_str_def)
qed simp

lemma transform_written: "step_ok (TransformStep s) \<Longrightarrow> parse_step (doc_of_step (TransformStep s)) = Inr (TransformStep s)"
  by (subst parse_step.simps)
    (simp cong: option.case_cong add: parse_transform_step_def required_def yget_simps written_keys validate_str unchecked_str_opt [where x = "tr_output s"])

lemma tool_written: "step_ok (ToolStep s) \<Longrightarrow> parse_step (doc_of_step (ToolStep s)) = Inr (ToolStep s)"
proof -
  assume "step_ok (ToolStep s)"
  then have ok: "list_all (\<lambda>(_, a). arg_ok a) (tool_args s)" "opt_all policy_text (tool_on_error s)" by simp_all
  have or: "or_empty (YMap d) = YMap d" for d by (simp add: or_empty_def y_truthy_def)
  show ?thesis
    using ok
    by (subst parse_step.simps)
      (simp cong: option.case_cong add: parse_tool_step_def required_def yget_simps written_keys need_str_def need_map_def yget_or_null_def or args_written
        checked_str_opt [where k = "''schema''" and x = "tool_schema s"] checked_policy_opt [where x = "tool_on_error s"]
        unchecked_str_opt [where x = "tool_output s"])
qed

lemma strs_written: "list_all is_str ts \<Longrightarrow> list_all str_key (map of_pyval ts)"
proof (induction ts)
  case (Cons t ts)
  then show ?case by (cases t) simp_all
qed simp

lemma capabilities_written:
  "opt_all (list_all is_str) ts \<Longrightarrow>
    yget d ''capabilities'' = map_option (\<lambda>ts. YMap [(YStr ''tools'', YList (map of_pyval ts))]) ts \<Longrightarrow> parse_capabilities d = Inr ts"
  using strs_written by (cases ts) (simp_all add: parse_capabilities_def yget_or_null_def yget_simps representable_def)

lemma agent_written: "step_ok (AgentStep s) \<Longrightarrow> parse_step (doc_of_step (AgentStep s)) = Inr (AgentStep s)"
  by (subst parse_step.simps)
    (simp cong: option.case_cong add: parse_agent_step_def required_def yget_simps written_keys need_str_def
      checked_str_opt [where k = "''identity''" and x = "agent_identity s"] capabilities_written [where ts = "agent_capabilities s"]
      checked_str_opt [where k = "''schema''" and x = "agent_schema s"]
      checked_str_opt [where k = "''model''" and x = "agent_model s"] unchecked_str_opt [where x = "agent_output s"])

lemma call_written: "step_ok (CallStep s) \<Longrightarrow> parse_step (doc_of_step (CallStep s)) = Inr (CallStep s)"
  by (subst parse_step.simps)
    (simp cong: option.case_cong add: parse_call_step_def required_def yget_simps yget_or_null_def written_keys literal_written pass_written
      checked_str_opt [where k = "''output''" and x = "call_output s"])

lemma cases_written:
  "list_all (\<lambda>(_, k). case_ok k) cs \<Longrightarrow> traverse labelled_case (map (\<lambda>(l, k). (YStr l, doc_of_case k)) cs) = Inr cs"
  by (induction cs) (auto simp: labelled_case_def need_str_def case_written)

lemma default_written:
  "yget d ''default'' = map_option doc_of_case x \<Longrightarrow> opt_all case_ok x \<Longrightarrow> parse_default d = Inr x"
proof (cases x)
  case (Some k)
  assume "yget d ''default'' = map_option doc_of_case x" "opt_all case_ok x"
  with Some case_written [of k] show ?thesis by (simp add: parse_default_def yget_or_null_def doc_of_case_def)
qed (simp add: parse_default_def yget_or_null_def)

lemma match_written: "step_ok (MatchStep s) \<Longrightarrow> parse_step (doc_of_step (MatchStep s)) = Inr (MatchStep s)"
  by (subst parse_step.simps)
    (simp cong: option.case_cong add: parse_match_step_def required_def yget_simps yget_or_null_def written_keys need_map_def
      validate_str cases_written default_written [where x = "match_default s"]
      checked_str_opt [where k = "''output''" and x = "match_output s"])

lemma fold_written:
  "step_ok (FoldStep init do' out ls mx) \<Longrightarrow> parse_step (doc_of_step do') = Inr do' \<Longrightarrow>
    parse_step (doc_of_step (FoldStep init do' out ls mx)) = Inr (FoldStep init do' out ls mx)"
  by (subst parse_step.simps)
    (auto cong: option.case_cong simp: parse_fold_step_def required_def yget_simps yget_or_null_def written_keys validate_str literal_written
      source_written [where ls = ls] positive_opt [where k = "''max_items''" and x = mx] split: option.split)

lemma for_each_written:
  "step_ok (ForEachStep do' collect oe ls mp out) \<Longrightarrow> parse_step (doc_of_step do') = Inr do' \<Longrightarrow>
    parse_step (doc_of_step collect) = Inr collect \<Longrightarrow>
    parse_step (doc_of_step (ForEachStep do' collect oe ls mp out)) = Inr (ForEachStep do' collect oe ls mp out)"
  by (subst parse_step.simps)
    (auto cong: option.case_cong simp: parse_for_each_step_def required_def yget_simps yget_or_null_def written_keys needed_policy_def
      source_written [where ls = ls] positive_opt [where k = "''max_parallel''" and x = mp]
      checked_str_opt [where k = "''output''" and x = out] split: option.split)

lemma branches_written:
  "list_all (\<lambda>b. parse_step (doc_of_step (snd b)) = Inr (snd b)) bs \<Longrightarrow>
    traverse (branch_entry parse_step) (map (\<lambda>b. (YStr (fst b), doc_of_step (snd b))) bs) = Inr bs"
  by (induction bs) (auto simp: branch_entry_def need_str_def)

lemma parallel_written:
  "step_ok (ParallelStep branches collect oe out) \<Longrightarrow>
    list_all (\<lambda>b. parse_step (doc_of_step (snd b)) = Inr (snd b)) branches \<Longrightarrow> parse_step (doc_of_step collect) = Inr collect \<Longrightarrow>
    parse_step (doc_of_step (ParallelStep branches collect oe out)) = Inr (ParallelStep branches collect oe out)"
  by (subst parse_step.simps)
    (auto cong: option.case_cong simp: parse_parallel_step_def parse_branches_def required_def yget_simps yget_or_null_def written_keys
      needed_policy_def need_map_def branches_written image_image checked_str_opt [where k = "''output''" and x = out])

lemma step_written: "step_ok s \<Longrightarrow> parse_step (doc_of_step s) = Inr s"
proof (induction s)
  case (ParallelStep branches collect oe out)
  have "list_all (\<lambda>b. parse_step (doc_of_step (snd b)) = Inr (snd b)) branches"
    using ParallelStep by (fastforce simp: list_all_iff)
  with ParallelStep show ?case by (intro parallel_written) simp_all
next
  case (FoldStep init do' out ls mx)
  then show ?case by (intro fold_written) simp_all
next
  case (ForEachStep do' collect oe ls mp out)
  then show ?case by (intro for_each_written) simp_all
qed (blast intro: transform_written tool_written agent_written call_written match_written)+

lemma pipeline_written: "pipeline_ok p \<Longrightarrow> \<exists>d. doc_of_pipeline p = YMap d \<and> yget d ''schema'' = None
    \<and> yget d ''pipeline'' \<noteq> None \<and> parse_pipeline_doc d = Inr p"
proof -
  assume p: "pipeline_ok p"
  then have "traverse parse_step (map doc_of_step (steps p)) = Inr (steps p)"
    using step_written by (auto simp: traverse_Inr_iff pipeline_ok_def list_all2_conv_all_nth list_all_length)
  moreover obtain x xs where "steps p = x # xs" using p by (cases "steps p") (auto simp: pipeline_ok_def)
  ultimately show ?thesis
    using p by (auto simp: doc_of_pipeline_def parse_pipeline_doc_def yget_simps yget_or_null_def known_keys literal_written pipeline_ok_def)
qed

lemma classify_written:
  "list_all pipeline_ok ps \<Longrightarrow> \<exists>ds. classify_docs (map doc_of_pipeline ps) S = (Inr ds, S) \<and> length ds = length ps
    \<and> traverse parse_pipeline_doc ds = Inr ps"
proof (induction ps)
  case (Cons p ps)
  then obtain ds where ds: "classify_docs (map doc_of_pipeline ps) S = (Inr ds, S)" "length ds = length ps"
    "traverse parse_pipeline_doc ds = Inr ps" by auto
  from Cons.prems pipeline_written [of p] obtain d where
    "doc_of_pipeline p = YMap d" "yget d ''schema'' = None" "yget d ''pipeline'' \<noteq> None" "parse_pipeline_doc d = Inr p" by auto
  with ds show ?case by (intro exI [of _ "d # ds"]) simp
qed simp


definition sample_ps :: "pipeline list" where
  "sample_ps = [\<lparr>
     steps = [
       ForEachStep (ToolStep \<lparr>tool_name = ''t'', tool_args = [(''q'', ExprRef ''item''), (''n'', Literal_arg (VList [VInt 1]))],
           tool_output = None, tool_schema = Some ''S'', tool_on_error = Some ''retry(2)''\<rparr>)
         (TransformStep \<lparr>tr_value = ''pipe'', tr_output = None\<rparr>) ''continue'' \<lparr>over = Some ''ctx.xs'', items = None\<rparr>
         (Some 3) (Some ''r'')],
     description = ''d'', pipe_name = ''p''\<rparr>]"

lemma sample_ps_ok: "list_all pipeline_ok sample_ps" by code_simp

lemma sample_ps_side: "sample_ps \<noteq> []" "distinct (map pipe_name sample_ps)" by (simp_all add: sample_ps_def)


lemma sample_docs_ok: "list_all yval_ok (map doc_of_pipeline sample_ps)" by code_simp

lemma sample_parses: "parse_docs (map doc_of_pipeline sample_ps) [] = (Inr sample_ps, [])" by code_simp

theorem parse_docs_ok_witness: "distinct (map pipe_name sample_ps) \<and> list_all pipeline_ok sample_ps"
  using parse_docs_ok [OF sample_parses sample_docs_ok] by blast

text \<open>A document with two unknown keys Python cannot order, like \<open>a\<close> and \<open>1\<close>, does not give the
  parser's error: sorting the keys for the message raises \<open>TypeError\<close>.\<close>

theorem unknown_keys_type_error:
  "parse_step (YMap [(YStr ''transform'', YMap [(YStr ''value'', YStr ''1''), (YStr ''a'', YNull), (YInt 1, YNull)])])
     = Inl DslTypeError"
  by code_simp

end
