(* ===== verification/Loader.thy ===== *)
theory Loader
  imports DslFacts ExecFuel
begin

section \<open>Loading the configured pipelines\<close>

text \<open>
  \<open>src/reyn/data/pipelines/registry.py\<close>: from the entries of the configuration to the pipeline
  registry, with the namespacing of names and call targets.
  Reading a file is an argument (\<open>read\<close>: the text of an entry's path, or the exception), as is the
  YAML loader.
\<close>

subsection \<open>Namespaces\<close>

datatype load_reason =
    DottedKey
  | MissingPath
  | UnreadableFile
  | MalformedFile dsl_reason
  | UnresolvedSibling string
  | NoDeclaredName
  | GlobalNameTaken string

datatype load_exc =
    PipelineLoadError load_reason
  | LoadEscaped dsl_exc
  | LoadDecodeError
  | LoadRegistryRaised registry_exc

definition global_name :: "string \<Rightarrow> string \<Rightarrow> string" where
  "global_name key name = key @ ''.'' @ name"

definition resolve_ref :: "string \<Rightarrow> string \<Rightarrow> string list \<Rightarrow> load_exc + string" where
  "resolve_ref target key siblings =
     (if CHR ''.'' \<in> set target then Inr target
      else if target \<notin> set siblings then Inl (PipelineLoadError (UnresolvedSibling target))
      else Inr (global_name key target))"

definition namespace_case :: "string \<Rightarrow> string list \<Rightarrow> match_case \<Rightarrow> load_exc + match_case" where
  "namespace_case key siblings k =
     rbind (resolve_ref (case_pipeline k) key siblings) (\<lambda>t. Inr (k\<lparr>case_pipeline := t\<rparr>))"

definition namespace_labelled :: "string \<Rightarrow> string list \<Rightarrow> string \<times> match_case \<Rightarrow> load_exc + (string \<times> match_case)" where
  "namespace_labelled key siblings lk = rbind (namespace_case key siblings (snd lk)) (\<lambda>k. Inr (fst lk, k))"

definition namespace_default :: "string \<Rightarrow> string list \<Rightarrow> match_case option \<Rightarrow> load_exc + match_case option" where
  "namespace_default key siblings d =
     (case d of None \<Rightarrow> Inr None | Some k \<Rightarrow> rbind (namespace_case key siblings k) (\<lambda>k'. Inr (Some k')))"

fun namespace_step :: "string \<Rightarrow> string list \<Rightarrow> step \<Rightarrow> load_exc + step" where
  "namespace_step key siblings (CallStep s) =
     rbind (resolve_ref (call_pipeline s) key siblings) (\<lambda>t. Inr (CallStep (s\<lparr>call_pipeline := t\<rparr>)))"
| "namespace_step key siblings (MatchStep s) =
     rbind (traverse (namespace_labelled key siblings) (match_cases s)) (\<lambda>cases.
     rbind (namespace_default key siblings (match_default s)) (\<lambda>default.
       Inr (MatchStep (s\<lparr>match_cases := cases, match_default := default\<rparr>))))"
| "namespace_step key siblings (FoldStep init do' out ls max_items) =
     rbind (namespace_step key siblings do') (\<lambda>d. Inr (FoldStep init d out ls max_items))"
| "namespace_step key siblings (ForEachStep do' collect oe ls max_parallel out) =
     rbind (namespace_step key siblings do') (\<lambda>d.
     rbind (namespace_step key siblings collect) (\<lambda>c.
       Inr (ForEachStep d c oe ls max_parallel out)))"
| "namespace_step key siblings (ParallelStep branches collect oe out) =
     rbind (traverse (\<lambda>b. rbind (namespace_step key siblings (snd b)) (\<lambda>s. Inr (fst b, s))) branches) (\<lambda>bs.
     rbind (namespace_step key siblings collect) (\<lambda>c.
       Inr (ParallelStep bs c oe out)))"
| "namespace_step key siblings s = Inr s"

definition namespace_pipeline :: "pipeline \<Rightarrow> string \<Rightarrow> string list \<Rightarrow> load_exc + pipeline" where
  "namespace_pipeline p key siblings =
     rbind (traverse (namespace_step key siblings) (steps p)) (\<lambda>ss.
       Inr (p\<lparr>pipe_name := global_name key (pipe_name p), steps := ss\<rparr>))"

subsection \<open>One entry\<close>

text \<open>The first pass resolves and checks every pipeline of the file, the second registers them.\<close>

fun stage_all :: "string \<Rightarrow> string list \<Rightarrow> string list \<Rightarrow> pipeline list \<Rightarrow> load_exc + pipeline list" where
  "stage_all key siblings seen [] = Inr []"
| "stage_all key siblings seen (p # ps) =
     (if pipe_name p = [] then Inl (PipelineLoadError NoDeclaredName)
      else rbind (namespace_pipeline p key siblings) (\<lambda>q.
        if pipe_name q \<in> set seen then Inl (PipelineLoadError (GlobalNameTaken (pipe_name q)))
        else rbind (stage_all key siblings (pipe_name q # seen) ps) (\<lambda>qs. Inr (q # qs))))"

fun commit_all :: "schemas \<Rightarrow> pipeline list \<Rightarrow> schemas pipeline_registry \<Rightarrow> (load_exc + unit) \<times> schemas pipeline_registry" where
  "commit_all S [] reg = (Inr (), reg)"
| "commit_all S (p # ps) reg =
     (case register_pipeline (pipe_name p) p (Some S) reg of
        Inl e \<Rightarrow> (Inl (LoadRegistryRaised e), reg)
      | Inr reg' \<Rightarrow> commit_all S ps reg')"

datatype read_exc = OSError | UnicodeDecodeError

type_synonym reader = "string \<Rightarrow> read_exc + string"

definition entry_path_text :: "pyval dict \<Rightarrow> string" where
  "entry_path_text raw = (case dget raw ''path'' of None \<Rightarrow> [] | Some v \<Rightarrow> py_strip (if truthy v then py_str v else []))"

definition parse_entry ::
  "reader \<Rightarrow> (string \<Rightarrow> yaml_exc + yval list) \<Rightarrow> string \<Rightarrow> pyval dict \<Rightarrow> load_exc + pipeline list \<times> schemas" where
  "parse_entry read load_all key raw =
     (if CHR ''.'' \<in> set key then Inl (PipelineLoadError DottedKey)
      else if entry_path_text raw = [] then Inl (PipelineLoadError MissingPath)
      else (case read (entry_path_text raw) of
          Inl OSError \<Rightarrow> Inl (PipelineLoadError UnreadableFile)
        | Inl UnicodeDecodeError \<Rightarrow> Inl LoadDecodeError
        | Inr text \<Rightarrow>
            (case parse_pipeline_docs load_all text [] of
               (Inl (PipelineParseError r), _) \<Rightarrow> Inl (PipelineLoadError (MalformedFile r))
             | (Inl e, _) \<Rightarrow> Inl (LoadEscaped e)
             | (Inr ps, S) \<Rightarrow> Inr (ps, S))))"

definition load_one_entry ::
  "reader \<Rightarrow> (string \<Rightarrow> yaml_exc + yval list) \<Rightarrow> string \<Rightarrow> pyval dict \<Rightarrow> schemas pipeline_registry
    \<Rightarrow> (load_exc + unit) \<times> schemas pipeline_registry" where
  "load_one_entry read load_all key raw reg =
     (case parse_entry read load_all key raw of
        Inl e \<Rightarrow> (Inl e, reg)
      | Inr (ps, S) \<Rightarrow>
          (case stage_all key (map pipe_name ps) (pipeline_names reg) ps of
             Inl e \<Rightarrow> (Inl e, reg)
           | Inr qs \<Rightarrow> commit_all S qs reg))"

subsection \<open>All entries\<close>

text \<open>The loop keeps the failures it logs; what it does not catch ends it.\<close>

fun build_entries ::
  "reader \<Rightarrow> (string \<Rightarrow> yaml_exc + yval list) \<Rightarrow> bool \<Rightarrow> pyval dict \<Rightarrow> schemas pipeline_registry
    \<Rightarrow> load_exc + schemas pipeline_registry \<times> (string \<times> load_reason) list" where
  "build_entries read load_all strict [] reg = Inr (reg, [])"
| "build_entries read load_all strict ((key, raw) # es) reg =
     (case raw of
        VDict d \<Rightarrow>
          (if \<not> (case dget d ''enabled'' of None \<Rightarrow> True | Some v \<Rightarrow> truthy v)
           then build_entries read load_all strict es reg
           else
             (case load_one_entry read load_all key d reg of
                (Inr _, reg') \<Rightarrow> build_entries read load_all strict es reg'
              | (Inl (PipelineLoadError r), reg') \<Rightarrow>
                  if strict then Inl (PipelineLoadError r)
                  else rbind (build_entries read load_all strict es reg') (\<lambda>(res, log).
                    Inr (res, (key, r) # log))
              | (Inl e, _) \<Rightarrow> Inl e))
      | _ \<Rightarrow> build_entries read load_all strict es reg)"

definition build_pipeline_registry ::
  "reader \<Rightarrow> (string \<Rightarrow> yaml_exc + yval list) \<Rightarrow> bool \<Rightarrow> pyval option
    \<Rightarrow> load_exc + schemas pipeline_registry \<times> (string \<times> load_reason) list" where
  "build_pipeline_registry read load_all strict raw =
     (case raw of
        Some (VDict cfg) \<Rightarrow>
          (case dget cfg ''entries'' of
             Some (VDict es) \<Rightarrow> build_entries read load_all strict es empty_registry
           | _ \<Rightarrow> Inr (empty_registry, []))
      | _ \<Rightarrow> Inr (empty_registry, []))"

subsection \<open>Staging\<close>

lemma namespace_pipeline_name: "namespace_pipeline p key sib = Inr q \<Longrightarrow> pipe_name q = global_name key (pipe_name p)"
  by (auto simp: namespace_pipeline_def)

lemma stage_names:
  "stage_all key sib seen ps = Inr qs \<Longrightarrow>
     map pipe_name qs = map (\<lambda>p. global_name key (pipe_name p)) ps \<and> distinct (map pipe_name qs)
     \<and> set (map pipe_name qs) \<inter> set seen = {}"
proof (induction ps arbitrary: seen qs)
  case (Cons p ps)
  from Cons.prems obtain q rest where q: "namespace_pipeline p key sib = Inr q" "pipe_name q \<notin> set seen"
    "stage_all key sib (pipe_name q # seen) ps = Inr rest" "qs = q # rest"
    by (auto split: if_splits)
  from Cons.IH [OF q(3)] have m: "map pipe_name rest = map (\<lambda>p. global_name key (pipe_name p)) ps"
    and d: "distinct (map pipe_name rest)" and i: "set (map pipe_name rest) \<inter> set (pipe_name q # seen) = {}" by blast+
  have "distinct (map pipe_name qs)" "set (map pipe_name qs) \<inter> set seen = {}" using d i q(2,4) by auto
  then show ?case using m namespace_pipeline_name [OF q(1)] q(4) by simp
qed simp

lemma stage_mem:
  "stage_all key sib seen ps = Inr qs \<Longrightarrow> list_all2 (\<lambda>p q. namespace_pipeline p key sib = Inr q) ps qs"
proof (induction ps arbitrary: seen qs)
  case (Cons p ps)
  then show ?case by (auto split: if_splits)
qed simp

definition add_all :: "schemas \<Rightarrow> pipeline list \<Rightarrow> schemas pipeline_registry \<Rightarrow> schemas pipeline_registry" where
  "add_all S qs reg = reg\<lparr>pipelines := pipelines reg @ map (\<lambda>q. (pipe_name q, q)) qs,
     schema_registries := schema_registries reg @ map (\<lambda>q. (pipe_name q, Some S)) qs\<rparr>"

definition aligned :: "schemas pipeline_registry \<Rightarrow> bool" where
  "aligned reg \<longleftrightarrow> dkeys (schema_registries reg) = dkeys (pipelines reg) \<and> distinct (dkeys (pipelines reg))"

lemma commit_adds:
  "distinct (map pipe_name qs) \<Longrightarrow> set (map pipe_name qs) \<inter> set (pipeline_names reg) = {} \<Longrightarrow> aligned reg \<Longrightarrow>
    commit_all S qs reg = (Inr (), add_all S qs reg) \<and> aligned (add_all S qs reg)"
proof (induction qs arbitrary: reg)
  case Nil
  then show ?case by (simp add: add_all_def)
next
  case (Cons q qs)
  let ?r = "add_all S [q] reg"
  have n: "\<not> has_key (pipelines reg) (pipe_name q)" "\<not> has_key (schema_registries reg) (pipe_name q)"
    using Cons.prems(2,3) by (auto simp: pipeline_names_def has_key_dkeys aligned_def)
  have r: "register_pipeline (pipe_name q) q (Some S) reg = Inr ?r"
    using n by (simp add: register_pipeline_def add_all_def dset_new)
  have "pipeline_names ?r = pipeline_names reg @ [pipe_name q]"
    by (simp add: pipeline_names_def add_all_def dkeys_def)
  moreover have "aligned ?r" using Cons.prems(2,3) by (auto simp: aligned_def add_all_def dkeys_def pipeline_names_def)
  ultimately have "commit_all S qs ?r = (Inr (), add_all S qs ?r) \<and> aligned (add_all S qs ?r)"
    using Cons.prems by (intro Cons.IH) auto
  then show ?case using r by (simp add: add_all_def)
qed

lemma parse_entry_names: "parse_entry read load_all key raw = Inr (ps, S) \<Longrightarrow> CHR ''.'' \<notin> set key"
  by (auto simp: parse_entry_def split: if_splits)

text \<open>The outcome of an entry: nothing changes, or all its pipelines are there.\<close>

lemma load_cases:
  assumes "load_one_entry read load_all key raw reg = (res, reg')" and "aligned reg"
  shows "(\<exists>e. res = Inl e \<and> reg' = reg)
    \<or> (\<exists>ps S qs. res = Inr () \<and> parse_entry read load_all key raw = Inr (ps, S)
        \<and> list_all2 (\<lambda>p q. namespace_pipeline p key (map pipe_name ps) = Inr q) ps qs
        \<and> reg' = add_all S qs reg \<and> aligned reg')"
proof (cases "parse_entry read load_all key raw")
  case (Inl e)
  with assms(1) show ?thesis by (auto simp: load_one_entry_def)
next
  case (Inr r)
  obtain ps S where r: "r = (ps, S)" by (cases r)
  show ?thesis
  proof (cases "stage_all key (map pipe_name ps) (pipeline_names reg) ps")
    case Inl
    with assms(1) Inr r show ?thesis by (auto simp: load_one_entry_def)
  next
    case st: (Inr qs)
    have "commit_all S qs reg = (Inr (), add_all S qs reg)" "aligned (add_all S qs reg)"
      using stage_names [OF st] commit_adds [OF _ _ assms(2), of qs S] by blast+
    with assms(1) Inr r st stage_mem [OF st] show ?thesis by (auto simp: load_one_entry_def)
  qed
qed

subsection \<open>Call targets\<close>

lemma resolve_Inr:
  "resolve_ref t key sib = Inr t' \<longleftrightarrow>
     (if CHR ''.'' \<in> set t then t' = t else t \<in> set sib \<and> t' = global_name key t)"
  by (auto simp: resolve_ref_def)

lemma traverse_list_all: "traverse f xs = Inr ys \<Longrightarrow> list_all (\<lambda>x. \<forall>y. f x = Inr y \<longrightarrow> P x y) xs \<Longrightarrow> list_all2 P xs ys"
  by (induction xs arbitrary: ys) auto

lemma namespace_calls:
  "namespace_step key sib s = Inr s' \<Longrightarrow> list_all2 (\<lambda>t t'. resolve_ref t key sib = Inr t') (calls_of s) (calls_of s')"
proof (induction s arbitrary: s')
  case (MatchStep s)
  then obtain cases default where c: "traverse (namespace_labelled key sib) (match_cases s) = Inr cases"
    and d: "namespace_default key sib (match_default s) = Inr default"
    and s': "s' = MatchStep (s\<lparr>match_cases := cases, match_default := default\<rparr>)" by auto
  have k: "resolve_ref (case_pipeline k) key sib = Inr (case_pipeline k')" if "namespace_case key sib k = Inr k'" for k k'
    using that by (auto simp: namespace_case_def)
  have "list_all2 (\<lambda>lk lk'. resolve_ref (case_pipeline (snd lk)) key sib = Inr (case_pipeline (snd lk'))) (match_cases s) cases"
    using c by (rule traverse_list_all) (auto simp: list_all_iff namespace_labelled_def dest: k)
  then have "list_all2 (\<lambda>t t'. resolve_ref t key sib = Inr t')
      (map (\<lambda>(_, k). case_pipeline k) (match_cases s)) (map (\<lambda>(_, k). case_pipeline k) cases)"
    by (simp add: list_all2_map1 list_all2_map2 case_prod_unfold)
  then show ?case
    using d by (auto simp: s' match_targets_def namespace_default_def intro!: list_all2_appendI dest: k split: option.splits)
next
  case (ForEachStep do' collect oe ls mp out)
  then show ?case by (auto intro!: list_all2_appendI)
next
  case (ParallelStep branches collect oe out)
  from ParallelStep.prems obtain bs c where
    b: "traverse (\<lambda>b. rbind (namespace_step key sib (snd b)) (\<lambda>s. Inr (fst b, s))) branches = Inr bs"
    and c: "namespace_step key sib collect = Inr c" and s': "s' = ParallelStep bs c oe out" by auto
  have "list_all2 (\<lambda>x y. list_all2 (\<lambda>t t'. resolve_ref t key sib = Inr t') (calls_of (snd x)) (calls_of (snd y))) branches bs"
    using b
  proof (rule traverse_list_all)
    show "list_all (\<lambda>x. \<forall>y. rbind (namespace_step key sib (snd x)) (\<lambda>s. Inr (fst x, s)) = Inr y \<longrightarrow>
        list_all2 (\<lambda>t t'. resolve_ref t key sib = Inr t') (calls_of (snd x)) (calls_of (snd y))) branches"
      unfolding list_all_iff using ParallelStep.IH(1) by (fastforce simp: snds.simps)
  qed
  then have "list_all2 (\<lambda>t t'. resolve_ref t key sib = Inr t')
      (concat (map (\<lambda>b. calls_of (snd b)) branches)) (concat (map (\<lambda>b. calls_of (snd b)) bs))"
    by (induction rule: list_all2_induct) (auto intro: list_all2_appendI)
  then show ?case using ParallelStep.IH(2) [OF c] by (simp add: s' list_all2_appendI)
qed auto

lemma add_all_names: "pipeline_names (add_all S qs reg) = pipeline_names reg @ map pipe_name qs"
  by (simp add: pipeline_names_def add_all_def dkeys_def)

lemma add_all_get:
  assumes "aligned (add_all S qs reg)"
  shows "q \<in> set qs \<Longrightarrow> get_pipeline (add_all S qs reg) (pipe_name q) = Inr q"
    and "n \<in> set (pipeline_names reg) \<Longrightarrow> get_pipeline (add_all S qs reg) n = get_pipeline reg n"
proof -
  have d: "distinct (map fst (pipelines reg @ map (\<lambda>q. (pipe_name q, q)) qs))"
    using assms by (simp add: aligned_def add_all_def dkeys_def)
  show "get_pipeline (add_all S qs reg) (pipe_name q) = Inr q" if "q \<in> set qs"
    using that map_of_is_SomeI [OF d, of "pipe_name q" q] by (simp add: get_pipeline_def add_all_def)
  show "get_pipeline (add_all S qs reg) n = get_pipeline reg n" if "n \<in> set (pipeline_names reg)"
  proof -
    from that obtain p where "(n, p) \<in> set (pipelines reg)" by (auto simp: pipeline_names_def dkeys_def)
    then have "dget (pipelines reg @ map (\<lambda>q. (pipe_name q, q)) qs) n = Some p" "dget (pipelines reg) n = Some p"
      using d by (simp_all add: map_of_is_SomeI)
    then show ?thesis by (simp add: get_pipeline_def add_all_def)
  qed
qed

text \<open>C38: Loading an entry is atomic: when it fails, with whatever exception, the registry is as it
  was; when it succeeds, all pipelines of the file are registered under the entry's namespace, in
  order, and nothing that was registered before is lost or replaced.\<close>

theorem load_atomic:
  assumes "load_one_entry read load_all key raw reg = (res, reg')" and "aligned reg"
  shows "(\<exists>e. res = Inl e \<and> reg' = reg)
    \<or> (\<exists>ps S qs. parse_entry read load_all key raw = Inr (ps, S)
        \<and> map pipe_name qs = map (\<lambda>p. global_name key (pipe_name p)) ps
        \<and> pipeline_names reg' = pipeline_names reg @ map pipe_name qs
        \<and> (\<forall>q\<in>set qs. get_pipeline reg' (pipe_name q) = Inr q)
        \<and> (\<forall>n\<in>set (pipeline_names reg). get_pipeline reg' n = get_pipeline reg n))"
  using load_cases [OF assms]
proof (elim disjE exE conjE)
  fix ps S qs
  assume p: "parse_entry read load_all key raw = Inr (ps, S)" and r: "reg' = add_all S qs reg" "aligned reg'"
    and l: "list_all2 (\<lambda>p q. namespace_pipeline p key (map pipe_name ps) = Inr q) ps qs"
  have "list_all2 (\<lambda>p q. pipe_name q = global_name key (pipe_name p)) ps qs"
    using l by (rule list_all2_mono) (rule namespace_pipeline_name)
  then have "map pipe_name qs = map (\<lambda>p. global_name key (pipe_name p)) ps"
    by (induction rule: list_all2_induct) simp_all
  with p add_all_names add_all_get [OF r(2) [unfolded r(1)]] show ?thesis unfolding r(1) by blast
qed blast

text \<open>No call of a loaded file dangles inside its namespace: the call targets of the registered
  pipelines are, step by step and however deeply nested, those written in the file; a dotted one
  unchanged, and one without a dot the global name of a pipeline of the same file, which is
  registered.\<close>

theorem load_resolves_siblings:
  assumes "load_one_entry read load_all key raw reg = (Inr (), reg')" and "aligned reg"
    and "parse_entry read load_all key raw = Inr (ps, S)" and "p \<in> set ps"
  shows "\<exists>q. get_pipeline reg' (global_name key (pipe_name p)) = Inr q
    \<and> list_all2 (\<lambda>s s'. list_all2 (\<lambda>t t'.
        if CHR ''.'' \<in> set t then t' = t
        else t' = global_name key t \<and> t' \<in> set (pipeline_names reg')) (calls_of s) (calls_of s')) (steps p) (steps q)"
proof -
  from load_cases [OF assms(1,2)] assms(3) obtain qs where
    l: "list_all2 (\<lambda>p q. namespace_pipeline p key (map pipe_name ps) = Inr q) ps qs"
    and r: "reg' = add_all S qs reg" "aligned (add_all S qs reg)" by auto
  have names: "map pipe_name qs = map (\<lambda>p. global_name key (pipe_name p)) ps"
    using l by (induction rule: list_all2_induct) (simp_all add: namespace_pipeline_name)
  from assms(4) obtain i where i: "i < length ps" "ps ! i = p" by (auto simp: in_set_conv_nth)
  obtain q where q: "q \<in> set qs" "namespace_pipeline p key (map pipe_name ps) = Inr q"
    using that [of "qs ! i"] list_all2_nthD [OF l i(1)] list_all2_lengthD [OF l] i by simp
  have reg: "global_name key t \<in> set (pipeline_names reg')" if "t \<in> set (map pipe_name ps)" for t
  proof -
    from that have "global_name key t \<in> set (map (\<lambda>p. global_name key (pipe_name p)) ps)" by auto
    then show ?thesis unfolding names [symmetric] by (simp add: r add_all_names)
  qed
  from q(2) have "traverse (namespace_step key (map pipe_name ps)) (steps p) = Inr (steps q)"
    by (auto simp: namespace_pipeline_def)
  then have "list_all2 (\<lambda>s s'. namespace_step key (map pipe_name ps) s = Inr s') (steps p) (steps q)"
    by (simp add: traverse_Inr_iff)
  then have "list_all2 (\<lambda>s s'. list_all2 (\<lambda>t t'.
        if CHR ''.'' \<in> set t then t' = t
        else t' = global_name key t \<and> t' \<in> set (pipeline_names reg')) (calls_of s) (calls_of s')) (steps p) (steps q)"
  proof (rule list_all2_mono)
    fix s s' assume "namespace_step key (map pipe_name ps) s = Inr s'"
    from namespace_calls [OF this] show "list_all2 (\<lambda>t t'. if CHR ''.'' \<in> set t then t' = t
        else t' = global_name key t \<and> t' \<in> set (pipeline_names reg')) (calls_of s) (calls_of s')"
      by (rule list_all2_mono) (auto simp: resolve_Inr intro: reg split: if_splits)
  qed
  moreover have "get_pipeline reg' (global_name key (pipe_name p)) = Inr q"
    using add_all_get(1) [OF r(2) q(1)] namespace_pipeline_name [OF q(2)] r(1) by simp
  ultimately show ?thesis by blast
qed

definition registry_of :: "load_exc + 'r \<times> 'l \<Rightarrow> load_exc + 'r" where
  "registry_of r = rbind r (\<lambda>(reg, log). Inr reg)"

lemma registry_of_log: "registry_of (rbind r (\<lambda>(reg, log). Inr (reg, f log))) = registry_of r"
  by (cases r) (auto simp: registry_of_def split: prod.split)

text \<open>A broken entry is invisible to the others: when a file cannot be loaded, for a reason the
  loader knows, the registry built is the one built without that entry.\<close>

theorem broken_entry_invisible:
  assumes "parse_entry read load_all key d = Inl (PipelineLoadError r)"
  shows "registry_of (build_entries read load_all False (xs @ (key, VDict d) # ys) reg)
    = registry_of (build_entries read load_all False (xs @ ys) reg)"
proof (induction xs arbitrary: reg)
  case Nil
  have "load_one_entry read load_all key d reg = (Inl (PipelineLoadError r), reg)"
    by (simp add: load_one_entry_def assms)
  then show ?case by (simp add: registry_of_log split: option.split)
next
  case (Cons x xs)
  obtain k v where x: "x = (k, v)" by (cases x)
  show ?case
  proof (cases v)
    case (VDict e)
    obtain res reg' where "load_one_entry read load_all k e reg = (res, reg')" by (metis surj_pair)
    with Cons.IH show ?thesis
      by (cases res) (simp_all add: x VDict registry_of_log split: load_exc.split option.split)
  qed (use Cons.IH in \<open>simp_all add: x\<close>)
qed

subsection \<open>A configuration\<close>

definition one_step :: "string \<Rightarrow> string \<Rightarrow> pipeline" where
  "one_step name target = \<lparr>steps = [call_step target], description = [], pipe_name = name\<rparr>"

definition sample_files :: "string \<Rightarrow> yaml_exc + yval list" where
  "sample_files text =
     (if text = ''orders'' then Inr (map doc_of_pipeline [one_step ''main'' ''helper'', one_step ''helper'' ''other.x''])
      else if text = ''bad'' then Inr [YMap [(YStr ''schema'', YStr ''S''), (YStr ''fields'', YMap [(YStr ''f'', YInt 1)])]]
      else if text = ''empty'' then Inr []
      else Inl (YAMLError ''not yaml''))"

definition sample_read :: reader where
  "sample_read path = Inr path"

definition sample_entry :: "string \<Rightarrow> pyval dict" where
  "sample_entry path = [(''path'', VStr path)]"

definition sample_loaded :: "(load_exc + unit) \<times> schemas pipeline_registry" where
  "sample_loaded = load_one_entry sample_read sample_files ''o'' (sample_entry ''orders'') empty_registry"

lemma empty_aligned: "aligned empty_registry" by (simp add: aligned_def empty_registry_def dkeys_def)

lemma sample_ok: "sample_loaded = (Inr (), snd sample_loaded)" by code_simp

lemma sample_entry_parses:
  "parse_entry sample_read sample_files ''o'' (sample_entry ''orders'') = Inr ([one_step ''main'' ''helper'', one_step ''helper'' ''other.x''], [])"
  by code_simp

theorem load_atomic_witness:
  "pipeline_names (snd sample_loaded) = [''o.main'', ''o.helper'']"
proof -
  from load_atomic [OF sample_ok [unfolded sample_loaded_def] empty_aligned] sample_entry_parses
  have "pipeline_names (snd sample_loaded) = pipeline_names (empty_registry :: schemas pipeline_registry)
      @ map (\<lambda>p. global_name ''o'' (pipe_name p)) [one_step ''main'' ''helper'', one_step ''helper'' ''other.x'']"
    by (auto simp: sample_loaded_def)
  then show ?thesis by (simp add: pipeline_names_def empty_registry_def dkeys_def global_name_def one_step_def)
qed

theorem load_resolves_siblings_witness:
  "\<exists>q. get_pipeline (snd sample_loaded) ''o.main'' = Inr q \<and> length (steps q) = 1"
proof -
  have "one_step ''main'' ''helper'' \<in> set [one_step ''main'' ''helper'', one_step ''helper'' ''other.x'']" by simp
  from load_resolves_siblings [OF sample_ok [unfolded sample_loaded_def] empty_aligned sample_entry_parses this]
  show ?thesis by (auto simp: sample_loaded_def global_name_def one_step_def dest!: list_all2_lengthD)
qed

theorem broken_entry_invisible_witness:
  "registry_of (build_entries sample_read sample_files False
      ([(''o'', VDict (sample_entry ''orders''))] @ (''b'', VDict (sample_entry ''empty'')) # []) empty_registry)
    = registry_of (build_entries sample_read sample_files False ([(''o'', VDict (sample_entry ''orders''))] @ []) empty_registry)"
proof (rule broken_entry_invisible)
  show "parse_entry sample_read sample_files ''b'' (sample_entry ''empty'') = Inl (PipelineLoadError (MalformedFile NoPipelineDocument))"
    by code_simp
qed

text \<open>The isolation has a hole: a file whose schema document is malformed raises the schema
  registry's own exception, which neither the parser nor the loader catches, so that one entry
  aborts the building of the whole registry, the good entry before it included.\<close>

theorem schema_error_escapes:
  "\<exists>e. build_pipeline_registry sample_read sample_files False
     (Some (VDict [(''entries'', VDict [(''o'', VDict (sample_entry ''orders'')), (''b'', VDict (sample_entry ''bad''))])]))
     = Inl (LoadEscaped (DslSchemaRaised (SchemaError e)))"
proof -
  have "(case build_pipeline_registry sample_read sample_files False
     (Some (VDict [(''entries'', VDict [(''o'', VDict (sample_entry ''orders'')), (''b'', VDict (sample_entry ''bad''))])]))
     of Inl (LoadEscaped (DslSchemaRaised (SchemaError e))) \<Rightarrow> True | _ \<Rightarrow> False)"
    by code_simp
  then show ?thesis by (auto split: sum.splits load_exc.splits dsl_exc.splits schema_exc.splits)
qed

end
