(* ===== verification/ParsedRun.thy ===== *)
theory ParsedRun
  imports Loader
begin

section \<open>From the configuration to the run\<close>

text \<open>
  What the parser checks, the executor does not trip over: a pipeline that was loaded from a file
  never fails, wherever it is nested or called from, for one of the reasons that are visible in its
  text.  \<open>never\<close> is the logic of computations that raise none of them.
\<close>

subsection \<open>Failures visible in the text\<close>

fun static_reason :: "exec_reason \<Rightarrow> bool" and static :: "exc \<Rightarrow> bool" where
  "static_reason (OnErrorUnrecognized _) = True"
| "static_reason (BothListSources _ _) = True"
| "static_reason (ItemFailed _ _ _ e) = static e"
| "static_reason (BranchFailed _ _ _ e) = static e"
| "static_reason _ = False"
| "static (PipelineExecutionError r) = static_reason r"
| "static (ExprRaised (Inl (ExprParseError _))) = True"
| "static SemaphoreValueError = True"
| "static _ = False"

definition never :: "('w, 'a) exec \<Rightarrow> bool" where
  "never m \<longleftrightarrow> (\<forall>st e st'. m st = (Raise e, st') \<longrightarrow> \<not> static e)"

lemma never_simps [simp]:
  "never (xret x)" "never (xraise e) \<longleftrightarrow> \<not> static e" "never (fail r) \<longleftrightarrow> \<not> static_reason r"
  "never (record_completed deps b d)" "never (emit deps ev)" "never (consume_spawn deps label)" "never (call_tool deps name args)"
  by (auto simp: never_def xret_def xraise_def fail_def record_completed_def emit_def consume_spawn_def call_tool_def
      split: prod.splits sum.splits if_splits option.splits)

lemma never_lift [simp]: "never (xlift f a) \<longleftrightarrow> (\<forall>e. a = Inl e \<longrightarrow> \<not> static (f e))"
  by (cases a) (simp_all add: xlift_def)

lemma never_bind:
  assumes "never m" and "\<And>x st st'. m st = (Ret x, st') \<Longrightarrow> never (f x)"
  shows "never (xbind m f)"
  unfolding never_def
proof (intro allI impI)
  fix st e st' assume b: "xbind m f st = (Raise e, st')"
  obtain out st1 where m: "m st = (out, st1)" by (metis surj_pair)
  show "\<not> static e"
  proof (cases out)
    case (Ret x)
    with b m have "f x st1 = (Raise e, st')" by (simp add: xbind_def)
    with assms(2) [OF m [unfolded Ret]] show ?thesis unfolding never_def by blast
  next
    case (Raise e')
    with b m assms(1) show ?thesis by (auto simp: xbind_def never_def)
  next
    case Diverge
    with b m show ?thesis by (simp add: xbind_def)
  qed
qed

lemma never_eval [simp]: "expr_ok e \<Longrightarrow> (\<And>r. \<not> static_reason (w r)) \<Longrightarrow> never (eval_wrapped w e c)"
  by (auto simp: eval_wrapped_def evaluate_expr_def expr_ok_def split: sum.splits expr_exc.splits)

lemma never_eval_both [simp]: "(\<And>r. \<not> static_reason (w r)) \<Longrightarrow> never (eval_wrapped_both w e c)"
  by (auto simp: eval_wrapped_both_def split: sum.split expr_exc.split parse_exc.split)

lemma never_render [simp]: "never (render_prompt ps c)"
  by (induction ps c rule: render_prompt.induct) (auto intro!: never_bind)

lemma never_pass [simp]: "never (eval_pass_entries es c label resolved)"
  by (induction es c label resolved rule: eval_pass_entries.induct) (auto intro!: never_bind)

lemma never_source [simp]: "source_ok ls \<Longrightarrow> never (resolve_list_source ls c label knd)"
  unfolding resolve_list_source_def source_ok_def
  by (cases "over ls") (auto intro!: never_bind split: option.split pyval.split)

lemma never_find [simp]: "never (find_callee deps label name)"
  by (simp add: find_callee_def split: option.split sum.split)

lemma policy_parses: "policy_text raw \<Longrightarrow> \<exists>oe. parse_on_error raw = Inr oe"
  by (auto simp: policy_text_def parse_on_error_def split: option.split)

lemma policy_no_error [simp]: "policy_text raw \<Longrightarrow> parse_on_error raw \<noteq> Inl e"
  using policy_parses by fastforce

lemma never_policy [simp]: "policy_text raw \<Longrightarrow> never (xlift PipelineExecutionError (parse_on_error raw))"
  using policy_parses by fastforce

subsection \<open>Leaf steps\<close>

lemma never_transform: "step_ok (TransformStep s) \<Longrightarrow> never (run_transform_step s c label completed)"
  unfolding run_transform_step_def by (intro never_bind) simp_all

lemma traverse_no_error:
  "traverse f xs = Inl e \<Longrightarrow> (\<And>x e. x \<in> set xs \<Longrightarrow> f x = Inl e \<Longrightarrow> Q e) \<Longrightarrow> Q e"
  using traverse_Inl_mem by metis

lemma never_args: "list_all (\<lambda>(_, a). arg_ok a) args \<Longrightarrow> never (resolve_args args c)"
  unfolding resolve_args_def never_lift
proof (intro allI impI)
  fix e
  assume ok: "list_all (\<lambda>(_, a). arg_ok a) args"
    and e: "traverse (\<lambda>(k, a). case a of ExprRef e \<Rightarrow> rbind (evaluate_expr e (expr_context c)) (\<lambda>v. Inr (k, v))
       | Literal_arg v \<Rightarrow> Inr (k, v)) args = Inl e"
  from traverse_Inl_mem [OF e] obtain k a where ka: "(k, a) \<in> set args"
    "(case a of ExprRef e \<Rightarrow> rbind (evaluate_expr e (expr_context c)) (\<lambda>v. Inr (k, v)) | Literal_arg v \<Rightarrow> Inr (k, v)) = Inl e"
    by auto
  then have "arg_ok a" using ok by (auto simp: list_all_iff)
  with ka(2) show "\<not> static (ExprRaised e)"
    by (auto simp: arg_ok_def expr_ok_def evaluate_expr_def rbind_eq_Inl split: arg_value.splits sum.splits)
qed

lemma never_once: "list_all (\<lambda>(_, a). arg_ok a) (tool_args s) \<Longrightarrow> never (dispatch_tool_step_once deps s c label completed)"
  unfolding dispatch_tool_step_once_def verify_schema_def ctx_fields_def emit_reason_def Let_def
  by (auto intro!: never_bind never_args split: prod.splits option.splits pyval.splits)

lemma never_attempts [simp]: "never (tool_attempts n l deps s c label completed)"
proof (induction n arbitrary: l)
  case (Suc n)
  show ?case
    unfolding never_def
  proof (intro allI impI)
    fix st e st' assume r: "tool_attempts (Suc n) l deps s c label completed st = (Raise e, st')"
    obtain out st1 where "dispatch_tool_step_once deps s c label completed st = (out, st1)" by (metis surj_pair)
    with r Suc.IH show "\<not> static e" by (auto simp: never_def split: outcome.splits prod.splits if_splits)
  qed
qed simp

lemma never_tool:
  assumes "step_ok (ToolStep s)"
  shows "never (run_tool_step deps s c label completed)"
proof (cases "tool_on_error s")
  case None
  then show ?thesis using assms by (simp add: run_tool_step_def never_once)
next
  case (Some raw)
  with assms obtain oe where "parse_on_error raw = Inr oe" using policy_parses by auto
  then show ?thesis unfolding run_tool_step_def Some
    by (auto simp: tool_give_up_def intro!: never_bind split: sum.split attempt_failure.split)
qed

lemma never_agent: "never (run_agent_step deps s c label completed)"
  unfolding run_agent_step_def interpolate_prompt_def
  by (auto intro!: never_bind split: option.split list.split)
    (auto simp: never_def split: prod.splits sum.splits agent_exc.splits)

subsection \<open>Steps that hold steps\<close>

definition registry_steps_ok :: "'w run_deps \<Rightarrow> bool" where
  "registry_steps_ok deps \<longleftrightarrow>
     (\<forall>reg name p. pipeline_registry deps = Some reg \<longrightarrow> get_pipeline reg name = Inr p \<longrightarrow> list_all step_ok (steps p))"

lemma found_ok:
  "registry_steps_ok deps \<Longrightarrow> find_callee deps label name st = (Ret p, st') \<Longrightarrow> list_all step_ok (steps p)"
  by (auto simp: find_callee_def registry_steps_ok_def exec_simps split: option.splits sum.splits)

text \<open>A task hands back the exception of its last attempt, so it must not be one of them either.\<close>

definition clean_result :: "(exc + 'b) \<Rightarrow> bool" where
  "clean_result res \<longleftrightarrow> (\<forall>e. res = Inl e \<longrightarrow> \<not> static e)"

definition clean_task_at :: "(pyval dict \<Rightarrow> ('w, (exc + pyval \<times> bool) \<times> pyval dict) exec) \<Rightarrow> bool" where
  "clean_task_at m \<longleftrightarrow> (\<forall>b st out st'. m b st = (out, st') \<longrightarrow>
     (\<forall>res b'. out = Ret (res, b') \<longrightarrow> clean_result res) \<and> (\<forall>e. out \<noteq> Raise e))"

locale static_safe =
  fixes r :: "'w dispatcher"
  assumes safe: "step_ok s \<Longrightarrow> registry_steps_ok deps \<Longrightarrow> never (r deps s c label completed)"
begin

lemma never_scope:
  "list_all step_ok ss \<Longrightarrow> registry_steps_ok deps \<Longrightarrow> never (run_scope r deps scope j ss stores pipe completed d)"
proof (induction ss arbitrary: j stores pipe completed d)
  case (Cons s ss)
  then show ?case by (auto simp: Let_def intro!: never_bind safe split: option.split prod.split)
qed simp

lemma never_callee:
  "list_all step_ok (steps p) \<Longrightarrow> registry_steps_ok deps \<Longrightarrow> never (run_callee r deps p es c label scope completed)"
  unfolding run_callee_def by (auto intro!: never_bind never_scope split: prod.split)

lemma never_call: "registry_steps_ok deps \<Longrightarrow> never (run_call_step r deps s c label completed)"
  unfolding run_call_step_def by (auto intro!: never_bind never_callee dest: found_ok)

lemma never_match: "step_ok (MatchStep s) \<Longrightarrow> registry_steps_ok deps \<Longrightarrow> never (run_match_step r deps s c label completed)"
  unfolding run_match_step_def
  by (intro never_bind) (auto intro!: never_bind never_callee dest: found_ok split: option.split)

lemma never_fold_items:
  "step_ok do' \<Longrightarrow> registry_steps_ok deps \<Longrightarrow> never (fold_items r deps do' label pipe k xs stores acc completed d)"
proof (induction xs arbitrary: k stores acc completed d)
  case (Cons x xs)
  then show ?case by (auto simp: Let_def intro!: never_bind safe split: option.split prod.split)
qed simp

lemma never_fold:
  "step_ok (FoldStep init do' out ls mx) \<Longrightarrow> registry_steps_ok deps \<Longrightarrow> never (run_fold_step r deps init do' ls mx c label completed)"
  unfolding run_fold_step_def by (intro never_bind never_fold_items) simp_all

lemma clean_task:
  "step_ok s \<Longrightarrow> registry_steps_ok deps \<Longrightarrow> n > 0 \<or> \<not> static l \<Longrightarrow>
    fan_task n l r deps s c label b st = (out, st') \<Longrightarrow>
    (\<forall>res b'. out = Ret (res, b') \<longrightarrow> clean_result res) \<and> (\<forall>e. out \<noteq> Raise e)"
proof (induction n arbitrary: l b st)
  case 0
  then show ?case by (auto simp: xret_def clean_result_def)
next
  case (Suc n)
  obtain o1 st1 where m: "r deps s c label b (push_recorder b label st) = (o1, st1)" by (metis surj_pair)
  have ns: "o1 = Raise e \<Longrightarrow> \<not> static e" for e
    using safe [OF Suc.prems(1,2)] m unfolding never_def by blast
  show ?case
  proof (cases o1)
    case (Ret x)
    obtain v d y where x: "x = (v, d, y)" by (cases x)
    show ?thesis
    proof (cases "tool_step_canonical_error s v")
      case None
      with m Ret x Suc.prems(4) show ?thesis by (auto simp: Let_def clean_result_def)
    next
      case (Some e)
      with m Ret x Suc.prems(4) show ?thesis by (intro Suc.IH [OF Suc.prems(1,2)]) (auto simp: Let_def)
    qed
  next
    case (Raise e)
    with m ns Suc.prems(4) show ?thesis by (intro Suc.IH [OF Suc.prems(1,2)]) (auto simp: Let_def)
  next
    case Diverge
    with m Suc.prems(4) show ?thesis by (auto simp: Let_def)
  qed
qed

end

lemma never_loop:
  assumes ab: "\<And>i e. \<not> static e \<Longrightarrow> \<not> static_reason (ab i e)"
  shows "\<forall>i\<in>set pending. clean_task_at (task i) \<Longrightarrow> \<forall>(i, res)\<in>set queue. clean_result res \<Longrightarrow>
    never (fan_loop task key_of ab oe deps acts pending queue b d)"
proof (induction acts arbitrary: pending queue b d)
  case (Cons act acts)
  show ?case
  proof (cases act)
    case (RunTask i)
    show ?thesis
    proof (cases "i \<in> set pending")
      case True
      with Cons.prems(1) have ti: "clean_task_at (task i)" by blast
      have "never (xbind (task i b) (\<lambda>(res, b'). fan_loop task key_of ab oe deps acts (removeAll i pending) (queue @ [(i, res)]) b' d))"
      proof (rule never_bind)
        show "never (task i b)" using ti unfolding never_def clean_task_at_def by blast
        fix x st st' assume t: "task i b st = (Ret x, st')"
        obtain res b' where x: "x = (res, b')" by (cases x)
        have res: "clean_result res" using ti t unfolding clean_task_at_def x by blast
        show "never (case x of (res, b') \<Rightarrow> fan_loop task key_of ab oe deps acts (removeAll i pending) (queue @ [(i, res)]) b' d)"
          unfolding x prod.case using Cons.prems res by (intro Cons.IH) auto
      qed
      with True RunTask show ?thesis by simp
    next
      case False
      with RunTask Cons show ?thesis by simp
    qed
  next
    case TakeResult
    show ?thesis
    proof (cases queue)
      case Nil
      then show ?thesis using TakeResult Cons by simp
    next
      case q: (Cons x rest)
      have more: "never (fan_loop task key_of ab oe deps acts pending rest b d)" for b d
        using Cons.prems q by (intro Cons.IH) auto
      obtain i res where x: "x = (i, res)" by (cases x)
      show ?thesis
      proof (cases res)
        case (Inl e)
        then have "\<not> static e" using Cons.prems(2) q x by (auto simp: clean_result_def)
        then show ?thesis using TakeResult q x Inl more ab by (auto simp: Let_def intro!: never_bind)
      next
        case (Inr vd)
        then show ?thesis using TakeResult q x more by (cases vd) (auto simp: Let_def intro!: never_bind)
      qed
    qed
  qed
qed simp

context static_safe
begin

lemma fan_task_clean:
  "step_ok s \<Longrightarrow> registry_steps_ok deps \<Longrightarrow> n > 0 \<Longrightarrow> clean_task_at (fan_task n l r deps s c label)"
  unfolding clean_task_at_def using clean_task by blast

lemma never_collect:
  "step_ok s \<Longrightarrow> registry_steps_ok child \<Longrightarrow> never (run_collect r deps child s stores pipe key b d)"
  unfolding run_collect_def by (auto simp: Let_def intro!: never_bind safe split: prod.split)

end

lemma never_enter [simp]: "never (enter_fan_out deps label knd)"
  by (simp add: enter_fan_out_def Let_def)

lemma entered_ok:
  "enter_fan_out deps label knd st = (Ret child, st') \<Longrightarrow> registry_steps_ok deps \<Longrightarrow> registry_steps_ok child"
  by (auto simp: enter_fan_out_def Let_def exec_simps registry_steps_ok_def split: if_splits)

lemma result_at_safe: "result_at b key = Inl e \<Longrightarrow> \<not> static e"
  by (auto simp: result_at_def split: option.splits)

lemma for_each_results_safe: "for_each_results b label n = Inl e \<Longrightarrow> \<not> static e"
  by (auto simp: for_each_results_def rbind_eq_Inl dest!: traverse_Inl_mem dest: result_at_safe)

lemma parallel_outcomes_safe: "parallel_outcomes b label names = Inl e \<Longrightarrow> \<not> static e"
  by (auto simp: parallel_outcomes_def rbind_eq_Inl dest!: traverse_Inl_mem dest: result_at_safe)

lemma parallel_parts_safe:
  "parallel_results b label names = Inl e \<Longrightarrow> \<not> static e"
  "parallel_branch_errors b label names = Inl e \<Longrightarrow> \<not> static e"
  by (auto simp: parallel_results_def parallel_branch_errors_def rbind_eq_Inl dest: parallel_outcomes_safe)

lemma attempts_pos [simp]: "attempts_of oe > 0"
  by (simp add: attempts_of_def)

context static_safe
begin

lemma never_for_each:
  assumes "step_ok (ForEachStep do' collect oe ls mx out)" and "registry_steps_ok deps"
  shows "never (run_for_each_step r deps do' collect oe ls mx c label completed)"
proof -
  have mx: "(case mx of Some m \<Rightarrow> m < 0 | None \<Rightarrow> False) = False" using assms(1) by (cases mx) auto
  show ?thesis
    unfolding run_for_each_step_def Let_def mx if_False
    using assms
    by (auto intro!: never_bind never_loop fan_task_clean never_collect
        dest: entered_ok for_each_results_safe split: option.split prod.split)
qed

lemma never_parallel:
  assumes "step_ok (ParallelStep branches collect oe out)" and "registry_steps_ok deps"
  shows "never (run_parallel_step r deps branches collect oe c label completed)"
  unfolding run_parallel_step_def Let_def
  using assms
  by (auto simp: list_all_length intro!: never_bind never_loop fan_task_clean never_collect
      dest: entered_ok parallel_parts_safe split: option.split prod.split)

end

subsection \<open>Every step\<close>

lemma dispatch_safe: "static_safe (dispatch n)"
proof (induction n)
  case 0
  then show ?case by unfold_locales (simp add: never_def)
next
  case (Suc n)
  note steps = never_transform never_tool never_agent static_safe.never_call [OF Suc.IH] static_safe.never_match [OF Suc.IH]
    static_safe.never_fold [OF Suc.IH] static_safe.never_for_each [OF Suc.IH] static_safe.never_parallel [OF Suc.IH]
  show ?case
  proof
    fix s and deps :: "'a run_deps" and c label completed
    assume "step_ok s" and "registry_steps_ok deps"
    then show "never (dispatch (Suc n) deps s c label completed)"
      by (cases s) (simp_all only: dispatch_Suc_eqs dispatch_fan_eqs steps)
  qed
qed

interpretation checked: static_safe "dispatch n" for n
  by (rule dispatch_safe)

lemma never_steps:
  "list_all step_ok ss \<Longrightarrow> registry_steps_ok deps \<Longrightarrow> never (run_steps n deps N i ss named pipe completed)"
proof (induction ss arbitrary: i named pipe completed)
  case (Cons s ss)
  have poll: "never (poll_cancel deps i)" by (auto simp: never_def poll_cancel_def split: option.splits if_splits)
  have aux: "never (freeze_frame snap)" "never (record_snapshot deps snap' d)" for snap snap' d
    by (simp_all add: never_def freeze_frame_def record_snapshot_def)
  show ?case using Cons poll aux checked.safe
    by (auto simp: Let_def intro!: never_bind split: prod.split)
qed simp

lemma never_run:
  assumes "list_all step_ok (steps p)" and "registry_steps_ok deps" and "resume_pipeline n deps md ms p snap st = (Raise e, st')"
  shows "\<not> static e"
proof -
  obtain s0 where r: "run_from n deps md ms p s0 st = (Raise e, st')"
    using assms(3) by (auto simp: resume_pipeline_def run_pipeline_def split: option.splits)
  have "list_all step_ok (drop k (steps p))" for k
    using assms(1) by (auto simp: list_all_iff dest: in_set_dropD)
  moreover have "registry_steps_ok (deps\<lparr>fan_out_depth := a, max_fan_out_depth := b, spawn_cap := x\<rparr>)" for a b x
    using assms(2) by (simp add: registry_steps_ok_def)
  ultimately show ?thesis using never_steps r unfolding run_from_def never_def by blast
qed

subsection \<open>Loading keeps the steps well-formed\<close>

lemma resolve_nonempty: "resolve_ref t key sib = Inr t' \<Longrightarrow> t \<noteq> [] \<Longrightarrow> t' \<noteq> []"
  by (auto simp: resolve_Inr global_name_def split: if_splits)

lemma case_stays_ok: "namespace_case key sib k = Inr k' \<Longrightarrow> case_ok k \<Longrightarrow> case_ok k'"
  by (auto simp: namespace_case_def case_ok_def dest: resolve_nonempty)

lemma labelled_stay_ok:
  "traverse (namespace_labelled key sib) ks = Inr ks' \<Longrightarrow> list_all (\<lambda>(_, k). case_ok k) ks \<Longrightarrow>
    map fst ks' = map fst ks \<and> list_all (\<lambda>(_, k). case_ok k) ks'"
  by (induction ks arbitrary: ks') (auto simp: namespace_labelled_def dest: case_stays_ok)

lemma branches_stay_ok:
  assumes "\<forall>b\<in>set bs. \<forall>s'. namespace_step key sib (snd b) = Inr s' \<longrightarrow> step_ok (snd b) \<longrightarrow> step_ok s'"
  shows "traverse (\<lambda>b. rbind (namespace_step key sib (snd b)) (\<lambda>s. Inr (fst b, s))) bs = Inr bs' \<Longrightarrow>
    list_all (\<lambda>b. step_ok (snd b)) bs \<Longrightarrow> map fst bs' = map fst bs \<and> list_all (\<lambda>b. step_ok (snd b)) bs'"
  using assms by (induction bs arbitrary: bs') auto

lemma namespaced_ok: "namespace_step key sib s = Inr s' \<Longrightarrow> step_ok s \<Longrightarrow> step_ok s'"
proof (induction s arbitrary: s')
  case (CallStep s)
  then show ?case by (auto dest: resolve_nonempty)
next
  case (MatchStep s)
  then show ?case
    by (auto simp: namespace_default_def dest!: labelled_stay_ok dest: case_stays_ok split: option.splits)
next
  case (ParallelStep branches collect oe out)
  from ParallelStep.prems(1) obtain bs c where
    b: "traverse (\<lambda>b. rbind (namespace_step key sib (snd b)) (\<lambda>s. Inr (fst b, s))) branches = Inr bs"
    and c: "namespace_step key sib collect = Inr c" and s': "s' = ParallelStep bs c oe out" by auto
  have "\<forall>b\<in>set branches. \<forall>s'. namespace_step key sib (snd b) = Inr s' \<longrightarrow> step_ok (snd b) \<longrightarrow> step_ok s'"
    using ParallelStep.IH(1) by (fastforce simp: snds.simps)
  from branches_stay_ok [OF this b] ParallelStep.prems(2)
  have "map fst bs = map fst branches" "list_all (\<lambda>b. step_ok (snd b)) bs" by simp_all
  then show ?case using ParallelStep.prems(2) ParallelStep.IH(2) [OF c] by (auto simp: s' dest: map_eq_imp_length_eq)
qed auto

definition all_ok :: "schemas pipeline_registry \<Rightarrow> bool" where
  "all_ok reg \<longleftrightarrow> (\<forall>(n, p)\<in>set (pipelines reg). list_all step_ok (steps p))"

lemma all_ok_get: "all_ok reg \<Longrightarrow> get_pipeline reg name = Inr p \<Longrightarrow> list_all step_ok (steps p)"
  by (auto simp: all_ok_def get_pipeline_def split: option.splits dest!: map_of_SomeD)

lemma namespaced_steps_ok:
  "traverse (namespace_step key sib) ss = Inr ss' \<Longrightarrow> list_all step_ok ss \<Longrightarrow> list_all step_ok ss'"
  by (induction ss arbitrary: ss') (auto intro: namespaced_ok)

lemma namespaced_pipeline_ok:
  "namespace_pipeline p key sib = Inr q \<Longrightarrow> list_all step_ok (steps p) \<Longrightarrow> list_all step_ok (steps q)"
  by (auto simp: namespace_pipeline_def intro: namespaced_steps_ok)

text \<open>The documents of the loader \<open>load_all\<close> are mappings without repeated keys.\<close>

definition loader_ok :: "(string \<Rightarrow> yaml_exc + yval list) \<Rightarrow> bool" where
  "loader_ok load_all \<longleftrightarrow> (\<forall>text docs. load_all text = Inr docs \<longrightarrow> list_all yval_ok docs)"

lemma parsed_docs_ok:
  "parse_pipeline_docs load_all text [] = (Inr ps, S) \<Longrightarrow> loader_ok load_all \<Longrightarrow> \<forall>p\<in>set ps. list_all step_ok (steps p)"
  by (auto simp: parse_pipeline_docs_def dsl_fail_def loader_ok_def pipeline_ok_def list_all_iff
      split: sum.splits yaml_exc.splits dest!: parse_docs_sound)

lemma parse_entry_ok:
  "parse_entry read load_all key raw = Inr (ps, S) \<Longrightarrow> loader_ok load_all \<Longrightarrow> \<forall>p\<in>set ps. list_all step_ok (steps p)"
  by (auto simp: parse_entry_def split: if_splits sum.splits read_exc.splits prod.splits dsl_exc.splits
      dest!: parsed_docs_ok)

lemma list_all2_mem: "list_all2 P xs ys \<Longrightarrow> y \<in> set ys \<Longrightarrow> \<exists>x\<in>set xs. P x y"
  by (induction rule: list_all2_induct) auto

lemma load_keeps_ok:
  assumes "load_one_entry read load_all key raw reg = (res, reg')" and "loader_ok load_all" and "aligned reg" and "all_ok reg"
  shows "aligned reg' \<and> all_ok reg'"
  using load_cases [OF assms(1,3)]
proof (elim disjE exE conjE)
  fix ps S qs
  assume p: "parse_entry read load_all key raw = Inr (ps, S)" and r: "reg' = add_all S qs reg" "aligned reg'"
    and l: "list_all2 (\<lambda>p q. namespace_pipeline p key (map pipe_name ps) = Inr q) ps qs"
  have "list_all step_ok (steps q)" if "q \<in> set qs" for q
  proof -
    from list_all2_mem [OF l that] obtain p' where "p' \<in> set ps" "namespace_pipeline p' key (map pipe_name ps) = Inr q" by blast
    then show ?thesis using parse_entry_ok [OF p assms(2)] namespaced_pipeline_ok by blast
  qed
  then show ?thesis using assms(4) r by (auto simp: all_ok_def add_all_def)
qed (use assms in simp)

lemma build_entries_ok:
  "build_entries read load_all strict es reg = Inr (reg', failed) \<Longrightarrow> loader_ok load_all \<Longrightarrow> aligned reg \<Longrightarrow> all_ok reg \<Longrightarrow> all_ok reg'"
proof (induction es arbitrary: reg failed)
  case (Cons x es)
  obtain key raw where x: "x = (key, raw)" by (cases x)
  show ?case
  proof (cases raw)
    case (VDict d)
    obtain res reg1 where l: "load_one_entry read load_all key d reg = (res, reg1)" by (metis surj_pair)
    have ok: "aligned reg1" "all_ok reg1" using load_keeps_ok [OF l Cons.prems(2,3,4)] by simp_all
    show ?thesis
      using Cons.prems ok Cons.IH l unfolding x VDict
      by (cases res) (auto split: if_splits load_exc.splits option.splits)
  qed (use Cons x in auto)
qed simp

lemma empty_ok: "aligned empty_registry" "all_ok empty_registry"
  by (simp_all add: empty_aligned) (simp add: all_ok_def empty_registry_def)

lemma built_ok:
  "build_pipeline_registry read load_all strict raw = Inr (reg, failed) \<Longrightarrow> loader_ok load_all \<Longrightarrow> all_ok reg"
  unfolding build_pipeline_registry_def
  by (auto intro: empty_ok build_entries_ok [OF _ _ empty_ok] split: option.splits pyval.splits)


subsection \<open>A run of a loaded pipeline\<close>

definition sample_config :: pyval where
  "sample_config = VDict [(''entries'', VDict [(''o'', VDict (sample_entry ''orders''))])]"

definition sample_registry :: "schemas pipeline_registry" where
  "sample_registry = (case build_pipeline_registry sample_read sample_files False (Some sample_config) of
     Inr (reg, _) \<Rightarrow> reg | Inl _ \<Rightarrow> empty_registry)"

definition sample_main :: pipeline where
  "sample_main = (case get_pipeline sample_registry ''o.main'' of Inr p \<Rightarrow> p | Inl _ \<Rightarrow> one_step [] [])"

definition sample_outcome :: "snapshot outcome" where
  "sample_outcome = fst (resume_pipeline 5 (quiet_deps\<lparr>pipeline_registry := Some sample_registry\<rparr>) None None sample_main
     None (start_state ()))"

lemma sample_loader_ok: "loader_ok sample_files"
proof -
  have "list_all yval_ok (map doc_of_pipeline [one_step ''main'' ''helper'', one_step ''helper'' ''other.x''])" by code_simp
  then show ?thesis by (auto simp: loader_ok_def sample_files_def)
qed

lemma sample_facts:
  "build_pipeline_registry sample_read sample_files False (Some sample_config) = Inr (sample_registry, [])"
  "get_pipeline sample_registry ''o.main'' = Inr sample_main"
  "sample_outcome = Raise (PipelineExecutionError (TargetNotRegistered ''0.call.0'' ''other.x''))"
  by code_simp+


end
