(* ===== verification/Analyzer.thy ===== *)
theory Analyzer
  imports DslFacts
begin

section \<open>Static analysis of steps\<close>

text \<open>
  \<open>src/reyn/core/pipeline/analyzer.py\<close>: what can be said of a step before it runs, by a facet for each
  kind of step that holds or reaches others.  A problem names the check that reports it; for steps
  the parser accepts all of them are cautions about a bound that is not known ahead of the run.
\<close>

datatype problem =
    EmptyCallTarget
  | NoCases
  | EmptyCaseTarget string
  | UnboundedFold
  | DefaultWidth
  | UncountedItems
  | NoBranches
  | ManyAgents "string list"

definition call_facet :: "call_step \<Rightarrow> problem list" where
  "call_facet s = (if call_pipeline s = [] then [EmptyCallTarget] else [])"

definition match_targets :: "match_step \<Rightarrow> match_case dict" where
  "match_targets s = (case match_default s of None \<Rightarrow> match_cases s | Some k \<Rightarrow> dset ''default'' k (match_cases s))"

definition match_facet :: "match_step \<Rightarrow> problem list" where
  "match_facet s =
     (if match_cases s = [] then [NoCases] else [])
     @ map (\<lambda>(l, _). EmptyCaseTarget l) (filter (\<lambda>(_, k). case_pipeline k = []) (match_targets s))"

definition fold_facet :: "list_source \<Rightarrow> int option \<Rightarrow> problem list" where
  "fold_facet ls max_items = (if over ls \<noteq> None \<and> max_items = None then [UnboundedFold] else [])"

definition for_each_facet :: "list_source \<Rightarrow> int option \<Rightarrow> problem list" where
  "for_each_facet ls max_parallel =
     (if max_parallel = None then [DefaultWidth] else []) @ (if over ls \<noteq> None then [UncountedItems] else [])"

fun is_agent :: "step \<Rightarrow> bool" where
  "is_agent (AgentStep _) = True"
| "is_agent _ = False"

definition parallel_facet :: "(string \<times> step) list \<Rightarrow> problem list" where
  "parallel_facet branches =
     (let agents = sort (map fst (filter (\<lambda>(_, s). is_agent s) branches)) in
      (if branches = [] then [NoBranches] else []) @ (if length agents > 3 then [ManyAgents agents] else []))"

fun analyze_step :: "step \<Rightarrow> problem list" where
  "analyze_step (CallStep s) = call_facet s"
| "analyze_step (MatchStep s) = match_facet s"
| "analyze_step (FoldStep _ _ _ ls max_items) = fold_facet ls max_items"
| "analyze_step (ForEachStep _ _ _ ls max_parallel _) = for_each_facet ls max_parallel"
| "analyze_step (ParallelStep branches _ _ _) = parallel_facet branches"
| "analyze_step _ = []"

subsection \<open>What the parser leaves to report\<close>

fun caution :: "problem \<Rightarrow> bool" where
  "caution UnboundedFold = True"
| "caution DefaultWidth = True"
| "caution UncountedItems = True"
| "caution (ManyAgents _) = True"
| "caution _ = False"

lemma targets_ok:
  assumes "list_all (\<lambda>(_, k). case_ok k) (match_cases s)" and "opt_all case_ok (match_default s)"
  shows "list_all (\<lambda>(_, k). case_ok k) (match_targets s)"
proof (cases "match_default s")
  case (Some k)
  have "list_all (\<lambda>(_, k). case_ok k) d \<Longrightarrow> case_ok k \<Longrightarrow> list_all (\<lambda>(_, k). case_ok k) (dset l k d)" for l d
    by (induction d) auto
  then show ?thesis using assms Some by (simp add: match_targets_def)
qed (use assms in \<open>simp add: match_targets_def\<close>)

lemma step_ok_cautions: "step_ok s \<Longrightarrow> list_all caution (analyze_step s)"
proof (cases s)
  case (MatchStep m)
  assume "step_ok s"
  then have "match_cases m \<noteq> []" "list_all (\<lambda>(_, k). case_ok k) (match_targets m)" using targets_ok by (simp_all add: MatchStep)
  moreover from this(2) have "filter (\<lambda>(_, k). case_pipeline k = []) (match_targets m) = []"
    by (auto simp: filter_empty_conv list_all_iff case_ok_def)
  ultimately show ?thesis by (simp add: MatchStep match_facet_def)
qed (auto simp: call_facet_def fold_facet_def for_each_facet_def parallel_facet_def Let_def)

text \<open>How many items a fold visits.\<close>

definition visited :: "int option \<Rightarrow> pyval list \<Rightarrow> pyval list" where
  "visited max_items xs = (case max_items of None \<Rightarrow> xs | Some n \<Rightarrow> list_slice_to n xs)"

lemma slice_bound: "0 < n \<Longrightarrow> length (list_slice_to n xs) \<le> nat n"
  by (simp add: list_slice_to_def)

lemma fold_bounded:
  assumes "fold_facet ls mx = []" and "opt_all ((<) 0) mx" and "over ls \<noteq> None \<or> items ls \<noteq> None"
  shows "\<exists>n. \<forall>c label (st :: 'w run_state) xs st'. resolve_list_source ls c label ''fold'' st = (Ret xs, st') \<longrightarrow> length (visited mx xs) \<le> n"
proof (cases mx)
  case (Some n)
  then show ?thesis using assms(2) slice_bound [of n] by (auto simp: visited_def)
next
  case None
  with assms obtain ys where ys: "over ls = None" "items ls = Some ys" by (auto simp: fold_facet_def split: if_splits)
  then have "resolve_list_source ls c label k st = (Ret xs, st') \<Longrightarrow> xs = ys" for c label k xs and st st' :: "'w run_state"
    by (simp add: resolve_list_source_def xbind_def xret_def)
  then show ?thesis using None by (intro exI [of _ "length ys"]) (auto simp: visited_def)
qed

text \<open>For a step the parser accepts the analysis reports nothing but cautions, and its silence on a fold
  means something: a fold with a declared list, which it does not call unbounded, visits at most a
  number of items that does not depend on the run.\<close>

theorem parsed_analysis:
  assumes "parse_step raw = Inr s" and "yval_ok raw"
  shows "list_all caution (analyze_step s)
    \<and> (\<forall>init do' out ls mx. s = FoldStep init do' out ls mx \<longrightarrow> analyze_step s = [] \<longrightarrow> over ls \<noteq> None \<or> items ls \<noteq> None \<longrightarrow>
        (\<exists>n. \<forall>c label (st :: 'w run_state) xs st'. resolve_list_source ls c label ''fold'' st = (Ret xs, st') \<longrightarrow> length (visited mx xs) \<le> n))"
proof -
  have "step_ok s" using assms by (rule parse_step_sound)
  then show ?thesis using step_ok_cautions [of s] fold_bounded [where 'w = 'w] by auto
qed

definition add_up :: "list_source \<Rightarrow> step" where
  "add_up ls = FoldStep ''0'' (TransformStep \<lparr>tr_value = ''acc + item'', tr_output = None\<rparr>) ''sum'' ls None"

lemma add_up_parses:
  "parse_step (doc_of_step (add_up \<lparr>over = None, items = Some [VInt 1, VInt 2]\<rparr>)) = Inr (add_up \<lparr>over = None, items = Some [VInt 1, VInt 2]\<rparr>)"
  "parse_step (doc_of_step (add_up \<lparr>over = None, items = None\<rparr>)) = Inr (add_up \<lparr>over = None, items = None\<rparr>)"
proof -
  have "step_ok (add_up \<lparr>over = None, items = Some [VInt 1, VInt 2]\<rparr>)" "step_ok (add_up \<lparr>over = None, items = None\<rparr>)" by code_simp+
  then show "parse_step (doc_of_step (add_up \<lparr>over = None, items = Some [VInt 1, VInt 2]\<rparr>)) = Inr (add_up \<lparr>over = None, items = Some [VInt 1, VInt 2]\<rparr>)"
    "parse_step (doc_of_step (add_up \<lparr>over = None, items = None\<rparr>)) = Inr (add_up \<lparr>over = None, items = None\<rparr>)"
    by (simp_all add: step_written)
qed

theorem parsed_analysis_witness:
  "\<exists>n. \<forall>c label st xs st'. resolve_list_source \<lparr>over = None, items = Some [VInt 1, VInt 2]\<rparr> c label ''fold'' (st :: unit run_state) = (Ret xs, st')
    \<longrightarrow> length (visited None xs) \<le> n"
proof -
  let ?s = "add_up \<lparr>over = None, items = Some [VInt 1, VInt 2]\<rparr>"
  have "yval_ok (doc_of_step ?s)" "analyze_step ?s = []" by code_simp+
  then show ?thesis using parsed_analysis [OF add_up_parses(1), where 'w = unit] unfolding add_up_def by simp
qed

text \<open>The analysis forgets the third source of a list: a fold that names no list takes the value that comes
  in, and is reported as if its length were known.\<close>

theorem pipe_fold_unflagged:
  "\<exists>s. parse_step (doc_of_step s) = Inr s \<and> analyze_step s = []
    \<and> (\<forall>xs stores loop label st. resolve_list_source (fold_source s) \<lparr>ctx_stores = stores, ctx_pipe = VList xs, ctx_loop = loop\<rparr> label ''fold'' st
          = (Ret xs, st) \<and> visited (fold_max_items s) xs = xs)"
proof (intro exI conjI allI)
  show "parse_step (doc_of_step (add_up \<lparr>over = None, items = None\<rparr>)) = Inr (add_up \<lparr>over = None, items = None\<rparr>)"
    by (rule add_up_parses)
qed (simp_all add: add_up_def fold_facet_def resolve_list_source_def xbind_def xret_def visited_def)

text \<open>Nor does it see every target: the default of a match takes the place of a case that is labelled \<open>default\<close>
  in what is examined, so that an empty target of that case is not reported, although a run may
  select it.\<close>

theorem default_hides_case:
  "analyze_step (MatchStep \<lparr>match_on = ''pipe'', match_cases = [(''default'', \<lparr>case_pipeline = [], case_pass = []\<rparr>)],
     match_default = Some \<lparr>case_pipeline = ''p'', case_pass = []\<rparr>, match_output = None\<rparr>) = []"
  by (simp add: match_facet_def match_targets_def)

end
