(* ===== verification/JsonDump.thy ===== *)
theory JsonDump
  imports PyJson
begin

section \<open>\<open>json.dumps\<close>\<close>

text \<open>
  The standard library's encoder with \<open>ensure_ascii=False\<close>, as the write-ahead log calls it, and
  its round trip through \<open>json_loads\<close>: what is written is read back, and no proper prefix of a
  written object is read at all.
\<close>

definition json_escape :: "char \<Rightarrow> string" where
  "json_escape c =
     (let n = of_char c :: nat in
      if n = 0x22 then [CHR 0x5C, CHR 0x22]
      else if n = 0x5C then [CHR 0x5C, CHR 0x5C]
      else if n = 0x0A then [CHR 0x5C, CHR ''n'']
      else if n = 0x0D then [CHR 0x5C, CHR ''r'']
      else if n = 0x09 then [CHR 0x5C, CHR ''t'']
      else if n = 0x0C then [CHR 0x5C, CHR ''f'']
      else if n = 0x08 then [CHR 0x5C, CHR ''b'']
      else if n < 32 then [CHR 0x5C, CHR ''u'', CHR ''0'', CHR ''0'', hex_char (n div 16), hex_char (n mod 16)]
      else [c])"

definition json_quote :: "string \<Rightarrow> string" where
  "json_quote s = CHR 0x22 # concat (map json_escape s) @ [CHR 0x22]"

fun json_float :: "pyfloat \<Rightarrow> string" where
  "json_float FNan = ''NaN''"
| "json_float FInf = ''Infinity''"
| "json_float FNegInf = ''-Infinity''"
| "json_float f = float_repr f"

fun json_dumps :: "pyval \<Rightarrow> string" where
  "json_dumps VNone = ''null''"
| "json_dumps (VBool b) = (if b then ''true'' else ''false'')"
| "json_dumps (VInt i) = int_str i"
| "json_dumps (VFloat f) = json_float f"
| "json_dumps (VStr s) = json_quote s"
| "json_dumps (VList xs) = ''['' @ str_join '', '' (map json_dumps xs) @ '']''"
| "json_dumps (VDict d) = ''{'' @ str_join '', '' (map (\<lambda>(k, v). json_quote k @ '': '' @ json_dumps v) d) @ ''}''"

text \<open>
  The values of the round trip: no floats, and no integer of more digits than Python converts.
\<close>

fun json_ok :: "pyval \<Rightarrow> bool" where
  "json_ok (VFloat _) = False"
| "json_ok (VInt i) = (length (nat_str (nat \<bar>i\<bar>)) \<le> max_int_digits)"
| "json_ok (VList xs) = list_all json_ok xs"
| "json_ok (VDict d) = (distinct (map fst d) \<and> list_all (\<lambda>(_, v). json_ok v) d)"
| "json_ok _ = True"

subsection \<open>Characters and strings\<close>

lemma hex_char_val: "n < 16 \<Longrightarrow> hex_val (hex_char n) = Some n"
  by (auto simp: hex_val_def hex_char_def digit_char_def Let_def)

lemma hex4_low: "n < 32 \<Longrightarrow> hex4 (CHR ''0'' # CHR ''0'' # hex_char (n div 16) # hex_char (n mod 16) # r) = Some (n, r)"
  using hex_char_val [of "n div 16"] hex_char_val [of "n mod 16"]
  by (simp add: hex4_def hex_val_def)

lemma char_eq_nat: "c = d \<longleftrightarrow> (of_char c :: nat) = of_char d"
  by (metis of_char_eq_iff)

lemma json_string_escape:
  "json_string (json_escape c @ r) = map_option (map_prod ((#) c) id) (json_string r)"
proof -
  let ?n = "of_char c :: nat"
  consider "c = CHR 0x22" | "c = CHR 0x5C" | "c = CHR 0x0A" | "c = CHR 0x0D" | "c = CHR 0x09" | "c = CHR 0x0C" | "c = CHR 0x08"
    | "?n < 32" "?n \<notin> {0x0A, 0x0D, 0x09, 0x0C, 0x08}" | "32 \<le> ?n" "?n \<noteq> 0x22" "?n \<noteq> 0x5C"
    by (cases "?n < 32") (auto simp: char_eq_nat)
  then show ?thesis
  proof cases
    case 8
    have e: "json_escape c = [CHR 0x5C, CHR ''u'', CHR ''0'', CHR ''0'', hex_char (?n div 16), hex_char (?n mod 16)]"
      using 8 by (simp add: json_escape_def Let_def)
    have "unicode_escape (CHR ''0'' # CHR ''0'' # hex_char (?n div 16) # hex_char (?n mod 16) # r) = Some ([c], r)"
      using 8(1) by (simp add: unicode_escape_def hex4_low utf8_def)
    moreover have "(@) [c] = (#) c" by auto
    ultimately show ?thesis unfolding e by (subst json_string.simps) (simp add: char_eq_nat)
  next
    case 9
    then show ?thesis by (subst json_string.simps) (simp add: json_escape_def Let_def char_eq_nat)
  qed (subst json_string.simps, simp add: json_escape_def Let_def simple_escape_def)+
qed

lemma json_string_written: "json_string (concat (map json_escape s) @ CHR 0x22 # r) = Some (s, r)"
proof (induction s)
  case Nil
  show ?case by (subst json_string.simps) simp
next
  case (Cons c s)
  then show ?case by (simp add: json_string_escape)
qed

subsection \<open>Numbers\<close>

definition stops :: "string \<Rightarrow> bool" where
  "stops r \<longleftrightarrow> r = [] \<or> hd r \<in> {CHR '','', CHR '']'', CHR ''}'', CHR 0x0A}"

lemma stops_simps [simp]: "stops []" "stops (CHR '','' # r)" "stops (CHR '']'' # r)" "stops (CHR ''}'' # r)"
  "stops (CHR 0x0A # r)"
  by (simp_all add: stops_def)

lemma stops_tail:
  assumes "stops r"
  shows "takeWhile is_digit r = []" "dropWhile is_digit r = r" "json_frac r = ([], r)" "json_exp r = (None, r)"
  using assms by (cases r; auto simp: stops_def json_frac_def json_exp_def is_digit_def)+

lemma nat_str_head: "nat_str n = c # t \<Longrightarrow> is_digit c \<and> (c = CHR ''0'' \<longrightarrow> n = 0 \<and> t = [])"
proof (induction n arbitrary: c t rule: nat_str.induct)
  case (1 n)
  show ?case
  proof (cases "n < 10")
    case True
    with 1(2) have c: "c = digit_char n" "t = []" by (simp_all add: nat_str.simps [of n])
    with True digit_val_char [of n] show ?thesis by (auto simp: digit_val_def)
  next
    case False
    obtain d u where d: "nat_str (n div 10) = d # u" by (cases "nat_str (n div 10)") simp_all
    with False 1(2) have "c = d" by (simp add: nat_str.simps [of n])
    with 1(1) [OF False d] False show ?thesis by (auto simp: div_eq_0_iff)
  qed
qed

lemma nat_str_hd: "48 \<le> (of_char (hd (nat_str n)) :: nat) \<and> (of_char (hd (nat_str n)) :: nat) \<le> 57"
  using nat_str_digits [of "hd (nat_str n)" n] by (simp add: is_digit_def)

lemma span_nat_str: "stops r \<Longrightarrow> span_digits (nat_str n @ r) = (nat_str n, r)"
  unfolding span_digits_def using nat_str_digits by (simp add: stops_tail takeWhile_append dropWhile_append)

lemma json_number_written:
  assumes "stops r" and "length (nat_str n) \<le> max_int_digits"
  shows "json_number neg (nat_str n @ r) = Inr (VInt (if neg then - int n else int n), r)"
proof -
  obtain c t where c: "nat_str n = c # t" by (cases "nat_str n") simp_all
  have z: "t = []" if "c = CHR ''0''" using nat_str_head [OF c] that by simp
  have "(if take 1 (nat_str n) = ''0'' then (''0'', drop 1 (nat_str n @ r)) else (nat_str n, r)) = (nat_str n, r)"
    using z by (auto simp: c)
  moreover have "\<not> length (nat_str n) > max_int_digits" using assms(2) by simp
  ultimately show ?thesis
    using stops_tail(3,4) [OF assms(1)] by (simp add: json_number_def span_nat_str [OF assms(1)])
qed

lemma digit_not: "is_digit c \<Longrightarrow> c \<notin> {CHR 0x22, CHR ''{'', CHR ''['', CHR ''n'', CHR ''t'', CHR ''f'', CHR ''N'', CHR ''I'', CHR ''-''}"
  by (auto simp: is_digit_def)

lemma json_value_digits: "is_digit c \<Longrightarrow> json_value (Suc n) (c # s) = json_number False (c # s)"
  using digit_not [of c] by simp

lemma json_value_minus: "is_digit c \<Longrightarrow> json_value (Suc n) (CHR ''-'' # c # s) = json_number True (c # s)"
  by (auto simp: starts_with_def is_digit_def)

text \<open>
  \<open>reads\<close>: the parser answers as expected, or its fuel ran out; \<open>breaks\<close>: it reports an error or
  its fuel ran out.  \<open>json_loads\<close> never runs out, so the fuel can be left out of all that follows.
\<close>

definition reads :: "json_err + 'a \<Rightarrow> 'a \<Rightarrow> bool" where
  "reads m x \<longleftrightarrow> m = Inl JFuel \<or> m = Inr x"

definition breaks :: "json_err + 'a \<Rightarrow> bool" where
  "breaks m \<longleftrightarrow> m = Inl JFuel \<or> m = Inl JDecode"

lemma int_read:
  assumes "stops r" and "length (nat_str (nat \<bar>i\<bar>)) \<le> max_int_digits"
  shows "reads (json_value n (int_str i @ r)) (VInt i, r)"
proof (cases n)
  case (Suc m)
  show ?thesis
  proof (cases "i < 0")
    case True
    obtain c t where c: "nat_str (nat (- i)) = c # t" by (cases "nat_str (nat (- i))") simp_all
    have "json_value (Suc m) (int_str i @ r) = json_number True (nat_str (nat (- i)) @ r)"
      using True nat_str_head [OF c] by (simp add: int_str_def c json_value_minus del: json_value.simps)
    with True assms show ?thesis by (simp add: Suc reads_def json_number_written del: json_value.simps)
  next
    case False
    obtain c t where c: "nat_str (nat i) = c # t" by (cases "nat_str (nat i)") simp_all
    have "json_value (Suc m) (int_str i @ r) = json_number False (nat_str (nat i) @ r)"
      using False nat_str_head [OF c] by (simp add: int_str_def c json_value_digits del: json_value.simps)
    with False assms show ?thesis by (simp add: Suc reads_def json_number_written del: json_value.simps)
  qed
qed (simp add: reads_def)

subsection \<open>Lists and objects\<close>

lemma join_Cons2: "str_join sep (map f (x # y # ys)) = f x @ sep @ str_join sep (map f (y # ys))"
  by simp

lemma breaks_simps [simp]: "breaks (Inl JFuel)" "breaks (Inl JDecode)" "\<not> breaks (Inr x)"
  by (simp_all add: breaks_def)

lemma reads_simps [simp]: "reads (Inl JFuel) x" "reads (Inr y) x \<longleftrightarrow> y = x"
  by (auto simp: reads_def)

lemma readsE: "reads m x \<Longrightarrow> (m = Inl JFuel \<Longrightarrow> Q) \<Longrightarrow> (m = Inr x \<Longrightarrow> Q) \<Longrightarrow> Q"
  unfolding reads_def by blast

definition head_ok :: "string \<Rightarrow> bool" where
  "head_ok s \<longleftrightarrow> s \<noteq> [] \<and> \<not> json_ws (hd s) \<and> hd s \<noteq> CHR '']'' \<and> hd s \<noteq> CHR ''}''"

lemma digit_head: "is_digit c \<Longrightarrow> head_ok (c # s)"
  by (auto simp: head_ok_def json_ws_def is_digit_def)

lemma nat_str_head_ok: "head_ok (nat_str n)"
proof -
  obtain c t where c: "nat_str n = c # t" by (cases "nat_str n") simp_all
  with nat_str_head [OF c] show ?thesis by (simp add: digit_head)
qed

lemma dumps_head: "json_ok v \<Longrightarrow> head_ok (json_dumps v)"
  using nat_str_head_ok by (cases v) (auto simp: head_ok_def json_ws_def json_quote_def int_str_def)

lemma skip_head: "head_ok s \<Longrightarrow> skip_ws (s @ r) = s @ r" "head_ok s \<Longrightarrow> skip_ws s = s"
  by (cases s; simp add: head_ok_def skip_ws_def)+

lemma skip_ws_simps [simp]:
  "skip_ws [] = []" "skip_ws (CHR '' '' # s) = skip_ws s" "skip_ws (CHR '','' # s) = CHR '','' # s"
  "skip_ws (CHR '']'' # s) = CHR '']'' # s" "skip_ws (CHR ''}'' # s) = CHR ''}'' # s"
  "skip_ws (CHR '':'' # s) = CHR '':'' # s" "skip_ws (CHR 0x22 # s) = CHR 0x22 # s"
  by (simp_all add: skip_ws_def json_ws_def)

lemma json_key_written: "json_key (json_quote k @ CHR '':'' # CHR '' '' # s) = Inr (k, skip_ws s)"
  by (simp add: json_key_def json_quote_def json_string_written)

definition item :: "string \<times> pyval \<Rightarrow> string" where
  "item kv = json_quote (fst kv) @ '': '' @ json_dumps (snd kv)"

lemma item_head: "head_ok (item kv)"
  by (simp add: item_def json_quote_def head_ok_def json_ws_def)

lemma join_head: "(\<And>y. y \<in> set (x # xs) \<Longrightarrow> head_ok (f y)) \<Longrightarrow> head_ok (str_join sep (map f (x # xs)) @ s)"
  by (cases xs) (auto simp: head_ok_def)

lemma array_read:
  assumes "\<And>n x r. x \<in> set (x0 # xs) \<Longrightarrow> stops r \<Longrightarrow> reads (json_value n (json_dumps x @ r)) (x, r)"
    and "\<And>x. x \<in> set (x0 # xs) \<Longrightarrow> head_ok (json_dumps x)"
  shows "reads (json_array n (str_join '', '' (map json_dumps (x0 # xs)) @ CHR '']'' # r)) (x0 # xs, r)"
  using assms
proof (induction xs arbitrary: x0 n)
  case Nil
  have "reads (json_value m (json_dumps x0 @ CHR '']'' # r)) (x0, CHR '']'' # r)" for m using Nil(1) by simp
  from this [of "n - 1"] show ?case by (cases n) (auto elim!: readsE)
next
  case (Cons y ys)
  let ?rest = "str_join '', '' (map json_dumps (y # ys)) @ CHR '']'' # r"
  have h: "reads (json_value m (json_dumps x0 @ '', '' @ ?rest)) (x0, '', '' @ ?rest)" for m
    using Cons.prems(1) by (simp add: stops_def)
  have t: "reads (json_array m ?rest) (y # ys, r)" for m
    using Cons.prems by (intro Cons.IH) auto
  have s: "skip_ws ?rest = ?rest" using Cons.prems(2) by (intro skip_head(2) join_head [where f = json_dumps]) simp
  have e: "str_join '', '' (map json_dumps (x0 # y # ys)) @ CHR '']'' # r = json_dumps x0 @ '', '' @ ?rest" by simp
  show ?case
  proof (cases n)
    case (Suc m)
    show ?thesis using h [of m] t [of m] s unfolding Suc e by (auto simp: reads_def)
  qed simp
qed

lemma object_read:
  assumes "\<And>n kv r. kv \<in> set (kv0 # d) \<Longrightarrow> stops r \<Longrightarrow> reads (json_value n (json_dumps (snd kv) @ r)) (snd kv, r)"
    and "\<And>kv. kv \<in> set (kv0 # d) \<Longrightarrow> head_ok (json_dumps (snd kv))"
  shows "reads (json_object n (str_join '', '' (map item (kv0 # d)) @ CHR ''}'' # r)) (kv0 # d, r)"
  using assms
proof (induction d arbitrary: kv0 n)
  case Nil
  have k: "json_key (item kv0 @ CHR ''}'' # r) = Inr (fst kv0, json_dumps (snd kv0) @ CHR ''}'' # r)"
    using Nil(2) [of kv0] by (simp add: item_def json_key_written skip_head)
  have "reads (json_value m (json_dumps (snd kv0) @ CHR ''}'' # r)) (snd kv0, CHR ''}'' # r)" for m using Nil(1) by simp
  from this [of "n - 1"] show ?case using k by (cases n) (auto elim!: readsE)
next
  case (Cons y ys)
  let ?rest = "str_join '', '' (map item (y # ys)) @ CHR ''}'' # r"
  have h: "reads (json_value m (json_dumps (snd kv0) @ '', '' @ ?rest)) (snd kv0, '', '' @ ?rest)" for m
    using Cons.prems(1) by (simp add: stops_def)
  have k: "json_key (item kv0 @ '', '' @ ?rest) = Inr (fst kv0, json_dumps (snd kv0) @ '', '' @ ?rest)"
    using Cons.prems(2) [of kv0] by (simp add: item_def json_key_written skip_head)
  have t: "reads (json_object m ?rest) (y # ys, r)" for m
    using Cons.prems by (intro Cons.IH) auto
  have s: "skip_ws ?rest = ?rest" using item_head by (intro skip_head(2) join_head) auto
  have e: "str_join '', '' (map item (kv0 # y # ys)) @ CHR ''}'' # r = item kv0 @ '', '' @ ?rest" by simp
  show ?case
  proof (cases n)
    case (Suc m)
    show ?thesis using h [of m] t [of m] s k unfolding Suc e by (auto simp: reads_def)
  qed simp
qed

lemma dumps_dict: "json_dumps (VDict d) = ''{'' @ str_join '', '' (map item d) @ ''}''"
proof -
  have "item = (\<lambda>(k, v). json_quote k @ '': '' @ json_dumps v)" by (auto simp: item_def)
  then show ?thesis by simp
qed

lemma value_read:
  "json_ok v \<Longrightarrow> stops r \<Longrightarrow> reads (json_value n (json_dumps v @ r)) (v, r)"
proof (induction v arbitrary: n r)
  case (VInt i)
  then show ?case by (simp add: int_read del: json_value.simps)
next
  case (VStr t)
  show ?case by (cases n) (simp_all add: json_quote_def json_string_written)
next
  case (VList xs)
  show ?case
  proof (cases xs)
    case Nil
    then show ?thesis by (cases n) simp_all
  next
    case (Cons x ys)
    let ?s = "str_join '', '' (map json_dumps (x # ys)) @ CHR '']'' # r"
    have ok: "json_ok y" if "y \<in> set (x # ys)" for y using VList.prems(1) that by (auto simp: Cons list_all_iff)
    have a: "reads (json_array m ?s) (x # ys, r)" for m
      by (rule array_read) (use VList.IH ok dumps_head in \<open>auto simp: Cons\<close>)
    have h: "head_ok ?s" using ok dumps_head by (intro join_head [where f = json_dumps]) simp
    have e: "json_dumps (VList xs) @ r = CHR ''['' # ?s" by (simp add: Cons)
    have t: "take 1 ?s \<noteq> '']''" using h by (cases ?s) (auto simp: head_ok_def)
    show ?thesis
    proof (cases n)
      case (Suc m)
      show ?thesis using a [of m] t skip_head(2) [OF h] unfolding e Suc by (auto elim!: readsE simp: Cons)
    qed simp
  qed
next
  case (VDict d)
  show ?case
  proof (cases d)
    case Nil
    then show ?thesis by (cases n) simp_all
  next
    case (Cons kv e)
    let ?s = "str_join '', '' (map item (kv # e)) @ CHR ''}'' # r"
    have ok: "json_ok (snd y)" if "y \<in> set (kv # e)" for y using VDict.prems(1) that by (auto simp: Cons list_all_iff)
    have IH: "stops q \<Longrightarrow> reads (json_value m (json_dumps (snd y) @ q)) (snd y, q)" if "y \<in> set (kv # e)" for y m q
      using VDict.IH [of y "snd y"] ok [OF that] that by (cases y) (auto simp: Cons)
    have a: "reads (json_object m ?s) (kv # e, r)" for m
      by (rule object_read) (use IH ok dumps_head in auto)
    have h: "head_ok ?s" by (rule join_head) (rule item_head)
    have d: "json_dumps (VDict d) @ r = CHR ''{'' # ?s" unfolding dumps_dict Cons by simp
    have t: "take 1 ?s \<noteq> ''}''" using h by (cases ?s) (auto simp: head_ok_def)
    have k: "dict_of (kv # e) = kv # e" using VDict.prems(1) by (intro dict_of_id) (simp add: Cons dkeys_def)
    show ?thesis
    proof (cases n)
      case (Suc m)
      show ?thesis using a [of m] t skip_head(2) [OF h] k unfolding d Suc by (auto elim!: readsE simp: Cons)
    qed simp
  qed
next
  case VNone
  show ?case by (cases n) (simp_all add: json_lit_def starts_with_def)
next
  case (VBool b)
  show ?case by (cases n) (simp_all add: json_lit_def starts_with_def)
qed simp

text \<open>What \<open>json.dumps\<close> writes, \<open>json.loads\<close> reads back.\<close>

lemma json_roundtrip: "json_ok v \<Longrightarrow> json_loads (json_dumps v) = Inr v"
proof -
  assume ok: "json_ok v"
  have h: "head_ok (json_dumps v)" using ok by (rule dumps_head)
  have "hd (json_dumps v) \<noteq> CHR 0xEF"
  proof (cases v)
    case (VInt i)
    then show ?thesis using nat_str_hd [of "nat i"] by (auto simp: int_str_def)
  qed (use ok in \<open>auto simp: json_quote_def\<close>)
  then have b: "\<not> starts_with (json_dumps v) [CHR 0xEF, CHR 0xBB, CHR 0xBF]"
    using h by (cases "json_dumps v") (auto simp: starts_with_def)
  have "reads (json_value n (json_dumps v)) (v, [])" for n using value_read [OF ok, of "[]" n] by simp
  from this [of "2 * length (json_dumps v) + 1"] json_fuel(1) [of "json_dumps v" "2 * length (json_dumps v) + 1"]
  have "json_value (2 * length (json_dumps v) + 1) (json_dumps v) = Inr (v, [])" by (simp add: reads_def del: json_value.simps)
  then show ?thesis using b skip_head(2) [OF h] by (simp add: json_loads_def del: json_value.simps)
qed

subsection \<open>A torn value is not a value\<close>

definition torn :: "string \<Rightarrow> string \<Rightarrow> bool" where
  "torn p s \<longleftrightarrow> (\<exists>q. q \<noteq> [] \<and> s = p @ q)"

lemma torn_append: "torn p (s @ t) \<longleftrightarrow> torn p s \<or> (\<exists>p'. p = s @ p' \<and> torn p' t)"
proof
  assume "torn p (s @ t)"
  then obtain q where q: "q \<noteq> []" "s @ t = p @ q" unfolding torn_def by blast
  then consider u where "s = p @ u" "q = u @ t" | u where "p = s @ u" "t = u @ q"
    unfolding append_eq_append_conv2 by blast
  then show "torn p s \<or> (\<exists>p'. p = s @ p' \<and> torn p' t)"
  proof cases
    case (1 u)
    show ?thesis
    proof (cases u)
      case Nil
      with 1 q(1) have "p = s @ [] \<and> torn [] t" by (simp add: torn_def)
      then show ?thesis by blast
    next
      case (Cons c w)
      with 1 have "torn p s" unfolding torn_def by blast
      then show ?thesis ..
    qed
  next
    case (2 u)
    with q(1) have "torn u t" unfolding torn_def by blast
    with 2 show ?thesis by blast
  qed
next
  assume "torn p s \<or> (\<exists>p'. p = s @ p' \<and> torn p' t)"
  then show "torn p (s @ t)"
  proof (elim disjE exE conjE)
    assume "torn p s"
    then obtain q where "q \<noteq> []" "s = p @ q" unfolding torn_def by blast
    then have "q @ t \<noteq> []" "s @ t = p @ (q @ t)" by simp_all
    then show ?thesis unfolding torn_def by blast
  next
    fix p' assume "p = s @ p'" "torn p' t"
    then obtain q where "q \<noteq> []" "t = p' @ q" unfolding torn_def by blast
    then have "s @ t = p @ q" using \<open>p = s @ p'\<close> by simp
    with \<open>q \<noteq> []\<close> show ?thesis unfolding torn_def by blast
  qed
qed

lemma torn_Cons [simp]: "torn p (c # s) \<longleftrightarrow> p = [] \<or> (\<exists>p'. p = c # p' \<and> torn p' s)"
  by (auto simp: torn_def Cons_eq_append_conv)

lemma torn_Nil [simp]: "\<not> torn p []" by (simp add: torn_def)

lemma value_empty [simp]: "breaks (json_value n [])" "breaks (json_array n [])" "breaks (json_object n [])"
proof -
  show v: "breaks (json_value n [])" for n by (cases n) simp_all
  show "breaks (json_array n [])"
  proof (cases n)
    case (Suc m)
    then show ?thesis using v [of m] by (auto simp: breaks_def)
  qed simp
  show "breaks (json_object n [])" by (cases n) (simp_all add: json_key_def)
qed

lemma escape_torn: "torn p (json_escape c) \<Longrightarrow> json_string p = None"
proof -
  have h: "hex4 u = None" if "length u < 4" for u :: string
  proof -
    have "length (map hex_val (take 4 u)) < 4" using that by simp
    then show ?thesis unfolding hex4_def by (auto split: list.splits option.splits)
  qed
  assume t: "torn p (json_escape c)"
  then consider "p = []" | "p = [CHR 0x5C]" | u where "p = CHR 0x5C # CHR ''u'' # u" "length u < 4"
    by (auto simp: json_escape_def Let_def split: if_splits)
  then show ?thesis
  proof cases
    case 3
    then show ?thesis by (subst json_string.simps) (simp add: unicode_escape_def h)
  qed (subst json_string.simps, simp)+
qed

lemma string_torn: "torn p (concat (map json_escape s) @ [CHR 0x22]) \<Longrightarrow> json_string p = None"
proof (induction s arbitrary: p)
  case Nil
  then have "p = []" by simp
  then show ?case by (subst json_string.simps) simp
next
  case (Cons c s)
  from Cons.prems consider "torn p (json_escape c)"
    | p' where "p = json_escape c @ p'" "torn p' (concat (map json_escape s) @ [CHR 0x22])"
    unfolding list.map concat.simps append_assoc torn_append [of p "json_escape c"] by blast
  then show ?case
  proof cases
    case 1
    then show ?thesis by (rule escape_torn)
  next
    case 2
    then show ?thesis using Cons.IH by (simp add: json_string_escape)
  qed
qed

lemma quote_torn: "torn p (json_quote k) \<Longrightarrow> p = [] \<or> (\<exists>t. p = CHR 0x22 # t \<and> json_string t = None)"
  using string_torn by (auto simp: json_quote_def)

text \<open>\<open>frag\<close>: the parser breaks, or takes all there is for a (shorter) number.\<close>

definition frag :: "json_err + (pyval \<times> string) \<Rightarrow> bool" where
  "frag m \<longleftrightarrow> breaks m \<or> (\<exists>w. m = Inr (w, []))"

lemma frag_breaks: "breaks m \<Longrightarrow> frag m" by (simp add: frag_def)

lemma digits_frag:
  assumes "torn p (nat_str k)" and "length (nat_str k) \<le> max_int_digits"
  shows "frag (json_number neg p)"
proof (cases p)
  case Nil
  then show ?thesis by (simp add: frag_def json_number_def span_digits_def json_frac_def json_exp_def)
next
  case (Cons c t)
  from assms(1) obtain q where q: "q \<noteq> []" "nat_str k = p @ q" by (auto simp: torn_def)
  have d: "takeWhile is_digit p = p" "dropWhile is_digit p = []"
    using q(2) nat_str_digits [of _ k] by (auto simp: takeWhile_eq_all_conv dropWhile_eq_Nil_conv)
  have "c \<noteq> CHR ''0''" using nat_str_head [of k c "t @ q"] q Cons by auto
  moreover have "length p \<le> max_int_digits" using assms(2) q(2) by simp
  ultimately show ?thesis using d Cons by (auto simp: frag_def json_number_def span_digits_def json_frac_def json_exp_def)
qed

lemma int_torn:
  assumes "torn p (int_str i)" and "length (nat_str (nat \<bar>i\<bar>)) \<le> max_int_digits"
  shows "frag (json_value n p)"
proof (cases "p = [] \<or> n = 0")
  case True
  then show ?thesis by (cases n) (auto simp: frag_def)
next
  case False
  then obtain m where n: "n = Suc m" by (cases n) auto
  show ?thesis
  proof (cases "i < 0")
    case True
    with False assms obtain u where u: "p = CHR ''-'' # u" "torn u (nat_str (nat (- i)))" by (auto simp: int_str_def)
    have "frag (json_number True u)" using u(2) assms(2) True by (intro digits_frag) auto
    moreover have "\<not> starts_with p ''-Infinity''"
    proof -
      from u(2) obtain q where "nat_str (nat (- i)) = u @ q" by (auto simp: torn_def)
      then have "\<forall>c\<in>set u. is_digit c" using nat_str_digits [of _ "nat (- i)"] by auto
      then show ?thesis by (cases u) (auto simp: u(1) starts_with_def is_digit_def)
    qed
    ultimately show ?thesis by (simp add: n u(1))
  next
    case pos: False
    obtain c t where p: "p = c # t" using False by (cases p) auto
    from assms(1) pos obtain q where "nat_str (nat i) = c # t @ q" by (auto simp: int_str_def torn_def p)
    then have "is_digit c" using nat_str_head by blast
    moreover have "frag (json_number False p)" using assms pos by (intro digits_frag) (auto simp: int_str_def)
    ultimately show ?thesis by (simp add: n p json_value_digits del: json_value.simps)
  qed
qed

lemma frag_array: "frag (json_value m p) \<Longrightarrow> breaks (json_array (Suc m) p)"
  by (auto simp: frag_def breaks_def)

definition well_read :: "pyval \<Rightarrow> bool" where
  "well_read v \<longleftrightarrow> head_ok (json_dumps v)
     \<and> (\<forall>n r. stops r \<longrightarrow> reads (json_value n (json_dumps v @ r)) (v, r))
     \<and> (\<forall>n p. torn p (json_dumps v) \<longrightarrow> frag (json_value n p))"

lemma well_readD:
  assumes "well_read v"
  shows "stops r \<Longrightarrow> reads (json_value n (json_dumps v @ r)) (v, r)"
    and "torn p (json_dumps v) \<Longrightarrow> frag (json_value n p)"
  using assms by (simp_all add: well_read_def)

text \<open>The element is torn, or complete and followed by a part of the separator, or the rest is torn.\<close>

lemma sep_torn:
  assumes "torn p (x @ '', '' @ r)"
  obtains "torn p x" | t where "p = x @ t" "stops t" "skip_ws t = [] \<or> t = '',''" | u where "p = x @ '', '' @ u" "torn u r"
  using assms unfolding torn_append [of p x] by auto

lemma array_torn:
  "list_all well_read (x0 # xs) \<Longrightarrow> torn p (str_join '', '' (map json_dumps (x0 # xs)) @ '']'') \<Longrightarrow> breaks (json_array n p)"
proof (induction xs arbitrary: x0 n p)
  case Nil
  from Nil.prems(2) consider "torn p (json_dumps x0)" | "p = json_dumps x0"
    using torn_append [of p "json_dumps x0" "'']''"] by auto
  then show ?case
  proof cases
    case 1
    then show ?thesis using Nil.prems(1) frag_array well_readD(2) by (cases n) auto
  next
    case 2
    have "frag (json_value m p)" for m
      using Nil.prems(1) well_readD(1) [of x0 "[]" m] 2 by (auto simp: frag_def elim!: readsE)
    then show ?thesis using frag_array by (cases n) auto
  qed
next
  case (Cons y ys)
  let ?rest = "str_join '', '' (map json_dumps (y # ys)) @ '']''"
  have x0: "well_read x0" and ys: "list_all well_read (y # ys)" using Cons.prems(1) by simp_all
  show ?case
  proof (cases n)
    case (Suc m)
    from Cons.prems(2) have "torn p (json_dumps x0 @ '', '' @ ?rest)" by simp
    then show ?thesis
    proof (cases rule: sep_torn)
      case 1
      then show ?thesis using well_readD(2) [OF x0] Suc frag_array by simp
    next
      case (2 t)
      then have "reads (json_value m p) (x0, t)" using well_readD(1) [OF x0] by simp
      then show ?thesis using value_empty(2) [of m] 2(3) unfolding Suc by (auto elim!: readsE simp: breaks_def)
    next
      case (3 u)
      then have r: "reads (json_value m p) (x0, '', '' @ u)" using well_readD(1) [OF x0, of "'', '' @ u"] by simp
      have "breaks (json_array m u)" using ys 3(2) by (rule Cons.IH)
      moreover have "skip_ws u = u"
      proof (cases u)
        case (Cons c w)
        have "head_ok ?rest" using ys by (intro join_head [where f = json_dumps]) (auto simp: well_read_def list_all_iff)
        with 3(2) Cons show ?thesis by (auto simp: torn_def head_ok_def skip_ws_def)
      qed simp
      ultimately show ?thesis using r unfolding Suc by (auto elim!: readsE simp: breaks_def)
    qed
  qed simp
qed

lemma key_torn: "torn p (json_quote k @ '': '') \<Longrightarrow> json_key p = Inl JDecode \<or> json_key p = Inr (k, [])"
proof -
  assume "torn p (json_quote k @ '': '')"
  then consider "torn p (json_quote k)" | "p = json_quote k" | "p = json_quote k @ '':''"
    unfolding torn_append by auto
  then show ?thesis
  proof cases
    case 1
    then show ?thesis using quote_torn [OF 1] by (auto simp: json_key_def)
  next
    case 2
    then show ?thesis by (simp add: json_key_def json_quote_def json_string_written)
  next
    case 3
    then show ?thesis by (simp add: json_key_def json_quote_def json_string_written)
  qed
qed

lemma member_torn:
  assumes "well_read (snd kv)" and "torn p (item kv)"
  shows "breaks (json_object n p)"
proof (cases n)
  case (Suc m)
  from assms(2) have "torn p ((json_quote (fst kv) @ '': '') @ json_dumps (snd kv))" by (simp add: item_def)
  then consider "torn p (json_quote (fst kv) @ '': '')"
    | u where "p = (json_quote (fst kv) @ '': '') @ u" "torn u (json_dumps (snd kv))"
    unfolding torn_append [of p "json_quote (fst kv) @ '': ''"] by blast
  then show ?thesis
  proof cases
    case 1
    then show ?thesis using key_torn [OF 1] value_empty(1) [of m] Suc by (auto simp: breaks_def)
  next
    case (2 u)
    have "skip_ws u = u"
    proof (cases u)
      case (Cons c w)
      with 2(2) assms(1) show ?thesis by (auto simp: torn_def head_ok_def skip_ws_def well_read_def)
    qed simp
    then have "json_key p = Inr (fst kv, u)" using 2(1) json_key_written [of "fst kv" u] by simp
    then show ?thesis using well_readD(2) [OF assms(1) 2(2), of m] Suc by (auto simp: frag_def breaks_def)
  qed
qed simp

lemma object_torn:
  "list_all (\<lambda>kv. well_read (snd kv)) (kv # d) \<Longrightarrow> torn p (str_join '', '' (map item (kv # d)) @ ''}'') \<Longrightarrow>
    breaks (json_object n p)"
proof (induction d arbitrary: kv n p)
  case Nil
  have k: "json_key (item kv) = Inr (fst kv, json_dumps (snd kv))"
    using Nil.prems(1) by (simp add: item_def json_key_written skip_head well_read_def)
  from Nil.prems(2) consider "torn p (item kv)" | "p = item kv"
    using torn_append [of p "item kv" "''}''"] by auto
  then show ?case
  proof cases
    case 1
    then show ?thesis using Nil.prems(1) member_torn by simp
  next
    case 2
    then show ?thesis
      using Nil.prems(1) well_readD(1) [of "snd kv" "[]" "n - 1"] k by (cases n) (auto elim!: readsE)
  qed
next
  case (Cons y ys)
  let ?rest = "str_join '', '' (map item (y # ys)) @ ''}''"
  have v: "well_read (snd kv)" and ys: "list_all (\<lambda>kv. well_read (snd kv)) (y # ys)" using Cons.prems(1) by simp_all
  have k: "json_key (item kv @ t) = Inr (fst kv, json_dumps (snd kv) @ t)" for t
    using v by (simp add: item_def json_key_written skip_head well_read_def)
  show ?case
  proof (cases n)
    case (Suc m)
    from Cons.prems(2) have "torn p (item kv @ '', '' @ ?rest)" by simp
    then show ?thesis
    proof (cases rule: sep_torn)
      case 1
      then show ?thesis using member_torn [OF v] by blast
    next
      case (2 t)
      then have "reads (json_value m (json_dumps (snd kv) @ t)) (snd kv, t)" using well_readD(1) [OF v] by simp
      then show ?thesis using value_empty(3) [of m] 2(1,3) k [of t] unfolding Suc by (auto elim!: readsE simp: breaks_def)
    next
      case (3 u)
      have r: "reads (json_value m (json_dumps (snd kv) @ '', '' @ u)) (snd kv, '', '' @ u)"
        using well_readD(1) [OF v, of "'', '' @ u"] by simp
      have "breaks (json_object m u)" using ys 3(2) by (rule Cons.IH)
      moreover have "skip_ws u = u"
      proof (cases u)
        case (Cons c w)
        have "head_ok ?rest" using item_head by (intro join_head [where f = item])
        with 3(2) Cons show ?thesis by (auto simp: torn_def head_ok_def skip_ws_def)
      qed simp
      ultimately show ?thesis using r 3(1) k [of "'', '' @ u"] unfolding Suc by (auto elim!: readsE simp: breaks_def)
    qed
  qed simp
qed

lemma dict_torn:
  assumes w: "list_all (\<lambda>kv. well_read (snd kv)) d" and "torn p (json_dumps (VDict d))"
  shows "breaks (json_value n p)"
proof (cases "p = [] \<or> n = 0")
  case True
  then show ?thesis by (cases n) auto
next
  case False
  then obtain m c t where n: "n = Suc m" and p: "p = c # t" by (cases n; cases p) auto
  show ?thesis
  proof (cases d)
    case Nil
    with assms(2) value_empty(3) [of m] show ?thesis unfolding n p by (auto simp: breaks_def)
  next
    case (Cons kv e)
    let ?r = "str_join '', '' (map item (kv # e)) @ ''}''"
    from assms(2) have c: "c = CHR ''{''" and t: "torn t ?r" unfolding dumps_dict Cons p by simp_all
    have "head_ok ?r" using item_head by (intro join_head [where f = item])
    with t have h: "skip_ws t = t" "take 1 t \<noteq> ''}''" by (cases t; auto simp: torn_def head_ok_def skip_ws_def)+
    have "breaks (json_object m t)" using w t unfolding Cons by (rule object_torn)
    with h show ?thesis unfolding n p c by (auto simp: breaks_def)
  qed
qed

lemma value_torn: "json_ok v \<Longrightarrow> torn p (json_dumps v) \<Longrightarrow> frag (json_value n p)"
proof (induction v arbitrary: n p)
  case (VInt i)
  then show ?case by (simp add: int_torn del: json_value.simps)
next
  case (VStr s)
  then show ?case using quote_torn [of p s] by (cases n) (auto simp: frag_def)
next
  case (VList xs)
  have w: "list_all well_read xs"
    using VList value_read dumps_head by (auto simp: list_all_iff well_read_def)
  show ?case
  proof (cases "p = [] \<or> n = 0")
    case True
    then show ?thesis by (cases n) (auto simp: frag_def)
  next
    case False
    then obtain m c t where n: "n = Suc m" and p: "p = c # t" by (cases n; cases p) auto
    show ?thesis
    proof (cases xs)
      case Nil
      with VList.prems(2) value_empty(2) [of m] show ?thesis unfolding n p by (auto simp: breaks_def intro!: frag_breaks)
    next
      case (Cons x ys)
      let ?r = "str_join '', '' (map json_dumps (x # ys)) @ '']''"
      from VList.prems(2) have c: "c = CHR ''[''" and t: "torn t ?r" by (simp_all add: Cons p)
      have "head_ok ?r" using w Cons by (intro join_head [where f = json_dumps]) (auto simp: well_read_def list_all_iff)
      with t have h: "skip_ws t = t" "take 1 t \<noteq> '']''" by (cases t; auto simp: torn_def head_ok_def skip_ws_def)+
      have "breaks (json_array m t)" using w t unfolding Cons by (rule array_torn)
      with h show ?thesis unfolding n p c by (intro frag_breaks) (auto simp: breaks_def)
    qed
  qed
next
  case (VDict d)
  have "list_all (\<lambda>kv. well_read (snd kv)) d"
    using VDict value_read dumps_head by (fastforce simp: list_all_iff well_read_def)
  then show ?case using VDict.prems(2) by (intro frag_breaks dict_torn)
next
  case VNone
  then show ?case by (cases n) (auto simp: frag_def json_lit_def starts_with_def)
next
  case (VBool b)
  then show ?case by (cases n) (auto simp: frag_def json_lit_def starts_with_def split: if_splits)
qed simp

lemma json_ok_read: "json_ok v \<Longrightarrow> well_read v"
  using value_read value_torn dumps_head by (auto simp: well_read_def)

text \<open>No proper prefix of a written object is read.\<close>

lemma torn_loads:
  assumes "json_ok (VDict d)" and "torn p (json_dumps (VDict d))"
  shows "json_loads p = Inl JDecode"
proof -
  have "list_all (\<lambda>kv. well_read (snd kv)) d" using assms(1) json_ok_read by (auto simp: list_all_iff)
  then have b: "breaks (json_value n p)" for n using assms(2) by (rule dict_torn)
  have s: "skip_ws p = p" and m: "\<not> starts_with p [CHR 0xEF, CHR 0xBB, CHR 0xBF]"
    using assms(2) by (cases p; auto simp: torn_def skip_ws_def json_ws_def starts_with_def)+
  have "json_value (2 * length p + 1) p = Inl JDecode"
    using b [of "2 * length p + 1"] json_fuel(1) [of p "2 * length p + 1"] by (auto simp: breaks_def)
  then show ?thesis using m s by (simp add: json_loads_def del: json_value.simps)
qed

subsection \<open>The indented form\<close>

text \<open>\<open>json.dumps(v, ensure_ascii=False, indent=2)\<close>: every element on a line of its own.\<close>

definition new_line :: "nat \<Rightarrow> string" where
  "new_line n = CHR 0x0A # replicate (2 * n) (CHR '' '')"

fun json_indent :: "nat \<Rightarrow> pyval \<Rightarrow> string" where
  "json_indent n (VList xs) =
     (if xs = [] then ''[]''
      else ''['' @ new_line (Suc n) @ str_join ('','' @ new_line (Suc n)) (map (json_indent (Suc n)) xs) @ new_line n @ '']'')"
| "json_indent n (VDict d) =
     (if d = [] then ''{}''
      else ''{'' @ new_line (Suc n) @
        str_join ('','' @ new_line (Suc n)) (map (\<lambda>(k, v). json_quote k @ '': '' @ json_indent (Suc n) v) d) @ new_line n @ ''}'')"
| "json_indent n v = json_dumps v"

lemma skip_new_line [simp]: "skip_ws (new_line n @ s) = skip_ws s"
proof -
  have "skip_ws (replicate k (CHR '' '') @ s) = skip_ws s" for k by (induction k) simp_all
  then show ?thesis by (simp add: new_line_def) (simp add: skip_ws_def json_ws_def)
qed

lemma stops_new_line [simp]: "stops (new_line n @ s)"
  by (simp add: new_line_def)

lemma indent_head: "json_ok v \<Longrightarrow> head_ok (json_indent n v)"
  using dumps_head [of v] by (cases v) (auto simp: head_ok_def json_ws_def)

lemma array_lines:
  assumes "\<And>n x r. x \<in> set (x0 # xs) \<Longrightarrow> stops r \<Longrightarrow> reads (json_value n (f x @ r)) (x, r)"
    and "\<And>x. x \<in> set (x0 # xs) \<Longrightarrow> head_ok (f x)"
  shows "reads (json_array n (str_join ('','' @ new_line i) (map f (x0 # xs)) @ new_line j @ CHR '']'' # r)) (x0 # xs, r)"
  using assms
proof (induction xs arbitrary: x0 n)
  case Nil
  have "reads (json_value m (f x0 @ new_line j @ CHR '']'' # r)) (x0, new_line j @ CHR '']'' # r)" for m using Nil(1) by simp
  from this [of "n - 1"] show ?case by (cases n) (auto elim!: readsE)
next
  case (Cons y ys)
  let ?rest = "str_join ('','' @ new_line i) (map f (y # ys)) @ new_line j @ CHR '']'' # r"
  have h: "reads (json_value m (f x0 @ CHR '','' # new_line i @ ?rest)) (x0, CHR '','' # new_line i @ ?rest)" for m
    using Cons.prems(1) by simp
  have t: "reads (json_array m ?rest) (y # ys, r)" for m
    using Cons.prems by (intro Cons.IH) auto
  have s: "skip_ws ?rest = ?rest" using Cons.prems(2) by (intro skip_head(2) join_head [where f = f]) simp
  have e: "str_join ('','' @ new_line i) (map f (x0 # y # ys)) @ new_line j @ CHR '']'' # r = f x0 @ CHR '','' # new_line i @ ?rest" by simp
  show ?case
  proof (cases n)
    case (Suc m)
    show ?thesis using h [of m] t [of m] s unfolding Suc e by (auto simp: reads_def)
  qed simp
qed

definition member :: "(pyval \<Rightarrow> string) \<Rightarrow> string \<times> pyval \<Rightarrow> string" where
  "member f kv = json_quote (fst kv) @ '': '' @ f (snd kv)"

lemma member_head: "head_ok (member f kv)"
  by (simp add: member_def json_quote_def head_ok_def json_ws_def)

lemma object_lines:
  assumes "\<And>n kv r. kv \<in> set (kv0 # d) \<Longrightarrow> stops r \<Longrightarrow> reads (json_value n (f (snd kv) @ r)) (snd kv, r)"
    and "\<And>kv. kv \<in> set (kv0 # d) \<Longrightarrow> head_ok (f (snd kv))"
  shows "reads (json_object n (str_join ('','' @ new_line i) (map (member f) (kv0 # d)) @ new_line j @ CHR ''}'' # r)) (kv0 # d, r)"
  using assms
proof (induction d arbitrary: kv0 n)
  case Nil
  have k: "json_key (member f kv0 @ new_line j @ CHR ''}'' # r) = Inr (fst kv0, f (snd kv0) @ new_line j @ CHR ''}'' # r)"
    using Nil(2) [of kv0] by (simp add: member_def json_key_written skip_head)
  have "reads (json_value m (f (snd kv0) @ new_line j @ CHR ''}'' # r)) (snd kv0, new_line j @ CHR ''}'' # r)" for m
    using Nil(1) by simp
  from this [of "n - 1"] show ?case using k by (cases n) (auto elim!: readsE)
next
  case (Cons y ys)
  let ?rest = "str_join ('','' @ new_line i) (map (member f) (y # ys)) @ new_line j @ CHR ''}'' # r"
  have h: "reads (json_value m (f (snd kv0) @ CHR '','' # new_line i @ ?rest)) (snd kv0, CHR '','' # new_line i @ ?rest)" for m
    using Cons.prems(1) by simp
  have k: "json_key (member f kv0 @ CHR '','' # new_line i @ ?rest) = Inr (fst kv0, f (snd kv0) @ CHR '','' # new_line i @ ?rest)"
    using Cons.prems(2) [of kv0] by (simp add: member_def json_key_written skip_head)
  have t: "reads (json_object m ?rest) (y # ys, r)" for m
    using Cons.prems by (intro Cons.IH) auto
  have s: "skip_ws ?rest = ?rest" using member_head by (intro skip_head(2) join_head) auto
  have e: "str_join ('','' @ new_line i) (map (member f) (kv0 # y # ys)) @ new_line j @ CHR ''}'' # r
      = member f kv0 @ CHR '','' # new_line i @ ?rest" by simp
  show ?case
  proof (cases n)
    case (Suc m)
    show ?thesis using h [of m] t [of m] s k unfolding Suc e by (auto simp: reads_def)
  qed simp
qed

lemma indent_read:
  "json_ok v \<Longrightarrow> stops r \<Longrightarrow> reads (json_value n (json_indent i v @ r)) (v, r)"
proof (induction v arbitrary: n i r)
  case (VList xs)
  show ?case
  proof (cases xs)
    case Nil
    then show ?thesis by (cases n) simp_all
  next
    case (Cons x ys)
    let ?f = "json_indent (Suc i)"
    let ?s = "str_join ('','' @ new_line (Suc i)) (map ?f (x # ys)) @ new_line i @ CHR '']'' # r"
    have ok: "json_ok y" if "y \<in> set (x # ys)" for y using VList.prems(1) that by (auto simp: Cons list_all_iff)
    have a: "reads (json_array m ?s) (x # ys, r)" for m
      by (rule array_lines) (use VList.IH ok indent_head in \<open>auto simp: Cons\<close>)
    have h: "head_ok ?s" using ok indent_head by (intro join_head [where f = ?f]) simp
    have e: "json_indent i (VList xs) @ r = CHR ''['' # new_line (Suc i) @ ?s" by (simp add: Cons)
    have t: "take 1 ?s \<noteq> '']''" using h by (cases ?s) (auto simp: head_ok_def)
    show ?thesis
    proof (cases n)
      case (Suc m)
      show ?thesis using a [of m] t skip_head(2) [OF h] unfolding e Suc by (auto elim!: readsE simp: Cons)
    qed simp
  qed
next
  case (VDict d)
  show ?case
  proof (cases d)
    case Nil
    then show ?thesis by (cases n) simp_all
  next
    case (Cons kv e)
    let ?f = "json_indent (Suc i)"
    let ?s = "str_join ('','' @ new_line (Suc i)) (map (member ?f) (kv # e)) @ new_line i @ CHR ''}'' # r"
    have ok: "json_ok (snd y)" if "y \<in> set (kv # e)" for y using VDict.prems(1) that by (auto simp: Cons list_all_iff)
    have IH: "stops q \<Longrightarrow> reads (json_value m (?f (snd y) @ q)) (snd y, q)" if "y \<in> set (kv # e)" for y m q
      using VDict.IH [of y "snd y"] ok [OF that] that by (cases y) (auto simp: Cons)
    have a: "reads (json_object m ?s) (kv # e, r)" for m
      by (rule object_lines) (use IH ok indent_head in auto)
    have h: "head_ok ?s" by (rule join_head) (rule member_head)
    have f: "member ?f = (\<lambda>(k, v). json_quote k @ '': '' @ ?f v)" by (auto simp: member_def)
    have d: "json_indent i (VDict d) @ r = CHR ''{'' # new_line (Suc i) @ ?s" by (simp add: f Cons)
    have t: "take 1 ?s \<noteq> ''}''" using h by (cases ?s) (auto simp: head_ok_def)
    have k: "dict_of (kv # e) = kv # e" using VDict.prems(1) by (intro dict_of_id) (simp add: Cons dkeys_def)
    show ?thesis
    proof (cases n)
      case (Suc m)
      show ?thesis using a [of m] t skip_head(2) [OF h] k unfolding d Suc by (auto elim!: readsE simp: Cons)
    qed simp
  qed
qed (unfold json_indent.simps, (rule value_read; assumption)+)

text \<open>What is written in the indented form is read back.\<close>

lemma indent_roundtrip:
  assumes "json_ok v"
  shows "json_loads (json_indent n v) = Inr v"
proof -
  let ?s = "json_indent n v"
  have h: "head_ok ?s" using assms by (rule indent_head)
  have "hd ?s \<noteq> CHR 0xEF"
  proof (cases v)
    case (VInt i)
    then show ?thesis using nat_str_hd [of "nat i"] by (auto simp: int_str_def)
  qed (use assms in \<open>auto simp: json_quote_def\<close>)
  then have m: "\<not> starts_with ?s [CHR 0xEF, CHR 0xBB, CHR 0xBF]" using h by (cases ?s) (auto simp: starts_with_def)
  have "json_value (2 * length ?s + 1) ?s = Inr (v, [])"
    using indent_read [OF assms, of "[]" "2 * length ?s + 1" n] json_fuel(1) [of ?s "2 * length ?s + 1"] by (auto simp: reads_def)
  then show ?thesis using m skip_head(2) [OF h] by (simp add: json_loads_def del: json_value.simps)
qed

end
