(* ===== verification/Wal.thy ===== *)
theory Wal
  imports JsonDump
begin

section \<open>The write-ahead log\<close>

text \<open>
  \<open>src/reyn/core/events/state_log.py\<close>: the append-only file of state changes, as bytes.  An entry
  is one line of JSON; reading skips what is not an entry.  A write is modelled in two steps, with
  the entry in flight (in the file but not yet synced) between them, and a crash may leave any
  prefix of the bytes in flight.
\<close>

subsection \<open>Bytes\<close>

datatype wal_exc = WalDecodeError | WalEncodeError | WalIntDigits | WalTypeError | WalUnknownKind string

text \<open>Strict UTF-8, as Python's decoder has it: no overlong forms, no surrogates.\<close>

definition byte_in :: "char \<Rightarrow> nat \<Rightarrow> nat \<Rightarrow> bool" where
  "byte_in c lo hi \<longleftrightarrow> lo \<le> of_char c \<and> of_char c \<le> hi"

definition utf8_rest :: "char \<Rightarrow> string \<Rightarrow> string option" where
  "utf8_rest a r =
     (if byte_in a 0 0x7F then Some r
      else if byte_in a 0xC2 0xDF then
        (case r of b # r' \<Rightarrow> if byte_in b 0x80 0xBF then Some r' else None | [] \<Rightarrow> None)
      else if byte_in a 0xE0 0xEF then
        (case r of
           b # c # r' \<Rightarrow>
             if byte_in b (if a = CHR 0xE0 then 0xA0 else 0x80) (if a = CHR 0xED then 0x9F else 0xBF)
               \<and> byte_in c 0x80 0xBF
             then Some r' else None
         | _ \<Rightarrow> None)
      else if byte_in a 0xF0 0xF4 then
        (case r of
           b # c # d # r' \<Rightarrow>
             if byte_in b (if a = CHR 0xF0 then 0x90 else 0x80) (if a = CHR 0xF4 then 0x8F else 0xBF)
               \<and> byte_in c 0x80 0xBF \<and> byte_in d 0x80 0xBF
             then Some r' else None
         | _ \<Rightarrow> None)
      else None)"

lemma utf8_rest_length: "utf8_rest a r = Some w \<Longrightarrow> length w \<le> length r"
  unfolding utf8_rest_def by (auto split: if_split_asm list.split_asm)

function utf8_ok :: "string \<Rightarrow> bool" where
  "utf8_ok s =
     (case s of
        [] \<Rightarrow> True
      | a # r \<Rightarrow> (case utf8_rest a r of None \<Rightarrow> False | Some w \<Rightarrow> utf8_ok w))"
  by pat_completeness auto
termination
  by (relation "measure length") (auto simp: less_Suc_eq_le dest: utf8_rest_length)

declare utf8_ok.simps [simp del]

definition NL :: char where "NL = CHR 0x0A"

text \<open>Text mode translates the line ends; \<open>bytes.strip\<close> knows fewer white space characters.\<close>

fun universal :: "string \<Rightarrow> string" where
  "universal [] = []"
| "universal (c # s) =
     (if c = CHR 0x0D then (case s of d # _ \<Rightarrow> if d = NL then universal s else NL # universal s | [] \<Rightarrow> [NL])
      else c # universal s)"

definition bytes_strip :: "string \<Rightarrow> string" where
  "bytes_strip s =
     (let sp = (\<lambda>c. byte_in c 9 13 \<or> c = CHR '' '') in rev (dropWhile sp (rev (dropWhile sp s))))"

subsection \<open>Entries\<close>

type_synonym entry = "pyval dict"

definition seq_of :: "entry \<Rightarrow> int option" where
  "seq_of d =
     (case dget d ''seq'' of
        Some (VInt i) \<Rightarrow> Some i
      | Some (VBool b) \<Rightarrow> Some (if b then 1 else 0)
      | _ \<Rightarrow> None)"

text \<open>A decoded line: an entry, nothing usable, or an exception that is not a decoding error.\<close>

definition usable :: "json_err + pyval \<Rightarrow> wal_exc + entry option" where
  "usable r =
     (case r of
        Inl JIntDigits \<Rightarrow> Inl WalIntDigits
      | Inl _ \<Rightarrow> Inr None
      | Inr (VDict d) \<Rightarrow> Inr (if seq_of d = None then None else Some d)
      | Inr _ \<Rightarrow> Inr None)"

definition parse_wal_line :: "string \<Rightarrow> wal_exc + entry option" where
  "parse_wal_line raw =
     (let s = bytes_strip raw in
      if s = [] \<or> \<not> utf8_ok s then Inr None else usable (json_loads s))"

definition text_entry :: "string \<Rightarrow> wal_exc + entry option" where
  "text_entry line = (let s = py_strip line in if s = [] then Inr None else usable (json_loads s))"

definition text_lines :: "string \<Rightarrow> string list" where
  "text_lines s = split_on NL (universal s)"

subsection \<open>The log\<close>

record truncate_stats =
  ts_dropped :: nat
  ts_kept :: nat
  ts_min_kept :: "int option"
  ts_max_kept :: "int option"

text \<open>
  \<open>wal_file\<close> are the bytes at the path (\<open>None\<close>: no file), \<open>wal_inode\<close> its identity, which a
  rename changes.
\<close>

record state_log =
  wal_file :: "string option"
  wal_inode :: nat
  counter :: int
  last_assigned :: int
  last_durable :: int
  inflight :: "int option"
  stats :: truncate_stats

definition WAL_EVENT_KINDS :: "string list" where
  "WAL_EVENT_KINDS = [
     ''inbox_put'', ''inbox_consume'', ''inbox_cancel'', ''chain_register'', ''chain_update'', ''chain_resolve'',
     ''chain_timeout_fired'', ''step_started'', ''step_completed'', ''step_failed'', ''intervention_dispatched'',
     ''intervention_resolved'', ''intervention_answer_buffered'', ''intervention_answer_consumed'',
     ''next_turn_context_staged'', ''next_turn_context_cleared'', ''rewind'', ''agent_created'', ''agent_archived'',
     ''agent_purged'', ''session_spawned'', ''session_vanished'', ''topology_created'', ''topology_updated'',
     ''topology_removed'']"

subsection \<open>Reading\<close>

fun iter_lines :: "int option \<Rightarrow> int \<Rightarrow> string list \<Rightarrow> wal_exc + entry list" where
  "iter_lines fly low [] = Inr []"
| "iter_lines fly low (line # ls) =
     rbind (text_entry line) (\<lambda>e. case e of
         None \<Rightarrow> iter_lines fly low ls
       | Some d \<Rightarrow>
           if seq_of d = fly then Inr []
           else if the (seq_of d) < low then iter_lines fly low ls
           else rbind (iter_lines fly low ls) (\<lambda>es. Inr (d # es)))"

definition iter_from :: "state_log \<Rightarrow> int \<Rightarrow> wal_exc + entry list" where
  "iter_from wl low =
     (case wal_file wl of
        None \<Rightarrow> Inr []
      | Some s \<Rightarrow> if utf8_ok s then iter_lines (inflight wl) low (text_lines s) else Inl WalDecodeError)"

fun first_seq :: "string list \<Rightarrow> wal_exc + int option" where
  "first_seq [] = Inr None"
| "first_seq (raw # ls) =
     rbind (parse_wal_line raw) (\<lambda>e. case e of None \<Rightarrow> first_seq ls | Some d \<Rightarrow> Inr (seq_of d))"

text \<open>The last entry of the file, looked for in a window from the end that doubles.\<close>

function tail_window :: "nat \<Rightarrow> string \<Rightarrow> wal_exc + int option" where
  "tail_window n s =
     (let ls = split_on NL (drop (length s - n) s); whole = (length s \<le> n) in
      rbind (first_seq (rev (if whole then ls else drop 1 ls))) (\<lambda>q.
        if q \<noteq> None then Inr q
        else if whole \<or> n = 0 then Inr None
        else tail_window (min (2 * n) (length s)) s))"
  by pat_completeness auto
termination
  by (relation "measure (\<lambda>(n, s). length s - n)") auto

declare tail_window.simps [simp del]

definition tail_scan_max_seq :: "nat \<Rightarrow> string \<Rightarrow> wal_exc + int option" where
  "tail_scan_max_seq chunk s = (if s = [] then Inr (Some 0) else tail_window (min chunk (length s)) s)"

fun max_seq_lines :: "int \<Rightarrow> string list \<Rightarrow> wal_exc + int" where
  "max_seq_lines m [] = Inr m"
| "max_seq_lines m (line # ls) =
     rbind (text_entry line) (\<lambda>e. case e of
         None \<Rightarrow> max_seq_lines m ls
       | Some d \<Rightarrow> max_seq_lines (max m (the (seq_of d))) ls)"

definition full_scan_max_seq :: "string \<Rightarrow> wal_exc + int" where
  "full_scan_max_seq s = (if utf8_ok s then max_seq_lines 0 (text_lines s) else Inl WalDecodeError)"

definition scan_max_seq :: "string option \<Rightarrow> wal_exc + int" where
  "scan_max_seq file =
     (case file of
        None \<Rightarrow> Inr 0
      | Some s \<Rightarrow> rbind (tail_scan_max_seq 65536 s) (\<lambda>q.
          case q of Some m \<Rightarrow> Inr m | None \<Rightarrow> full_scan_max_seq s))"

definition no_stats :: truncate_stats where
  "no_stats = \<lparr>ts_dropped = 0, ts_kept = 0, ts_min_kept = None, ts_max_kept = None\<rparr>"

definition open_log :: "string option \<Rightarrow> nat \<Rightarrow> wal_exc + state_log" where
  "open_log file inode =
     rbind (scan_max_seq file) (\<lambda>m.
       Inr \<lparr>wal_file = file, wal_inode = inode, counter = m, last_assigned = m, last_durable = m,
         inflight = None, stats = no_stats\<rparr>)"

subsection \<open>Appending\<close>

text \<open>\<open>str\<close> of an integer of too many digits raises, so \<open>json.dumps\<close> does.\<close>

fun dumpable :: "pyval \<Rightarrow> bool" where
  "dumpable (VInt i) = (length (nat_str (nat \<bar>i\<bar>)) \<le> max_int_digits)"
| "dumpable (VList xs) = list_all dumpable xs"
| "dumpable (VDict d) = list_all (\<lambda>(_, v). dumpable v) d"
| "dumpable _ = True"

definition make_entry :: "int \<Rightarrow> string \<Rightarrow> string \<Rightarrow> entry \<Rightarrow> entry" where
  "make_entry seq ts kind flds =
     dmerge [(''seq'', VInt seq), (''ts'', VStr ts), (''kind'', VStr kind)] flds"

definition wal_line :: "entry \<Rightarrow> string" where
  "wal_line e = json_dumps (VDict e) @ [NL]"

definition file_bytes :: "state_log \<Rightarrow> string" where
  "file_bytes wl = (case wal_file wl of None \<Rightarrow> [] | Some s \<Rightarrow> s)"

text \<open>
  The write job up to the sync: the number is taken and the entry marked in flight before its bytes
  are in the file.
\<close>

definition begin_write :: "string \<Rightarrow> entry \<Rightarrow> string \<Rightarrow> state_log \<Rightarrow> (wal_exc + int) \<times> state_log" where
  "begin_write kind flds ts wl =
     (let seq = counter wl + 1; e = make_entry seq ts kind flds;
          wl' = wl\<lparr>counter := seq, last_assigned := seq\<rparr> in
      if \<not> dumpable (VDict e) then (Inl WalIntDigits, wl'\<lparr>inflight := None\<rparr>)
      else if \<not> utf8_ok (json_dumps (VDict e)) then (Inl WalEncodeError, wl'\<lparr>inflight := None\<rparr>)
      else (Inr seq, wl'\<lparr>inflight := Some seq, wal_file := Some (file_bytes wl @ wal_line e)\<rparr>))"

definition finish_write :: "int \<Rightarrow> state_log \<Rightarrow> state_log" where
  "finish_write seq wl = wl\<lparr>inflight := None, last_durable := seq\<rparr>"

definition append_entry :: "string \<Rightarrow> entry \<Rightarrow> string \<Rightarrow> state_log \<Rightarrow> (wal_exc + int) \<times> state_log" where
  "append_entry kind flds ts wl =
     (if kind \<notin> set WAL_EVENT_KINDS then (Inl (WalUnknownKind kind), wl)
      else (case begin_write kind flds ts wl of
          (Inl e, wl') \<Rightarrow> (Inl e, wl')
        | (Inr seq, wl') \<Rightarrow> (Inr seq, finish_write seq wl')))"

subsection \<open>Truncation\<close>

definition kind_in :: "string list \<Rightarrow> entry \<Rightarrow> bool" where
  "kind_in kinds e = (case dget e ''kind'' of Some (VStr k) \<Rightarrow> k \<in> set kinds | _ \<Rightarrow> False)"

text \<open>A list or a dictionary cannot be looked for in a set of kinds.\<close>

definition kind_hashable :: "entry \<Rightarrow> bool" where
  "kind_hashable e = (case dget e ''kind'' of Some (VList _) \<Rightarrow> False | Some (VDict _) \<Rightarrow> False | _ \<Rightarrow> True)"

definition below_floor :: "int \<Rightarrow> string list \<Rightarrow> entry \<Rightarrow> wal_exc + bool" where
  "below_floor low keep d =
     (if the (seq_of d) < low then
        (if keep = [] then Inr True else if kind_hashable d then Inr (\<not> kind_in keep d) else Inl WalTypeError)
      else Inr False)"

fun highest_seq :: "int option \<Rightarrow> string list \<Rightarrow> wal_exc + int option" where
  "highest_seq m [] = Inr m"
| "highest_seq m (line # ls) =
     rbind (text_entry line) (\<lambda>e. case e of
         None \<Rightarrow> highest_seq m ls
       | Some d \<Rightarrow> highest_seq (Some (case m of None \<Rightarrow> the (seq_of d) | Some x \<Rightarrow> max x (the (seq_of d)))) ls)"

definition lower :: "int option \<Rightarrow> int \<Rightarrow> int option" where
  "lower m x = Some (case m of None \<Rightarrow> x | Some y \<Rightarrow> min y x)"

definition higher :: "int option \<Rightarrow> int \<Rightarrow> int option" where
  "higher m x = Some (case m of None \<Rightarrow> x | Some y \<Rightarrow> max y x)"

fun rewrite_lines ::
  "int \<Rightarrow> string list \<Rightarrow> string list \<Rightarrow> string \<Rightarrow> truncate_stats \<Rightarrow> wal_exc + string \<times> truncate_stats" where
  "rewrite_lines low keep [] out st = Inr (out, st)"
| "rewrite_lines low keep (line # ls) out st =
     (let raw = py_strip line in
      if raw = [] then rewrite_lines low keep ls out st
      else rbind (text_entry line) (\<lambda>e. case e of
          None \<Rightarrow> rewrite_lines low keep ls out (st\<lparr>ts_dropped := ts_dropped st + 1\<rparr>)
        | Some d \<Rightarrow>
            rbind (below_floor low keep d) (\<lambda>gone. let q = the (seq_of d) in
             if gone then rewrite_lines low keep ls out (st\<lparr>ts_dropped := ts_dropped st + 1\<rparr>)
             else rewrite_lines low keep ls (out @ raw @ [NL])
               \<lparr>ts_dropped = ts_dropped st, ts_kept = ts_kept st + 1,
                ts_min_kept = lower (ts_min_kept st) q, ts_max_kept = higher (ts_max_kept st) q\<rparr>)))"

definition do_truncate :: "int \<Rightarrow> string list \<Rightarrow> string \<Rightarrow> wal_exc + string \<times> truncate_stats" where
  "do_truncate min_keep keep s =
     (if \<not> utf8_ok s then Inl WalDecodeError
      else rbind (highest_seq None (text_lines s)) (\<lambda>h.
        rewrite_lines (case h of Some m \<Rightarrow> if min_keep > m then m else min_keep | None \<Rightarrow> min_keep)
          keep (text_lines s) [] no_stats))"

text \<open>The new file is written beside the old one, so the file system gives it an identity \<open>inode\<close> of its own.\<close>

definition truncate_below :: "int \<Rightarrow> string list \<Rightarrow> nat \<Rightarrow> state_log \<Rightarrow> wal_exc + state_log" where
  "truncate_below min_keep keep inode wl =
     (if min_keep \<le> 1 \<and> keep = [] then Inr (wl\<lparr>stats := no_stats\<rparr>)
      else (case wal_file wl of
          None \<Rightarrow> Inr (wl\<lparr>stats := no_stats\<rparr>)
        | Some s \<Rightarrow> rbind (do_truncate min_keep keep s) (\<lambda>(out, st).
            Inr (wl\<lparr>wal_file := Some out, wal_inode := inode, stats := st\<rparr>))))"

subsection \<open>The resumable reader\<close>

record tail_reader =
  fingerprint :: "nat option"
  offset :: nat

definition new_reader :: tail_reader where
  "new_reader = \<lparr>fingerprint = None, offset = 0\<rparr>"

text \<open>The complete lines up to the entry in flight, and how many bytes were consumed.\<close>

function iter_delta :: "int option \<Rightarrow> string \<Rightarrow> (wal_exc + entry list) \<times> nat" where
  "iter_delta fly s =
     (if NL \<notin> set s then (Inr [], 0)
      else
        (let line = takeWhile (\<lambda>c. c \<noteq> NL) s; rest = drop (length line + 1) s in
         case parse_wal_line line of
           Inl e \<Rightarrow> (Inl e, 0)
         | Inr None \<Rightarrow> map_prod id (\<lambda>k. length line + 1 + k) (iter_delta fly rest)
         | Inr (Some d) \<Rightarrow>
             if seq_of d = fly then (Inr [], 0)
             else map_prod (\<lambda>r. rbind r (\<lambda>es. Inr (d # es))) (\<lambda>k. length line + 1 + k) (iter_delta fly rest)))"
  by pat_completeness auto
termination
  by (relation "measure (\<lambda>(fly, s). length s)") (auto simp: Let_def intro!: diff_less)

declare iter_delta.simps [simp del]

definition poll :: "state_log \<Rightarrow> tail_reader \<Rightarrow> (wal_exc + entry list) \<times> bool \<times> tail_reader" where
  "poll wl rd =
     (case wal_file wl of
        None \<Rightarrow> (Inr [], fingerprint rd \<noteq> None, new_reader)
      | Some s \<Rightarrow>
          (let restarted = (fingerprint rd \<noteq> Some (wal_inode wl) \<or> length s < offset rd);
               start = (if restarted then 0 else offset rd);
               (r, k) = iter_delta (inflight wl) (drop start s) in
           (r, restarted, \<lparr>fingerprint = Some (wal_inode wl), offset = start + k\<rparr>)))"

end
