(* ===== verification/AgentSnap.thy ===== *)
theory AgentSnap
  imports Wal
begin

section \<open>The agent snapshot\<close>

text \<open>
  \<open>src/reyn/core/events/agent_snapshot.py\<close>: the state of one session of an agent that survives a
  crash, how it is loaded, and how the entries of the write-ahead log are replayed onto it.  Values
  are the JSON values the files hold; a dictionary key that is not a string cannot come out of
  JSON, and where an entry makes one the result is \<open>SnapOutside\<close>.
\<close>

datatype snap_exc =
    SnapKeyError string
  | SnapTypeError
  | SnapValueError
  | SnapOverflowError
  | SnapAttributeError
  | SnapUnicodeError
  | SchemaVersionError pyval
  | SnapOutside

type_synonym 'a snap = "snap_exc + 'a"

record agent_snapshot =
  agent_name :: string
  session_id :: string
  applied_seq :: int
  inbox :: "pyval list"
  pending_chains :: "pyval dict"
  outstanding_interventions :: "pyval dict"
  buffered_answers :: "pyval dict"
  next_turn_context :: "pyval list"

definition SNAPSHOT_VERSION :: int where "SNAPSHOT_VERSION = 1"

definition CHAIN_EVENT_META_KEYS :: "string list" where
  "CHAIN_EVENT_META_KEYS = [''kind'', ''seq'', ''target'', ''agent'', ''session_id'', ''chain_id'']"

definition empty_snapshot :: "string \<Rightarrow> string \<Rightarrow> agent_snapshot" where
  "empty_snapshot agent sid =
     \<lparr>agent_name = agent, session_id = sid, applied_seq = 0, inbox = [], pending_chains = [],
      outstanding_interventions = [], buffered_answers = [], next_turn_context = []\<rparr>"

subsection \<open>Conversions of Python\<close>

text \<open>\<open>int\<close>: of a string, an optional sign and digits that single underscores may group.\<close>

definition digit_groups :: "string \<Rightarrow> string option" where
  "digit_groups s =
     (let gs = split_on (CHR ''_'') s in
      if list_all (\<lambda>g. g \<noteq> [] \<and> list_all is_digit g) gs then Some (concat gs) else None)"

definition int_of_text :: "string \<Rightarrow> int snap" where
  "int_of_text t =
     (let s = py_strip t;
          (neg, u) = (case s of c # r \<Rightarrow> if c = CHR ''-'' then (True, r) else if c = CHR ''+'' then (False, r) else (False, s)
                               | [] \<Rightarrow> (False, s)) in
      case digit_groups u of
        None \<Rightarrow> Inl SnapValueError
      | Some ds \<Rightarrow>
          if length ds > max_int_digits then Inl SnapValueError
          else Inr (if neg then - int (str_nat ds) else int (str_nat ds)))"

fun py_int :: "pyval \<Rightarrow> int snap" where
  "py_int (VInt i) = Inr i"
| "py_int (VBool b) = Inr (if b then 1 else 0)"
| "py_int (VFloat f) =
     (case ffinite f of
        Some q \<Rightarrow> Inr (if q < 0 then - \<lfloor>- q\<rfloor> else \<lfloor>q\<rfloor>)
      | None \<Rightarrow> Inl (if f = FNan then SnapValueError else SnapOverflowError))"
| "py_int (VStr s) = int_of_text s"
| "py_int _ = Inl SnapTypeError"

fun py_list :: "pyval \<Rightarrow> pyval list snap" where
  "py_list (VList xs) = Inr xs"
| "py_list (VDict d) = Inr (map VStr (dkeys d))"
| "py_list (VStr s) = (if list_all (\<lambda>c. (of_char c :: nat) < 128) s then Inr (map (\<lambda>c. VStr [c]) s) else Inl SnapOutside)"
| "py_list _ = Inl SnapTypeError"

fun hash_key :: "pyval \<Rightarrow> string snap" where
  "hash_key (VStr s) = Inr s"
| "hash_key (VList _) = Inl SnapTypeError"
| "hash_key (VDict _) = Inl SnapTypeError"
| "hash_key _ = Inl SnapOutside"

text \<open>\<open>dict\<close> of a list takes pairs; a pair may be any iterable of two.\<close>

fun dict_pair :: "pyval \<Rightarrow> (string \<times> pyval) snap" where
  "dict_pair (VList [k, v]) = rbind (hash_key k) (\<lambda>s. Inr (s, v))"
| "dict_pair (VList _) = Inl SnapValueError"
| "dict_pair (VDict _) = Inl SnapOutside"
| "dict_pair (VStr _) = Inl SnapOutside"
| "dict_pair _ = Inl SnapTypeError"

fun py_dict :: "pyval \<Rightarrow> pyval dict snap" where
  "py_dict (VDict d) = Inr d"
| "py_dict (VList xs) = rbind (traverse dict_pair xs) (\<lambda>ps. Inr (dict_of ps))"
| "py_dict (VStr s) = (if s = [] then Inr [] else Inl SnapValueError)"
| "py_dict _ = Inl SnapTypeError"

definition or_else :: "pyval \<Rightarrow> pyval \<Rightarrow> pyval" where
  "or_else v w = (if truthy v then v else w)"

definition dget_or :: "pyval dict \<Rightarrow> string \<Rightarrow> pyval \<Rightarrow> pyval" where
  "dget_or d k v = (case dget d k of None \<Rightarrow> v | Some w \<Rightarrow> w)"

subsection \<open>Persistence\<close>

definition coerce_int :: "pyval \<Rightarrow> int snap" where
  "coerce_int v =
     (case py_int v of
        Inl SnapTypeError \<Rightarrow> Inr 0
      | Inl SnapValueError \<Rightarrow> Inr 0
      | r \<Rightarrow> r)"

definition load_dict :: "string \<Rightarrow> string \<Rightarrow> pyval dict \<Rightarrow> agent_snapshot snap" where
  "load_dict agent sid d =
     (let version = dget_or d ''version'' VNone in
      if \<not> py_eq version (VInt SNAPSHOT_VERSION) then Inl (SchemaVersionError version)
      else
        rbind (coerce_int (dget_or d ''applied_seq'' (VInt 0))) (\<lambda>q.
        rbind (py_list (or_else (dget_or d ''inbox'' (VList [])) (VList []))) (\<lambda>inb.
        rbind (py_dict (or_else (dget_or d ''pending_chains'' (VDict [])) (VDict []))) (\<lambda>chs.
        rbind (py_dict (or_else (dget_or d ''outstanding_interventions'' (VDict [])) (VDict []))) (\<lambda>ivs.
        rbind (py_dict (or_else (dget_or d ''buffered_intervention_answers'' (VDict [])) (VDict []))) (\<lambda>bufd.
        rbind (py_list (or_else (dget_or d ''next_turn_context'' (VList [])) (VList []))) (\<lambda>ctxs.
          Inr \<lparr>agent_name = agent, session_id = py_str (dget_or d ''session_id'' (VStr sid)), applied_seq = q,
            inbox = inb, pending_chains = chs, outstanding_interventions = ivs, buffered_answers = bufd,
            next_turn_context = ctxs\<rparr>)))))))"

definition load_value :: "string \<Rightarrow> string \<Rightarrow> pyval \<Rightarrow> agent_snapshot snap" where
  "load_value agent sid v = (case v of VDict d \<Rightarrow> load_dict agent sid d | _ \<Rightarrow> Inr (empty_snapshot agent sid))"

text \<open>\<open>None\<close>: the file cannot be read.  It is read in text mode.\<close>

definition load_snapshot :: "string \<Rightarrow> string \<Rightarrow> string option \<Rightarrow> agent_snapshot snap" where
  "load_snapshot agent sid file =
     (case file of
        None \<Rightarrow> Inr (empty_snapshot agent sid)
      | Some s \<Rightarrow>
          if \<not> utf8_ok s then Inl SnapUnicodeError
          else (case json_loads (universal s) of
              Inl JIntDigits \<Rightarrow> Inl SnapValueError
            | Inl _ \<Rightarrow> Inr (empty_snapshot agent sid)
            | Inr v \<Rightarrow> load_value agent sid v))"

definition to_payload :: "agent_snapshot \<Rightarrow> pyval dict" where
  "to_payload s =
     [(''version'', VInt SNAPSHOT_VERSION), (''session_id'', VStr (session_id s)),
      (''applied_seq'', VInt (applied_seq s)), (''inbox'', VList (inbox s)),
      (''pending_chains'', VDict (pending_chains s)),
      (''outstanding_interventions'', VDict (outstanding_interventions s)),
      (''buffered_intervention_answers'', VDict (buffered_answers s)),
      (''next_turn_context'', VList (next_turn_context s))]"

subsection \<open>Replay of one entry\<close>

definition event_item :: "entry \<Rightarrow> string \<Rightarrow> pyval snap" where
  "event_item e k = (case dget e k of None \<Rightarrow> Inl (SnapKeyError k) | Some v \<Rightarrow> Inr v)"

definition event_get :: "entry \<Rightarrow> string \<Rightarrow> pyval" where
  "event_get e k = dget_or e k VNone"

definition replay_inbox_put :: "entry \<Rightarrow> agent_snapshot \<Rightarrow> agent_snapshot snap" where
  "replay_inbox_put e s =
     rbind (event_item e ''msg_id'') (\<lambda>i.
     rbind (event_item e ''msg_kind'') (\<lambda>k.
       Inr (s\<lparr>inbox := inbox s @ [VDict [(''id'', i), (''kind'', k), (''payload'', dget_or e ''payload'' (VDict []))]]\<rparr>)))"

text \<open>\<open>m.get("id") != msg_id\<close> for every message \<open>m\<close>.\<close>

definition other_id :: "pyval \<Rightarrow> pyval \<Rightarrow> bool snap" where
  "other_id i m = (case m of VDict d \<Rightarrow> Inr (\<not> py_eq (event_get d ''id'') i) | _ \<Rightarrow> Inl SnapAttributeError)"

fun keep_where :: "(pyval \<Rightarrow> bool snap) \<Rightarrow> pyval list \<Rightarrow> pyval list snap" where
  "keep_where p [] = Inr []"
| "keep_where p (m # ms) = rbind (p m) (\<lambda>b. rbind (keep_where p ms) (\<lambda>r. Inr (if b then m # r else r)))"

definition replay_inbox_drop :: "entry \<Rightarrow> agent_snapshot \<Rightarrow> agent_snapshot snap" where
  "replay_inbox_drop e s =
     rbind (keep_where (other_id (event_get e ''msg_id'')) (inbox s)) (\<lambda>ms. Inr (s\<lparr>inbox := ms\<rparr>))"

definition chain_requester :: "entry \<Rightarrow> pyval" where
  "chain_requester e =
     (case dget e ''requester'' of
        Some v \<Rightarrow> v
      | None \<Rightarrow> VDict [(''agent_name'', dget_or e ''origin_agent'' (VStr '''')),
                      (''session_id'', or_else (event_get e ''origin_sid'') (VStr ''main''))])"

definition replay_chain_register :: "entry \<Rightarrow> agent_snapshot \<Rightarrow> agent_snapshot snap" where
  "replay_chain_register e s =
     rbind (event_item e ''chain_id'') (\<lambda>cid.
     rbind (event_item e ''origin_depth'') (\<lambda>depth.
     rbind (py_int depth) (\<lambda>n.
     rbind (event_item e ''original_request'') (\<lambda>req.
     rbind (py_list (dget_or e ''waiting_on'' (VList []))) (\<lambda>ws.
     rbind (hash_key cid) (\<lambda>k.
       Inr (s\<lparr>pending_chains := dset k (VDict
         [(''chain_id'', cid), (''origin_depth'', VInt n), (''original_request'', req), (''waiting_on'', VList ws),
          (''task_kind'', event_get e ''task_kind''), (''requester'', chain_requester e)]) (pending_chains s)\<rparr>)))))))"

fun update_chain :: "(string \<times> pyval) list \<Rightarrow> pyval \<Rightarrow> pyval snap" where
  "update_chain [] ch = Inr ch"
| "update_chain ((k, v) # fs) ch =
     (if k \<in> set CHAIN_EVENT_META_KEYS then update_chain fs ch
      else rbind (if k = ''waiting_on'' then map_sum id VList (py_list v) else Inr v) (\<lambda>w.
        case ch of
          VDict d \<Rightarrow> update_chain fs (VDict (dset k w d))
        | _ \<Rightarrow> Inl SnapTypeError))"

fun lookup_key :: "pyval \<Rightarrow> pyval dict \<Rightarrow> pyval snap" where
  "lookup_key (VStr k) d = Inr (dget_or d k VNone)"
| "lookup_key (VList _) d = Inl SnapTypeError"
| "lookup_key (VDict _) d = Inl SnapTypeError"
| "lookup_key _ d = Inr VNone"

fun pop_key :: "pyval \<Rightarrow> pyval dict \<Rightarrow> pyval dict snap" where
  "pop_key (VStr k) d = Inr (AList.delete k d)"
| "pop_key (VList _) d = Inl SnapTypeError"
| "pop_key (VDict _) d = Inl SnapTypeError"
| "pop_key _ d = Inr d"

definition replay_chain_update :: "entry \<Rightarrow> agent_snapshot \<Rightarrow> agent_snapshot snap" where
  "replay_chain_update e s =
     rbind (event_item e ''chain_id'') (\<lambda>cid.
     rbind (lookup_key cid (pending_chains s)) (\<lambda>ch.
       if ch = VNone then Inr s
       else rbind (update_chain e ch) (\<lambda>ch'.
         rbind (hash_key cid) (\<lambda>k. Inr (s\<lparr>pending_chains := dset k ch' (pending_chains s)\<rparr>)))))"

definition replay_chain_drop :: "entry \<Rightarrow> agent_snapshot \<Rightarrow> agent_snapshot snap" where
  "replay_chain_drop e s =
     rbind (pop_key (event_get e ''chain_id'') (pending_chains s)) (\<lambda>d. Inr (s\<lparr>pending_chains := d\<rparr>))"

definition replay_dispatched :: "entry \<Rightarrow> agent_snapshot \<Rightarrow> agent_snapshot snap" where
  "replay_dispatched e s =
     (let i = event_get e ''intervention_id'' in
      if truthy i then
        rbind (hash_key i) (\<lambda>k. Inr (s\<lparr>outstanding_interventions :=
          dset k (dget_or e ''iv_dict'' (VDict [])) (outstanding_interventions s)\<rparr>))
      else Inr s)"

definition replay_resolved :: "entry \<Rightarrow> agent_snapshot \<Rightarrow> agent_snapshot snap" where
  "replay_resolved e s =
     (let i = event_get e ''intervention_id'' in
      if truthy i then
        rbind (pop_key i (outstanding_interventions s)) (\<lambda>d. Inr (s\<lparr>outstanding_interventions := d\<rparr>))
      else Inr s)"

definition replay_buffered :: "entry \<Rightarrow> agent_snapshot \<Rightarrow> agent_snapshot snap" where
  "replay_buffered e s =
     (let i = event_get e ''run_id'' in
      if truthy i then
        rbind (hash_key i) (\<lambda>k. Inr (s\<lparr>buffered_answers := dset k
          (VDict [(''text'', dget_or e ''text'' (VStr '''')), (''choice_id'', event_get e ''choice_id'')])
          (buffered_answers s)\<rparr>))
      else Inr s)"

definition replay_consumed :: "entry \<Rightarrow> agent_snapshot \<Rightarrow> agent_snapshot snap" where
  "replay_consumed e s =
     (let i = event_get e ''run_id'' in
      if truthy i then rbind (pop_key i (buffered_answers s)) (\<lambda>d. Inr (s\<lparr>buffered_answers := d\<rparr>))
      else Inr s)"

definition replay_staged :: "entry \<Rightarrow> agent_snapshot \<Rightarrow> agent_snapshot snap" where
  "replay_staged e s =
     (let v = event_get e ''entry'' in
      if truthy v \<and> is_dict v then Inr (s\<lparr>next_turn_context := next_turn_context s @ [v]\<rparr>) else Inr s)"

definition event_kind :: "entry \<Rightarrow> string option" where
  "event_kind e = as_str (event_get e ''kind'')"

definition apply_one :: "entry \<Rightarrow> agent_snapshot \<Rightarrow> agent_snapshot snap" where
  "apply_one e s =
     (case event_kind e of
        None \<Rightarrow> Inr s
      | Some k \<Rightarrow>
          if k = ''inbox_put'' then replay_inbox_put e s
          else if k \<in> {''inbox_consume'', ''inbox_cancel''} then replay_inbox_drop e s
          else if k = ''chain_register'' then replay_chain_register e s
          else if k = ''chain_update'' then replay_chain_update e s
          else if k \<in> {''chain_resolve'', ''chain_timeout_fired''} then replay_chain_drop e s
          else if k = ''intervention_dispatched'' then replay_dispatched e s
          else if k = ''intervention_resolved'' then replay_resolved e s
          else if k = ''intervention_answer_buffered'' then replay_buffered e s
          else if k = ''intervention_answer_consumed'' then replay_consumed e s
          else if k = ''next_turn_context_staged'' then replay_staged e s
          else if k = ''next_turn_context_cleared'' then Inr (s\<lparr>next_turn_context := []\<rparr>)
          else Inr s)"

subsection \<open>Replay of the log\<close>

definition event_route_key :: "entry \<Rightarrow> (pyval \<times> pyval) option" where
  "event_route_key e =
     (let t = event_get e ''target''; a = (if t = VNone then event_get e ''agent'' else t) in
      if a = VNone then None else Some (a, dget_or e ''session_id'' (VStr ''main'')))"

definition matches_agent :: "entry \<Rightarrow> agent_snapshot \<Rightarrow> bool" where
  "matches_agent e s \<longleftrightarrow> event_route_key e = Some (VStr (agent_name s), VStr (session_id s))"

definition apply_event :: "entry \<Rightarrow> agent_snapshot \<Rightarrow> agent_snapshot snap" where
  "apply_event e s =
     (case seq_of e of
        None \<Rightarrow> Inr s
      | Some q \<Rightarrow>
          if q \<le> applied_seq s \<or> \<not> matches_agent e s then Inr s
          else rbind (apply_one e s) (\<lambda>s'. Inr (s'\<lparr>applied_seq := q\<rparr>)))"

fun apply_events :: "entry list \<Rightarrow> agent_snapshot \<Rightarrow> agent_snapshot snap" where
  "apply_events [] s = Inr s"
| "apply_events (e # es) s = rbind (apply_event e s) (apply_events es)"

end
