(* ===== verification/WalFacts.thy ===== *)
theory WalFacts
  imports Wal
begin

section \<open>What the log keeps\<close>

text \<open>
  Files the log itself writes: complete lines of entries, and after a crash a part of one line.
\<close>

subsection \<open>Lines\<close>

definition entry_ok :: "entry \<Rightarrow> bool" where
  "entry_ok e \<longleftrightarrow> json_ok (VDict e) \<and> seq_of e \<noteq> None \<and> kind_hashable e"

definition entry_seq :: "entry \<Rightarrow> int" where
  "entry_seq e = the (seq_of e)"

definition file_of :: "entry list \<Rightarrow> string" where
  "file_of es = concat (map wal_line es)"

definition no_ctl :: "string \<Rightarrow> bool" where
  "no_ctl s \<longleftrightarrow> (\<forall>c\<in>set s. 32 \<le> (of_char c :: nat))"

lemma no_ctl_simps [simp]:
  "no_ctl []" "no_ctl (c # s) \<longleftrightarrow> 32 \<le> (of_char c :: nat) \<and> no_ctl s" "no_ctl (s @ t) \<longleftrightarrow> no_ctl s \<and> no_ctl t"
  by (auto simp: no_ctl_def)

lemma no_ctl_join: "(\<And>x. x \<in> set xs \<Longrightarrow> no_ctl (f x)) \<Longrightarrow> no_ctl (str_join '', '' (map f xs))"
proof (induction xs)
  case (Cons x xs)
  then show ?case by (cases xs) auto
qed simp

lemma no_ctl_escape: "no_ctl (json_escape c)"
  by (auto simp: json_escape_def hex_char_def digit_char_def Let_def)

lemma no_ctl_quote: "no_ctl (json_quote s)"
  using no_ctl_escape by (auto simp: json_quote_def no_ctl_def)

lemma no_ctl_nat: "no_ctl (nat_str n)"
  using nat_str_digits [of _ n] by (force simp: no_ctl_def is_digit_def)

lemma no_ctl_dumps: "json_ok v \<Longrightarrow> no_ctl (json_dumps v)"
proof (induction v)
  case (VInt i)
  then show ?case using no_ctl_nat by (simp add: int_str_def)
next
  case (VList xs)
  then show ?case by (auto simp: list_all_iff intro!: no_ctl_join)
next
  case (VDict d)
  then show ?case using no_ctl_quote by (fastforce simp: list_all_iff intro!: no_ctl_join)
qed (simp_all add: no_ctl_quote)

lemma NL_code [simp]: "(of_char NL :: nat) = 10" by (simp add: NL_def)

lemma no_ctl_lines: "no_ctl s \<Longrightarrow> NL \<notin> set s \<and> CHR 0x0D \<notin> set s"
  by (force simp: no_ctl_def NL_def)

lemma no_ctl_torn: "no_ctl s \<Longrightarrow> torn p s \<Longrightarrow> no_ctl p"
  by (auto simp: torn_def)

lemma split_line: "c \<notin> set x \<Longrightarrow> split_on c (x @ c # y) = x # split_on c y"
  by (induction x) auto

lemma split_no_sep: "c \<notin> set x \<Longrightarrow> split_on c x = [x]"
  by (induction x) auto

lemma universal_id: "CHR 0x0D \<notin> set s \<Longrightarrow> universal s = s"
  by (induction s) auto

definition entry_text :: "entry \<Rightarrow> string" where
  "entry_text e = json_dumps (VDict e)"

lemma file_of_simps [simp]:
  "file_of [] = []" "file_of (e # es) = entry_text e @ NL # file_of es" "file_of (es @ fs) = file_of es @ file_of fs"
  by (simp_all add: file_of_def wal_line_def entry_text_def)

lemma wal_line_text: "wal_line e = entry_text e @ [NL]"
  by (simp add: wal_line_def entry_text_def)

lemma no_ctl_text: "entry_ok e \<Longrightarrow> no_ctl (entry_text e)"
  unfolding entry_ok_def entry_text_def by (rule no_ctl_dumps) (rule conjunct1)

lemma lines_of_file:
  assumes "list_all entry_ok es" and "no_ctl p"
  shows "split_on NL (file_of es @ p) = map entry_text es @ [p]"
    and "text_lines (file_of es @ p) = map entry_text es @ [p]"
proof -
  have ctl: "NL \<notin> set (entry_text e) \<and> CHR 0x0D \<notin> set (entry_text e)" if "entry_ok e" for e
    using that no_ctl_lines [OF no_ctl_text] by blast
  have p: "NL \<notin> set p" "CHR 0x0D \<notin> set p" using no_ctl_lines [OF assms(2)] by auto
  show s: "split_on NL (file_of es @ p) = map entry_text es @ [p]"
    using assms(1) p(1) ctl by (induction es) (simp_all add: split_no_sep split_line)
  have "CHR 0x0D \<notin> set (file_of es @ p)"
    using assms(1) p(2) ctl by (induction es) (auto simp: NL_def)
  then show "text_lines (file_of es @ p) = map entry_text es @ [p]"
    by (simp add: text_lines_def universal_id s)
qed

subsection \<open>Stripping\<close>

text \<open>Both ways of stripping cut white space off the ends; a text that starts with a brace is cut at its end only.\<close>

lemma strip_prefix: "hd s = CHR ''{'' \<Longrightarrow> \<exists>t. s = py_strip s @ t \<and> (s = u @ [CHR ''}''] \<longrightarrow> t = [])"
proof -
  assume h: "hd s = CHR ''{''"
  show ?thesis
  proof (cases s)
    case (Cons c r)
    with h have "dropWhile is_space s = s" by (simp add: is_space_def Let_def)
    then have e: "py_strip s = rev (dropWhile is_space (rev s))" by (simp add: py_strip_def)
    have "s = rev (dropWhile is_space (rev s)) @ rev (takeWhile is_space (rev s))"
      by (metis rev_append rev_rev_ident takeWhile_dropWhile_id)
    moreover have "s = u @ [CHR ''}''] \<longrightarrow> takeWhile is_space (rev s) = []" by (simp add: is_space_def Let_def)
    ultimately show ?thesis unfolding e by blast
  qed (simp add: py_strip_def)
qed

lemma bytes_strip_prefix: "hd s = CHR ''{'' \<Longrightarrow> \<exists>t. s = bytes_strip s @ t \<and> (s = u @ [CHR ''}''] \<longrightarrow> t = [])"
proof -
  assume h: "hd s = CHR ''{''"
  let ?sp = "\<lambda>c. byte_in c 9 13 \<or> c = CHR '' ''"
  show ?thesis
  proof (cases s)
    case (Cons c r)
    with h have "dropWhile ?sp s = s" by (simp add: byte_in_def)
    then have e: "bytes_strip s = rev (dropWhile ?sp (rev s))" by (simp add: bytes_strip_def)
    have "s = rev (dropWhile ?sp (rev s)) @ rev (takeWhile ?sp (rev s))"
      by (metis rev_append rev_rev_ident takeWhile_dropWhile_id)
    moreover have "s = u @ [CHR ''}''] \<longrightarrow> takeWhile ?sp (rev s) = []" by (simp add: byte_in_def)
    ultimately show ?thesis unfolding e by blast
  qed (simp add: bytes_strip_def)
qed

lemma dumps_ends: "\<exists>u. entry_text d = u @ [CHR ''}''] \<and> hd (entry_text d) = CHR ''{''"
  unfolding entry_text_def dumps_dict by (rule exI [of _ "''{'' @ str_join '', '' (map item d)"]) simp

lemma strip_dumps [simp]:
  "py_strip (entry_text d) = entry_text d" "bytes_strip (entry_text d) = entry_text d"
proof -
  obtain u where u: "entry_text d = u @ [CHR ''}'']" "hd (entry_text d) = CHR ''{''" using dumps_ends by blast
  show "py_strip (entry_text d) = entry_text d"
    using strip_prefix [OF u(2), of u] u(1) by (metis append_Nil2)
  show "bytes_strip (entry_text d) = entry_text d"
    using bytes_strip_prefix [OF u(2), of u] u(1) by (metis append_Nil2)
qed

lemma torn_prefix: "torn (p @ t) s \<Longrightarrow> torn p s"
  by (auto simp: torn_def)

lemma torn_head: "torn p (entry_text d) \<Longrightarrow> p \<noteq> [] \<Longrightarrow> hd p = CHR ''{''"
  by (cases p) (auto simp: torn_def entry_text_def)

lemma torn_strip:
  assumes "torn p (entry_text d)"
  shows "torn (py_strip p) (entry_text d)" "torn (bytes_strip p) (entry_text d)"
proof -
  show "torn (py_strip p) (entry_text d)"
  proof (cases "p = []")
    case False
    then obtain t where "p = py_strip p @ t" using strip_prefix torn_head [OF assms] by blast
    then show ?thesis using assms torn_prefix by metis
  qed (use assms in \<open>simp add: py_strip_def\<close>)
  show "torn (bytes_strip p) (entry_text d)"
  proof (cases "p = []")
    case False
    then obtain t where "p = bytes_strip p @ t" using bytes_strip_prefix torn_head [OF assms] by blast
    then show ?thesis using assms torn_prefix by metis
  qed (use assms in \<open>simp add: bytes_strip_def\<close>)
qed

subsection \<open>Reading lines back\<close>

lemma text_nonempty [simp]: "entry_text e \<noteq> []"
  by (simp add: entry_text_def)

lemma usable_entry: "entry_ok e \<Longrightarrow> usable (json_loads (entry_text e)) = Inr (Some e)"
  using json_roundtrip [of "VDict e"] by (simp add: entry_ok_def entry_text_def usable_def del: json_dumps.simps)

lemma text_entry_written: "entry_ok e \<Longrightarrow> text_entry (entry_text e) = Inr (Some e)"
  by (simp add: text_entry_def usable_entry)

lemma usable_torn: "entry_ok e \<Longrightarrow> torn p (entry_text e) \<Longrightarrow> usable (json_loads p) = Inr None"
  using torn_loads [of e p] by (simp add: entry_ok_def entry_text_def usable_def del: json_dumps.simps)

lemma text_entry_torn: "entry_ok e \<Longrightarrow> torn p (entry_text e) \<Longrightarrow> text_entry p = Inr None"
  using usable_torn [OF _ torn_strip(1)] by (simp add: text_entry_def Let_def)

lemma parse_torn: "entry_ok e \<Longrightarrow> torn p (entry_text e) \<Longrightarrow> parse_wal_line p = Inr None"
  using usable_torn [OF _ torn_strip(2)] by (simp add: parse_wal_line_def Let_def)

lemma parse_written: "entry_ok e \<Longrightarrow> utf8_ok (entry_text e) \<Longrightarrow> parse_wal_line (entry_text e) = Inr (Some e)"
  by (simp add: parse_wal_line_def usable_entry)

lemma entry_seq_some: "entry_ok e \<Longrightarrow> seq_of e = Some (entry_seq e)"
  by (auto simp: entry_ok_def entry_seq_def)

text \<open>The entries before the one in flight are read, in order; what follows it is not looked at.\<close>

lemma iter_lines_written:
  assumes "list_all entry_ok es" and "fly \<notin> Some ` entry_seq ` set es"
  shows "iter_lines fly low (map entry_text es @ ls) =
    rbind (iter_lines fly low ls) (\<lambda>rest. Inr (filter (\<lambda>e. low \<le> entry_seq e) es @ rest))"
  using assms
proof (induction es)
  case Nil
  then show ?case by (cases "iter_lines fly low ls") simp_all
next
  case (Cons e es)
  then show ?case
    using entry_seq_some [of e] by (cases "iter_lines fly low ls") (auto simp: text_entry_written)
qed

subsection \<open>UTF-8\<close>

lemma utf8_simps [simp]:
  "utf8_ok []" "utf8_ok (a # r) \<longleftrightarrow> (case utf8_rest a r of None \<Rightarrow> False | Some w \<Rightarrow> utf8_ok w)"
  by (subst utf8_ok.simps, simp)+

lemma utf8_rest_append: "utf8_rest a r = Some w \<Longrightarrow> utf8_rest a (r @ t) = Some (w @ t)"
  unfolding utf8_rest_def by (auto split: if_split_asm list.split_asm)

lemma utf8_append: "utf8_ok s \<Longrightarrow> utf8_ok (s @ t) \<longleftrightarrow> utf8_ok t"
proof (induction "length s" arbitrary: s rule: less_induct)
  case less
  show ?case
  proof (cases s)
    case (Cons a r)
    with less.prems obtain w where w: "utf8_rest a r = Some w" "utf8_ok w" by (auto split: option.splits)
    have "length w < length s" using utf8_rest_length [OF w(1)] Cons by simp
    from less.hyps [OF this w(2)] show ?thesis by (simp add: Cons utf8_rest_append [OF w(1)])
  qed simp
qed

lemma utf8_ascii: "utf8_ok [NL]"
  by (simp add: utf8_rest_def byte_in_def)

lemma utf8_line: "utf8_ok (entry_text e) \<Longrightarrow> utf8_ok (wal_line e)"
  unfolding wal_line_text using utf8_append utf8_ascii by blast

lemma utf8_file: "list_all (\<lambda>e. utf8_ok (entry_text e)) es \<Longrightarrow> utf8_ok (file_of es)"
  by (induction es) (simp_all add: utf8_append utf8_ascii [unfolded utf8_simps] del: utf8_simps(2),
    metis append_Cons append_Nil utf8_append utf8_ascii)

subsection \<open>Logs as lists of entries\<close>

text \<open>
  \<open>holds wl es\<close>: the log is at rest and its file holds the entries \<open>es\<close>, numbered upwards to the
  counter.
\<close>

definition writable :: "entry \<Rightarrow> bool" where
  "writable e \<longleftrightarrow> entry_ok e \<and> utf8_ok (entry_text e)"

definition holds :: "state_log \<Rightarrow> entry list \<Rightarrow> bool" where
  "holds wl es \<longleftrightarrow> file_bytes wl = file_of es \<and> list_all writable es \<and> inflight wl = None
     \<and> sorted_wrt (<) (map entry_seq es) \<and> (\<forall>e\<in>set es. 0 < entry_seq e \<and> entry_seq e \<le> counter wl) \<and> 0 \<le> counter wl
     \<and> last_durable wl \<le> counter wl"

text \<open>What is left in the file when a crash cuts the line of \<open>e\<close> after \<open>k\<close> bytes.\<close>

definition survives :: "nat \<Rightarrow> entry \<Rightarrow> entry list" where
  "survives k e = (if length (entry_text e) \<le> k then [e] else [])"

lemma take_line:
  "length (entry_text e) < k \<Longrightarrow> take k (wal_line e) = wal_line e"
  "k \<le> length (entry_text e) \<Longrightarrow> take k (wal_line e) = take k (entry_text e)"
  by (auto simp: wal_line_text)

lemma take_torn: "k < length s \<Longrightarrow> torn (take k s) s"
  unfolding torn_def by (intro exI [of _ "drop k s"]) simp

lemma writable_ok: "list_all writable es \<Longrightarrow> list_all entry_ok es"
  by (auto simp: list_all_iff writable_def)

text \<open>The text lines of a file whose last line was cut.\<close>

lemma iter_cut:
  assumes "list_all writable es" and "writable e"
  shows "iter_lines None low (text_lines (file_of es @ take k (wal_line e))) =
    Inr (filter (\<lambda>d. low \<le> entry_seq d) (es @ survives k e))"
proof -
  note es = writable_ok [OF assms(1)]
  have e: "entry_ok e" and none: "None \<notin> Some ` X" for X :: "int set" using assms(2) by (auto simp: writable_def)
  consider "k < length (entry_text e)" | "k = length (entry_text e)" | "length (entry_text e) < k" by linarith
  then show ?thesis
  proof cases
    case 1
    then have t: "torn (take k (entry_text e)) (entry_text e)" by (rule take_torn)
    have "iter_lines None low [take k (entry_text e)] = Inr []" using text_entry_torn [OF e t] by simp
    then show ?thesis
      using 1 lines_of_file(2) [OF es no_ctl_torn [OF no_ctl_text [OF e] t]]
        iter_lines_written [OF es none, of low "[take k (entry_text e)]"]
      by (simp add: take_line survives_def)
  next
    case 2
    have "iter_lines None low [entry_text e] = Inr (filter (\<lambda>d. low \<le> entry_seq d) [e])"
      using entry_seq_some [OF e] by (simp add: text_entry_written [OF e])
    then show ?thesis
      using 2 lines_of_file(2) [OF es no_ctl_text [OF e]] iter_lines_written [OF es none, of low "[entry_text e]"]
      by (simp add: take_line survives_def)
  next
    case 3
    have es': "list_all entry_ok (es @ [e])" using es e by simp
    have "file_of es @ take k (wal_line e) = file_of (es @ [e]) @ []" using 3 by (simp add: take_line wal_line_text)
    moreover have "iter_lines None low [[]] = Inr []" by (simp add: text_entry_def py_strip_def)
    ultimately show ?thesis
      using 3 lines_of_file(2) [OF es', of "[]"] iter_lines_written [OF es' none, of low "[[]]"]
      by (simp add: survives_def)
  qed
qed

subsection \<open>Writing\<close>

lemma dmerge_values: "(k, v) \<in> set (dmerge d e) \<Longrightarrow> v \<in> snd ` set d \<union> snd ` set e"
  unfolding dmerge_def
proof (induction e arbitrary: d)
  case (Cons p e)
  obtain a b where p: "p = (a, b)" by force
  have "snd ` set (dset a b d) \<subseteq> insert b (snd ` set d)" by (induction d) auto
  with Cons.IH [of "dset a b d"] Cons.prems show ?case by (auto simp: p)
qed force

lemma dumpable_json_ok: "json_ok (VDict d) \<Longrightarrow> dumpable (VDict d)"
proof -
  have "json_ok v \<Longrightarrow> dumpable v" for v by (induction v) (auto simp: list_all_iff)
  then show "json_ok (VDict d) \<Longrightarrow> dumpable (VDict d)" .
qed

text \<open>The fields of an entry are keyword arguments beside its kind, and no caller passes a number.\<close>

definition plain :: "entry \<Rightarrow> bool" where
  "plain flds \<longleftrightarrow> \<not> has_key flds ''seq'' \<and> \<not> has_key flds ''kind''"

lemma make_entry_kind: "plain flds \<Longrightarrow> kind_hashable (make_entry q ts kind flds)"
proof -
  assume "plain flds"
  then have "dget (rev flds) ''kind'' = None" by (simp add: plain_def has_key_def map_of_eq_None_iff)
  then show ?thesis by (simp add: kind_hashable_def make_entry_def dget_dmerge)
qed

lemma make_entry_seq: "plain flds \<Longrightarrow> seq_of (make_entry q ts kind flds) = Some q"
proof -
  assume "plain flds"
  then have "dget (rev flds) ''seq'' = None" by (simp add: plain_def has_key_def map_of_eq_None_iff)
  then show ?thesis by (simp add: seq_of_def make_entry_def dget_dmerge)
qed

lemma make_entry_ok:
  assumes "json_ok (VDict flds)" and "plain flds" and "dumpable (VDict (make_entry q ts kind flds))"
  shows "entry_ok (make_entry q ts kind flds) \<and> entry_seq (make_entry q ts kind flds) = q"
proof -
  let ?e = "make_entry q ts kind flds"
  have "distinct (map fst ?e)"
    unfolding make_entry_def dkeys_def [symmetric] by (rule distinct_dkeys_dmerge) (simp add: dkeys_def)
  moreover have "json_ok v" if "(k, v) \<in> set ?e" for k v
  proof (cases "v = VInt q")
    case True
    then show ?thesis using assms(3) that by (auto simp: list_all_iff)
  next
    case False
    with dmerge_values [OF that [unfolded make_entry_def]] assms(1) show ?thesis by (auto simp: list_all_iff)
  qed
  ultimately have "json_ok (VDict ?e)" by (auto simp: list_all_iff)
  then show ?thesis using make_entry_seq [OF assms(2)] make_entry_kind [OF assms(2)] by (simp add: entry_ok_def entry_seq_def del: json_ok.simps)
qed

lemma begin_ok:
  assumes "holds wl es" and "json_ok (VDict flds)" and "plain flds"
    and "begin_write kind flds ts wl = (Inr q, wl')" and e: "e = make_entry q ts kind flds"
  shows "writable e" "entry_seq e = q" "q = counter wl + 1" "wal_file wl' = Some (file_of es @ wal_line e)"
    "inflight wl' = Some q" "counter wl' = q" "last_durable wl' = last_durable wl"
proof -
  from assms(4) have q: "q = counter wl + 1" and d: "dumpable (VDict e)" and u: "utf8_ok (entry_text e)"
    and wl': "wl' = wl\<lparr>counter := q, last_assigned := q, inflight := Some q, wal_file := Some (file_bytes wl @ wal_line e)\<rparr>"
    by (auto simp: begin_write_def Let_def e entry_text_def split: if_splits)
  show "writable e" "entry_seq e = q" using make_entry_ok [OF assms(2,3) d [unfolded e]] u by (simp_all add: writable_def e)
  show "q = counter wl + 1" by fact
  show "wal_file wl' = Some (file_of es @ wal_line e)" using assms(1) by (simp add: wl' holds_def)
qed (use assms(4) in \<open>auto simp: begin_write_def Let_def split: if_splits\<close>)

lemma finish_holds:
  assumes "holds wl es" and "json_ok (VDict flds)" and "plain flds"
    and "begin_write kind flds ts wl = (Inr q, wl')"
  shows "holds (finish_write q wl') (es @ [make_entry q ts kind flds])"
proof -
  note b = begin_ok [OF assms refl]
  have "last_durable wl \<le> counter wl" using assms(1) by (simp add: holds_def)
  then show ?thesis using assms(1) b
    by (auto simp: holds_def finish_write_def file_bytes_def wal_line_text sorted_wrt_append intro: order_trans)
qed

lemma utf8_cut: "list_all writable es \<Longrightarrow> utf8_ok (file_of es @ p) \<longleftrightarrow> utf8_ok p"
  using utf8_append utf8_file by (simp add: list_all_iff writable_def)

lemma iter_in_flight:
  assumes "list_all writable es" and "writable e" and "entry_seq e \<notin> entry_seq ` set es"
  shows "iter_lines (Some (entry_seq e)) low (text_lines (file_of es @ wal_line e)) = Inr (filter (\<lambda>d. low \<le> entry_seq d) es)"
proof -
  have e: "entry_ok e" using assms(2) by (simp add: writable_def)
  have es: "list_all entry_ok (es @ [e])" using writable_ok [OF assms(1)] e by simp
  have n: "Some (entry_seq e) \<notin> Some ` entry_seq ` set es" using assms(3) by blast
  have "iter_lines (Some (entry_seq e)) low [entry_text e, []] = Inr []"
    using entry_seq_some [OF e] by (simp add: text_entry_written [OF e])
  then have "iter_lines (Some (entry_seq e)) low (map entry_text es @ [entry_text e, []]) = Inr (filter (\<lambda>d. low \<le> entry_seq d) es)"
    unfolding iter_lines_written [OF writable_ok [OF assms(1)] n] by simp
  moreover have "file_of es @ wal_line e = file_of (es @ [e]) @ []" by (simp add: wal_line_text)
  ultimately show ?thesis using lines_of_file(2) [OF es, of "[]"] by simp
qed


end
