(* ===== verification/SnapFacts.thy ===== *)
theory SnapFacts
  imports AgentSnap WalFacts
begin

section \<open>Facts about snapshots\<close>

text \<open>
  Saving and loading undo each other, and a snapshot stamped with a position and the entries after
  it give what the whole log gives.
\<close>

subsection \<open>Saving and loading\<close>

definition serialize :: "agent_snapshot \<Rightarrow> string" where
  "serialize s = json_indent 0 (VDict (to_payload s))"

lemma py_list_or_else [simp]: "py_list (or_else (VList xs) (VList [])) = Inr xs"
  by (cases xs) (simp_all add: or_else_def)

lemma py_dict_or_else [simp]: "py_dict (or_else (VDict d) (VDict [])) = Inr d"
  by (cases d) (simp_all add: or_else_def)

lemma load_payload: "load_dict agent sid (to_payload s) = Inr (s\<lparr>agent_name := agent\<rparr>)"
  by (simp add: load_dict_def to_payload_def dget_or_def SNAPSHOT_VERSION_def coerce_int_def Let_def)

lemma no_cr_join: "(\<And>x. x \<in> set xs \<Longrightarrow> CHR 0x0D \<notin> set (f x)) \<Longrightarrow> CHR 0x0D \<notin> set sep \<Longrightarrow> CHR 0x0D \<notin> set (str_join sep (map f xs))"
proof (induction xs)
  case (Cons x xs)
  then show ?case by (cases xs) auto
qed simp

lemma no_cr_indent: "json_ok v \<Longrightarrow> CHR 0x0D \<notin> set (json_indent n v)"
proof (induction v arbitrary: n)
  case (VList xs)
  have "CHR 0x0D \<notin> set (str_join ('','' @ new_line (Suc n)) (map (json_indent (Suc n)) xs))"
    using VList by (intro no_cr_join) (auto simp: list_all_iff new_line_def)
  then show ?case by (auto simp: new_line_def)
next
  case (VDict d)
  have q: "CHR 0x0D \<notin> set (json_quote k)" for k using no_ctl_lines [OF no_ctl_quote] by blast
  have "CHR 0x0D \<notin> set (str_join ('','' @ new_line (Suc n))
      (map (\<lambda>(k, v). json_quote k @ '': '' @ json_indent (Suc n) v) d))"
    using VDict q by (intro no_cr_join) (fastforce simp: list_all_iff new_line_def)+
  then show ?case by (auto simp: new_line_def)
qed (unfold json_indent.simps, (use no_ctl_lines [OF no_ctl_dumps] in blast)+)

text \<open>C18: A snapshot that is saved is loaded back as it was: \<open>load\<close> of what \<open>save\<close> wrote gives the same state,
  the session and the position of the file whatever the caller passes, for every state whose values
  are JSON values that can be written and read.\<close>

theorem snapshot_roundtrip:
  assumes "json_ok (VDict (to_payload s))" and "utf8_ok (serialize s)"
  shows "load_snapshot (agent_name s) sid (Some (serialize s)) = Inr s"
proof -
  have "universal (serialize s) = serialize s"
    unfolding serialize_def by (rule universal_id) (rule no_cr_indent [OF assms(1)])
  moreover have "json_loads (serialize s) = Inr (VDict (to_payload s))"
    unfolding serialize_def by (rule indent_roundtrip [OF assms(1)])
  ultimately show ?thesis using assms(2) by (simp add: load_snapshot_def load_value_def load_payload)
qed

subsection \<open>Replay\<close>

lemma apply_events_append: "apply_events (xs @ ys) s = rbind (apply_events xs s) (apply_events ys)"
  by (induction xs arbitrary: s) (auto simp: rbind_def split: sum.split)

text \<open>Replay changes neither the agent nor the session, and one entry reads the position only to skip.\<close>

definition at_seq :: "int \<Rightarrow> agent_snapshot \<Rightarrow> agent_snapshot" where
  "at_seq q s = s\<lparr>applied_seq := q\<rparr>"

lemma at_seq_simps [simp]:
  "agent_name (at_seq q s) = agent_name s" "session_id (at_seq q s) = session_id s" "applied_seq (at_seq q s) = q"
  "inbox (at_seq q s) = inbox s" "pending_chains (at_seq q s) = pending_chains s"
  "outstanding_interventions (at_seq q s) = outstanding_interventions s" "buffered_answers (at_seq q s) = buffered_answers s"
  "next_turn_context (at_seq q s) = next_turn_context s" "at_seq q (at_seq q' s) = at_seq q s"
  by (simp_all add: at_seq_def)

lemma map_sum_rbind: "map_sum id g (rbind m f) = rbind m (\<lambda>x. map_sum id g (f x))"
  by (cases m) simp_all

definition uniform :: "(agent_snapshot \<Rightarrow> agent_snapshot snap) \<Rightarrow> bool" where
  "uniform h \<longleftrightarrow> (\<forall>q s. h (at_seq q s) = map_sum id (at_seq q) (h s))
     \<and> (\<forall>s s'. h s = Inr s' \<longrightarrow> agent_name s' = agent_name s \<and> session_id s' = session_id s \<and> applied_seq s' = applied_seq s)"

lemma uniform_bind:
  assumes "\<And>q s. g (at_seq q s) = g s" and "\<And>x. uniform (f x)"
  shows "uniform (\<lambda>s. rbind (g s) (\<lambda>x. f x s))"
  using assms(2) unfolding uniform_def by (auto simp: assms(1) map_sum_rbind)

lemma uniform_if: "uniform f \<Longrightarrow> uniform g \<Longrightarrow> uniform (\<lambda>s. if c then f s else g s)"
  unfolding uniform_def by auto

lemma uniform_leaf:
  assumes "\<And>q s. u (at_seq q s) = at_seq q (u s)"
    and "\<And>s. agent_name (u s) = agent_name s \<and> session_id (u s) = session_id s \<and> applied_seq (u s) = applied_seq s"
  shows "uniform (\<lambda>s. Inr (u s))"
  using assms unfolding uniform_def by auto

lemma uniform_chain:
  "uniform (\<lambda>s. if ch = VNone then Inr s
     else rbind (update_chain e ch) (\<lambda>ch'. rbind (hash_key cid) (\<lambda>k. Inr (s\<lparr>pending_chains := dset k ch' (pending_chains s)\<rparr>))))"
  by (intro uniform_if uniform_bind uniform_leaf) (simp_all add: at_seq_def)

lemma uniform_replays:
  "uniform (replay_inbox_put e)" "uniform (replay_inbox_drop e)" "uniform (replay_chain_register e)"
  "uniform (replay_chain_update e)" "uniform (replay_chain_drop e)" "uniform (replay_dispatched e)"
  "uniform (replay_resolved e)" "uniform (replay_buffered e)" "uniform (replay_consumed e)" "uniform (replay_staged e)"
  unfolding replay_inbox_put_def [abs_def] replay_inbox_drop_def [abs_def] replay_chain_register_def [abs_def]
    replay_chain_update_def [abs_def] replay_chain_drop_def [abs_def] replay_dispatched_def [abs_def]
    replay_resolved_def [abs_def] replay_buffered_def [abs_def] replay_consumed_def [abs_def] replay_staged_def [abs_def] Let_def
  by (intro uniform_if uniform_bind uniform_leaf uniform_chain; simp add: at_seq_def)+

lemma apply_one_uniform: "uniform (apply_one e)"
  unfolding apply_one_def [abs_def]
  by (cases "event_kind e") (auto intro!: uniform_if uniform_replays uniform_leaf simp: at_seq_def)

text \<open>
  What replay means, without positions: \<open>play\<close> applies every entry it is given.  Replaying a numbered
  log plays the session's own entries past the position of the snapshot.
\<close>

fun play :: "entry list \<Rightarrow> agent_snapshot \<Rightarrow> agent_snapshot snap" where
  "play [] s = Inr s"
| "play (e # es) s = rbind (apply_one e s) (play es)"

lemma play_append: "play (xs @ ys) s = rbind (play xs s) (play ys)"
  by (induction xs arbitrary: s) (auto simp: rbind_def split: sum.split)

lemma play_uniform: "uniform (play es)"
proof (induction es)
  case (Cons e es)
  have "map_sum id (at_seq q) (rbind (apply_one e s) (play es)) = rbind (apply_one e (at_seq q s)) (play es)" for q s
    using apply_one_uniform [of e] Cons unfolding uniform_def by (cases "apply_one e s") simp_all
  moreover have "agent_name t = agent_name s \<and> session_id t = session_id s \<and> applied_seq t = applied_seq s"
    if "rbind (apply_one e s) (play es) = Inr t" for s t
    using apply_one_uniform [of e] Cons that unfolding uniform_def by auto
  ultimately show ?case unfolding uniform_def by simp
qed (simp add: uniform_def)

lemma play_at_seq: "play es (at_seq q s) = map_sum id (at_seq q) (play es s)"
  using play_uniform unfolding uniform_def by blast

definition numbered :: "entry list \<Rightarrow> bool" where
  "numbered es \<longleftrightarrow> (\<forall>e\<in>set es. seq_of e \<noteq> None) \<and> sorted_wrt (<) (map entry_seq es)"

lemma numbered_append: "numbered (xs @ ys) \<longleftrightarrow> numbered xs \<and> numbered ys \<and> (\<forall>x\<in>set xs. \<forall>y\<in>set ys. entry_seq x < entry_seq y)"
  by (auto simp: numbered_def sorted_wrt_append)

lemma numbered_filter: "numbered es \<Longrightarrow> numbered (filter p es)"
  by (auto simp: numbered_def sorted_wrt_map sorted_wrt_filter)

definition own :: "agent_snapshot \<Rightarrow> entry \<Rightarrow> bool" where
  "own s e \<longleftrightarrow> event_route_key e = Some (VStr (agent_name s), VStr (session_id s))"

definition last_seq :: "int \<Rightarrow> entry list \<Rightarrow> int" where
  "last_seq q es = (if es = [] then q else entry_seq (last es))"

lemma last_seq_simps [simp]: "last_seq q [] = q" "last_seq q (e # es) = last_seq (entry_seq e) es"
  by (simp_all add: last_seq_def)

lemma own_same: "agent_name t = agent_name s \<Longrightarrow> session_id t = session_id s \<Longrightarrow> own t = own s"
  by (simp add: own_def fun_eq_iff)

lemma own_at_seq [simp]: "own (at_seq q s) = own s"
  by (rule own_same) simp_all

lemma apply_events_play:
  "numbered es \<Longrightarrow>
    apply_events es s = map_sum id (at_seq (last_seq (applied_seq s) (filter (\<lambda>e. applied_seq s < entry_seq e \<and> own s e) es)))
      (play (filter (\<lambda>e. applied_seq s < entry_seq e \<and> own s e) es) s)"
proof (induction es arbitrary: s)
  case Nil
  then show ?case by (simp add: at_seq_def)
next
  case (Cons e es)
  have e: "seq_of e = Some (entry_seq e)" and es: "numbered es" and l: "\<forall>d\<in>set es. entry_seq e < entry_seq d"
    using Cons.prems by (auto simp: numbered_def entry_seq_def)
  have m: "matches_agent e s = own s e" by (simp add: matches_agent_def own_def)
  show ?case
  proof (cases "applied_seq s < entry_seq e \<and> own s e")
    case False
    then have "apply_event e s = Inr s" using e m by (auto simp: apply_event_def)
    then show ?thesis using Cons.IH [OF es, of s] False by auto
  next
    case True
    show ?thesis
    proof (cases "apply_one e s")
      case (Inr t)
      let ?t = "at_seq (entry_seq e) t"
      have k: "agent_name t = agent_name s" "session_id t = session_id s"
        using apply_one_uniform [of e] Inr unfolding uniform_def by blast+
      have f: "filter (\<lambda>d. applied_seq ?t < entry_seq d \<and> own ?t d) es = filter (\<lambda>d. applied_seq s < entry_seq d \<and> own s d) es"
        using True l own_same [OF k] by (intro filter_cong) auto
      have "apply_event e s = Inr ?t" using e m True Inr by (auto simp: apply_event_def at_seq_def)
      then show ?thesis
        using Cons.IH [OF es, of ?t] True Inr unfolding f
        by (cases "play (filter (\<lambda>d. applied_seq s < entry_seq d \<and> own s d) es) t") (simp_all add: play_at_seq)
    qed (use e m True in \<open>simp add: apply_event_def\<close>)
  qed
qed

lemma apply_event_same: "apply_event e s = Inr t \<Longrightarrow> agent_name t = agent_name s \<and> session_id t = session_id s"
proof -
  assume a: "apply_event e s = Inr t"
  then consider "t = s" | q u where "apply_one e s = Inr u" "t = u\<lparr>applied_seq := q\<rparr>"
    by (cases "seq_of e") (auto simp: apply_event_def split: if_split_asm)
  then show ?thesis
  proof cases
    case 2
    then show ?thesis using apply_one_uniform [of e] unfolding uniform_def by auto
  qed simp
qed

text \<open>The whole log need not be walked for every session: replaying only the entries routed to a session
  gives what replaying the whole log gives, exceptions included; in particular the entries of other
  agents and sessions change nothing.\<close>

theorem bucketed_replay:
  "apply_events (filter (\<lambda>e. event_route_key e = Some (VStr (agent_name s), VStr (session_id s))) es) s = apply_events es s"
proof (induction es arbitrary: s)
  case (Cons e es)
  show ?case
  proof (cases "matches_agent e s")
    case False
    then have "apply_event e s = Inr s" by (simp add: apply_event_def split: option.split)
    with False Cons.IH [of s] show ?thesis by (simp add: matches_agent_def)
  next
    case True
    have "apply_events (filter (\<lambda>e. event_route_key e = Some (VStr (agent_name s), VStr (session_id s))) es) t = apply_events es t"
      if "apply_event e s = Inr t" for t
      using apply_event_same [OF that] Cons.IH [of t] by simp
    then have "rbind (apply_event e s) (apply_events (filter (\<lambda>e. event_route_key e = Some (VStr (agent_name s), VStr (session_id s))) es))
        = rbind (apply_event e s) (apply_events es)"
      by (cases "apply_event e s") auto
    with True show ?thesis by (simp add: matches_agent_def)
  qed
qed simp

definition erase :: "agent_snapshot snap \<Rightarrow> agent_snapshot snap" where
  "erase r = map_sum id (at_seq 0) r"

lemma erase_at_seq [simp]: "erase (map_sum id (at_seq q) r) = erase r"
  by (cases r) (simp_all add: erase_def)

text \<open>C19: Recovery is exact: take a snapshot of the state after some of the log, stamped with any position
  that is at or past its last own entry and below the next one, drop from the log any entries at or
  below that position, and replay what is left onto the snapshot; the state is the one that
  replaying the whole log from the start gives, with the same exception if that raises.\<close>

theorem recovery_exact:
  assumes "numbered (xs @ ys)" and "apply_events xs s = Inr t" and "applied_seq s \<le> P"
    and "\<forall>e\<in>set xs. own s e \<longrightarrow> entry_seq e \<le> P" and "\<forall>e\<in>set ys. own s e \<longrightarrow> P < entry_seq e"
    and "\<forall>e\<in>set (xs @ ys). P < entry_seq e \<longrightarrow> keep e"
  shows "erase (apply_events (filter keep (xs @ ys)) (at_seq P t)) = erase (apply_events (xs @ ys) s)"
proof -
  let ?own = "\<lambda>e. applied_seq s < entry_seq e \<and> own s e"
  have n: "numbered xs" "numbered ys" using assms(1) by (simp_all add: numbered_append)
  have x: "map_sum id (at_seq (last_seq (applied_seq s) (filter ?own xs))) (play (filter ?own xs) s) = Inr t"
    using apply_events_play [OF n(1), of s] assms(2) by simp
  then obtain u where u: "play (filter ?own xs) s = Inr u" "t = at_seq (last_seq (applied_seq s) (filter ?own xs)) u"
    by (cases "play (filter ?own xs) s") auto
  have k: "agent_name u = agent_name s" "session_id u = session_id s"
    using play_uniform [of "filter ?own xs"] u(1) unfolding uniform_def by blast+
  have t: "own t = own s" using own_same [OF k] by (simp add: u(2))
  have f: "filter (\<lambda>e. P < entry_seq e \<and> own s e) (filter keep (xs @ ys)) = filter ?own ys"
  proof -
    have "filter (\<lambda>e. P < entry_seq e \<and> own s e \<and> keep e) xs = []" using assms(4) by (auto simp: filter_empty_conv)
    moreover have "filter (\<lambda>e. P < entry_seq e \<and> own s e \<and> keep e) ys = filter ?own ys"
      using assms(3,5,6) by (intro filter_cong) auto
    ultimately show ?thesis by (simp add: filter_filter conj_comms)
  qed
  have "\<exists>q. apply_events (filter keep (xs @ ys)) (at_seq P t) = map_sum id (at_seq q) (play (filter ?own ys) (at_seq P t))"
    using apply_events_play [OF numbered_filter [OF assms(1)], of keep "at_seq P t"]
    unfolding at_seq_simps own_at_seq t f by blast
  then have "erase (apply_events (filter keep (xs @ ys)) (at_seq P t)) = erase (play (filter ?own ys) u)"
    by (auto simp: u(2) play_at_seq)
  also have "\<dots> = erase (play (filter ?own (xs @ ys)) s)" using u(1) by (simp add: play_append)
  also have "\<dots> = erase (apply_events (xs @ ys) s)" using apply_events_play [OF assms(1), of s] by simp
  finally show ?thesis .
qed

end
