(* ===== verification/Journal.thy ===== *)
theory Journal
  imports SnapFacts
begin

section \<open>The snapshot journal\<close>

text \<open>
  \<open>src/reyn/runtime/services/snapshot_journal.py\<close>: every change of a session's durable state is
  queued as an entry of the write-ahead log and mirrored in the snapshot in memory; every so many
  entries the snapshot is captured and queued for writing, and at checkpoints it is queued as a
  generation.  One worker runs the queue in order; it numbers an entry when it writes it and stamps
  a captured snapshot with the number it assigned last.
\<close>

datatype job =
    AppendJob string entry
  | SaveJob nat "pyval dict"
  | CutJob "pyval dict"

text \<open>
  \<open>has_log\<close>: the journal has a log at all.  \<open>live\<close> is the snapshot object in memory and
  \<open>live_object\<close> its identity, which a save job remembers to stamp the right one.  \<open>jobs\<close> is the
  worker's queue, \<open>wal\<close> the log, \<open>snapshot_file\<close> and \<open>generations\<close> the payloads on disk.
\<close>

record journal =
  has_log :: bool
  journal_agent :: string
  journal_session :: string
  live_object :: nat
  live :: agent_snapshot
  snapshot_interval :: int
  appends_since :: int
  jobs :: "job list"
  wal :: state_log
  snapshot_file :: "pyval dict option"
  generations :: "(int \<times> pyval dict) list"

definition wal_append_nowait :: "string \<Rightarrow> entry \<Rightarrow> journal \<Rightarrow> journal" where
  "wal_append_nowait kind flds j =
     j\<lparr>jobs := jobs j @ [AppendJob kind (dmerge [(''session_id'', VStr (journal_session j))] flds)]\<rparr>"

definition save_nowait :: "journal \<Rightarrow> journal" where
  "save_nowait j =
     (if \<not> has_log j then j\<lparr>snapshot_file := Some (to_payload (live j))\<rparr>
      else if appends_since j + 1 < snapshot_interval j then j\<lparr>appends_since := appends_since j + 1\<rparr>
      else j\<lparr>appends_since := 0, jobs := jobs j @ [SaveJob (live_object j) (to_payload (live j))]\<rparr>)"

text \<open>An entry is queued, the mirror changed, and perhaps the snapshot queued, without a pause.\<close>

definition record_mutation :: "string \<Rightarrow> entry \<Rightarrow> agent_snapshot \<Rightarrow> journal \<Rightarrow> journal" where
  "record_mutation kind flds s j = save_nowait ((wal_append_nowait kind flds j)\<lparr>live := s\<rparr>)"

definition target_field :: "journal \<Rightarrow> string \<times> pyval" where
  "target_field j = (''target'', VStr (journal_agent j))"

definition agent_field :: "journal \<Rightarrow> string \<times> pyval" where
  "agent_field j = (''agent'', VStr (journal_agent j))"

subsection \<open>The inbox\<close>

definition append_inbox :: "string \<Rightarrow> string \<Rightarrow> pyval dict \<Rightarrow> journal \<Rightarrow> journal" where
  "append_inbox msg_id kind payload j =
     (let full = VDict (dset ''_msg_id'' (VStr msg_id) payload); s = live j in
      if \<not> has_log j then j
      else record_mutation ''inbox_put''
        [target_field j, (''msg_id'', VStr msg_id), (''msg_kind'', VStr kind), (''payload'', full)]
        (s\<lparr>inbox := inbox s @ [VDict [(''id'', VStr msg_id), (''kind'', VStr kind), (''payload'', full)]]\<rparr>) j)"

definition consume_inbox :: "string \<Rightarrow> journal \<Rightarrow> journal snap" where
  "consume_inbox msg_id j =
     (let s = live j in
      if \<not> has_log j then Inr j
      else rbind (keep_where (other_id (VStr msg_id)) (inbox s)) (\<lambda>ms.
        Inr (record_mutation ''inbox_consume'' [agent_field j, (''msg_id'', VStr msg_id)] (s\<lparr>inbox := ms\<rparr>) j)))"

definition cancel_inbox :: "string \<Rightarrow> journal \<Rightarrow> (bool \<times> journal) snap" where
  "cancel_inbox msg_id j =
     (let s = live j in
      if \<not> has_log j then Inr (False, j)
      else rbind (keep_where (other_id (VStr msg_id)) (inbox s)) (\<lambda>ms.
        if ms = inbox s then Inr (False, j)
        else Inr (True, record_mutation ''inbox_cancel'' [agent_field j, (''msg_id'', VStr msg_id)] (s\<lparr>inbox := ms\<rparr>) j)))"

subsection \<open>Chains\<close>

definition chain_field :: "string \<times> pyval \<Rightarrow> (string \<times> pyval) snap" where
  "chain_field kv =
     (if fst kv = ''waiting_on'' then rbind (py_list (snd kv)) (\<lambda>xs. Inr (fst kv, VList xs)) else Inr kv)"

definition record_chain_register :: "string \<Rightarrow> pyval dict \<Rightarrow> journal \<Rightarrow> journal snap" where
  "record_chain_register cid flds j =
     (let s = live j in
      if \<not> has_log j then Inr j
      else rbind (traverse chain_field flds) (\<lambda>fs.
        Inr (record_mutation ''chain_register'' (agent_field j # (''chain_id'', VStr cid) # flds)
          (s\<lparr>pending_chains := dset cid (VDict (dmerge [(''chain_id'', VStr cid)] fs)) (pending_chains s)\<rparr>) j)))"

fun set_fields :: "pyval dict \<Rightarrow> pyval \<Rightarrow> pyval snap" where
  "set_fields [] ch = Inr ch"
| "set_fields ((k, v) # fs) ch =
     rbind (if k = ''waiting_on'' then map_sum id VList (py_list v) else Inr v) (\<lambda>w.
       case ch of VDict d \<Rightarrow> set_fields fs (VDict (dset k w d)) | _ \<Rightarrow> Inl SnapTypeError)"

definition record_chain_update :: "string \<Rightarrow> pyval dict \<Rightarrow> journal \<Rightarrow> journal snap" where
  "record_chain_update cid flds j =
     (let s = live j; ch = dget_or (pending_chains s) cid VNone in
      if \<not> has_log j then Inr j
      else rbind (if ch = VNone then Inr s
                  else rbind (set_fields flds ch) (\<lambda>ch'. Inr (s\<lparr>pending_chains := dset cid ch' (pending_chains s)\<rparr>)))
        (\<lambda>s'. Inr (record_mutation ''chain_update'' (agent_field j # (''chain_id'', VStr cid) # flds) s' j)))"

definition chain_dropped :: "string \<Rightarrow> string \<Rightarrow> journal \<Rightarrow> journal" where
  "chain_dropped kind cid j =
     (let s = live j in
      if \<not> has_log j then j
      else record_mutation kind [agent_field j, (''chain_id'', VStr cid)]
        (s\<lparr>pending_chains := AList.delete cid (pending_chains s)\<rparr>) j)"

definition record_chain_resolve :: "string \<Rightarrow> journal \<Rightarrow> journal" where
  "record_chain_resolve = chain_dropped ''chain_resolve''"

definition record_chain_timeout_fired :: "string \<Rightarrow> journal \<Rightarrow> journal" where
  "record_chain_timeout_fired = chain_dropped ''chain_timeout_fired''"

subsection \<open>Interventions and the next turn\<close>

definition record_intervention_dispatched :: "string \<Rightarrow> pyval dict \<Rightarrow> journal \<Rightarrow> journal" where
  "record_intervention_dispatched i iv j =
     (let s = live j in
      if \<not> has_log j then j
      else record_mutation ''intervention_dispatched''
        [target_field j, (''intervention_id'', VStr i), (''iv_dict'', VDict iv)]
        (s\<lparr>outstanding_interventions := dset i (VDict iv) (outstanding_interventions s)\<rparr>) j)"

definition record_intervention_resolved :: "string \<Rightarrow> journal \<Rightarrow> journal" where
  "record_intervention_resolved i j =
     (let s = live j in
      if \<not> has_log j then j
      else record_mutation ''intervention_resolved'' [target_field j, (''intervention_id'', VStr i)]
        (s\<lparr>outstanding_interventions := AList.delete i (outstanding_interventions s)\<rparr>) j)"

definition record_answer_buffered :: "string \<Rightarrow> string \<Rightarrow> string option \<Rightarrow> journal \<Rightarrow> journal" where
  "record_answer_buffered run answer choice j =
     (let s = live j; ch = (case choice of None \<Rightarrow> VNone | Some c \<Rightarrow> VStr c) in
      if \<not> has_log j then j
      else record_mutation ''intervention_answer_buffered''
        [target_field j, (''run_id'', VStr run), (''text'', VStr answer), (''choice_id'', ch)]
        (s\<lparr>buffered_answers := dset run (VDict [(''text'', VStr answer), (''choice_id'', ch)]) (buffered_answers s)\<rparr>) j)"

definition record_answer_consumed :: "string \<Rightarrow> journal \<Rightarrow> journal" where
  "record_answer_consumed run j =
     (let s = live j in
      if \<not> has_log j then j
      else record_mutation ''intervention_answer_consumed'' [target_field j, (''run_id'', VStr run)]
        (s\<lparr>buffered_answers := AList.delete run (buffered_answers s)\<rparr>) j)"

definition record_context_staged :: "string \<Rightarrow> pyval dict \<Rightarrow> journal \<Rightarrow> journal" where
  "record_context_staged kind payload j =
     (let s = live j; staged = VDict [(''kind'', VStr kind), (''payload'', VDict payload)] in
      if \<not> has_log j then j
      else record_mutation ''next_turn_context_staged'' [target_field j, (''entry'', staged)]
        (s\<lparr>next_turn_context := next_turn_context s @ [staged]\<rparr>) j)"

definition record_context_cleared :: "journal \<Rightarrow> journal" where
  "record_context_cleared j =
     (let s = live j in
      if \<not> has_log j then j
      else record_mutation ''next_turn_context_cleared'' [target_field j] (s\<lparr>next_turn_context := []\<rparr>) j)"

subsection \<open>Checkpoints, restore and the worker\<close>

definition cut_generation :: "bool \<Rightarrow> journal \<Rightarrow> journal" where
  "cut_generation has_store j =
     (if \<not> has_store \<or> \<not> has_log j then j else j\<lparr>jobs := jobs j @ [CutJob (to_payload (live j))]\<rparr>)"

definition set_session_id :: "string \<Rightarrow> journal \<Rightarrow> journal" where
  "set_session_id sid j = j\<lparr>journal_session := sid, live := (live j)\<lparr>session_id := sid\<rparr>\<rparr>"

definition install :: "agent_snapshot \<Rightarrow> journal \<Rightarrow> journal" where
  "install s j = j\<lparr>live_object := live_object j + 1, live := s, snapshot_file := Some (to_payload s)\<rparr>"

text \<open>\<open>close\<close> queues a last save whatever the count; the caller waits for the queue to drain.\<close>

definition journal_close :: "journal \<Rightarrow> journal" where
  "journal_close j =
     (if \<not> has_log j then j\<lparr>snapshot_file := Some (to_payload (live j))\<rparr>
      else j\<lparr>appends_since := 0, jobs := jobs j @ [SaveJob (live_object j) (to_payload (live j))]\<rparr>)"

definition stamped :: "int \<Rightarrow> pyval dict \<Rightarrow> pyval dict" where
  "stamped q p = dset ''applied_seq'' (VInt q) p"

text \<open>The worker's next job; \<open>ts\<close> is the time it reads.  A failed append is dropped with an alarm.\<close>

definition run_job :: "string \<Rightarrow> journal \<Rightarrow> journal" where
  "run_job ts j =
     (case jobs j of
        [] \<Rightarrow> j
      | AppendJob kind flds # js \<Rightarrow> j\<lparr>jobs := js, wal := snd (append_entry kind flds ts (wal j))\<rparr>
      | SaveJob i p # js \<Rightarrow>
          (let q = last_assigned (wal j) in
           j\<lparr>jobs := js, snapshot_file := Some (stamped q p),
             live := (if i = live_object j then (live j)\<lparr>applied_seq := q\<rparr> else live j)\<rparr>)
      | CutJob p # js \<Rightarrow>
          (let q = last_assigned (wal j) in
           j\<lparr>jobs := js, generations := AList.update q (stamped q p) (generations j)\<rparr>))"

end
