(* ===== verification/JournalFacts.thy ===== *)
theory JournalFacts
  imports Journal
begin

section \<open>What the journal keeps\<close>

subsection \<open>Agreement of snapshots\<close>

text \<open>
  Replay does not restore a chain exactly as it is mirrored: the time of an update's entry is
  written into the chain, and the time of registration is dropped.  Two snapshots agree when they
  differ in nothing else (and in the position).
\<close>

definition loose_keys :: "string list" where
  "loose_keys = [''ts'', ''registered_at'']"

definition same_chain :: "pyval \<Rightarrow> pyval \<Rightarrow> bool" where
  "same_chain v w \<longleftrightarrow> v = w \<or> (\<exists>d e. v = VDict d \<and> w = VDict e \<and> (\<forall>k. k \<notin> set loose_keys \<longrightarrow> dget d k = dget e k))"

definition same_entry :: "string \<times> pyval \<Rightarrow> string \<times> pyval \<Rightarrow> bool" where
  "same_entry p q \<longleftrightarrow> fst p = fst q \<and> same_chain (snd p) (snd q)"

definition agree :: "agent_snapshot \<Rightarrow> agent_snapshot \<Rightarrow> bool" where
  "agree s t \<longleftrightarrow> agent_name s = agent_name t \<and> session_id s = session_id t \<and> inbox s = inbox t
     \<and> list_all2 same_entry (pending_chains s) (pending_chains t)
     \<and> outstanding_interventions s = outstanding_interventions t \<and> buffered_answers s = buffered_answers t
     \<and> next_turn_context s = next_turn_context t"

lemma same_chain_refl [simp]: "same_chain v v"
  by (simp add: same_chain_def)

lemma same_chain_dicts: "same_chain (VDict d) (VDict e) \<longleftrightarrow> (\<forall>k. k \<notin> set loose_keys \<longrightarrow> dget d k = dget e k)"
  by (auto simp: same_chain_def)

lemma same_chain_cases:
  assumes "same_chain v w"
  obtains "v = w" "\<And>d. v \<noteq> VDict d"
    | d e where "v = VDict d" "w = VDict e" "\<forall>k. k \<notin> set loose_keys \<longrightarrow> dget d k = dget e k"
  using assms unfolding same_chain_def by blast

lemma same_chain_trans: "same_chain u v \<Longrightarrow> same_chain v w \<Longrightarrow> same_chain u w"
  by (auto simp: same_chain_def)

lemma same_chain_none: "same_chain v w \<Longrightarrow> v = VNone \<longleftrightarrow> w = VNone"
  by (auto simp: same_chain_def)

lemma agree_refl [simp]: "agree s s"
  by (simp add: agree_def list.rel_refl same_entry_def)

lemma same_entry_pair [simp]: "same_entry (k, v) (l, w) \<longleftrightarrow> k = l \<and> same_chain v w"
  by (simp add: same_entry_def)

lemma same_entry_trans: "same_entry p q \<Longrightarrow> same_entry q r \<Longrightarrow> same_entry p r"
  using same_chain_trans by (auto simp: same_entry_def)

lemma agree_trans: "agree s t \<Longrightarrow> agree t u \<Longrightarrow> agree s u"
proof -
  assume a: "agree s t" and b: "agree t u"
  have "list_all2 same_entry (pending_chains s) (pending_chains t)" "list_all2 same_entry (pending_chains t) (pending_chains u)"
    using a b by (simp_all add: agree_def)
  then have "list_all2 same_entry (pending_chains s) (pending_chains u)"
    by (rule list_all2_trans [rotated]) (rule same_entry_trans)
  then show ?thesis using a b by (simp add: agree_def)
qed

lemma agree_at_seq [simp]: "agree (at_seq q s) t \<longleftrightarrow> agree s t" "agree s (at_seq q t) \<longleftrightarrow> agree s t"
  by (simp_all add: agree_def)

lemma all2_dset:
  "list_all2 same_entry ps qs \<Longrightarrow> same_chain v w \<Longrightarrow> list_all2 same_entry (dset k v ps) (dset k w qs)"
  by (induction rule: list_all2_induct) auto

lemma all2_delete: "list_all2 same_entry ps qs \<Longrightarrow> list_all2 same_entry (AList.delete k ps) (AList.delete k qs)"
  by (induction rule: list_all2_induct) auto

lemma all2_get: "list_all2 same_entry ps qs \<Longrightarrow> same_chain (dget_or ps k VNone) (dget_or qs k VNone)"
  by (induction rule: list_all2_induct) (auto simp: dget_or_def)

subsection \<open>Replay respects agreement\<close>

lemma update_same:
  "same_chain v w \<Longrightarrow> update_chain fs v = Inr v' \<Longrightarrow> \<exists>w'. update_chain fs w = Inr w' \<and> same_chain v' w'"
proof (induction fs v arbitrary: w rule: update_chain.induct)
  case (2 k x fs ch)
  show ?case
  proof (cases "k \<in> set CHAIN_EVENT_META_KEYS")
    case True
    then show ?thesis using 2 by simp
  next
    case False
    with "2.prems"(2) obtain y d where y: "(if k = ''waiting_on'' then map_sum id VList (py_list x) else Inr x) = Inr y"
        and d: "ch = VDict d" "update_chain fs (VDict (dset k y d)) = Inr v'"
      by (cases ch) auto
    from "2.prems"(1) d(1) obtain e where e: "w = VDict e" "\<forall>k. k \<notin> set loose_keys \<longrightarrow> dget d k = dget e k"
      by (auto simp: same_chain_def)
    have "same_chain (VDict (dset k y d)) (VDict (dset k y e))" using e(2) by (simp add: same_chain_dicts)
    from "2.IH"(2) [OF False y d(1) this d(2)] False y show ?thesis by (simp add: e(1))
  qed
qed auto

definition keeps_agree :: "(agent_snapshot \<Rightarrow> agent_snapshot snap) \<Rightarrow> bool" where
  "keeps_agree h \<longleftrightarrow> (\<forall>s t s'. agree s t \<longrightarrow> h s = Inr s' \<longrightarrow> (\<exists>t'. h t = Inr t' \<and> agree s' t'))"

lemma keeps_agreeI: "(\<And>s t s'. agree s t \<Longrightarrow> h s = Inr s' \<Longrightarrow> \<exists>t'. h t = Inr t' \<and> agree s' t') \<Longrightarrow> keeps_agree h"
  by (simp add: keeps_agree_def)

lemma keeps_agree_if: "keeps_agree f \<Longrightarrow> keeps_agree g \<Longrightarrow> keeps_agree (\<lambda>s. if c then f s else g s)"
  by (simp add: keeps_agree_def)

lemma keeps_agree_bind:
  assumes "\<And>s t. agree s t \<Longrightarrow> g t = g s" and "\<And>x. keeps_agree (f x)"
  shows "keeps_agree (\<lambda>s. rbind (g s) (\<lambda>x. f x s))"
proof (rule keeps_agreeI)
  fix s t s' assume a: "agree s t" "rbind (g s) (\<lambda>x. f x s) = Inr s'"
  then obtain x where "g s = Inr x" "f x s = Inr s'" by auto
  with a assms show "\<exists>t'. rbind (g t) (\<lambda>x. f x t) = Inr t' \<and> agree s' t'" unfolding keeps_agree_def by simp
qed

lemma keeps_agree_leaf: "(\<And>s t. agree s t \<Longrightarrow> agree (u s) (u t)) \<Longrightarrow> keeps_agree (\<lambda>s. Inr (u s))"
  by (auto simp: keeps_agree_def)

lemma keeps_agree_simple:
  "keeps_agree (replay_inbox_put e)" "keeps_agree (replay_inbox_drop e)" "keeps_agree (replay_dispatched e)"
  "keeps_agree (replay_resolved e)" "keeps_agree (replay_buffered e)" "keeps_agree (replay_consumed e)" "keeps_agree (replay_staged e)"
  unfolding replay_inbox_put_def [abs_def] replay_inbox_drop_def [abs_def] replay_dispatched_def [abs_def]
    replay_resolved_def [abs_def] replay_buffered_def [abs_def] replay_consumed_def [abs_def] replay_staged_def [abs_def] Let_def
  by (intro keeps_agree_if keeps_agree_bind keeps_agree_leaf; simp add: agree_def)+

lemma keeps_agree_register: "keeps_agree (replay_chain_register e)"
  unfolding replay_chain_register_def [abs_def]
  by (intro keeps_agree_bind keeps_agree_leaf refl) (simp add: agree_def all2_dset)

lemma keeps_agree_drop: "keeps_agree (replay_chain_drop e)"
proof (rule keeps_agreeI)
  fix s t s' assume a: "agree s t" "replay_chain_drop e s = Inr s'"
  then have "list_all2 same_entry (pending_chains s) (pending_chains t)" by (simp add: agree_def)
  from all2_delete [OF this] a show "\<exists>t'. replay_chain_drop e t = Inr t' \<and> agree s' t'"
    by (cases "event_get e ''chain_id''") (auto simp: replay_chain_drop_def agree_def)
qed

lemma keeps_agree_update: "keeps_agree (replay_chain_update e)"
proof (rule keeps_agreeI)
  fix s t u assume a: "agree s t" and u: "replay_chain_update e s = Inr u"
  then have ch: "list_all2 same_entry (pending_chains s) (pending_chains t)" by (simp add: agree_def)
  from u obtain cid c where c: "event_item e ''chain_id'' = Inr cid" "lookup_key cid (pending_chains s) = Inr c"
    by (auto simp: replay_chain_update_def)
  have "\<exists>c'. lookup_key cid (pending_chains t) = Inr c' \<and> same_chain c c'"
    using c(2) all2_get [OF ch] by (cases cid) auto
  then obtain c' where c': "lookup_key cid (pending_chains t) = Inr c'" "same_chain c c'" by blast
  show "\<exists>t'. replay_chain_update e t = Inr t' \<and> agree u t'"
  proof (cases "c = VNone")
    case True
    then show ?thesis using u c c' same_chain_none [OF c'(2)] a by (auto simp: replay_chain_update_def)
  next
    case False
    with u c obtain v k where v: "update_chain e c = Inr v" "hash_key cid = Inr k"
        "u = s\<lparr>pending_chains := dset k v (pending_chains s)\<rparr>"
      by (auto simp: replay_chain_update_def)
    from update_same [OF c'(2) v(1)] obtain v' where v': "update_chain e c' = Inr v'" "same_chain v v'" by blast
    then have "replay_chain_update e t = Inr (t\<lparr>pending_chains := dset k v' (pending_chains t)\<rparr>)"
      using c c' v(2) False same_chain_none [OF c'(2)] by (auto simp: replay_chain_update_def)
    then show ?thesis using a all2_dset [OF ch v'(2)] v(3) by (auto simp: agree_def)
  qed
qed

lemma apply_one_keeps_agree: "keeps_agree (apply_one e)"
  unfolding apply_one_def [abs_def]
  by (cases "event_kind e")
    (auto intro!: keeps_agree_if keeps_agree_simple keeps_agree_register keeps_agree_drop keeps_agree_update keeps_agree_leaf simp: agree_def)

lemma apply_one_agree: "agree s t \<Longrightarrow> apply_one e s = Inr s' \<Longrightarrow> \<exists>t'. apply_one e t = Inr t' \<and> agree s' t'"
  using apply_one_keeps_agree unfolding keeps_agree_def by blast

end
