(* ===== verification/JournalRun.thy ===== *)
theory JournalRun
  imports JournalFacts
begin

section \<open>Recovery from what the journal wrote\<close>

text \<open>
  Every operation of the journal mirrors in memory what replaying its entry gives, so at every moment
  the snapshot in memory is what the log and the queue recover to.
\<close>

subsection \<open>Mutations and their entries\<close>

datatype mutation =
    AppendInbox string string "pyval dict"
  | ConsumeInbox string
  | CancelInbox string
  | ChainRegister string "pyval dict"
  | ChainUpdate string "pyval dict"
  | ChainResolve string
  | ChainTimeoutFired string
  | InterventionDispatched string "pyval dict"
  | InterventionResolved string
  | AnswerBuffered string string "string option"
  | AnswerConsumed string
  | ContextStaged string "pyval dict"
  | ContextCleared

fun mutate :: "mutation \<Rightarrow> journal \<Rightarrow> journal snap" where
  "mutate (AppendInbox i k p) j = Inr (append_inbox i k p j)"
| "mutate (ConsumeInbox i) j = consume_inbox i j"
| "mutate (CancelInbox i) j = rbind (cancel_inbox i j) (\<lambda>r. Inr (snd r))"
| "mutate (ChainRegister c fs) j = record_chain_register c fs j"
| "mutate (ChainUpdate c fs) j = record_chain_update c fs j"
| "mutate (ChainResolve c) j = Inr (record_chain_resolve c j)"
| "mutate (ChainTimeoutFired c) j = Inr (record_chain_timeout_fired c j)"
| "mutate (InterventionDispatched i d) j = Inr (record_intervention_dispatched i d j)"
| "mutate (InterventionResolved i) j = Inr (record_intervention_resolved i j)"
| "mutate (AnswerBuffered r t c) j = Inr (record_answer_buffered r t c j)"
| "mutate (AnswerConsumed r) j = Inr (record_answer_consumed r j)"
| "mutate (ContextStaged k p) j = Inr (record_context_staged k p j)"
| "mutate ContextCleared j = Inr (record_context_cleared j)"

text \<open>
  The arguments the callers pass: identifiers are not empty, a chain is registered with the fields
  \<open>ChainManager.register\<close> builds, and an update carries fields of a chain.
\<close>

definition register_fields :: "pyval \<Rightarrow> int \<Rightarrow> pyval \<Rightarrow> pyval list \<Rightarrow> pyval \<Rightarrow> pyval \<Rightarrow> pyval dict" where
  "register_fields requester depth req ws task stamp =
     [(''requester'', requester), (''origin_depth'', VInt depth), (''original_request'', req), (''waiting_on'', VList ws),
      (''task_kind'', task), (''registered_at'', stamp)]"

definition update_fields :: "pyval dict \<Rightarrow> bool" where
  "update_fields fs \<longleftrightarrow> fs \<noteq> [] \<and> distinct (map fst fs) \<and> (\<forall>k\<in>fst ` set fs. k \<notin> set (''seq'' # ''ts'' # CHAIN_EVENT_META_KEYS))"

fun mutation_ok :: "mutation \<Rightarrow> bool" where
  "mutation_ok (ChainRegister c fs) = (\<exists>r n q ws t a. fs = register_fields r n q ws t a)"
| "mutation_ok (ChainUpdate c fs) = update_fields fs"
| "mutation_ok (InterventionDispatched i d) = (i \<noteq> [])"
| "mutation_ok (InterventionResolved i) = (i \<noteq> [])"
| "mutation_ok (AnswerBuffered r t c) = (r \<noteq> [])"
| "mutation_ok (AnswerConsumed r) = (r \<noteq> [])"
| "mutation_ok _ = True"

text \<open>The entry a queued append becomes.\<close>

definition own_fields :: "journal \<Rightarrow> entry \<Rightarrow> entry" where
  "own_fields j flds = dmerge [(''session_id'', VStr (journal_session j))] flds"

definition entry_of :: "int \<Rightarrow> string \<Rightarrow> string \<Rightarrow> entry \<Rightarrow> journal \<Rightarrow> entry" where
  "entry_of q ts kind flds j = make_entry q ts kind (own_fields j flds)"

definition mirrors :: "string \<Rightarrow> entry \<Rightarrow> agent_snapshot \<Rightarrow> journal \<Rightarrow> bool" where
  "mirrors kind flds s j \<longleftrightarrow> kind \<in> set WAL_EVENT_KINDS \<and> applied_seq s = applied_seq (live j)
     \<and> (\<forall>q ts. event_route_key (entry_of q ts kind flds j) = Some (VStr (journal_agent j), VStr (journal_session j))
          \<and> seq_of (entry_of q ts kind flds j) = Some q
          \<and> (\<exists>t. apply_one (entry_of q ts kind flds j) (live j) = Inr t \<and> agree s t))"

lemmas entry_simps = entry_of_def own_fields_def make_entry_def dmerge_def event_route_key_def event_get_def dget_or_def
  event_kind_def target_field_def agent_field_def seq_of_def event_item_def

lemma mirrorsI:
  assumes "kind \<in> set WAL_EVENT_KINDS" and "applied_seq s = applied_seq (live j)"
    and "\<And>q ts. event_route_key (entry_of q ts kind flds j) = Some (VStr (journal_agent j), VStr (journal_session j))"
    and "\<And>q ts. seq_of (entry_of q ts kind flds j) = Some q"
    and "\<And>q ts. \<exists>t. apply_one (entry_of q ts kind flds j) (live j) = Inr t \<and> agree s t"
  shows "mirrors kind flds s j"
  using assms by (simp add: mirrors_def)

lemma mirrors_inbox:
  "mirrors ''inbox_put'' [target_field j, (''msg_id'', VStr i), (''msg_kind'', VStr k), (''payload'', p)]
    ((live j)\<lparr>inbox := inbox (live j) @ [VDict [(''id'', VStr i), (''kind'', VStr k), (''payload'', p)]]\<rparr>) j"
  by (rule mirrorsI) (simp_all add: WAL_EVENT_KINDS_def entry_simps apply_one_def replay_inbox_put_def)

lemma mirrors_drop:
  assumes "keep_where (other_id (VStr i)) (inbox (live j)) = Inr ms" and "kind \<in> {''inbox_consume'', ''inbox_cancel''}"
  shows "mirrors kind [agent_field j, (''msg_id'', VStr i)] ((live j)\<lparr>inbox := ms\<rparr>) j"
  by (rule mirrorsI) (use assms in \<open>auto simp: WAL_EVENT_KINDS_def entry_simps apply_one_def replay_inbox_drop_def\<close>)

lemma mirrors_chain_drop:
  assumes "kind \<in> {''chain_resolve'', ''chain_timeout_fired''}"
  shows "mirrors kind [agent_field j, (''chain_id'', VStr c)]
    ((live j)\<lparr>pending_chains := AList.delete c (pending_chains (live j))\<rparr>) j"
  by (rule mirrorsI) (use assms in \<open>auto simp: WAL_EVENT_KINDS_def entry_simps apply_one_def replay_chain_drop_def\<close>)

lemma mirrors_interventions:
  assumes "i \<noteq> []"
  shows "mirrors ''intervention_dispatched'' [target_field j, (''intervention_id'', VStr i), (''iv_dict'', VDict d)]
      ((live j)\<lparr>outstanding_interventions := dset i (VDict d) (outstanding_interventions (live j))\<rparr>) j"
    and "mirrors ''intervention_resolved'' [target_field j, (''intervention_id'', VStr i)]
      ((live j)\<lparr>outstanding_interventions := AList.delete i (outstanding_interventions (live j))\<rparr>) j"
    and "mirrors ''intervention_answer_buffered'' [target_field j, (''run_id'', VStr i), (''text'', VStr a), (''choice_id'', c)]
      ((live j)\<lparr>buffered_answers := dset i (VDict [(''text'', VStr a), (''choice_id'', c)]) (buffered_answers (live j))\<rparr>) j"
    and "mirrors ''intervention_answer_consumed'' [target_field j, (''run_id'', VStr i)]
      ((live j)\<lparr>buffered_answers := AList.delete i (buffered_answers (live j))\<rparr>) j"
proof -
  have t: "truthy (VStr i)" using assms by simp
  show "mirrors ''intervention_dispatched'' [target_field j, (''intervention_id'', VStr i), (''iv_dict'', VDict d)]
      ((live j)\<lparr>outstanding_interventions := dset i (VDict d) (outstanding_interventions (live j))\<rparr>) j"
    by (rule mirrorsI) (use assms in \<open>simp_all add: WAL_EVENT_KINDS_def entry_simps apply_one_def replay_dispatched_def\<close>)
  show "mirrors ''intervention_resolved'' [target_field j, (''intervention_id'', VStr i)]
      ((live j)\<lparr>outstanding_interventions := AList.delete i (outstanding_interventions (live j))\<rparr>) j"
    by (rule mirrorsI) (use assms in \<open>simp_all add: WAL_EVENT_KINDS_def entry_simps apply_one_def replay_resolved_def\<close>)
  show "mirrors ''intervention_answer_buffered'' [target_field j, (''run_id'', VStr i), (''text'', VStr a), (''choice_id'', c)]
      ((live j)\<lparr>buffered_answers := dset i (VDict [(''text'', VStr a), (''choice_id'', c)]) (buffered_answers (live j))\<rparr>) j"
    by (rule mirrorsI) (use assms in \<open>simp_all add: WAL_EVENT_KINDS_def entry_simps apply_one_def replay_buffered_def\<close>)
  show "mirrors ''intervention_answer_consumed'' [target_field j, (''run_id'', VStr i)]
      ((live j)\<lparr>buffered_answers := AList.delete i (buffered_answers (live j))\<rparr>) j"
    by (rule mirrorsI) (use assms in \<open>simp_all add: WAL_EVENT_KINDS_def entry_simps apply_one_def replay_consumed_def\<close>)
qed

lemma mirrors_context:
  "mirrors ''next_turn_context_staged'' [target_field j, (''entry'', VDict ((k, v) # d))]
    ((live j)\<lparr>next_turn_context := next_turn_context (live j) @ [VDict ((k, v) # d)]\<rparr>) j"
  "mirrors ''next_turn_context_cleared'' [target_field j] ((live j)\<lparr>next_turn_context := []\<rparr>) j"
  by (rule mirrorsI; simp add: WAL_EVENT_KINDS_def entry_simps apply_one_def replay_staged_def)+

lemma all2_refl: "list_all2 same_entry ps ps"
  by (simp add: list.rel_refl same_entry_def)

lemma mirrors_register:
  assumes "fs = register_fields r n q ws t a" and "traverse chain_field fs = Inr fs'"
  shows "mirrors ''chain_register'' (agent_field j # (''chain_id'', VStr c) # fs)
    ((live j)\<lparr>pending_chains := dset c (VDict (dmerge [(''chain_id'', VStr c)] fs')) (pending_chains (live j))\<rparr>) j"
proof (rule mirrorsI)
  fix i ts
  have f: "fs' = fs" using assms by (simp add: register_fields_def chain_field_def)
  let ?live = "VDict (dmerge [(''chain_id'', VStr c)] fs)"
  let ?replayed = "VDict [(''chain_id'', VStr c), (''origin_depth'', VInt n), (''original_request'', q), (''waiting_on'', VList ws),
      (''task_kind'', t), (''requester'', r)]"
  have "apply_one (entry_of i ts ''chain_register'' (agent_field j # (''chain_id'', VStr c) # fs) j) (live j)
      = Inr ((live j)\<lparr>pending_chains := dset c ?replayed (pending_chains (live j))\<rparr>)"
    by (simp add: assms(1) register_fields_def entry_simps apply_one_def replay_chain_register_def chain_requester_def)
  moreover have "same_chain ?live ?replayed"
    by (simp add: assms(1) register_fields_def dmerge_def same_chain_dicts loose_keys_def)
  ultimately show "\<exists>t. apply_one (entry_of i ts ''chain_register'' (agent_field j # (''chain_id'', VStr c) # fs) j) (live j) = Inr t
      \<and> agree ((live j)\<lparr>pending_chains := dset c (VDict (dmerge [(''chain_id'', VStr c)] fs')) (pending_chains (live j))\<rparr>) t"
    using all2_dset [OF all2_refl] by (simp add: agree_def f)
qed (simp_all add: WAL_EVENT_KINDS_def entry_simps assms(1) register_fields_def)

lemma dset_fresh: "k \<notin> set (map fst d) \<Longrightarrow> dset k v d = d @ [(k, v)]"
  by (induction d) auto

lemma dmerge_append:
  "distinct (map fst fs) \<Longrightarrow> set (map fst d) \<inter> set (map fst fs) = {} \<Longrightarrow> dmerge d fs = d @ fs"
proof (induction fs arbitrary: d)
  case (Cons p fs)
  obtain k v where p: "p = (k, v)" by force
  have "dmerge d (p # fs) = dmerge (d @ [(k, v)]) fs" using Cons.prems by (simp add: dmerge_def p dset_fresh)
  also have "\<dots> = (d @ [(k, v)]) @ fs" using Cons.prems by (intro Cons.IH) (auto simp: p)
  finally show ?case by (simp add: p)
qed (simp add: dmerge_def)

lemma set_fields_update:
  "set_fields fs v = Inr v' \<Longrightarrow> \<forall>p\<in>set fs. fst p \<notin> set CHAIN_EVENT_META_KEYS \<Longrightarrow> same_chain v w \<Longrightarrow>
    \<exists>w'. update_chain fs w = Inr w' \<and> same_chain v' w'"
proof (induction fs v arbitrary: w rule: set_fields.induct)
  case (2 k x fs ch)
  from "2.prems"(1) obtain y d where y: "(if k = ''waiting_on'' then map_sum id VList (py_list x) else Inr x) = Inr y"
      and d: "ch = VDict d" "set_fields fs (VDict (dset k y d)) = Inr v'"
    by (cases ch) auto
  from "2.prems"(3) d(1) obtain e where e: "w = VDict e" "\<forall>k. k \<notin> set loose_keys \<longrightarrow> dget d k = dget e k"
    by (auto simp: same_chain_def)
  have "same_chain (VDict (dset k y d)) (VDict (dset k y e))" using e(2) by (simp add: same_chain_dicts)
  moreover have "k \<notin> set CHAIN_EVENT_META_KEYS" "\<forall>p\<in>set fs. fst p \<notin> set CHAIN_EVENT_META_KEYS" using "2.prems"(2) by auto
  ultimately show ?case using "2.IH" [OF y d(1) d(2)] y e(1) by simp
qed simp

lemma update_entry:
  assumes "update_fields fs"
  shows "entry_of q ts ''chain_update'' (agent_field j # (''chain_id'', VStr c) # fs) j =
    [(''seq'', VInt q), (''ts'', VStr ts), (''kind'', VStr ''chain_update''), (''session_id'', VStr (journal_session j)),
     (''agent'', VStr (journal_agent j)), (''chain_id'', VStr c)] @ fs"
proof -
  have d: "distinct (map fst fs)" "set (map fst fs) \<inter> {''seq'', ''ts'', ''kind'', ''target'', ''agent'', ''session_id'', ''chain_id''} = {}"
    using assms by (auto simp: update_fields_def CHAIN_EVENT_META_KEYS_def)
  let ?own = "[(''session_id'', VStr (journal_session j)), (''agent'', VStr (journal_agent j)), (''chain_id'', VStr c)] @ fs"
  have "own_fields j (agent_field j # (''chain_id'', VStr c) # fs) = ?own"
    unfolding own_fields_def using d by (subst dmerge_append) (auto simp: agent_field_def)
  moreover have "dmerge [(''seq'', VInt q), (''ts'', VStr ts), (''kind'', VStr ''chain_update'')] ?own =
      [(''seq'', VInt q), (''ts'', VStr ts), (''kind'', VStr ''chain_update'')] @ ?own"
    using d by (intro dmerge_append) auto
  ultimately show ?thesis by (simp add: entry_of_def make_entry_def)
qed

lemma mirrors_update:
  assumes "update_fields fs"
    and "if dget_or (pending_chains (live j)) c VNone = VNone then s = live j
      else \<exists>v. set_fields fs (dget_or (pending_chains (live j)) c VNone) = Inr v
        \<and> s = (live j)\<lparr>pending_chains := dset c v (pending_chains (live j))\<rparr>"
  shows "mirrors ''chain_update'' (agent_field j # (''chain_id'', VStr c) # fs) s j"
proof (rule mirrorsI)
  fix q ts
  let ?ch = "dget_or (pending_chains (live j)) c VNone"
  let ?e = "entry_of q ts ''chain_update'' (agent_field j # (''chain_id'', VStr c) # fs) j"
  have f: "\<forall>k\<in>{''seq'', ''ts'', ''kind'', ''target'', ''agent'', ''session_id'', ''chain_id''}. map_of fs k = None"
    "\<forall>p\<in>set fs. fst p \<notin> set CHAIN_EVENT_META_KEYS"
    using assms(1) by (auto simp: update_fields_def CHAIN_EVENT_META_KEYS_def map_of_eq_None_iff)
  show "applied_seq s = applied_seq (live j)" using assms(2) by (auto split: if_splits)
  show "event_route_key ?e = Some (VStr (journal_agent j), VStr (journal_session j))" "seq_of ?e = Some q"
    unfolding update_entry [OF assms(1)] using f(1) by (simp_all add: event_route_key_def event_get_def dget_or_def seq_of_def)
  have one: "apply_one ?e (live j) = replay_chain_update ?e (live j)" "event_item ?e ''chain_id'' = Inr (VStr c)"
    unfolding update_entry [OF assms(1)] by (simp_all add: apply_one_def event_kind_def event_get_def dget_or_def event_item_def)
  show "\<exists>t. apply_one ?e (live j) = Inr t \<and> agree s t"
  proof (cases "?ch = VNone")
    case True
    then show ?thesis using assms(2) one by (simp add: replay_chain_update_def)
  next
    case False
    with assms(2) obtain v where v: "set_fields fs ?ch = Inr v" "s = (live j)\<lparr>pending_chains := dset c v (pending_chains (live j))\<rparr>"
      by auto
    have "fs \<noteq> []" using assms(1) by (simp add: update_fields_def)
    then obtain d where d: "?ch = VDict d" using v(1) by (cases fs; cases ?ch) auto
    have "same_chain (VDict d) (VDict (dset ''ts'' (VStr ts) d))" by (simp add: same_chain_dicts loose_keys_def)
    with set_fields_update [OF v(1)] f(2) d obtain v' where
      v': "update_chain fs (VDict (dset ''ts'' (VStr ts) d)) = Inr v'" "same_chain v v'" by auto
    have "update_chain ?e ?ch = Inr v'"
      unfolding update_entry [OF assms(1)] d using v'(1) by (simp add: CHAIN_EVENT_META_KEYS_def)
    then have "apply_one ?e (live j) = Inr ((live j)\<lparr>pending_chains := dset c v' (pending_chains (live j))\<rparr>)"
      using False one by (simp add: replay_chain_update_def)
    then show ?thesis using v(2) all2_dset [OF all2_refl v'(2)] by (simp add: agree_def)
  qed
qed (simp add: WAL_EVENT_KINDS_def)

lemma mirrored:
  assumes "has_log j" and "mutation_ok m" and "mutate m j = Inr j'"
  shows "j' = j \<or> (\<exists>kind flds s. j' = record_mutation kind flds s j \<and> mirrors kind flds s j)"
  using assms
proof (cases m)
  case (ChainRegister c fs)
  with assms obtain r n q ws t a fs' where f: "fs = register_fields r n q ws t a" "traverse chain_field fs = Inr fs'"
    "j' = record_mutation ''chain_register'' (agent_field j # (''chain_id'', VStr c) # fs)
      ((live j)\<lparr>pending_chains := dset c (VDict (dmerge [(''chain_id'', VStr c)] fs')) (pending_chains (live j))\<rparr>) j"
    by (auto simp: record_chain_register_def Let_def)
  then show ?thesis using mirrors_register [OF f(1,2)] by blast
next
  case (ChainUpdate c fs)
  show ?thesis
  proof (cases "dget_or (pending_chains (live j)) c VNone = VNone")
    case True
    then show ?thesis using assms ChainUpdate mirrors_update [of fs j c "live j"]
      by (simp add: record_chain_update_def Let_def) blast
  next
    case False
    with assms ChainUpdate obtain v where "set_fields fs (dget_or (pending_chains (live j)) c VNone) = Inr v"
      "j' = record_mutation ''chain_update'' (agent_field j # (''chain_id'', VStr c) # fs)
        ((live j)\<lparr>pending_chains := dset c v (pending_chains (live j))\<rparr>) j"
      by (auto simp: record_chain_update_def Let_def)
    with False assms(2) ChainUpdate
      mirrors_update [of fs j c "(live j)\<lparr>pending_chains := dset c v (pending_chains (live j))\<rparr>"]
    show ?thesis by simp blast
  qed
next
  case (AppendInbox i k p)
  with assms mirrors_inbox show ?thesis by (simp add: append_inbox_def Let_def) blast
next
  case (ConsumeInbox i)
  with assms obtain ms where ms: "keep_where (other_id (VStr i)) (inbox (live j)) = Inr ms"
    "j' = record_mutation ''inbox_consume'' [agent_field j, (''msg_id'', VStr i)] ((live j)\<lparr>inbox := ms\<rparr>) j"
    by (auto simp: consume_inbox_def Let_def)
  then show ?thesis using mirrors_drop [OF ms(1), of "''inbox_consume''"] by blast
next
  case (CancelInbox i)
  with assms obtain ms where ms: "keep_where (other_id (VStr i)) (inbox (live j)) = Inr ms"
    "j' = j \<or> j' = record_mutation ''inbox_cancel'' [agent_field j, (''msg_id'', VStr i)] ((live j)\<lparr>inbox := ms\<rparr>) j"
    by (auto simp: cancel_inbox_def Let_def split: if_splits)
  then show ?thesis using mirrors_drop [OF ms(1), of "''inbox_cancel''"] by blast
next
  case (ChainResolve c)
  with assms mirrors_chain_drop [of "''chain_resolve''" j c] show ?thesis
    by (simp add: record_chain_resolve_def chain_dropped_def Let_def) blast
next
  case (ChainTimeoutFired c)
  with assms mirrors_chain_drop [of "''chain_timeout_fired''" j c] show ?thesis
    by (simp add: record_chain_timeout_fired_def chain_dropped_def Let_def) blast
next
  case (InterventionDispatched i d)
  with assms mirrors_interventions(1) show ?thesis by (simp add: record_intervention_dispatched_def Let_def) blast
next
  case (InterventionResolved i)
  with assms mirrors_interventions(2) show ?thesis by (simp add: record_intervention_resolved_def Let_def) blast
next
  case (AnswerBuffered r t c)
  with assms mirrors_interventions(3) show ?thesis by (simp add: record_answer_buffered_def Let_def) blast
next
  case (AnswerConsumed r)
  with assms mirrors_interventions(4) show ?thesis by (simp add: record_answer_consumed_def Let_def) blast
next
  case (ContextStaged k p)
  with assms mirrors_context(1) show ?thesis by (simp add: record_context_staged_def Let_def) blast
next
  case ContextCleared
  with assms mirrors_context(2) show ?thesis by (simp add: record_context_cleared_def Let_def) blast
qed


end
