(* ===== verification/WalScan.thy ===== *)
theory WalScan
  imports WalFacts
begin

section \<open>Opening, truncating and following the log\<close>

text \<open>
  The number the next process goes on from, the rewrite that drops old entries, and the reader that
  only decodes what is new.
\<close>

subsection \<open>The last number\<close>

lemma split_on_drop:
  "k \<le> length s \<Longrightarrow> \<exists>f j. split_on c (drop k s) = f # drop (Suc j) (split_on c s)"
proof (induction s arbitrary: k)
  case (Cons x xs)
  obtain w ws where w: "split_on c xs = w # ws" by (cases "split_on c xs") auto
  show ?case
  proof (cases k)
    case 0
    then show ?thesis using w by (auto intro!: exI [of _ 0])
  next
    case (Suc m)
    with Cons.prems have "m \<le> length xs" by simp
    from Cons.IH [OF this] obtain f j where f: "split_on c (drop m xs) = f # drop (Suc j) (split_on c xs)" by blast
    then have "\<exists>i. drop (Suc j) (split_on c xs) = drop (Suc i) (split_on c (x # xs))"
      using w by (cases "x = c") (auto intro: exI [of _ "Suc j"] exI [of _ j])
    with f Suc show ?thesis by auto
  qed
qed (auto intro: exI [of _ 0])

definition parses :: "string list \<Rightarrow> bool" where
  "parses ls \<longleftrightarrow> (\<forall>l\<in>set ls. \<exists>e. parse_wal_line l = Inr e)"

lemma parse_numbered: "parse_wal_line l = Inr (Some d) \<Longrightarrow> seq_of d \<noteq> None"
  by (auto simp: parse_wal_line_def usable_def Let_def split: if_splits sum.splits json_err.splits pyval.splits)

lemma first_seq_append:
  assumes "parses xs"
  shows "first_seq (xs @ ys) = (case first_seq xs of Inr None \<Rightarrow> first_seq ys | r \<Rightarrow> r) \<and> (\<exists>q. first_seq xs = Inr q)"
  using assms
proof (induction xs)
  case (Cons l xs)
  then obtain e where e: "parse_wal_line l = Inr e" by (auto simp: parses_def)
  show ?case
  proof (cases e)
    case None
    with Cons e show ?thesis by (simp add: parses_def)
  next
    case (Some d)
    with parse_numbered [of l d] e obtain q where "seq_of d = Some q" by auto
    with Some e show ?thesis by simp
  qed
qed simp

lemma window_last:
  assumes "parses (split_on NL s)" and "n > 0"
  shows "tail_window n s = first_seq (rev (split_on NL s))"
  using assms
proof (induction n s rule: tail_window.induct)
  case (1 n s)
  let ?ls = "split_on NL s" and ?w = "split_on NL (drop (length s - n) s)"
  show ?case
  proof (cases "length s \<le> n")
    case True
    have "\<exists>q. first_seq (rev ?ls) = Inr q"
      using first_seq_append [of "rev ?ls" "[]"] 1(2) by (simp add: parses_def)
    with True show ?thesis by (subst tail_window.simps) (auto simp: Let_def)
  next
    case False
    from split_on_drop [of "length s - n" s NL] obtain f j where f: "?w = f # drop (Suc j) ?ls" by auto
    have p: "parses (rev (drop (Suc j) ?ls))"
      using 1(2) by (auto simp: parses_def dest: in_set_dropD)
    have e: "rev ?ls = rev (drop (Suc j) ?ls) @ rev (take (Suc j) ?ls)"
      by (simp flip: rev_append)
    note fa = first_seq_append [OF p, of "rev (take (Suc j) ?ls)", folded e]
    obtain q where q: "first_seq (rev (drop (Suc j) ?ls)) = Inr q" using fa by blast
    show ?thesis
    proof (cases q)
      case None
      have "tail_window (min (2 * n) (length s)) s = first_seq (rev ?ls)"
        using 1(1) [OF refl refl, of q] 1(2,3) False q None f by (cases "s = []") simp_all
      then show ?thesis using False q None f 1(3) by (subst tail_window.simps) (simp add: Let_def)
    next
      case (Some x)
      then show ?thesis using False q f fa by (subst tail_window.simps) (simp add: Let_def)
    qed
  qed
qed

lemma cut_lines:
  assumes "list_all writable es" and "writable e"
  obtains p where "split_on NL (file_of es @ take k (wal_line e)) = map entry_text (es @ survives k e) @ [p]"
    and "text_lines (file_of es @ take k (wal_line e)) = map entry_text (es @ survives k e) @ [p]"
    and "parse_wal_line p = Inr None" and "text_entry p = Inr None"
  | "k = length (entry_text e)" and "split_on NL (file_of es @ take k (wal_line e)) = map entry_text (es @ survives k e)"
    and "text_lines (file_of es @ take k (wal_line e)) = map entry_text (es @ survives k e)"
proof -
  note es = writable_ok [OF assms(1)]
  have e: "entry_ok e" using assms(2) by (simp add: writable_def)
  consider "k < length (entry_text e)" | "k = length (entry_text e)" | "length (entry_text e) < k" by linarith
  then show ?thesis
  proof cases
    case 1
    then have t: "torn (take k (entry_text e)) (entry_text e)" by (rule take_torn)
    show ?thesis
      using that(1) [of "take k (entry_text e)"] 1 lines_of_file [OF es no_ctl_torn [OF no_ctl_text [OF e] t]]
        text_entry_torn [OF e t] parse_torn [OF e t] by (simp add: take_line survives_def)
  next
    case 2
    then show ?thesis using that(2) lines_of_file [OF es no_ctl_text [OF e]] by (simp add: take_line survives_def)
  next
    case 3
    have es': "list_all entry_ok (es @ [e])" using es e by simp
    have f: "file_of es @ take k (wal_line e) = file_of (es @ [e]) @ []" using 3 by (simp add: take_line wal_line_text)
    show ?thesis
      using that(1) [of "[]"] 3 lines_of_file [OF es', of "[]"] f
      by (simp add: survives_def text_entry_def py_strip_def parse_wal_line_def bytes_strip_def)
  qed
qed

lemma parse_all: "list_all writable es \<Longrightarrow> parses (map entry_text es)"
  using parse_written by (auto simp: parses_def list_all_iff writable_def)

lemma last_seq_written:
  "list_all writable es \<Longrightarrow> first_seq (rev (map entry_text es)) = Inr (if es = [] then None else Some (entry_seq (last es)))"
proof (induction es rule: rev_induct)
  case (snoc e es)
  then show ?case using parse_written [of e] entry_seq_some [of e] by (simp add: writable_def)
qed simp

lemma max_seq_written:
  assumes "list_all writable es" and "\<forall>e\<in>set es. m < entry_seq e" and "sorted_wrt (<) (map entry_seq es)"
  shows "max_seq_lines m (map entry_text es @ ls) = max_seq_lines (if es = [] then m else entry_seq (last es)) ls"
  using assms
proof (induction es arbitrary: m)
  case (Cons e es)
  have e: "text_entry (entry_text e) = Inr (Some e)" "seq_of e = Some (entry_seq e)" "m < entry_seq e"
    using Cons.prems text_entry_written entry_seq_some by (auto simp: writable_def)
  have "max_seq_lines (entry_seq e) (map entry_text es @ ls) = max_seq_lines (if es = [] then entry_seq e else entry_seq (last es)) ls"
    using Cons.prems by (intro Cons.IH) auto
  then show ?case using e by (simp add: max_def)
qed simp

lemma file_nonempty: "es \<noteq> [] \<Longrightarrow> file_of es \<noteq> []"
  by (cases es) simp_all

lemma scan_recovers_lemma:
  assumes "list_all writable es" and "writable e" and "sorted_wrt (<) (map entry_seq (es @ [e]))"
    and "\<forall>d\<in>set (es @ [e]). 0 < entry_seq d" and f: "f = file_of es @ take k (wal_line e)"
  shows "scan_max_seq (Some f) =
      (if es @ survives k e \<noteq> [] then Inr (entry_seq (last (es @ survives k e)))
       else if utf8_ok (take k (wal_line e)) then Inr 0 else Inl WalDecodeError)
    \<and> (utf8_ok f \<longrightarrow> scan_max_seq (Some f) = full_scan_max_seq f)"
proof -
  let ?es = "es @ survives k e"
  have ok: "list_all writable ?es" using assms(1,2) by (simp add: survives_def)
  have s: "sorted_wrt (<) (map entry_seq ?es)" "\<forall>d\<in>set ?es. 0 < entry_seq d"
    using assms(3,4) by (auto simp: survives_def sorted_wrt_append)
  have u: "utf8_ok f = utf8_ok (take k (wal_line e))" unfolding f by (rule utf8_cut [OF assms(1)])
  have tail: "first_seq (rev (split_on NL f)) = Inr (if ?es = [] then None else Some (entry_seq (last ?es)))
      \<and> parses (split_on NL f) \<and> max_seq_lines 0 (text_lines f) = Inr (if ?es = [] then 0 else entry_seq (last ?es))"
    unfolding f
  proof (rule cut_lines [OF assms(1,2), of k])
    fix p
    assume l: "split_on NL (file_of es @ take k (wal_line e)) = map entry_text ?es @ [p]"
      "text_lines (file_of es @ take k (wal_line e)) = map entry_text ?es @ [p]"
      and p: "parse_wal_line p = Inr None" "text_entry p = Inr None"
    show "first_seq (rev (split_on NL (file_of es @ take k (wal_line e)))) = Inr (if ?es = [] then None else Some (entry_seq (last ?es)))
      \<and> parses (split_on NL (file_of es @ take k (wal_line e)))
      \<and> max_seq_lines 0 (text_lines (file_of es @ take k (wal_line e))) = Inr (if ?es = [] then 0 else entry_seq (last ?es))"
      using last_seq_written [OF ok] parse_all [OF ok] max_seq_written [OF ok s(2,1), of "[p]"] p
      unfolding l by (auto simp: parses_def)
  next
    assume l: "split_on NL (file_of es @ take k (wal_line e)) = map entry_text ?es"
      "text_lines (file_of es @ take k (wal_line e)) = map entry_text ?es"
    show "first_seq (rev (split_on NL (file_of es @ take k (wal_line e)))) = Inr (if ?es = [] then None else Some (entry_seq (last ?es)))
      \<and> parses (split_on NL (file_of es @ take k (wal_line e)))
      \<and> max_seq_lines 0 (text_lines (file_of es @ take k (wal_line e))) = Inr (if ?es = [] then 0 else entry_seq (last ?es))"
      using last_seq_written [OF ok] parse_all [OF ok] max_seq_written [OF ok s(2,1), of "[]"]
      unfolding l by simp
  qed
  show ?thesis
  proof (cases "f = []")
    case True
    then have "?es = []" using file_nonempty [of es] unfolding f by (cases e) (auto simp: survives_def take_line wal_line_text split: if_splits)
    then show ?thesis using True u tail by (simp add: scan_max_seq_def tail_scan_max_seq_def full_scan_max_seq_def)
  next
    case False
    then have "tail_scan_max_seq 65536 f = Inr (if ?es = [] then None else Some (entry_seq (last ?es)))"
      using window_last [of f "min 65536 (length f)"] tail by (simp add: tail_scan_max_seq_def)
    then show ?thesis using u tail by (simp add: scan_max_seq_def full_scan_max_seq_def)
  qed
qed

text \<open>The number a process goes on from: for every file the log can have left behind, also one cut
  by a crash, the scan from the end finds the number of the last entry that can be read, which is
  what the scan of the whole file finds; only when no entry can be read and the cut goes through a
  character does opening the log raise.\<close>

theorem scan_recovers:
  assumes "list_all writable es" and "writable e" and "sorted_wrt (<) (map entry_seq (es @ [e]))"
    and "\<forall>d\<in>set (es @ [e]). 0 < entry_seq d" and f: "f = file_of es @ take k (wal_line e)"
  shows "scan_max_seq (Some f) =
      (if es @ survives k e \<noteq> [] then Inr (entry_seq (last (es @ survives k e)))
       else if utf8_ok (take k (wal_line e)) then Inr 0 else Inl WalDecodeError)
    \<and> (utf8_ok f \<longrightarrow> scan_max_seq (Some f) = full_scan_max_seq f)"
  by (rule scan_recovers_lemma [OF assms])

subsection \<open>Truncation\<close>

lemma highest_written:
  assumes "list_all writable es" and "sorted_wrt (<) (map entry_seq es)" and "\<forall>e\<in>set es. \<forall>x. m = Some x \<longrightarrow> x < entry_seq e"
  shows "highest_seq m (map entry_text es @ ls) = highest_seq (if es = [] then m else Some (entry_seq (last es))) ls"
  using assms
proof (induction es arbitrary: m)
  case (Cons e es)
  have e: "text_entry (entry_text e) = Inr (Some e)" "seq_of e = Some (entry_seq e)"
    using Cons.prems text_entry_written entry_seq_some by (auto simp: writable_def)
  have m: "(case m of None \<Rightarrow> entry_seq e | Some x \<Rightarrow> max x (entry_seq e)) = entry_seq e"
    using Cons.prems(3) by (auto simp: max_def split: option.split)
  have "highest_seq (Some (entry_seq e)) (map entry_text es @ ls) =
      highest_seq (if es = [] then Some (entry_seq e) else Some (entry_seq (last es))) ls"
    using Cons.prems by (intro Cons.IH) auto
  then show ?case using e m by (cases m) simp_all
qed simp

definition keepers :: "int \<Rightarrow> string list \<Rightarrow> entry list \<Rightarrow> entry list" where
  "keepers low keep es = filter (\<lambda>e. low \<le> entry_seq e \<or> kind_in keep e) es"

lemma rewrite_written:
  "list_all entry_ok es \<Longrightarrow>
    \<exists>st'. rewrite_lines low keep (map entry_text es @ ls) out st = rewrite_lines low keep ls (out @ file_of (keepers low keep es)) st'
      \<and> ts_kept st' = ts_kept st + length (keepers low keep es)
      \<and> ts_dropped st' = ts_dropped st + (length es - length (keepers low keep es))"
proof (induction es arbitrary: out st)
  case Nil
  then show ?case by (auto simp: keepers_def)
next
  case (Cons e es)
  have e: "text_entry (entry_text e) = Inr (Some e)" "seq_of e = Some (entry_seq e)"
    using Cons.prems text_entry_written entry_seq_some by auto
  have l: "length (keepers low keep es) \<le> length es" by (simp add: keepers_def)
  have b: "below_floor low keep e = Inr (\<not> (low \<le> entry_seq e \<or> kind_in keep e))"
    using Cons.prems e(2) by (auto simp: below_floor_def entry_ok_def kind_in_def split: option.split pyval.split)
  show ?case
  proof (cases "low \<le> entry_seq e \<or> kind_in keep e")
    case True
    let ?st = "\<lparr>ts_dropped = ts_dropped st, ts_kept = ts_kept st + 1,
      ts_min_kept = lower (ts_min_kept st) (entry_seq e), ts_max_kept = higher (ts_max_kept st) (entry_seq e)\<rparr>"
    have "rewrite_lines low keep (map entry_text (e # es) @ ls) out st =
        rewrite_lines low keep (map entry_text es @ ls) (out @ entry_text e @ [NL]) ?st"
      using True e b by (auto simp: Let_def)
    then show ?thesis using Cons.IH [of "out @ entry_text e @ [NL]" ?st] Cons.prems True by (auto simp: keepers_def)
  next
    case False
    have "rewrite_lines low keep (map entry_text (e # es) @ ls) out st =
        rewrite_lines low keep (map entry_text es @ ls) out (st\<lparr>ts_dropped := ts_dropped st + 1\<rparr>)"
      using False e b by (auto simp: Let_def)
    moreover have "keepers low keep (e # es) = keepers low keep es" using False by (simp add: keepers_def)
    ultimately show ?thesis using Cons.IH [of out "st\<lparr>ts_dropped := ts_dropped st + 1\<rparr>"] Cons.prems l
      by (auto simp: Suc_diff_le)
  qed
qed

lemma holds_facts:
  assumes "holds wl es"
  shows "list_all writable es" "list_all entry_ok es" "sorted_wrt (<) (map entry_seq es)" "file_bytes wl = file_of es"
    "utf8_ok (file_of es)" "text_lines (file_of es) = map entry_text es @ [[]]"
proof -
  show w: "list_all writable es" and "sorted_wrt (<) (map entry_seq es)" and "file_bytes wl = file_of es"
    using assms by (auto simp: holds_def)
  show ok: "list_all entry_ok es" using w by (rule writable_ok)
  show "utf8_ok (file_of es)" using w utf8_file by (simp add: list_all_iff writable_def)
  show "text_lines (file_of es) = map entry_text es @ [[]]" using lines_of_file(2) [OF ok, of "[]"] by simp
qed

lemma holds_iter:
  assumes "holds wl es"
  shows "iter_from wl low = Inr (filter (\<lambda>e. low \<le> entry_seq e) es)"
proof (cases "wal_file wl")
  case None
  then have "file_of es = []" using holds_facts(4) [OF assms] by (simp add: file_bytes_def)
  then have "es = []" using file_nonempty by blast
  with None show ?thesis by (simp add: iter_from_def)
next
  case (Some f)
  have "iter_lines None low (map entry_text es @ [[]]) = Inr (filter (\<lambda>e. low \<le> entry_seq e) es)"
    using iter_lines_written [OF holds_facts(2) [OF assms], of None low "[[]]"] by (simp add: text_entry_def py_strip_def)
  then show ?thesis
    using Some holds_facts(4,5,6) [OF assms] assms by (simp add: iter_from_def file_bytes_def holds_def)
qed

lemma last_is_highest: "sorted_wrt (<) (map entry_seq es) \<Longrightarrow> e \<in> set es \<Longrightarrow> entry_seq e \<le> entry_seq (last es)"
  by (induction es rule: rev_induct) (auto simp: sorted_wrt_append)

lemma holds_scan:
  assumes "holds wl es" and "wal_file wl = Some f"
  shows "scan_max_seq (Some f) = Inr (if es = [] then 0 else entry_seq (last es))"
proof (cases es rule: rev_cases)
  case Nil
  then show ?thesis using assms by (simp add: scan_max_seq_def tail_scan_max_seq_def holds_def file_bytes_def)
next
  case (snoc fs e)
  have f: "f = file_of fs @ take (length (wal_line e)) (wal_line e)"
    using assms by (simp add: holds_def file_bytes_def snoc wal_line_text)
  have "list_all writable fs" "writable e" "sorted_wrt (<) (map entry_seq (fs @ [e]))" "\<forall>d\<in>set (fs @ [e]). 0 < entry_seq d"
    using assms(1) by (auto simp: holds_def snoc)
  from scan_recovers_lemma [OF this f] show ?thesis by (simp add: snoc survives_def wal_line_text)
qed

lemma truncate_entries:
  assumes "holds wl es" and "es \<noteq> []" and "1 < m"
  shows "\<exists>wl'. truncate_below m keep i wl = Inr wl'
    \<and> holds wl' (filter (\<lambda>e. m \<le> entry_seq e \<or> e = last es \<or> kind_in keep e) es)
    \<and> (\<forall>low\<ge>m. iter_from wl' low = iter_from wl low)
    \<and> wal_inode wl' = i
    \<and> ts_kept (stats wl') + ts_dropped (stats wl') = length es
    \<and> scan_max_seq (wal_file wl') = scan_max_seq (wal_file wl) \<and> counter wl' = counter wl"
proof -
  note h = holds_facts [OF assms(1)]
  obtain f where f: "wal_file wl = Some f" "f = file_of es"
    using h(4) file_nonempty [OF assms(2)] by (cases "wal_file wl") (simp_all add: file_bytes_def)
  let ?top = "entry_seq (last es)" and ?low = "min m (entry_seq (last es))"
  let ?ks = "filter (\<lambda>e. m \<le> entry_seq e \<or> e = last es \<or> kind_in keep e) es"
  have hi: "highest_seq None (text_lines f) = Inr (Some ?top)"
    using highest_written [OF h(1,3), of None "[[]]"] assms(2) h(6) f by (simp add: text_entry_def py_strip_def)
  have low: "(if m > ?top then ?top else m) = ?low" by (simp add: min_def)
  have inj: "e = last es" if "e \<in> set es" "?top \<le> entry_seq e" for e
    using h(3) that assms(2) by (cases es rule: rev_cases) (auto simp: sorted_wrt_append)
  have ks: "keepers ?low keep es = ?ks"
    unfolding keepers_def using inj last_is_highest [OF h(3)] by (intro filter_cong) (auto simp: min_le_iff_disj)
  obtain st where st: "rewrite_lines ?low keep (text_lines f) [] no_stats = Inr (file_of ?ks, st)"
    and k: "ts_kept st = length ?ks" "ts_dropped st = length es - length ?ks"
    using rewrite_written [OF h(2), of ?low keep "[[]]" "[]" no_stats] h(6) f ks
    by (auto simp: py_strip_def no_stats_def)
  let ?wl = "wl\<lparr>wal_file := Some (file_of ?ks), wal_inode := i, stats := st\<rparr>"
  have t: "truncate_below m keep i wl = Inr ?wl"
    using assms(3) f h(5) hi low st by (simp add: truncate_below_def do_truncate_def)
  have s: "sorted_wrt (<) (map entry_seq ?ks)" using h(3) by (simp add: sorted_wrt_map sorted_wrt_filter)
  have hold: "holds ?wl ?ks" using assms(1) s by (auto simp: holds_def file_bytes_def list_all_iff)
  have lst: "last ?ks = last es" "?ks \<noteq> []" using assms(2) by (cases es rule: rev_cases; simp)+
  have "iter_from ?wl low = iter_from wl low" if "m \<le> low" for low
    unfolding holds_iter [OF hold] holds_iter [OF assms(1)] using that by (auto intro!: filter_cong simp: filter_filter)
  moreover have "scan_max_seq (wal_file ?wl) = scan_max_seq (wal_file wl)"
    using holds_scan [OF hold, of "file_of ?ks"] holds_scan [OF assms(1) f(1)] lst assms(2) by (simp add: f)
  ultimately show ?thesis using t hold k by (intro exI [of _ ?wl]) simp
qed

text \<open>C13: Truncation drops exactly the entries below the floor that are not of a protected kind, but
  never the last one: readers from the floor on see no difference, the file is a new one, the
  statistics count what was kept and dropped, and the number the next process goes on from is the
  same.\<close>

theorem truncate_keeps:
  assumes "holds wl es" and "es \<noteq> []" and "1 < m"
  shows "\<exists>wl'. truncate_below m keep i wl = Inr wl'
    \<and> holds wl' (filter (\<lambda>e. m \<le> entry_seq e \<or> e = last es \<or> kind_in keep e) es)
    \<and> (\<forall>low\<ge>m. iter_from wl' low = iter_from wl low)
    \<and> wal_inode wl' = i
    \<and> ts_kept (stats wl') + ts_dropped (stats wl') = length es
    \<and> scan_max_seq (wal_file wl') = scan_max_seq (wal_file wl) \<and> counter wl' = counter wl"
  by (rule truncate_entries [OF assms])

end
