(* ===== verification/WalReader.thy ===== *)
theory WalReader
  imports WalScan
begin

section \<open>Following the log\<close>

text \<open>
  \<open>WalTailReader\<close> keeps a position in the file and decodes only what is new.  A consumer that
  extends what it has, and starts over when the reader says the file was rewritten, has after every
  poll what a scan of the whole file would give it.
\<close>

subsection \<open>One poll\<close>

lemma iter_delta_line:
  assumes "writable e"
  shows "iter_delta fly (entry_text e @ NL # r) =
    (if Some (entry_seq e) = fly then (Inr [], 0)
     else map_prod (\<lambda>r. rbind r (\<lambda>es. Inr (e # es))) (\<lambda>k. length (entry_text e) + 1 + k) (iter_delta fly r))"
proof -
  have e: "entry_ok e" "utf8_ok (entry_text e)" using assms by (simp_all add: writable_def)
  have "NL \<notin> set (entry_text e)" using no_ctl_lines [OF no_ctl_text [OF e(1)]] by simp
  then have "takeWhile (\<lambda>c. c \<noteq> NL) (entry_text e @ NL # r) = entry_text e"
    by (subst takeWhile_append2) auto
  then show ?thesis
    by (subst iter_delta.simps) (simp add: Let_def parse_written [OF e] entry_seq_some [OF e(1)])
qed

lemma iter_delta_nil [simp]: "iter_delta fly [] = (Inr [], 0)"
  by (subst iter_delta.simps) simp

lemma iter_delta_written:
  "list_all writable fs \<Longrightarrow> fly \<notin> Some ` entry_seq ` set fs \<Longrightarrow>
    iter_delta fly (file_of fs @ t) =
      map_prod (\<lambda>r. rbind r (\<lambda>es. Inr (fs @ es))) (\<lambda>k. length (file_of fs) + k) (iter_delta fly t)"
proof (induction fs)
  case Nil
  have "rbind r Inr = r" for r :: "wal_exc + entry list" by (cases r) simp_all
  then show ?case by (simp add: map_prod_def split: prod.split)
next
  case (Cons e fs)
  then have "writable e" "Some (entry_seq e) \<noteq> fly" by auto
  then show ?case
    using Cons by (cases "iter_delta fly t"; cases "fst (iter_delta fly t)") (auto simp: iter_delta_line)
qed

text \<open>The log at rest or with one entry in flight.\<close>

definition shows_log :: "state_log \<Rightarrow> entry list \<Rightarrow> bool" where
  "shows_log wl es \<longleftrightarrow> list_all writable es \<and> sorted_wrt (<) (map entry_seq es)
     \<and> (\<forall>e\<in>set es. 0 < entry_seq e \<and> entry_seq e \<le> counter wl) \<and> 0 \<le> counter wl
     \<and> last_durable wl \<le> counter wl
     \<and> (inflight wl = None \<and> file_bytes wl = file_of es
        \<or> (\<exists>e. writable e \<and> inflight wl = Some (entry_seq e) \<and> wal_file wl = Some (file_of es @ wal_line e)
             \<and> 0 < entry_seq e \<and> entry_seq e = counter wl \<and> entry_seq e \<notin> entry_seq ` set es))"

lemma shows_iter:
  assumes "shows_log wl es"
  shows "iter_from wl low = Inr (filter (\<lambda>e. low \<le> entry_seq e) es)"
proof -
  have w: "list_all writable es" using assms by (simp add: shows_log_def)
  from assms consider "inflight wl = None" "file_bytes wl = file_of es"
    | e where "writable e" "inflight wl = Some (entry_seq e)" "wal_file wl = Some (file_of es @ wal_line e)"
        "entry_seq e \<notin> entry_seq ` set es"
    unfolding shows_log_def by (elim conjE disjE exE)
  then show ?thesis
  proof cases
    case 1
    have "holds wl es" using assms 1 by (simp add: shows_log_def holds_def file_bytes_def)
    then show ?thesis by (rule holds_iter)
  next
    case (2 e)
    have "utf8_ok (file_of es @ wal_line e)" using utf8_cut [OF w] utf8_line 2(1) by (simp add: writable_def)
    then show ?thesis using iter_in_flight [OF w 2(1,4)] 2(2,3) by (simp add: iter_from_def)
  qed
qed

lemma poll_new:
  assumes "shows_log wl (es @ fs)" and "wal_file wl = Some f"
  shows "iter_delta (inflight wl) (drop (length (file_of es)) f) = (Inr fs, length (file_of fs))"
proof -
  have fs: "list_all writable fs" using assms(1) by (simp add: shows_log_def)
  from assms consider "inflight wl = None" "f = file_of es @ file_of fs @ []"
    | e where "writable e" "inflight wl = Some (entry_seq e)" "f = file_of es @ file_of fs @ wal_line e"
        "entry_seq e \<notin> entry_seq ` set (es @ fs)"
    unfolding shows_log_def file_bytes_def by auto
  then show ?thesis
  proof cases
    case 1
    then show ?thesis using iter_delta_written [OF fs, of None "[]"] by simp
  next
    case (2 e)
    then have "Some (entry_seq e) \<notin> Some ` entry_seq ` set fs" by auto
    from iter_delta_written [OF fs this, of "wal_line e"] show ?thesis
      using 2 by (simp add: wal_line_text iter_delta_line)
  qed
qed

lemma shows_size: "shows_log wl es \<Longrightarrow> wal_file wl = Some f \<Longrightarrow> length (file_of es) \<le> length f"
  by (auto simp: shows_log_def file_bytes_def)

subsection \<open>A process and its follower\<close>

datatype log_op =
    WriteBegins string entry string
  | WriteEnds
  | Truncated int "string list" nat
  | Polled

text \<open>
  The worker runs one job at a time: a write begins, or the file is rewritten, only when no entry is
  in flight.  A poll may come at any time.
\<close>

type_synonym follower = "state_log \<times> tail_reader \<times> entry list"

fun follow :: "log_op \<Rightarrow> follower \<Rightarrow> wal_exc + follower" where
  "follow (WriteBegins kind flds ts) (wl, rd, seen) =
     (if inflight wl = None then Inr (snd (begin_write kind flds ts wl), rd, seen) else Inr (wl, rd, seen))"
| "follow WriteEnds (wl, rd, seen) =
     (case inflight wl of Some q \<Rightarrow> Inr (finish_write q wl, rd, seen) | None \<Rightarrow> Inr (wl, rd, seen))"
| "follow (Truncated m keep i) (wl, rd, seen) =
     (if inflight wl = None then rbind (truncate_below m keep i wl) (\<lambda>wl'. Inr (wl', rd, seen)) else Inr (wl, rd, seen))"
| "follow Polled (wl, rd, seen) =
     (case poll wl rd of (r, restarted, rd') \<Rightarrow>
        rbind r (\<lambda>es. Inr (wl, rd', if restarted then es else seen @ es)))"

fun follow_all :: "log_op list \<Rightarrow> follower \<Rightarrow> wal_exc + follower" where
  "follow_all [] st = Inr st"
| "follow_all (x # xs) st = rbind (follow x st) (follow_all xs)"

fun op_ok :: "log_op \<Rightarrow> bool" where
  "op_ok (WriteBegins kind flds ts) = (json_ok (VDict flds) \<and> plain flds)"
| "op_ok _ = True"

text \<open>The identities the file system gives to rewritten files.\<close>

fun new_inodes :: "log_op list \<Rightarrow> nat list" where
  "new_inodes [] = []"
| "new_inodes (Truncated m keep i # xs) = i # new_inodes xs"
| "new_inodes (x # xs) = new_inodes xs"

definition fresh_follower :: "nat \<Rightarrow> follower" where
  "fresh_follower i =
     (\<lparr>wal_file = None, wal_inode = i, counter = 0, last_assigned = 0, last_durable = 0, inflight = None, stats = no_stats\<rparr>,
      new_reader, [])"

definition abreast :: "nat set \<Rightarrow> follower \<Rightarrow> entry list \<Rightarrow> bool" where
  "abreast used = (\<lambda>(wl, rd, seen) es.
     shows_log wl es
     \<and> (fingerprint rd = None \<longrightarrow> seen = []) \<and> (wal_file wl = None \<longrightarrow> fingerprint rd = None)
     \<and> insert (wal_inode wl) (set_option (fingerprint rd)) \<subseteq> used
     \<and> (fingerprint rd = Some (wal_inode wl) \<longrightarrow> (\<exists>fs. es = seen @ fs \<and> offset rd = length (file_of seen))))"

lemma abreast_poll:
  assumes "abreast U (wl, rd, seen) es"
  shows "\<exists>rd'. follow Polled (wl, rd, seen) = Inr (wl, rd', es) \<and> abreast U (wl, rd', es) es"
proof (cases "wal_file wl")
  case None
  with assms have "es = []" "fingerprint rd = None" "seen = []"
    using file_nonempty [of es] by (auto simp: abreast_def shows_log_def file_bytes_def)
  then show ?thesis using None assms by (auto simp: poll_def abreast_def new_reader_def)
next
  case (Some f)
  have s: "shows_log wl es" using assms by (simp add: abreast_def)
  show ?thesis
  proof (cases "fingerprint rd = Some (wal_inode wl)")
    case True
    with assms obtain fs where fs: "es = seen @ fs" "offset rd = length (file_of seen)" by (auto simp: abreast_def)
    then have "\<not> length f < offset rd" using shows_size [OF s Some] by simp
    then show ?thesis
      using True Some fs poll_new [OF s [unfolded fs(1)] Some] assms by (auto simp: poll_def abreast_def)
  next
    case False
    then show ?thesis using Some poll_new [of wl "[]" es f] s assms by (auto simp: poll_def abreast_def)
  qed
qed

lemma shows_holds: "shows_log wl es \<Longrightarrow> inflight wl = None \<Longrightarrow> holds wl es"
  by (auto simp: shows_log_def holds_def)

lemma holds_shows: "holds wl es \<Longrightarrow> shows_log wl es"
  by (auto simp: shows_log_def holds_def)

text \<open>What a step of the log does to the entries it shows and to the identity of its file.\<close>

lemma begin_shows:
  assumes "holds wl es" and "json_ok (VDict flds)" and "plain flds"
  shows "shows_log (snd (begin_write kind flds ts wl)) es"
proof (cases "begin_write kind flds ts wl")
  case (Pair r wl')
  show ?thesis
  proof (cases r)
    case (Inl x)
    with Pair show ?thesis using assms(1)
      by (auto simp: begin_write_def Let_def shows_log_def holds_def file_bytes_def split: if_splits)
  next
    case (Inr q)
    note b = begin_ok [OF assms Pair [unfolded Inr] refl]
    have "entry_seq (make_entry q ts kind flds) \<notin> entry_seq ` set es" using assms(1) b(2,3) by (auto simp: holds_def)
    with assms(1) b Pair show ?thesis
      unfolding shows_log_def holds_def by (intro conjI disjI2 exI [of _ "make_entry q ts kind flds"]) auto
  qed
qed

lemma end_shows:
  assumes "shows_log wl es" and "inflight wl = Some q"
  shows "\<exists>e. shows_log (finish_write q wl) (es @ [e])"
proof -
  from assms obtain e where e: "writable e" "q = entry_seq e" "wal_file wl = Some (file_of es @ wal_line e)"
      "entry_seq e = counter wl" "0 < entry_seq e" "entry_seq e \<notin> entry_seq ` set es"
    by (auto simp: shows_log_def)
  have "entry_seq d < entry_seq e" if "d \<in> set es" for d
    using that assms(1) e(4,6) by (metis image_eqI order_le_less shows_log_def)
  then have "shows_log (finish_write q wl) (es @ [e])"
    using assms e by (auto simp: shows_log_def finish_write_def sorted_wrt_append file_bytes_def wal_line_text)
  then show ?thesis using e by (auto simp: finish_write_def)
qed

text \<open>Rewriting a file at rest always succeeds, and the file is a new one or the same.\<close>

lemma rewrite_shows:
  assumes "holds wl es" and "truncate_below m keep i wl = Inr wl'"
  shows "\<exists>p. holds wl' (filter p es) \<and> (\<forall>e\<in>set es. \<not> p e \<longrightarrow> entry_seq e < m)
    \<and> counter wl' = counter wl \<and> last_assigned wl' = last_assigned wl
    \<and> (wal_inode wl' = i \<and> wal_file wl \<noteq> None
      \<or> wal_inode wl' = wal_inode wl \<and> wal_file wl' = wal_file wl \<and> filter p es = es)"
proof -
  note h = holds_facts [OF assms(1)]
  have st: "holds (wl\<lparr>stats := no_stats\<rparr>) es" using assms(1) by (simp add: holds_def file_bytes_def)
  show ?thesis
  proof (cases "(m \<le> 1 \<and> keep = []) \<or> wal_file wl = None")
    case True
    then have "wl' = wl\<lparr>stats := no_stats\<rparr>" using assms(2) by (cases "wal_file wl") (auto simp: truncate_below_def split: if_splits)
    then show ?thesis using st by (intro exI [of _ "\<lambda>_. True"]) simp
  next
    case False
    then obtain f where f: "wal_file wl = Some f" "f = file_of es" using h(4) by (auto simp: file_bytes_def)
    obtain out stt where t: "do_truncate m keep f = Inr (out, stt)"
        and wl': "wl' = wl\<lparr>wal_file := Some out, wal_inode := i, stats := stt\<rparr>"
      using assms(2) False f by (auto simp: truncate_below_def)
    then obtain low where "rewrite_lines low keep (text_lines f) [] no_stats = Inr (out, stt)" and low: "low \<le> m"
      by (auto simp: do_truncate_def split: if_splits option.splits)
    then have o: "out = file_of (keepers low keep es)"
      using rewrite_written [OF h(2), of low keep "[[]]" "[]" no_stats] h(6) f by (auto simp: py_strip_def)
    have "holds wl' (keepers low keep es)"
      using assms(1) by (auto simp: wl' o holds_def file_bytes_def keepers_def list_all_iff sorted_wrt_map sorted_wrt_filter)
    then show ?thesis using f low
      by (intro exI [of _ "\<lambda>e. low \<le> entry_seq e \<or> kind_in keep e"]) (auto simp: wl' keepers_def)
  qed
qed

subsection \<open>Every operation keeps the follower abreast\<close>

lemma abreast_rest: "abreast U (wl, rd, seen) es \<Longrightarrow> inflight wl = None \<Longrightarrow> holds wl es"
  by (auto simp: abreast_def intro: shows_holds)

lemma abreast_file:
  assumes "abreast U (wl, rd, seen) es" and "shows_log wl' (es @ fs)" and "wal_inode wl' = wal_inode wl"
    and "wal_file wl' = None \<longrightarrow> wal_file wl = None"
  shows "abreast U (wl', rd, seen) (es @ fs)"
  using assms by (auto simp: abreast_def)

lemma begin_inode: "wal_inode (snd (begin_write kind flds ts wl)) = wal_inode wl"
  and begin_file: "wal_file (snd (begin_write kind flds ts wl)) = None \<Longrightarrow> wal_file wl = None"
  by (auto simp: begin_write_def Let_def split: if_splits)

lemma abreast_step:
  assumes "abreast U (wl, rd, seen) es" and "op_ok x" and "follow x (wl, rd, seen) = Inr st'"
    and "set (new_inodes [x]) \<inter> U = {}"
  shows "\<exists>es'. abreast (U \<union> set (new_inodes [x])) st' es'"
proof (cases x)
  case (WriteBegins kind flds ts)
  show ?thesis
  proof (cases "inflight wl = None")
    case True
    have ok: "json_ok (VDict flds)" "plain flds" using assms(2) by (simp_all add: WriteBegins del: json_ok.simps)
    have "shows_log (snd (begin_write kind flds ts wl)) (es @ [])"
      using begin_shows [OF abreast_rest [OF assms(1) True] ok] by simp
    from abreast_file [OF assms(1) this begin_inode] begin_file show ?thesis
      using assms(3) True by (auto simp: WriteBegins)
  qed (use assms in \<open>auto simp: WriteBegins\<close>)
next
  case WriteEnds
  show ?thesis
  proof (cases "inflight wl")
    case (Some q)
    have "shows_log wl es" using assms(1) by (simp add: abreast_def)
    then obtain e where "shows_log (finish_write q wl) (es @ [e])" using end_shows Some by blast
    from abreast_file [OF assms(1) this] show ?thesis
      using assms(3) Some by (auto simp: WriteEnds finish_write_def)
  qed (use assms in \<open>auto simp: WriteEnds\<close>)
next
  case (Truncated m keep i)
  show ?thesis
  proof (cases "inflight wl = None")
    case True
    then obtain wl' where t: "truncate_below m keep i wl = Inr wl'" "st' = (wl', rd, seen)"
      using assms(3) by (auto simp: Truncated)
    from rewrite_shows [OF abreast_rest [OF assms(1) True] t(1)] obtain p where
      r: "holds wl' (filter p es)" "wal_inode wl' = i \<and> wal_file wl \<noteq> None
        \<or> wal_inode wl' = wal_inode wl \<and> wal_file wl' = wal_file wl \<and> filter p es = es" by blast
    have "wal_file wl' \<noteq> None \<or> wal_file wl = None" using t(1)
      by (cases "wal_file wl") (auto simp: truncate_below_def split: if_splits)
    moreover have "i \<notin> U" using assms(4) by (simp add: Truncated)
    ultimately have "abreast (insert i U) (wl', rd, seen) (filter p es)"
      using assms(1) r holds_shows [OF r(1)] by (auto simp: abreast_def)
    then show ?thesis using t(2) by (auto simp: Truncated)
  qed (use assms in \<open>auto simp: Truncated abreast_def\<close>)
next
  case Polled
  with abreast_poll [OF assms(1)] assms(3) show ?thesis by auto
qed

text \<open>Nothing fails: a follower never meets an exception.\<close>

lemma follow_runs:
  assumes "abreast U (wl, rd, seen) es"
  shows "\<exists>st'. follow x (wl, rd, seen) = Inr st'"
proof (cases x)
  case (Truncated m keep i)
  show ?thesis
  proof (cases "inflight wl = None \<and> \<not> (m \<le> 1 \<and> keep = []) \<and> wal_file wl \<noteq> None")
    case True
    then have hold: "holds wl es" using abreast_rest [OF assms] by blast
    note h = holds_facts [OF hold]
    obtain f where f: "wal_file wl = Some f" "f = file_of es" using h(4) True by (auto simp: file_bytes_def)
    have "\<exists>h. highest_seq None (text_lines f) = Inr h"
      using highest_written [OF h(1,3), of None "[[]]"] h(6) f by (auto simp: text_entry_def py_strip_def)
    moreover have "\<exists>r. rewrite_lines low keep (text_lines f) [] no_stats = Inr r" for low
      using rewrite_written [OF h(2), of low keep "[[]]" "[]" no_stats] h(6) f by (auto simp: py_strip_def)
    ultimately have "\<exists>p. do_truncate m keep f = Inr p" using h(5) f by (auto simp: do_truncate_def)
    then obtain out stt where "do_truncate m keep f = Inr (out, stt)" by auto
    then show ?thesis using f True by (auto simp: Truncated truncate_below_def)
  qed (auto simp: Truncated truncate_below_def split: option.split)
next
  case Polled
  then show ?thesis using abreast_poll [OF assms] by auto
qed (auto split: option.split)

lemma inodes_cons: "new_inodes (x # xs) = new_inodes [x] @ new_inodes xs"
  by (cases x) simp_all

lemma abreast_all:
  "abreast U st es \<Longrightarrow> list_all op_ok xs \<Longrightarrow> distinct (new_inodes xs) \<Longrightarrow> set (new_inodes xs) \<inter> U = {} \<Longrightarrow>
    \<exists>st' U' es'. follow_all xs st = Inr st' \<and> abreast U' st' es'"
proof (induction xs arbitrary: U st es)
  case (Cons x xs)
  obtain wl rd seen where st: "st = (wl, rd, seen)" by (rule prod_cases3)
  obtain st1 where s: "follow x st = Inr st1" using follow_runs Cons.prems(1) unfolding st by blast
  have "set (new_inodes [x]) \<inter> U = {}" and rest: "distinct (new_inodes xs)" "set (new_inodes xs) \<inter> (U \<union> set (new_inodes [x])) = {}"
    using Cons.prems(3,4) by (auto simp: inodes_cons [of x xs])
  with abreast_step [of U wl rd seen es x st1] Cons.prems st s
  obtain es1 where "abreast (U \<union> set (new_inodes [x])) st1 es1" by auto
  from Cons.IH [OF this _ rest] Cons.prems(2) s show ?case by simp
qed auto

lemma fresh_abreast: "abreast {i} (fresh_follower i) []"
  by (simp add: abreast_def fresh_follower_def new_reader_def shows_log_def file_bytes_def)

lemma follow_all_append: "follow_all (xs @ ys) st = rbind (follow_all xs st) (follow_all ys)"
  by (induction xs arbitrary: st) (auto simp: rbind_def split: sum.split)


end
