(* ===== verification/Crash.thy ===== *)
theory Crash
  imports JournalRun WalReader
begin

section \<open>Crashes between the steps of a session\<close>

text \<open>
  A session records changes, other sessions use the same log, the worker runs the queue, the log is
  truncated below what the session's snapshot has absorbed, and the process may stop at any moment:
  what is on disk recovers to the state in memory less the changes still queued.
\<close>

subsection \<open>Routing\<close>

lemma route_of_job: "event_route_key (make_entry q ts kind flds) = event_route_key (make_entry 0 '''' kind flds)"
  by (simp add: event_route_key_def event_get_def dget_or_def make_entry_def dget_dmerge Let_def split: option.split)

definition routes :: "string \<Rightarrow> string \<Rightarrow> string \<Rightarrow> entry \<Rightarrow> bool" where
  "routes agent sid kind flds \<longleftrightarrow> event_route_key (make_entry 0 '''' kind flds) = Some (VStr agent, VStr sid)"

fun job_ok :: "job \<Rightarrow> bool" where
  "job_ok (AppendJob kind flds) = (kind \<in> set WAL_EVENT_KINDS \<and> json_ok (VDict flds) \<and> plain flds)"
| "job_ok _ = True"

text \<open>The steps.  A failing append stops the system, so the worker's appends succeed.\<close>

fun head_written :: "string \<Rightarrow> journal \<Rightarrow> bool" where
  "head_written ts j =
     (case jobs j of
        AppendJob kind flds # _ \<Rightarrow> (\<exists>q. fst (append_entry kind flds ts (wal j)) = Inr q)
      | _ \<Rightarrow> True)"

inductive jstep :: "journal \<Rightarrow> journal \<Rightarrow> bool" where
  Mutate: "mutation_ok m \<Longrightarrow> mutate m j = Inr j' \<Longrightarrow> list_all job_ok (jobs j') \<Longrightarrow> jstep j j'"
| Foreign: "job_ok (AppendJob kind flds) \<Longrightarrow> \<not> routes (journal_agent j) (journal_session j) kind flds \<Longrightarrow>
    jstep j (j\<lparr>jobs := jobs j @ [AppendJob kind flds]\<rparr>)"
| Cut: "jstep j (cut_generation True j)"
| Close: "jstep j (journal_close j)"
| Work: "head_written ts j \<Longrightarrow> jstep j (run_job ts j)"
| Truncate: "truncate_below m keep i (wal j) = Inr wl \<Longrightarrow> m \<le> applied_seq (live j) + 1 \<Longrightarrow> jstep j (j\<lparr>wal := wl\<rparr>)"

text \<open>What the next process makes of the disk: the snapshot, and the log replayed onto it.\<close>

definition saved :: "journal \<Rightarrow> agent_snapshot snap" where
  "saved j =
     (case snapshot_file j of
        None \<Rightarrow> Inr (empty_snapshot (journal_agent j) (journal_session j))
      | Some p \<Rightarrow> load_dict (journal_agent j) (journal_session j) p)"

definition recover :: "journal \<Rightarrow> agent_snapshot snap" where
  "recover j =
     rbind (saved j) (\<lambda>b. case iter_from (wal j) 1 of
         Inl _ \<Rightarrow> Inl SnapUnicodeError
       | Inr es \<Rightarrow> apply_events es b)"

text \<open>
  \<open>catches_up r js s\<close>: what the queue \<open>js\<close> still does to the recovered state \<open>r\<close> leads to \<open>s\<close>, and
  every snapshot in the queue was captured from the state its turn will find.
\<close>

fun catches_up :: "agent_snapshot \<Rightarrow> job list \<Rightarrow> agent_snapshot \<Rightarrow> bool" where
  "catches_up r [] s = agree s r"
| "catches_up r (AppendJob kind flds # js) s =
     (if routes (agent_name r) (session_id r) kind flds
      then \<forall>q ts. \<exists>t. apply_one (make_entry q ts kind flds) r = Inr t \<and> catches_up t js s
      else catches_up r js s)"
| "catches_up r (SaveJob i p # js) s = ((\<exists>u. p = to_payload u \<and> agree u r) \<and> catches_up r js s)"
| "catches_up r (CutJob p # js) s = ((\<exists>u. p = to_payload u \<and> agree u r) \<and> catches_up r js s)"

lemma agree_names: "agree s t \<Longrightarrow> agent_name s = agent_name t \<and> session_id s = session_id t"
  by (simp add: agree_def)

lemma apply_one_names: "apply_one e s = Inr t \<Longrightarrow> agent_name t = agent_name s \<and> session_id t = session_id s \<and> applied_seq t = applied_seq s"
  using apply_one_uniform unfolding uniform_def by blast

lemma agree_sym: "agree s t \<Longrightarrow> agree t s"
proof -
  have "same_chain v w \<Longrightarrow> same_chain w v" for v w by (auto simp: same_chain_def)
  then have "list_all2 same_entry ps qs \<Longrightarrow> list_all2 same_entry qs ps" for ps qs
    unfolding list_all2_conv_all_nth same_entry_def by auto
  then show "agree s t \<Longrightarrow> agree t s" unfolding agree_def by simp
qed

lemma catches_up_agree: "catches_up r js s \<Longrightarrow> agree r r' \<Longrightarrow> catches_up r' js s"
proof (induction js arbitrary: r r')
  case Nil
  then show ?case using agree_trans by auto
next
  case (Cons x js)
  show ?case
  proof (cases x)
    case (AppendJob kind flds)
    show ?thesis
    proof (cases "routes (agent_name r) (session_id r) kind flds")
      case True
      have "\<exists>t. apply_one (make_entry q ts kind flds) r' = Inr t \<and> catches_up t js s" for q ts
      proof -
        from Cons.prems(1) True AppendJob obtain t where t: "apply_one (make_entry q ts kind flds) r = Inr t" "catches_up t js s"
          by auto
        from apply_one_agree [OF Cons.prems(2) t(1)] Cons.IH [OF t(2)] show ?thesis by blast
      qed
      then show ?thesis using True AppendJob agree_names [OF Cons.prems(2)] by simp
    next
      case False
      then show ?thesis using Cons AppendJob agree_names [OF Cons.prems(2)] by auto
    qed
  qed (use Cons agree_trans in \<open>auto; blast\<close>)+
qed

lemma catches_up_append:
  "catches_up r js s \<Longrightarrow> \<forall>r'. agree s r' \<longrightarrow> catches_up r' ks s' \<Longrightarrow> catches_up r (js @ ks) s'"
proof (induction js arbitrary: r)
  case (Cons x js)
  show ?case
  proof (cases x)
    case (AppendJob kind flds)
    have "\<exists>t. apply_one e r = Inr t \<and> catches_up t (js @ ks) s'" if "\<exists>t. apply_one e r = Inr t \<and> catches_up t js s" for e
      using that Cons by blast
    then show ?thesis using AppendJob Cons by simp
  qed (use Cons in auto)
qed simp

lemma catches_up_save:
  assumes "catches_up r js s"
  shows "catches_up r (js @ [SaveJob i (to_payload s)]) s" "catches_up r (js @ [CutJob (to_payload s)]) s"
  by (rule catches_up_append [OF assms]; auto)+

lemma catches_up_foreign:
  assumes "catches_up r js s" and "\<not> routes (agent_name s) (session_id s) kind flds"
  shows "catches_up r (js @ [AppendJob kind flds]) s"
  by (rule catches_up_append [OF assms(1)]) (use assms(2) agree_names in auto)

lemma catches_up_own:
  assumes "catches_up r js s" and "routes (agent_name s) (session_id s) kind flds"
    and "\<And>q ts. \<exists>t. apply_one (make_entry q ts kind flds) s = Inr t \<and> agree s' t"
  shows "catches_up r (js @ [AppendJob kind flds]) s'"
proof (rule catches_up_append [OF assms(1)], intro allI impI)
  fix r' assume a: "agree s r'"
  have "\<exists>t. apply_one (make_entry q ts kind flds) r' = Inr t \<and> agree s' t" for q ts
  proof -
    obtain t where t: "apply_one (make_entry q ts kind flds) s = Inr t" "agree s' t" using assms(3) by blast
    from apply_one_agree [OF a t(1)] t(2) agree_trans show ?thesis by blast
  qed
  then show "catches_up r' [AppendJob kind flds] s'" using assms(2) agree_names [OF a] by simp
qed

subsection \<open>The invariant\<close>

definition base_of :: "journal \<Rightarrow> agent_snapshot \<Rightarrow> bool" where
  "base_of j b \<longleftrightarrow> saved j = Inr b \<and> agent_name b = journal_agent j \<and> session_id b = journal_session j
     \<and> applied_seq b \<le> counter (wal j) \<and> applied_seq (live j) \<le> applied_seq b"

lemma saved_same:
  "journal_agent j' = journal_agent j \<Longrightarrow> journal_session j' = journal_session j \<Longrightarrow> snapshot_file j' = snapshot_file j \<Longrightarrow>
    saved j' = saved j"
  by (cases "snapshot_file j") (simp_all add: saved_def)

lemma saved_updates [simp]:
  "saved (j\<lparr>jobs := js\<rparr>) = saved j" "saved (j\<lparr>wal := wl\<rparr>) = saved j" "saved (j\<lparr>generations := gs\<rparr>) = saved j"
  "saved (j\<lparr>appends_since := n\<rparr>) = saved j" "saved (j\<lparr>live := s\<rparr>) = saved j"
  by (rule saved_same; simp)+

definition journal_inv :: "journal \<Rightarrow> agent_snapshot \<Rightarrow> bool" where
  "journal_inv j r \<longleftrightarrow> has_log j \<and> agent_name (live j) = journal_agent j \<and> session_id (live j) = journal_session j
     \<and> list_all job_ok (jobs j) \<and> last_assigned (wal j) = counter (wal j)
     \<and> applied_seq r \<le> counter (wal j) \<and> catches_up r (jobs j) (live j)
     \<and> (\<exists>es b. holds (wal j) es \<and> base_of j b \<and> apply_events es b = Inr r)"

lemma apply_events_names: "apply_events es s = Inr t \<Longrightarrow> agent_name t = agent_name s \<and> session_id t = session_id s"
  by (induction es arbitrary: s) (auto dest!: apply_event_same)

lemma inv_recovers: "journal_inv j r \<Longrightarrow> recover j = Inr r"
proof -
  assume "journal_inv j r"
  then obtain es b where h: "holds (wal j) es" "base_of j b" "apply_events es b = Inr r" by (auto simp: journal_inv_def)
  have "filter (\<lambda>e. 1 \<le> entry_seq e) es = es" using h(1) by (intro filter_True) (auto simp: holds_def)
  then have "iter_from (wal j) 1 = Inr es" using holds_iter [OF h(1), of 1] by simp
  then show ?thesis using h(2,3) by (simp add: recover_def base_of_def)
qed

lemma skip_absorbed: "\<forall>e\<in>set es. seq_of e = Some (entry_seq e) \<and> entry_seq e \<le> applied_seq s \<Longrightarrow> apply_events es s = Inr s"
  by (induction es) (auto simp: apply_event_def)

lemma apply_event_mono: "apply_event e s = Inr t \<Longrightarrow> applied_seq s \<le> applied_seq t"
  by (auto simp: apply_event_def split: option.splits if_splits)

lemma drop_absorbed:
  "\<forall>e\<in>set es. \<not> p e \<longrightarrow> seq_of e = Some (entry_seq e) \<and> entry_seq e \<le> applied_seq s \<Longrightarrow>
    apply_events (filter p es) s = apply_events es s"
proof (induction es arbitrary: s)
  case (Cons e es)
  show ?case
  proof (cases "p e")
    case True
    have "apply_events (filter p es) t = apply_events es t" if "apply_event e s = Inr t" for t
      using Cons.prems apply_event_mono [OF that] by (intro Cons.IH) (meson list.set_intros(2) order_trans)
    then show ?thesis using True by (cases "apply_event e s") auto
  next
    case False
    then have "apply_event e s = Inr s" using Cons.prems by (auto simp: apply_event_def)
    then show ?thesis using False Cons by simp
  qed
qed simp

lemma holds_seqs: "holds wl es \<Longrightarrow> e \<in> set es \<Longrightarrow> seq_of e = Some (entry_seq e) \<and> entry_seq e \<le> counter wl"
  using holds_facts(2) entry_seq_some by (auto simp: holds_def list_all_iff)

lemma catches_up_live:
  assumes "catches_up r js s" and "agree s s'"
  shows "catches_up r js s'"
proof -
  have "\<forall>r'. agree s r' \<longrightarrow> catches_up r' [] s'" using agree_trans [OF agree_sym [OF assms(2)]] by simp
  from catches_up_append [OF assms(1) this] show ?thesis by simp
qed

lemma inv_mutate:
  assumes inv: "journal_inv j r" and "mutation_ok m" and "mutate m j = Inr j'" and ok: "list_all job_ok (jobs j')"
  shows "journal_inv j' r"
proof -
  have "has_log j" using inv by (simp add: journal_inv_def)
  from mirrored [OF this assms(2,3)] consider "j' = j" | kind flds s where "j' = record_mutation kind flds s j" "mirrors kind flds s j"
    by blast
  then show ?thesis
  proof cases
    case (2 kind flds s)
    let ?fs = "own_fields j flds"
    have a: "\<exists>t. apply_one (make_entry q ts kind ?fs) (live j) = Inr t \<and> agree s t" for q ts
      using 2(2) by (auto simp: mirrors_def entry_of_def)
    obtain t where t: "apply_one (make_entry 0 '''' kind ?fs) (live j) = Inr t" "agree s t" using a by blast
    have n: "agent_name s = agent_name (live j)" "session_id s = session_id (live j)" "applied_seq s = applied_seq (live j)"
      using agree_names [OF t(2)] apply_one_names [OF t(1)] 2(2) by (auto simp: mirrors_def)
    have "routes (agent_name (live j)) (session_id (live j)) kind ?fs"
      using 2(2) inv by (simp add: mirrors_def entry_of_def routes_def journal_inv_def)
    with inv a have c: "catches_up r (jobs j @ [AppendJob kind ?fs]) s"
      by (intro catches_up_own) (auto simp: journal_inv_def)
    have log: "has_log j" using inv by (simp add: journal_inv_def)
    have j': "wal j' = wal j" "snapshot_file j' = snapshot_file j" "has_log j'" "live j' = s"
        "journal_agent j' = journal_agent j" "journal_session j' = journal_session j"
        "jobs j' = jobs j @ [AppendJob kind ?fs] \<or> jobs j' = (jobs j @ [AppendJob kind ?fs]) @ [SaveJob (live_object j) (to_payload s)]"
      unfolding 2(1) using log by (auto simp: record_mutation_def save_nowait_def wal_append_nowait_def own_fields_def)
    have up: "catches_up r (jobs j') s" using j'(7) c catches_up_save(1) [OF c] by metis
    from inv obtain es b where h: "holds (wal j) es" "base_of j b" "apply_events es b = Inr r" by (auto simp: journal_inv_def)
    have "base_of j' b" using h(2) j' n(3) saved_same [of j' j] by (simp add: base_of_def)
    moreover have "last_assigned (wal j) = counter (wal j)" "applied_seq r \<le> counter (wal j)"
        "agent_name (live j) = journal_agent j" "session_id (live j) = journal_session j"
      using inv by (simp_all add: journal_inv_def)
    ultimately show ?thesis unfolding journal_inv_def j'(1,4,5,6) using up h(1,3) n ok j'(3) by (intro conjI exI [of _ es] exI [of _ b]) simp_all
  next
    case 1
    then show ?thesis using inv by blast
  qed
qed

lemma append_runs:
  assumes "holds wl es" and "job_ok (AppendJob kind flds)" and "fst (append_entry kind flds ts wl) = Inr q"
  shows "q = counter wl + 1" "holds (snd (append_entry kind flds ts wl)) (es @ [make_entry q ts kind flds])"
    "counter (snd (append_entry kind flds ts wl)) = q" "last_assigned (snd (append_entry kind flds ts wl)) = q"
    "seq_of (make_entry q ts kind flds) = Some q"
proof -
  have k: "kind \<in> set WAL_EVENT_KINDS" and f: "json_ok (VDict flds)" "plain flds"
    using assms(2) by (simp_all del: json_ok.simps)
  from assms(3) k obtain wl' where b: "begin_write kind flds ts wl = (Inr q, wl')"
      and e: "append_entry kind flds ts wl = (Inr q, finish_write q wl')"
    by (auto simp: append_entry_def split: prod.splits sum.splits)
  note w = begin_ok [OF assms(1) f b refl]
  have l: "last_assigned wl' = q" using b by (auto simp: begin_write_def Let_def split: if_splits)
  show "q = counter wl + 1" by (rule w(3))
  show "holds (snd (append_entry kind flds ts wl)) (es @ [make_entry q ts kind flds])"
    using finish_holds [OF assms(1) f b] by (simp add: e)
  show "counter (snd (append_entry kind flds ts wl)) = q" "last_assigned (snd (append_entry kind flds ts wl)) = q"
    using w(6) l by (simp_all add: e finish_write_def)
  show "seq_of (make_entry q ts kind flds) = Some q" by (rule make_entry_seq [OF f(2)])
qed

lemma inv_append:
  assumes inv: "journal_inv j r" and j: "jobs j = AppendJob kind flds # js" and w: "head_written ts j"
  shows "\<exists>r'. journal_inv (run_job ts j) r'"
proof -
  from inv obtain es b where h: "holds (wal j) es" and b: "base_of j b" "apply_events es b = Inr r" by (auto simp: journal_inv_def)
  obtain q where q: "fst (append_entry kind flds ts (wal j)) = Inr q" using w j by auto
  have ok: "job_ok (AppendJob kind flds)" using inv j by (simp add: journal_inv_def del: job_ok.simps)
  note a = append_runs [OF h ok q]
  let ?e = "make_entry q ts kind flds" and ?j = "run_job ts j"
  have n: "agent_name r = journal_agent j" "session_id r = journal_session j"
    using apply_events_names [OF b(2)] b(1) by (auto simp: base_of_def)
  have new: "applied_seq r < q" using inv a(1) by (simp add: journal_inv_def)
  have m: "matches_agent ?e r = routes (agent_name r) (session_id r) kind flds"
    by (simp add: matches_agent_def routes_def route_of_job [of q ts])
  have "\<exists>r'. apply_event ?e r = Inr r' \<and> applied_seq r' \<le> q \<and> catches_up r' js (live j)"
  proof (cases "routes (agent_name r) (session_id r) kind flds")
    case True
    with inv j obtain t where t: "apply_one ?e r = Inr t" "catches_up t js (live j)" by (auto simp: journal_inv_def)
    have "apply_event ?e r = Inr (at_seq q t)" using a(5) new m True t(1) by (simp add: apply_event_def at_seq_def)
    moreover have "agree t (at_seq q t)" by simp
    ultimately show ?thesis using catches_up_agree [OF t(2)] by auto
  next
    case False
    then have "apply_event ?e r = Inr r" using a(5) m by (simp add: apply_event_def)
    then show ?thesis using False inv j new by (auto simp: journal_inv_def)
  qed
  then obtain r' where r': "apply_event ?e r = Inr r'" "applied_seq r' \<le> q" "catches_up r' js (live j)" by blast
  have "apply_events (es @ [?e]) b = Inr r'" using b(2) r'(1) by (simp add: apply_events_append)
  moreover have "base_of ?j b" using b(1) a(1,3) j by (auto simp: base_of_def run_job_def)
  ultimately have "journal_inv ?j r'"
    using inv r'(2,3) a(2,3,4) j by (auto simp: journal_inv_def run_job_def)
  then show ?thesis ..
qed

lemma stamped_payload: "stamped q (to_payload u) = to_payload (at_seq q u)"
  by (simp add: stamped_def to_payload_def)

lemma inv_save:
  assumes inv: "journal_inv j r" and j: "jobs j = SaveJob i p # js"
  shows "\<exists>r'. journal_inv (run_job ts j) r'"
proof -
  from inv obtain es b where h: "holds (wal j) es" and b: "base_of j b" "apply_events es b = Inr r" by (auto simp: journal_inv_def)
  obtain u where u: "p = to_payload u" "agree u r" and c: "catches_up r js (live j)" using inv j by (auto simp: journal_inv_def)
  let ?q = "counter (wal j)" and ?j = "run_job ts j"
  let ?u = "at_seq ?q u"
  have n: "agent_name u = journal_agent j" "session_id u = journal_session j"
    using agree_names [OF u(2)] apply_events_names [OF b(2)] b(1) by (auto simp: base_of_def)
  have l: "last_assigned (wal j) = ?q" "has_log j" using inv by (simp_all add: journal_inv_def)
  have "?u\<lparr>agent_name := journal_agent j\<rparr> = ?u" using n(1) by (simp add: at_seq_def)
  then have s: "saved ?j = Inr ?u"
    using j l by (simp add: saved_def run_job_def u(1) stamped_payload load_payload Let_def)
  have w: "wal ?j = wal j" "journal_agent ?j = journal_agent j" "journal_session ?j = journal_session j" "has_log ?j" "jobs ?j = js"
      "agree (live j) (live ?j)" "agent_name (live ?j) = agent_name (live j)" "session_id (live ?j) = session_id (live j)"
      "applied_seq (live ?j) \<le> ?q"
    using j l b(1) by (auto simp: run_job_def Let_def base_of_def at_seq_def [symmetric])
  have "catches_up ?u js (live ?j)"
    using catches_up_live [OF catches_up_agree [OF c] w(6)] agree_sym [OF u(2)] by simp
  moreover have "apply_events es ?u = Inr ?u" using holds_seqs [OF h] by (intro skip_absorbed) auto
  moreover have "base_of ?j ?u" using s n w by (simp add: base_of_def)
  ultimately have "journal_inv ?j ?u" using inv h w j by (auto simp: journal_inv_def)
  then show ?thesis ..
qed

lemma inv_work:
  assumes "journal_inv j r" and "head_written ts j"
  shows "\<exists>r'. journal_inv (run_job ts j) r'"
proof (cases "jobs j")
  case (Cons x js)
  show ?thesis
  proof (cases x)
    case (AppendJob kind flds)
    then show ?thesis using inv_append assms Cons by blast
  next
    case (SaveJob i p)
    then show ?thesis using inv_save assms Cons by blast
  next
    case (CutJob p)
    have "journal_inv (run_job ts j) r"
      using assms(1) Cons CutJob by (auto simp: journal_inv_def run_job_def Let_def base_of_def)
    then show ?thesis ..
  qed
qed (use assms in \<open>auto simp: run_job_def\<close>)

lemma inv_truncate:
  assumes inv: "journal_inv j r" and t: "truncate_below m keep i (wal j) = Inr wl" and m: "m \<le> applied_seq (live j) + 1"
  shows "journal_inv (j\<lparr>wal := wl\<rparr>) r"
proof -
  from inv obtain es b where h: "holds (wal j) es" and b: "base_of j b" "apply_events es b = Inr r" by (auto simp: journal_inv_def)
  from rewrite_shows [OF h t] obtain p where p: "holds wl (filter p es)" "\<forall>e\<in>set es. \<not> p e \<longrightarrow> entry_seq e < m"
    "counter wl = counter (wal j)" "last_assigned wl = last_assigned (wal j)" by blast
  have "\<forall>e\<in>set es. \<not> p e \<longrightarrow> seq_of e = Some (entry_seq e) \<and> entry_seq e \<le> applied_seq b"
    using p(2) m b(1) holds_seqs [OF h] by (fastforce simp: base_of_def)
  then have "apply_events (filter p es) b = Inr r" using drop_absorbed b(2) by simp
  moreover have "base_of (j\<lparr>wal := wl\<rparr>) b" using b(1) p(3) by (simp add: base_of_def)
  ultimately show ?thesis using inv p by (auto simp: journal_inv_def)
qed

lemma inv_step: "jstep j j' \<Longrightarrow> journal_inv j r \<Longrightarrow> \<exists>r'. journal_inv j' r'"
proof (induction rule: jstep.induct)
  case (Mutate m j j')
  then show ?case using inv_mutate by blast
next
  case (Foreign kind flds j)
  then have "journal_inv (j\<lparr>jobs := jobs j @ [AppendJob kind flds]\<rparr>) r"
    using catches_up_foreign [of r "jobs j" "live j" kind flds]
    by (auto simp: journal_inv_def base_of_def simp del: job_ok.simps)
  then show ?case ..
next
  case (Cut j)
  then have "journal_inv (cut_generation True j) r"
    using catches_up_save(2) [of r "jobs j" "live j"]
    by (auto simp: cut_generation_def journal_inv_def base_of_def)
  then show ?case ..
next
  case (Close j)
  then have "journal_inv (journal_close j) r"
    using catches_up_save(1) [of r "jobs j" "live j" "live_object j"]
    by (auto simp: journal_close_def journal_inv_def base_of_def)
  then show ?case ..
next
  case (Work ts j)
  then show ?case using inv_work by blast
next
  case (Truncate m keep i j wl)
  then show ?case using inv_truncate by blast
qed

text \<open>A session that starts on a log and has just installed a state that has absorbed all of it.\<close>

definition started :: "journal \<Rightarrow> bool" where
  "started j \<longleftrightarrow> has_log j \<and> agent_name (live j) = journal_agent j \<and> session_id (live j) = journal_session j
     \<and> jobs j = [] \<and> last_assigned (wal j) = counter (wal j) \<and> applied_seq (live j) \<le> counter (wal j)
     \<and> snapshot_file j = Some (to_payload (live j))
     \<and> (\<exists>es. holds (wal j) es \<and> (\<forall>e\<in>set es. own (live j) e \<longrightarrow> entry_seq e \<le> applied_seq (live j)))"

lemma started_inv: "started j \<Longrightarrow> journal_inv j (live j)"
proof -
  assume s: "started j"
  then obtain es where es: "holds (wal j) es" "\<forall>e\<in>set es. own (live j) e \<longrightarrow> entry_seq e \<le> applied_seq (live j)"
    by (auto simp: started_def)
  have "(live j)\<lparr>agent_name := journal_agent j\<rparr> = live j" using s by (simp add: started_def)
  then have b: "base_of j (live j)" using s by (simp add: started_def base_of_def saved_def load_payload)
  have skip: "\<forall>e\<in>set ds. own t e \<longrightarrow> entry_seq e \<le> applied_seq t \<Longrightarrow> \<forall>e\<in>set ds. seq_of e = Some (entry_seq e) \<Longrightarrow>
      apply_events ds t = Inr t" for ds t
    by (induction ds) (auto simp: apply_event_def matches_agent_def own_def)
  have "apply_events es (live j) = Inr (live j)" using es(2) holds_seqs [OF es(1)] by (intro skip) auto
  then show ?thesis using s es(1) b by (auto simp: journal_inv_def started_def)
qed


end
