(* ===== verification/WalCases.thy ===== *)
theory WalCases
  imports WalReader
begin

section \<open>The log on concrete files\<close>

text \<open>
  Instances of the properties of the log, and two files a crash can leave behind on which the log
  does not do what its comments say.
\<close>

definition log0 :: state_log where
  "log0 = \<lparr>wal_file = None, wal_inode = 0, counter = 0, last_assigned = 0, last_durable = 0, inflight = None,
    stats = no_stats\<rparr>"

definition put_fields :: "string \<Rightarrow> entry" where
  "put_fields msg = [(''target'', VStr ''ann''), (''msg_id'', VStr msg)]"

definition entry1 :: entry where "entry1 = make_entry 1 ''t'' ''inbox_put'' (put_fields ''m1'')"
definition entry2 :: entry where "entry2 = make_entry 2 ''t'' ''inbox_put'' (put_fields ''m2'')"

definition log1 :: state_log where "log1 = snd (append_entry ''inbox_put'' (put_fields ''m1'') ''t'' log0)"
definition log2 :: state_log where "log2 = snd (append_entry ''inbox_put'' (put_fields ''m2'') ''t'' log1)"

lemma log0_holds: "holds log0 []"
  by (simp add: holds_def log0_def file_bytes_def)

lemma put_fields_ok: "json_ok (VDict (put_fields ''m1''))" "json_ok (VDict (put_fields ''m2''))"
  by code_simp+

lemma put_fields_seq: "plain (put_fields m)"
  by (simp add: put_fields_def plain_def has_key_def)

lemma begin1: "fst (begin_write ''inbox_put'' (put_fields ''m1'') ''t'' log0) = Inr 1"
  by code_simp

lemma begin2: "fst (begin_write ''inbox_put'' (put_fields ''m2'') ''t'' log1) = Inr 2"
  by code_simp

lemma log1_holds: "holds log1 [entry1]"
proof -
  have b: "begin_write ''inbox_put'' (put_fields ''m1'') ''t'' log0 =
      (Inr 1, snd (begin_write ''inbox_put'' (put_fields ''m1'') ''t'' log0))"
    using begin1 by (metis prod.collapse)
  have "log1 = finish_write 1 (snd (begin_write ''inbox_put'' (put_fields ''m1'') ''t'' log0))"
    unfolding log1_def append_entry_def by (subst b) (simp add: WAL_EVENT_KINDS_def)
  then show ?thesis using finish_holds [OF log0_holds put_fields_ok(1) put_fields_seq b] by (simp add: entry1_def)
qed

lemma log2_holds: "holds log2 [entry1, entry2]"
proof -
  have b: "begin_write ''inbox_put'' (put_fields ''m2'') ''t'' log1 =
      (Inr 2, snd (begin_write ''inbox_put'' (put_fields ''m2'') ''t'' log1))"
    using begin2 by (metis prod.collapse)
  have "log2 = finish_write 2 (snd (begin_write ''inbox_put'' (put_fields ''m2'') ''t'' log1))"
    unfolding log2_def append_entry_def by (subst b) (simp add: WAL_EVENT_KINDS_def)
  then show ?thesis using finish_holds [OF log1_holds put_fields_ok(2) put_fields_seq b] by (simp add: entry2_def)
qed


theorem scan_recovers_witness:
  "scan_max_seq (Some (file_of [entry1] @ take 9 (wal_line entry2))) = Inr 1"
proof -
  have w: "list_all writable [entry1]" "writable entry2" using log2_holds by (auto simp: holds_def)
  have "survives 9 entry2 = []" "entry_seq entry1 = 1" "entry_seq entry2 = 2" by code_simp+
  then show ?thesis using scan_recovers [OF w _ _ refl, of 9] by simp
qed

theorem truncate_keeps_witness:
  "\<exists>wl'. truncate_below 9 [] 7 log2 = Inr wl' \<and> holds wl' [entry2] \<and> ts_kept (stats wl') + ts_dropped (stats wl') = 2
    \<and> scan_max_seq (wal_file wl') = scan_max_seq (wal_file log2)"
proof -
  have "entry_seq entry1 = 1" "entry_seq entry2 = 2" "entry1 \<noteq> entry2" "\<not> kind_in [] entry1" by code_simp+
  then show ?thesis using truncate_keeps [OF log2_holds, of 9 "[]" 7] by auto
qed


subsection \<open>A torn tail\<close>

text \<open>A file whose last line is not an entry.\<close>

lemma spoiled_line:
  assumes "list_all writable es" and "es \<noteq> []" and "sorted_wrt (<) (map entry_seq es)" and "\<forall>e\<in>set es. 0 < entry_seq e"
    and "no_ctl j" and "utf8_ok j" and "text_entry j = Inr None" and "parse_wal_line j = Inr None"
    and f: "f = file_of es @ j @ [NL]"
  shows "utf8_ok f" and "iter_lines None low (text_lines f) = Inr (filter (\<lambda>e. low \<le> entry_seq e) es)"
    and "scan_max_seq (Some f) = Inr (entry_seq (last es))"
proof -
  have es: "list_all entry_ok es" using assms(1) by (rule writable_ok)
  have ctl: "NL \<notin> set (entry_text e) \<and> CHR 0x0D \<notin> set (entry_text e)" if "entry_ok e" for e
    using that no_ctl_lines [OF no_ctl_text] by blast
  have j: "NL \<notin> set j" "CHR 0x0D \<notin> set j" using no_ctl_lines [OF assms(5)] by auto
  have l: "split_on NL f = map entry_text es @ [j, []]"
    unfolding f using es j(1) ctl by (induction es) (simp_all add: split_line)
  have "CHR 0x0D \<notin> set f"
    unfolding f using es j(2) ctl by (induction es) (auto simp: NL_def)
  then have t: "text_lines f = map entry_text es @ [j, []]" by (simp add: text_lines_def universal_id l)
  have n: "None \<notin> Some ` entry_seq ` set es" and nil: "text_entry [] = Inr None" "parse_wal_line [] = Inr None"
    by (auto simp: text_entry_def py_strip_def parse_wal_line_def bytes_strip_def)
  show "utf8_ok f" unfolding f utf8_cut [OF assms(1)] using utf8_append [OF assms(6)] utf8_ascii by blast
  show "iter_lines None low (text_lines f) = Inr (filter (\<lambda>e. low \<le> entry_seq e) es)"
    unfolding t iter_lines_written [OF es n] using assms(7) nil by simp
  have "parses (split_on NL f)" using parse_all [OF assms(1)] assms(8) nil by (auto simp: l parses_def)
  moreover have "f \<noteq> []" by (simp add: f)
  ultimately have "tail_scan_max_seq 65536 f = Inr (Some (entry_seq (last es)))"
    using window_last [of f "min 65536 (length f)"] last_seq_written [OF assms(1)] assms(2,8) nil
    by (simp add: tail_scan_max_seq_def l)
  then show "scan_max_seq (Some f) = Inr (entry_seq (last es))" by (simp add: scan_max_seq_def)
qed

text \<open>What the next process makes of a file: it opens the log and appends one entry.\<close>

definition reopened :: "string \<Rightarrow> string \<Rightarrow> (wal_exc + int) \<times> state_log" where
  "reopened f msg =
     (case open_log (Some f) 0 of
        Inl e \<Rightarrow> (Inl e, log0)
      | Inr wl \<Rightarrow> append_entry ''inbox_put'' (put_fields msg) ''t'' wl)"

definition entry3 :: entry where "entry3 = make_entry 2 ''t'' ''inbox_put'' (put_fields ''m3'')"

lemma reopened_torn:
  assumes "survives k e = []" and "writable e" and "entry_seq e = 2"
  shows "reopened (file_of [entry1] @ take k (wal_line e)) ''m3'' =
    (Inr 2, \<lparr>wal_file = Some (file_of [entry1] @ (take k (wal_line e) @ entry_text entry3) @ [NL]), wal_inode = 0,
      counter = 2, last_assigned = 2, last_durable = 2, inflight = None, stats = no_stats\<rparr>)"
proof -
  have w: "list_all writable [entry1]" using log2_holds by (auto simp: holds_def)
  have "entry_seq entry1 = 1" by code_simp
  then have "scan_max_seq (Some (file_of [entry1] @ take k (wal_line e))) = Inr 1"
    using scan_recovers_lemma [OF w assms(2) _ _ refl, of k] assms(1,3) by simp
  moreover have "dumpable (VDict entry3)" "utf8_ok (entry_text entry3)" by code_simp+
  ultimately show ?thesis
    by (simp add: reopened_def open_log_def append_entry_def begin_write_def finish_write_def WAL_EVENT_KINDS_def Let_def
      entry_text_def wal_line_def entry3_def file_bytes_def del: file_of_simps)
qed

text \<open>The next append after a torn line is lost: a crash leaves the first nine bytes of an entry's line,
  the next process opens the log without an error and its first append is acknowledged as durable
  under the number 2, but its bytes join the torn ones, so no reader ever sees it, and the process
  after that hands out the number 2 again.\<close>

theorem torn_tail_swallows_append:
  "\<exists>wl. reopened (file_of [entry1] @ take 9 (wal_line entry2)) ''m3'' = (Inr 2, wl) \<and> last_durable wl = 2
    \<and> iter_from wl 1 = Inr [entry1] \<and> scan_max_seq (wal_file wl) = Inr 1"
proof -
  let ?j = "take 9 (wal_line entry2) @ entry_text entry3"
  have e: "survives 9 entry2 = []" "entry_seq entry2 = 2" "entry_seq entry1 = 1" by code_simp+
  have w: "list_all writable [entry1]" "writable entry2" using log2_holds by (auto simp: holds_def)
  have j: "text_entry ?j = Inr None" "parse_wal_line ?j = Inr None" "utf8_ok ?j" "list_all (\<lambda>c. 32 \<le> (of_char c :: nat)) ?j"
    by code_simp+
  then have "no_ctl ?j" by (simp add: no_ctl_def list_all_iff)
  from spoiled_line [OF w(1) _ _ _ this j(3,1,2) refl] show ?thesis
    using e reopened_torn [OF e(1) w(2) e(2)] by (simp add: iter_from_def del: file_of_simps)
qed

definition accented :: entry where
  "accented = make_entry 2 ''t'' ''inbox_put'' (put_fields [CHR 0xC3, CHR 0xA9])"

text \<open>A cut through a character stops every read: the log of two entries, the second with a letter of
  two bytes and cut between them, is opened without an error at the number 1 and takes the next
  append, but reading it and truncating it raise a decoding error ever after.\<close>

theorem cut_character_stops_reads:
  "\<exists>wl. reopened (file_of [entry1] @ take (length (entry_text accented) - 3) (wal_line accented)) ''m3'' = (Inr 2, wl)
    \<and> last_durable wl = 2 \<and> iter_from wl 1 = Inl WalDecodeError \<and> truncate_below 2 [] 1 wl = Inl WalDecodeError"
proof -
  let ?k = "length (entry_text accented) - 3"
  have e: "survives ?k accented = []" "entry_seq accented = 2" by code_simp+
  have a: "json_ok (VDict accented)" "seq_of accented \<noteq> None" "kind_hashable accented" "utf8_ok (entry_text accented)"
    "\<not> utf8_ok (take ?k (wal_line accented) @ entry_text entry3 @ [NL])" by code_simp+
  have w: "list_all writable [entry1]" using log2_holds by (auto simp: holds_def)
  have "writable accented" using a by (simp add: writable_def entry_ok_def)
  from reopened_torn [OF e(1) this e(2)] show ?thesis
    using utf8_cut [OF w] a(5) by (simp add: iter_from_def truncate_below_def do_truncate_def del: file_of_simps)
qed

text \<open>An identity used again misleads the reader: when the file is rewritten twice between two polls and
  the file system gives the second new file the identity of the file polled before, the reader
  takes it for the old file grown longer and its consumer keeps an entry that is gone and misses
  one that is there.\<close>

theorem reused_identity_misleads:
  "case follow_all
     [WriteBegins ''inbox_put'' (put_fields ''m1'') ''t'', WriteEnds, Polled,
      WriteBegins ''inbox_put'' (put_fields ''m2'') ''t'', WriteEnds, Truncated 2 [] 1, Truncated 2 [] 0, Polled]
     (fresh_follower 0) of
       Inr (wl, rd, seen) \<Rightarrow> iter_from wl 1 = Inr [entry2] \<and> seen = [entry1]
     | Inl _ \<Rightarrow> False"
  by code_simp

end
