(* ===== verification/Retention.thy ===== *)
theory Retention
  imports Crash WalCases
begin

section \<open>Truncation and restart of all sessions\<close>

text \<open>
  How far the log may be truncated (\<open>src/reyn/core/events/retention.py\<close> and the registry's floor),
  and the replay of one shared log onto the snapshots of all sessions when the process starts.
\<close>

subsection \<open>The floor\<close>

record retention_policy =
  keep_generations :: "int option"
  keep_duration_set :: bool
  keep_bytes_set :: bool

definition is_live_policy :: "retention_policy \<Rightarrow> bool" where
  "is_live_policy p \<longleftrightarrow> keep_generations p = None \<and> \<not> keep_duration_set p \<and> \<not> keep_bytes_set p"

definition compute_retention_floor :: "retention_policy \<Rightarrow> int \<Rightarrow> int list \<Rightarrow> int" where
  "compute_retention_floor p live_floor seqs =
     (case keep_generations p of
        None \<Rightarrow> live_floor
      | Some k \<Rightarrow>
          (let gens = sort seqs; n = nat (max 1 k) in
           if gens = [] then live_floor
           else min live_floor (if n \<le> length gens then gens ! (length gens - n) else hd gens)))"

text \<open>\<open>Session.iter_applied_seqs\<close>: a session whose position is 0 does not count.\<close>

definition iter_applied_seqs :: "agent_snapshot \<Rightarrow> int list" where
  "iter_applied_seqs s = (if applied_seq s > 0 then [applied_seq s] else [])"

definition compute_live_floor :: "agent_snapshot list \<Rightarrow> int" where
  "compute_live_floor ss =
     (case concat (map iter_applied_seqs ss) of
        [] \<Rightarrow> 0
      | q # qs \<Rightarrow> fold min qs q + 1)"

definition compute_truncate_floor :: "retention_policy \<Rightarrow> int list \<Rightarrow> agent_snapshot list \<Rightarrow> int" where
  "compute_truncate_floor p seqs ss =
     (let f = compute_live_floor ss in
      if is_live_policy p \<or> f \<le> 0 then f else compute_retention_floor p f seqs)"

definition REWIND_KIND :: string where "REWIND_KIND = ''rewind''"

text \<open>The collection of the log: nothing to do below a floor of 1.\<close>

definition truncate_if_eligible ::
  "retention_policy \<Rightarrow> int list \<Rightarrow> agent_snapshot list \<Rightarrow> nat \<Rightarrow> state_log \<Rightarrow> wal_exc + state_log" where
  "truncate_if_eligible p seqs ss inode wl =
     (let f = compute_truncate_floor p seqs ss in
      if f \<le> 0 then Inr wl else truncate_below f [REWIND_KIND] inode wl)"

subsection \<open>Restart\<close>

type_synonym session_key = "string \<times> string"

definition bucket :: "session_key \<Rightarrow> entry list \<Rightarrow> entry list" where
  "bucket k es = filter (\<lambda>e. event_route_key e = Some (VStr (fst k), VStr (snd k))) es"

text \<open>Steps 2 and 3 of \<open>restore_all\<close>: one walk of the log from the lowest position, bucketed by session.\<close>

definition restore_all :: "state_log \<Rightarrow> (session_key \<times> agent_snapshot) list \<Rightarrow> (session_key \<times> agent_snapshot) list snap" where
  "restore_all wl snaps =
     (case map (applied_seq \<circ> snd) snaps of
        [] \<Rightarrow> Inr []
      | q # qs \<Rightarrow>
          (case iter_from wl (fold min qs q + 1) of
             Inl _ \<Rightarrow> Inl SnapUnicodeError
           | Inr es \<Rightarrow> traverse (\<lambda>(k, s). rbind (apply_events (bucket k es) s) (\<lambda>t. Inr (k, t))) snaps))"

lemma fold_min: "fold min qs (q :: int) = Min (set (q # qs))"
  by (metis Min.set_eq_fold)

lemma fold_min_le: "x \<in> set (q # qs) \<Longrightarrow> fold min qs q \<le> (x :: int)"
  by (simp add: fold_min)

lemma live_floor_le:
  assumes "s \<in> set ss" and "0 < applied_seq s"
  shows "compute_live_floor ss \<le> applied_seq s + 1"
proof -
  have "applied_seq s \<in> set (concat (map iter_applied_seqs ss))" using assms by (auto simp: iter_applied_seqs_def)
  then show ?thesis using fold_min_le [of "applied_seq s"]
    by (cases "concat (map iter_applied_seqs ss)") (auto simp: compute_live_floor_def)
qed

lemma retention_floor_le: "compute_retention_floor p f seqs \<le> f"
  by (auto simp: compute_retention_floor_def Let_def split: option.split)

lemma floor_le: "s \<in> set ss \<Longrightarrow> 0 < applied_seq s \<Longrightarrow> compute_truncate_floor p seqs ss \<le> applied_seq s + 1"
  using live_floor_le [of s ss] retention_floor_le [of p "compute_live_floor ss" seqs]
  by (fastforce simp: compute_truncate_floor_def Let_def)

lemma bucket_filter: "bucket k (filter p es) = filter p (bucket k es)"
  by (simp add: bucket_def filter_filter conj_commute)

lemma fold_min_mem: "fold min qs q \<in> set (q # qs)" for q :: int
  using Min_in [of "set (q # qs)"] by (simp add: fold_min)

lemma restore_drop:
  assumes "holds wl es" and "holds wl' (filter p es)"
    and "\<forall>e\<in>set es. \<not> p e \<longrightarrow> (\<forall>(k, s)\<in>set snaps. entry_seq e \<le> applied_seq s)"
  shows "restore_all wl' snaps = restore_all wl snaps"
proof (cases "map (applied_seq \<circ> snd) snaps")
  case (Cons q qs)
  let ?low = "fold min qs q + 1"
  have "apply_events (bucket k (filter (\<lambda>e. ?low \<le> entry_seq e) (filter p es))) s
      = apply_events (bucket k (filter (\<lambda>e. ?low \<le> entry_seq e) es)) s" if "(k, s) \<in> set snaps" for k s
  proof -
    have "\<forall>e\<in>set (bucket k (filter (\<lambda>e. ?low \<le> entry_seq e) es)). \<not> p e \<longrightarrow>
        seq_of e = Some (entry_seq e) \<and> entry_seq e \<le> applied_seq s"
      using assms(3) that holds_seqs [OF assms(1)] by (auto simp: bucket_def)
    from drop_absorbed [OF this] show ?thesis
      by (simp add: bucket_filter filter_filter conj_commute conj_left_commute)
  qed
  then show ?thesis
    by (simp add: restore_all_def Cons holds_iter [OF assms(1)] holds_iter [OF assms(2)] split_beta cong: traverse_cong)
qed (simp add: restore_all_def)

text \<open>C11: Truncation at the registry's floor is safe at the next start: if every session's snapshot has
  absorbed at least one entry, then whatever the retention policy and the checkpoints, restarting
  from the truncated log gives every session the state that restarting from the whole log gives.\<close>

theorem truncation_keeps_restart:
  assumes "holds wl es" and "\<forall>(k, s)\<in>set snaps. 0 < applied_seq s"
    and "truncate_if_eligible p seqs (map snd snaps) i wl = Inr wl'"
  shows "restore_all wl' snaps = restore_all wl snaps"
proof (cases "compute_truncate_floor p seqs (map snd snaps) \<le> 0")
  case False
  let ?f = "compute_truncate_floor p seqs (map snd snaps)"
  have t: "truncate_below ?f [REWIND_KIND] i wl = Inr wl'" using assms(3) False by (simp add: truncate_if_eligible_def Let_def)
  from rewrite_shows [OF assms(1) t] obtain q where q: "holds wl' (filter q es)" "\<forall>e\<in>set es. \<not> q e \<longrightarrow> entry_seq e < ?f"
    by blast
  have "?f \<le> applied_seq s + 1" if "(k, s) \<in> set snaps" for k s
    using floor_le [of s "map snd snaps"] assms(2) that by force
  with q(2) have "\<forall>e\<in>set es. \<not> q e \<longrightarrow> (\<forall>(k, s)\<in>set snaps. entry_seq e \<le> applied_seq s)" by fastforce
  with assms(1) q(1) show ?thesis by (rule restore_drop)
qed (use assms in \<open>simp add: truncate_if_eligible_def Let_def\<close>)

subsection \<open>On concrete sessions\<close>

definition live_policy :: retention_policy where
  "live_policy = \<lparr>keep_generations = None, keep_duration_set = False, keep_bytes_set = False\<rparr>"

definition put_to :: "string \<Rightarrow> string \<Rightarrow> entry" where
  "put_to agent msg =
     [(''session_id'', VStr ''main''), (''target'', VStr agent), (''msg_id'', VStr msg), (''msg_kind'', VStr ''user'')]"

text \<open>A log with a message for \<open>ann\<close> and then one for \<open>bob\<close>, whose snapshot has absorbed it.\<close>

definition two_log :: state_log where
  "two_log = snd (append_entry ''inbox_put'' (put_to ''bob'' ''m2'') ''t''
     (snd (append_entry ''inbox_put'' (put_to ''ann'' ''m1'') ''t'' log0)))"

definition two_snaps :: "(session_key \<times> agent_snapshot) list" where
  "two_snaps = [((''ann'', ''main''), empty_snapshot ''ann'' ''main''), ((''bob'', ''main''), at_seq 2 (empty_snapshot ''bob'' ''main''))]"

definition two_entries :: "entry list" where
  "two_entries = [make_entry 1 ''t'' ''inbox_put'' (put_to ''ann'' ''m1''), make_entry 2 ''t'' ''inbox_put'' (put_to ''bob'' ''m2'')]"

lemma two_log_holds: "holds two_log two_entries"
proof -
  have ok: "job_ok (AppendJob ''inbox_put'' (put_to ''ann'' ''m1''))" "job_ok (AppendJob ''inbox_put'' (put_to ''bob'' ''m2''))" by code_simp+
  have 1: "fst (append_entry ''inbox_put'' (put_to ''ann'' ''m1'') ''t'' log0) = Inr 1" by code_simp
  have 2: "fst (append_entry ''inbox_put'' (put_to ''bob'' ''m2'') ''t'' (snd (append_entry ''inbox_put'' (put_to ''ann'' ''m1'') ''t'' log0))) = Inr 2"
    by code_simp
  show ?thesis
    using append_runs(2) [OF append_runs(2) [OF log0_holds ok(1) 1] ok(2) 2] by (simp add: two_log_def two_entries_def)
qed

lemma two_floor: "compute_truncate_floor live_policy [] (map snd two_snaps) = 3"
  by code_simp

lemma two_truncated:
  obtains wl where "truncate_below 3 [REWIND_KIND] i two_log = Inr wl" "holds wl [last two_entries]"
proof -
  have e: "map entry_seq two_entries = [1, 2]" "\<not> kind_in [REWIND_KIND] (hd two_entries)" "hd two_entries \<noteq> last two_entries" by code_simp+
  obtain a b where ab: "two_entries = [a, b]" by (simp add: two_entries_def)
  from truncate_entries [OF two_log_holds, of 3 "[REWIND_KIND]" i] obtain wl where
    "truncate_below 3 [REWIND_KIND] i two_log = Inr wl"
    "holds wl (filter (\<lambda>e. 3 \<le> entry_seq e \<or> e = last two_entries \<or> kind_in [REWIND_KIND] e) two_entries)"
    by (auto simp: ab)
  then show thesis using e by (intro that) (simp_all add: ab)
qed

lemma two_restored: "holds wl es \<Longrightarrow> restore_all wl two_snaps
    = traverse (\<lambda>(k, s). rbind (apply_events (bucket k (filter (\<lambda>e. 1 \<le> entry_seq e) es)) s) (\<lambda>t. Inr (k, t))) two_snaps"
  by (simp add: restore_all_def two_snaps_def holds_iter at_seq_def empty_snapshot_def)

text \<open>A session that has changed but not been saved loses its changes: its position in memory is still 0, so
  it does not hold the floor down, the floor passes its entries because of another session, and after
  the truncation the next start finds its inbox empty where it would have found the message.\<close>

theorem unsaved_session_not_counted:
  "compute_truncate_floor live_policy [] (map snd two_snaps) = 3
    \<and> (case restore_all two_log two_snaps of
         Inr [(_, ann), _] \<Rightarrow> length (inbox ann) = 1 \<and> applied_seq ann = 1
       | _ \<Rightarrow> False)
    \<and> (case truncate_if_eligible live_policy [] (map snd two_snaps) 1 two_log of
         Inr wl \<Rightarrow> (case restore_all wl two_snaps of Inr [(_, ann), _] \<Rightarrow> inbox ann = [] | _ \<Rightarrow> False)
       | Inl _ \<Rightarrow> False)"
proof -
  let ?ann = "\<lambda>es. traverse (\<lambda>(k, s). rbind (apply_events (bucket k (filter (\<lambda>e. 1 \<le> entry_seq e) es)) s) (\<lambda>t. Inr (k, t))) two_snaps"
  have before: "case ?ann two_entries of Inr [(_, ann), _] \<Rightarrow> length (inbox ann) = 1 \<and> applied_seq ann = 1 | _ \<Rightarrow> False"
    and after: "case ?ann [last two_entries] of Inr [(_, ann), _] \<Rightarrow> inbox ann = [] | _ \<Rightarrow> False" by code_simp+
  obtain wl where "truncate_below 3 [REWIND_KIND] 1 two_log = Inr wl" "holds wl [last two_entries]"
    by (rule two_truncated)
  then show ?thesis using before after
    by (simp add: truncate_if_eligible_def two_floor two_restored two_restored [OF two_log_holds])
qed

definition bob_snap :: "(session_key \<times> agent_snapshot) list" where
  "bob_snap = [((''bob'', ''main''), at_seq 2 (empty_snapshot ''bob'' ''main''))]"

theorem truncation_keeps_restart_witness:
  "\<exists>wl'. truncate_if_eligible live_policy [] (map snd bob_snap) 7 two_log = Inr wl' \<and> holds wl' [last two_entries]
    \<and> restore_all wl' bob_snap = restore_all two_log bob_snap"
proof -
  have f: "compute_truncate_floor live_policy [] (map snd bob_snap) = 3" by code_simp
  obtain wl where wl: "truncate_below 3 [REWIND_KIND] 7 two_log = Inr wl" "holds wl [last two_entries]"
    by (rule two_truncated)
  then have t: "truncate_if_eligible live_policy [] (map snd bob_snap) 7 two_log = Inr wl" by (simp add: truncate_if_eligible_def f)
  have "\<forall>(k, s)\<in>set bob_snap. 0 < applied_seq s" by (simp add: bob_snap_def)
  from truncation_keeps_restart [OF two_log_holds this t] t wl(2) show ?thesis by blast
qed

end
