(* ===== verification/Rewind.thy ===== *)
theory Rewind
  imports Retention
begin

section \<open>Generations, rewind and branches\<close>

text \<open>
  \<open>src/reyn/core/events/snapshot_generations.py\<close>: the log is never cut when a user goes back in
  time.  A rewind appends a record of the position it goes back to; what lies between is abandoned,
  and which entries are still active is derived from all records.  The state as of a position is a
  generation of the snapshot plus the active entries after it.
\<close>

subsection \<open>Rewind records\<close>

text \<open>A record: its own number, the position it goes back to, and its scope (\<open>None\<close>: every session).\<close>

type_synonym rewind_record = "int \<times> int \<times> pyval list option"
type_synonym scope = "(string \<times> string) option"

definition rewind_record :: "entry \<Rightarrow> rewind_record snap" where
  "rewind_record e =
     (let raw = event_get e ''scope'' in
      rbind (if raw = VNone then Inr None else map_sum id Some (py_list raw)) (\<lambda>sc.
      rbind (event_item e ''target_n'') (\<lambda>t.
      rbind (py_int t) (\<lambda>n. Inr (entry_seq e, n, sc)))))"

definition is_rewind :: "entry \<Rightarrow> bool" where
  "is_rewind e \<longleftrightarrow> event_kind e = Some REWIND_KIND"

definition rewind_records :: "entry list \<Rightarrow> rewind_record list snap" where
  "rewind_records es = traverse rewind_record (filter is_rewind es)"

text \<open>The index of a log's records: a reader and what it has collected.\<close>

record rewind_index =
  index_reader :: tail_reader
  index_records :: "rewind_record list"

definition poll_index :: "state_log \<Rightarrow> rewind_index \<Rightarrow> (rewind_record list \<times> rewind_index) snap" where
  "poll_index wl idx =
     (case poll wl (index_reader idx) of
        (Inl _, _, _) \<Rightarrow> Inl SnapValueError
      | (Inr es, restarted, rd) \<Rightarrow>
          rbind (rewind_records es) (\<lambda>new.
            let rs = (if restarted then [] else index_records idx) @ new in
            Inr (rs, \<lparr>index_reader = rd, index_records = rs\<rparr>)))"

definition scope_value :: "scope \<Rightarrow> pyval list option" where
  "scope_value sc = map_option (\<lambda>(a, s). [VStr a, VStr s]) sc"

definition records_for_scope :: "scope \<Rightarrow> rewind_record list \<Rightarrow> (int \<times> int) list" where
  "records_for_scope sc rs =
     map (\<lambda>(r, n, _). (r, n)) (filter (\<lambda>(_, _, s). s = None \<or> s = scope_value sc) rs)"

subsection \<open>The active part of the log\<close>

definition within_any :: "(int \<times> int) list \<Rightarrow> int \<Rightarrow> bool" where
  "within_any ab s \<longleftrightarrow> list_ex (\<lambda>(lo, hi). lo < s \<and> s < hi) ab"

fun sweep :: "(int \<times> int) list \<Rightarrow> (int \<times> int) list \<Rightarrow> (int \<times> int) list" where
  "sweep ab [] = ab"
| "sweep ab ((r, n) # rs) = (if within_any ab r then sweep ab rs else sweep (ab @ [(n, r)]) rs)"

definition abandoned_intervals :: "(int \<times> int) list \<Rightarrow> (int \<times> int) list" where
  "abandoned_intervals rs = sweep [] (sort_key (\<lambda>(r, _). - r) rs)"

definition is_active :: "(int \<times> int) list \<Rightarrow> int \<Rightarrow> bool" where
  "is_active ab s \<longleftrightarrow> \<not> within_any ab s"

definition earliest_relevant :: "(int \<times> int) list \<Rightarrow> int option" where
  "earliest_relevant ab = (case map fst ab of [] \<Rightarrow> None | q # qs \<Rightarrow> Some (fold min qs q))"

definition active_predicate :: "rewind_record list \<Rightarrow> scope \<Rightarrow> int \<Rightarrow> bool" where
  "active_predicate rs sc = is_active (abandoned_intervals (records_for_scope sc rs))"

text \<open>\<open>max\<close> by number keeps the first of equals.\<close>

definition active_rewind_target :: "rewind_record list \<Rightarrow> (int \<times> pyval list option) option" where
  "active_rewind_target rs =
     (case rs of [] \<Rightarrow> None
      | x # xs \<Rightarrow> Some (snd (fold (\<lambda>y m. if fst m < fst y then y else m) xs x)))"

subsection \<open>Branches\<close>

definition ACTIVE_BRANCH_ID :: int where "ACTIVE_BRANCH_ID = 0"

record branch =
  branch_id :: int
  fork_point :: int
  head_seq :: int
  parent_branch :: "int option"
  branch_active :: bool

fun tightest :: "int \<Rightarrow> (int \<times> int) option \<Rightarrow> (int \<times> int) list \<Rightarrow> (int \<times> int) option" where
  "tightest s best [] = best"
| "tightest s best ((n, r) # ab) =
     tightest s (if n < s \<and> s < r \<and> (case best of None \<Rightarrow> True | Some (m, _) \<Rightarrow> m < n) then Some (n, r) else best) ab"

definition branch_of_seq :: "int \<Rightarrow> (int \<times> int) list \<Rightarrow> int" where
  "branch_of_seq s ab = (case tightest s None ab of None \<Rightarrow> ACTIVE_BRANCH_ID | Some (_, r) \<Rightarrow> r)"

definition branch_ids_for :: "(int \<times> int) list \<Rightarrow> int list \<Rightarrow> (int \<times> int) list" where
  "branch_ids_for ab seqs = fold (\<lambda>s m. AList.update s (branch_of_seq s ab) m) seqs []"

definition list_branches :: "int \<Rightarrow> (int \<times> int) list \<Rightarrow> branch list" where
  "list_branches hd_seq ab =
     (if hd_seq \<le> 0 then []
      else \<lparr>branch_id = ACTIVE_BRANCH_ID, fork_point = 0, head_seq = hd_seq, parent_branch = None, branch_active = True\<rparr>
        # map (\<lambda>(n, r). \<lparr>branch_id = r, fork_point = n, head_seq = r - 1,
              parent_branch = Some (branch_of_seq n ab), branch_active = False\<rparr>)
            (sort_key snd ab))"

text \<open>A dictionary of the branches by id keeps the last of equals.\<close>

definition branch_by_id :: "branch list \<Rightarrow> int \<Rightarrow> branch option" where
  "branch_by_id bs i = map_of (rev (map (\<lambda>b. (branch_id b, b)) bs)) i"

definition best_below :: "(int \<Rightarrow> bool) \<Rightarrow> int \<Rightarrow> int option \<Rightarrow> int list \<Rightarrow> int option" where
  "best_below on cutoff best cand =
     fold (\<lambda>s b. if s < cutoff \<and> on s \<and> (case b of None \<Rightarrow> True | Some m \<Rightarrow> m < s) then Some s else b) cand best"

text \<open>The walk to the root; a branch that was seen ends it.\<close>

function lineage_walk ::
  "branch list \<Rightarrow> (int \<times> int) list \<Rightarrow> int list \<Rightarrow> int list \<Rightarrow> int \<Rightarrow> int \<Rightarrow> int option \<Rightarrow> int option" where
  "lineage_walk bs ab cand seen cur cutoff best =
     (if cur \<in> set seen then best
      else
        (let best' = best_below (\<lambda>s. branch_of_seq s ab = cur) cutoff best cand in
         case branch_by_id bs cur of
           None \<Rightarrow> best'
         | Some b \<Rightarrow>
             (case parent_branch b of
                None \<Rightarrow> best'
              | Some p \<Rightarrow> lineage_walk bs ab cand (cur # seen) p (fork_point b + 1) best')))"
  by pat_completeness auto
termination
proof (relation "measure (\<lambda>(bs, _, _, seen, _). card (set (map branch_id bs) - set seen))", simp)
  fix bs ab cand seen cur cutoff best best' b p
  assume "cur \<notin> set seen" "branch_by_id bs cur = Some b"
  then have "cur \<in> set (map branch_id bs) - set seen"
    by (auto simp: branch_by_id_def dest!: map_of_SomeD)
  then have "card (set (map branch_id bs) - set (cur # seen)) < card (set (map branch_id bs) - set seen)"
    by (intro psubset_card_mono) auto
  then show "((bs, ab, cand, cur # seen, p, fork_point b + 1, best'), bs, ab, cand, seen, cur, cutoff, best)
      \<in> measure (\<lambda>(bs, _, _, seen, _). card (set (map branch_id bs) - set seen))" by simp
qed

declare lineage_walk.simps [simp del]

definition lineage_predecessor :: "int \<Rightarrow> (int \<times> int) list \<Rightarrow> int list \<Rightarrow> int \<Rightarrow> int option" where
  "lineage_predecessor hd_seq ab cand target =
     (if cand = [] then None
      else lineage_walk (list_branches hd_seq ab) ab cand [] (branch_of_seq target ab) target None)"

subsection \<open>Going back\<close>

datatype rewind_exc = RewindIntoAbandoned int | RewindLog wal_exc | RewindSnap snap_exc

definition checkout :: "int \<Rightarrow> scope \<Rightarrow> int option \<Rightarrow> string \<Rightarrow> state_log \<Rightarrow> (rewind_exc + int) \<times> state_log" where
  "checkout target sc supersedes ts wl =
     (let flds = [(''target_n'', VInt target), (''supersedes'', case supersedes of None \<Rightarrow> VNone | Some q \<Rightarrow> VInt q)]
            @ (case scope_value sc of None \<Rightarrow> [] | Some xs \<Rightarrow> [(''scope'', VList xs)]) in
      case append_entry REWIND_KIND flds ts wl of
        (Inl e, wl') \<Rightarrow> (Inl (RewindLog e), wl')
      | (Inr q, wl') \<Rightarrow> (Inr q, wl'))"

definition rewind :: "rewind_record list \<Rightarrow> int \<Rightarrow> int option \<Rightarrow> string \<Rightarrow> state_log \<Rightarrow> (rewind_exc + int) \<times> state_log" where
  "rewind rs target supersedes ts wl =
     (if active_predicate rs None target then checkout target None supersedes ts wl
      else (Inl (RewindIntoAbandoned target), wl))"

subsection \<open>Generations and reconstruction\<close>

type_synonym generation_store = "(int \<times> pyval dict) list"

definition store_seqs :: "generation_store \<Rightarrow> int list" where
  "store_seqs st = sort (remdups (map fst st))"

definition nearest_at_or_below :: "generation_store \<Rightarrow> int \<Rightarrow> int option" where
  "nearest_at_or_below st n =
     (let c = filter (\<lambda>s. s \<le> n) (store_seqs st) in if c = [] then None else Some (last c))"

text \<open>One file per number, so a second recording replaces the first; the numbers come from the log.\<close>

definition record_payload :: "pyval dict \<Rightarrow> int \<Rightarrow> generation_store \<Rightarrow> generation_store" where
  "record_payload p q st = AList.update q p st"

definition record_generation :: "agent_snapshot \<Rightarrow> generation_store \<Rightarrow> generation_store" where
  "record_generation s st = record_payload (to_payload s) (applied_seq s) st"

definition prune_below :: "int \<Rightarrow> generation_store \<Rightarrow> nat \<times> generation_store" where
  "prune_below m st = (length (filter (\<lambda>s. s < m) (store_seqs st)), filter (\<lambda>p. m \<le> fst p) st)"

definition load_generation :: "generation_store \<Rightarrow> string \<Rightarrow> string \<Rightarrow> int \<Rightarrow> agent_snapshot snap" where
  "load_generation st agent sid q =
     (case map_of st q of None \<Rightarrow> Inr (empty_snapshot agent sid) | Some p \<Rightarrow> load_dict agent sid p)"

definition reconstruct ::
  "generation_store \<Rightarrow> state_log \<Rightarrow> rewind_record list \<Rightarrow> scope \<Rightarrow> string \<Rightarrow> string \<Rightarrow> int \<Rightarrow> agent_snapshot snap" where
  "reconstruct st wl rs sc agent sid target =
     (let act = active_predicate rs sc in
      rbind (case filter (\<lambda>s. s \<le> target \<and> act s) (rev (store_seqs st)) of
               [] \<Rightarrow> Inr (empty_snapshot agent sid)
             | q # _ \<Rightarrow> load_generation st agent sid q) (\<lambda>b.
      case iter_from wl (applied_seq b + 1) of
        Inl _ \<Rightarrow> Inl SnapUnicodeError
      | Inr es \<Rightarrow> apply_events (filter (\<lambda>e. entry_seq e \<le> target \<and> act (entry_seq e)) es) b))"

end
