(* ===== verification/RewindFacts.thy ===== *)
theory RewindFacts
  imports Rewind
begin

section \<open>What rewinding means\<close>

text \<open>
  The history of a position, as a user thinks of it: every position comes after the one before it,
  except that a rewind record comes after the position it goes back to.
\<close>

subsection \<open>History\<close>

definition came_from :: "(int \<times> int) list \<Rightarrow> int \<Rightarrow> int" where
  "came_from rs s = (case map_of rs s of Some n \<Rightarrow> if n < s then n else s - 1 | None \<Rightarrow> s - 1)"

inductive history :: "(int \<times> int) list \<Rightarrow> int \<Rightarrow> int \<Rightarrow> bool" for rs h where
  Here: "history rs h h"
| Back: "history rs h s \<Longrightarrow> history rs h (came_from rs s)"

inductive_cases history_cases: "history rs h s"

lemma came_from_less: "came_from rs s < s"
  by (simp add: came_from_def split: option.split)

lemma history_le: "history rs h s \<Longrightarrow> s \<le> h"
  by (induction rule: history.induct) (use came_from_less order_less_imp_le order_trans in blast)+

lemma history_trans: "history rs n s \<Longrightarrow> history rs h n \<Longrightarrow> history rs h s"
  by (induction rule: history.induct) (auto intro: history.intros)

text \<open>Positions without records are passed one by one.\<close>

lemma history_walk:
  assumes "s \<le> h" and "\<forall>x. s < x \<and> x \<le> h \<longrightarrow> map_of rs x = None"
  shows "history rs h s"
proof -
  have "int k \<le> h - s \<Longrightarrow> history rs h (h - int k)" for k
  proof (induction k)
    case (Suc k)
    then have "history rs h (h - int k)" "map_of rs (h - int k) = None" using assms(2) by auto
    then show ?case using history.Back [of rs h "h - int k"] by (simp add: came_from_def algebra_simps)
  qed (simp add: history.Here)
  from this [of "nat (h - s)"] assms(1) show ?thesis by simp
qed

text \<open>Only records up to the position matter.\<close>

lemma history_cong_imp: "history rs h s \<Longrightarrow> \<forall>x\<le>h. came_from rs x = came_from rs' x \<Longrightarrow> history rs' h s"
proof (induction rule: history.induct)
  case (Back s)
  then have "came_from rs s = came_from rs' s" using history_le by blast
  with Back show ?case using history.Back [of rs' h s] by simp
qed (rule history.Here)

lemma history_cong: "\<forall>x\<le>h. came_from rs x = came_from rs' x \<Longrightarrow> history rs h s \<longleftrightarrow> history rs' h s"
  using history_cong_imp [of rs h s rs'] history_cong_imp [of rs' h s rs] by metis

text \<open>The two sides of a record.\<close>

lemma history_sides:
  assumes "history rs h s" and "map_of rs r = Some n" and "n < r" and "r \<le> h" and "\<forall>x. r < x \<and> x \<le> h \<longrightarrow> map_of rs x = None"
  shows "r \<le> s \<or> s \<le> n"
  using assms(1)
proof (induction rule: history.induct)
  case (Back s)
  have "s \<le> h" using Back.hyps by (rule history_le)
  consider "s = r" | "r < s" | "s \<le> n" using Back.IH by linarith
  then show ?case
  proof cases
    case 2
    then have "map_of rs s = None" using assms(5) \<open>s \<le> h\<close> by blast
    then show ?thesis using 2 by (simp add: came_from_def)
  next
    case 3
    then show ?thesis using came_from_less [of rs s] by linarith
  qed (use assms(2,3) in \<open>simp add: came_from_def\<close>)
qed (use assms(4) in simp)

lemma history_jump:
  assumes "map_of rs r = Some n" and "n < r" and "r \<le> h" and "\<forall>x. r < x \<and> x \<le> h \<longrightarrow> map_of rs x = None" and "s \<le> n"
  shows "history rs h s \<longleftrightarrow> history rs n s"
proof
  have hr: "history rs h r" using assms(3,4) by (intro history_walk) auto
  have hn: "history rs h n" using history.Back [OF hr] assms(1,2) by (simp add: came_from_def)
  show "history rs n s \<Longrightarrow> history rs h s" using history_trans hn by blast
  have "t \<le> n \<longrightarrow> history rs n t" if "history rs h t" for t
    using that
  proof (induction rule: history.induct)
    case (Back u)
    show ?case
    proof
      assume le: "came_from rs u \<le> n"
      show "history rs n (came_from rs u)"
      proof (cases "u \<le> n")
        case True
        then show ?thesis using Back.IH history.Back by blast
      next
        case False
        then have "r \<le> u" using history_sides [OF Back.hyps assms(1-4)] by linarith
        have "came_from rs u = n"
        proof (cases "u = r")
          case True
          then show ?thesis using assms(1,2) by (simp add: came_from_def)
        next
          case False
          then have "map_of rs u = None" using \<open>r \<le> u\<close> assms(4) history_le [OF Back.hyps] by auto
          then show ?thesis using le \<open>r \<le> u\<close> False assms(2) by (simp add: came_from_def)
        qed
        then show ?thesis by (simp add: history.Here)
      qed
    qed
  qed (use assms(2,3) in simp)
  then show "history rs h s \<Longrightarrow> history rs n s" using assms(5) by blast
qed

subsection \<open>Active is history\<close>

function active_rec :: "(int \<times> int) list \<Rightarrow> int \<Rightarrow> bool" where
  "active_rec [] s = True"
| "active_rec ((r, n) # rs) s = (\<not> (n < s \<and> s < r) \<and> active_rec (filter (\<lambda>(q, _). \<not> (n < q \<and> q < r)) rs) s)"
  by pat_completeness auto
termination
  by (relation "measure (\<lambda>(rs, s). length rs)") (auto simp: less_Suc_eq_le)

lemma within_simps [simp]:
  "within_any [] s = False" "within_any ((lo, hi) # ab) s \<longleftrightarrow> (lo < s \<and> s < hi) \<or> within_any ab s"
  "within_any (ab @ ac) s \<longleftrightarrow> within_any ab s \<or> within_any ac s"
  by (simp_all add: within_any_def)

lemma sweep_active: "is_active (sweep ab rs) s \<longleftrightarrow> is_active ab s \<and> active_rec (filter (\<lambda>(r, _). \<not> within_any ab r) rs) s"
proof (induction ab rs rule: sweep.induct)
  case (2 ab r n rs)
  show ?case
  proof (cases "within_any ab r")
    case False
    have f: "filter (\<lambda>(q, _). \<not> within_any (ab @ [(n, r)]) q) rs =
        filter (\<lambda>(q, _). \<not> (n < q \<and> q < r)) (filter (\<lambda>(q, _). \<not> within_any ab q) rs)"
      by (auto simp: filter_filter intro!: filter_cong)
    show ?thesis using 2(2) [OF False] False unfolding f by (auto simp: is_active_def)
  qed (use 2 in simp)
qed (simp add: is_active_def)

definition falling :: "(int \<times> int) list \<Rightarrow> bool" where
  "falling rs \<longleftrightarrow> sorted_wrt (\<lambda>p q. fst q < fst p) rs"

lemma falling_Cons: "falling ((r, n) # rs) \<longleftrightarrow> (\<forall>p\<in>set rs. fst p < r) \<and> falling rs"
  by (auto simp: falling_def)

lemma falling_filter: "falling rs \<Longrightarrow> falling (filter p rs)"
  by (simp add: falling_def sorted_wrt_filter)

lemma map_of_above: "\<forall>p\<in>set rs. fst p < (r :: int) \<Longrightarrow> r \<le> x \<Longrightarrow> map_of rs x = None"
  by (induction rs) auto

lemma map_of_filter_key: "p x \<Longrightarrow> map_of (filter (\<lambda>(q, _). p q) rs) x = map_of rs x"
  by (induction rs) auto

lemma active_rec_history:
  "falling rs \<Longrightarrow> \<forall>p\<in>set rs. fst p \<le> h \<Longrightarrow> s \<le> h \<Longrightarrow> active_rec rs s \<longleftrightarrow> history rs h s"
proof (induction rs s arbitrary: h rule: active_rec.induct)
  case (1 s)
  then show ?case using history_walk [of s h "[]"] by simp
next
  case (2 r n rs s)
  let ?rs = "filter (\<lambda>(q, _). \<not> (n < q \<and> q < r)) rs"
  have less: "\<forall>p\<in>set rs. fst p < r" and fall: "falling ?rs" using "2.prems"(1) falling_filter by (auto simp: falling_Cons)
  have r: "r \<le> h" using "2.prems"(2) by simp
  have above: "\<forall>x. r < x \<and> x \<le> h \<longrightarrow> map_of ((r, n) # rs) x = None" using map_of_above [OF less] by auto
  show ?case
  proof (cases "n < r")
    case False
    then have e: "?rs = rs" by (auto intro!: filter_True)
    have "came_from ((r, n) # rs) x = came_from rs x" for x
      using map_of_above [OF less, of r] False by (auto simp: came_from_def)
    then have "history ((r, n) # rs) h s \<longleftrightarrow> history rs h s" by (intro history_cong) simp
    moreover have "active_rec rs s \<longleftrightarrow> history rs h s"
      using "2.IH" [of h] fall "2.prems"(2,3) unfolding e by simp
    ultimately show ?thesis using False e by auto
  next
    case True
    have low: "\<forall>p\<in>set ?rs. fst p \<le> n" using less by fastforce
    consider "r \<le> s" | "n < s" "s < r" | "s \<le> n" by linarith
    then show ?thesis
    proof cases
      case 1
      have l: "\<forall>p\<in>set ?rs. fst p < s + 1" using low 1 True by fastforce
      have "map_of ?rs x = None" if "s < x" for x using map_of_above [OF l] that by simp
      then have "history ?rs h s" using "2.prems"(3) by (intro history_walk) auto
      moreover have "active_rec ?rs s \<longleftrightarrow> history ?rs h s"
        using "2.IH" [of h] fall low True r "2.prems"(3) by fastforce
      moreover have "history ((r, n) # rs) h s" using above 1 "2.prems"(3) by (intro history_walk) auto
      ultimately show ?thesis using 1 by auto
    next
      case 2
      have "\<not> history ((r, n) # rs) h s"
        using history_sides [of "(r, n) # rs" h s r n] True r above 2 by auto
      then show ?thesis using 2 by simp
    next
      case 3
      have "came_from ((r, n) # rs) x = came_from ?rs x" if "x \<le> n" for x
        using that True map_of_filter_key [of "\<lambda>q. \<not> (n < q \<and> q < r)" x rs] by (simp add: came_from_def)
      then have "history ((r, n) # rs) n s \<longleftrightarrow> history ?rs n s" by (intro history_cong) simp
      moreover have "history ((r, n) # rs) h s \<longleftrightarrow> history ((r, n) # rs) n s"
        using history_jump [of "(r, n) # rs" r n h s] True r above 3 by simp
      moreover have "active_rec ?rs s \<longleftrightarrow> history ?rs n s" using "2.IH" [of n] fall low 3 by simp
      ultimately show ?thesis using 3 True by auto
    qed
  qed
qed

lemma history_set:
  assumes "distinct (map fst rs)" and "distinct (map fst rs')" and "set rs = set rs'"
  shows "history rs h s \<longleftrightarrow> history rs' h s"
proof -
  have "map_of rs = map_of rs'" using map_of_inject_set [OF assms(1,2)] assms(3) by simp
  then show ?thesis by (intro history_cong) (simp add: came_from_def)
qed

lemma strictly_falling: "sorted_wrt (\<lambda>p q. fst q \<le> fst p) rs \<Longrightarrow> distinct (map fst rs) \<Longrightarrow> falling rs"
proof (induction rs)
  case (Cons p rs)
  have "fst q < fst p" if "q \<in> set rs" for q
  proof -
    have "fst q \<in> fst ` set rs" using that by (rule imageI)
    then have "fst q \<noteq> fst p" using Cons.prems(2) by (metis distinct.simps(2) list.simps(9) set_map)
    moreover have "fst q \<le> fst p" using Cons.prems(1) that by simp
    ultimately show ?thesis by simp
  qed
  with Cons show ?case by (simp add: falling_def)
qed (simp add: falling_def)

lemma active_history_lemma:
  assumes "distinct (map fst rs)" and "\<forall>p\<in>set rs. fst p \<le> h" and "s \<le> h"
  shows "is_active (abandoned_intervals rs) s \<longleftrightarrow> history rs h s"
proof -
  let ?rs = "sort_key (\<lambda>(r, _). - r) rs"
  have d: "distinct (map fst ?rs)" using assms(1) by (simp add: distinct_map)
  have "sorted_wrt (\<lambda>p q. fst q \<le> fst p) ?rs"
    using sorted_sort_key [of "\<lambda>(r, _). - r" rs] by (simp add: sorted_map case_prod_unfold)
  then have "falling ?rs" using d by (rule strictly_falling)
  have "is_active (abandoned_intervals rs) s \<longleftrightarrow> active_rec ?rs s"
  proof -
    have "filter (\<lambda>(r, _). \<not> within_any [] r) ?rs = ?rs" by (rule filter_True) auto
    then show ?thesis unfolding abandoned_intervals_def sweep_active by (simp only:) (simp add: is_active_def)
  qed
  also have "\<dots> \<longleftrightarrow> history ?rs h s" using \<open>falling ?rs\<close> assms(2,3) by (intro active_rec_history) auto
  also have "\<dots> \<longleftrightarrow> history rs h s" using history_set [OF d assms(1)] by simp
  finally show ?thesis .
qed

text \<open>C12: What is active is the history of the head: for every set of rewind records, nested, overlapping or
  out of order, the positions the latest-first sweep leaves active are exactly those one reaches from
  the head by stepping back, going from a rewind record to the position it went back to.\<close>

theorem active_is_history:
  assumes "distinct (map fst rs)" and "\<forall>p\<in>set rs. fst p \<le> h" and "s \<le> h"
  shows "is_active (abandoned_intervals rs) s \<longleftrightarrow> history rs h s"
  by (rule active_history_lemma [OF assms])

subsection \<open>Checkout\<close>

lemma came_from_old: "x < r \<Longrightarrow> came_from (rs @ [(r, n)]) x = came_from rs x"
  by (simp add: came_from_def map_add_def split: option.split)

lemma checkout_lemma:
  assumes "distinct (map fst rs)" and "\<forall>p\<in>set rs. fst p < r" and "n < r" and "r \<le> h" and "s \<le> h"
  shows "is_active (abandoned_intervals (rs @ [(r, n)])) s \<longleftrightarrow> r \<le> s \<or> history rs n s"
proof -
  let ?rs = "rs @ [(r, n)]"
  have d: "distinct (map fst ?rs)" and le: "\<forall>p\<in>set ?rs. fst p \<le> h" using assms by fastforce+
  have new: "map_of ?rs r = Some n" using map_of_above [OF assms(2), of r] by (simp add: map_add_def)
  have above: "\<forall>x. r < x \<and> x \<le> h \<longrightarrow> map_of ?rs x = None"
    using map_of_above [OF assms(2)] by (simp add: map_add_def)
  have "history ?rs h s \<longleftrightarrow> r \<le> s \<or> history rs n s"
  proof (cases "r \<le> s")
    case True
    then show ?thesis using above assms(5) by (auto intro!: history_walk)
  next
    case False
    have old: "history ?rs n s \<longleftrightarrow> history rs n s" using assms(3) by (intro history_cong) (auto simp: came_from_old)
    show ?thesis
    proof (cases "s \<le> n")
      case True
      then show ?thesis using history_jump [OF new assms(3,4) above True] old False by simp
    next
      case no: False
      then show ?thesis using history_sides [OF _ new assms(3,4) above, of s] history_le [of rs n s] False by auto
    qed
  qed
  then show ?thesis using active_history_lemma [OF d le assms(5)] by simp
qed

text \<open>Checking out a position makes its own history the active one: after the record is written the
  active positions are the new ones and exactly the history of the position that was checked out,
  whether that was active or on an abandoned branch; so going back and then checking out the old head
  brings back all that was active.\<close>

theorem checkout_activates_history:
  assumes "distinct (map fst rs)" and "\<forall>p\<in>set rs. fst p < r" and "n < r" and "r \<le> h" and "s \<le> h"
  shows "is_active (abandoned_intervals (rs @ [(r, n)])) s \<longleftrightarrow> r \<le> s \<or> history rs n s"
  by (rule checkout_lemma [OF assms])

subsection \<open>Branches\<close>

text \<open>No two abandoned intervals overlap, so the tree of branches is never deeper than one.\<close>

definition apart :: "(int \<times> int) list \<Rightarrow> bool" where
  "apart ab \<longleftrightarrow> (\<forall>p\<in>set ab. \<forall>q\<in>set ab. p = q \<or> snd p \<le> fst q \<or> snd q \<le> fst p \<or> snd p \<le> fst p \<or> snd q \<le> fst q)"

lemma sweep_apart:
  assumes "apart ab" and "falling rs" and "\<forall>p\<in>set ab. \<forall>q\<in>set rs. fst q < snd p"
  shows "apart (sweep ab rs)"
  using assms
proof (induction ab rs rule: sweep.induct)
  case (2 ab r n rs)
  have f: "\<forall>p\<in>set rs. fst p < r" "falling rs" using "2.prems"(2) by (auto simp: falling_Cons)
  show ?case
  proof (cases "within_any ab r")
    case False
    have "r \<le> fst p" if "p \<in> set ab" for p
    proof -
      have "\<not> (fst p < r \<and> r < snd p)" using False that by (auto simp: within_any_def list_ex_iff)
      moreover have "r < snd p" using "2.prems"(3) that by simp
      ultimately show ?thesis by simp
    qed
    then have "apart (ab @ [(n, r)])" using "2.prems"(1) unfolding apart_def by auto
    then show ?thesis using "2.IH"(2) [OF False] f "2.prems"(3) False by auto
  qed (use 2 f in auto)
qed simp

lemma abandoned_apart:
  assumes "distinct (map fst rs)"
  shows "apart (abandoned_intervals rs)"
proof -
  let ?rs = "sort_key (\<lambda>(r, _). - r) rs"
  have d: "distinct (map fst ?rs)" using assms by (simp add: distinct_map)
  have "sorted_wrt (\<lambda>p q. fst q \<le> fst p) ?rs"
    using sorted_sort_key [of "\<lambda>(r, _). - r" rs] by (simp add: sorted_map case_prod_unfold)
  from sweep_apart [OF _ strictly_falling [OF this d], of "[]"] show ?thesis
    by (simp add: abandoned_intervals_def apart_def)
qed

text \<open>The fork point of an abandoned interval is in no other one.\<close>

lemma fork_active:
  assumes "apart ab" and "(n, r) \<in> set ab" and "n < r"
  shows "\<not> within_any ab n"
proof
  assume "within_any ab n"
  then obtain p where p: "p \<in> set ab" "fst p < n" "n < snd p" by (auto simp: within_any_def list_ex_iff)
  then show False using bspec [OF bspec [OF assms(1) [unfolded apart_def] p(1)] assms(2)] assms(3) by auto
qed

lemma tightest_none: "\<not> within_any ab s \<Longrightarrow> tightest s best ab = best"
  by (induction s best ab rule: tightest.induct) auto

lemma tightest_in: "tightest s best ab = Some (n, r) \<Longrightarrow> best = Some (n, r) \<or> (n, r) \<in> set ab \<and> n < s \<and> s < r"
  by (induction s best ab rule: tightest.induct) (auto split: if_splits)

lemma tightest_some: "within_any ab s \<or> best \<noteq> None \<Longrightarrow> tightest s best ab \<noteq> None"
  by (induction s best ab rule: tightest.induct) (auto split: option.splits)

lemma branch_active_iff:
  assumes "\<forall>p\<in>set ab. snd p \<noteq> 0"
  shows "branch_of_seq s ab = ACTIVE_BRANCH_ID \<longleftrightarrow> \<not> within_any ab s"
proof (cases "within_any ab s")
  case True
  then obtain n r where t: "tightest s None ab = Some (n, r)" using tightest_some [of ab s None] by auto
  then have "(n, r) \<in> set ab" using tightest_in by fastforce
  then show ?thesis using True t assms by (force simp: branch_of_seq_def ACTIVE_BRANCH_ID_def)
qed (simp add: branch_of_seq_def tightest_none)

text \<open>Every abandoned branch hangs off the active one: for every set of rewind records, the parent that
  is listed for an abandoned branch is always the active branch, so the tree of branches is one level
  deep and branches never nest.\<close>

theorem branches_never_nest:
  assumes "distinct (map fst rs)" and "\<forall>p\<in>set rs. snd p < fst p" and "b \<in> set (list_branches h (abandoned_intervals rs))"
    and "\<not> branch_active b"
  shows "parent_branch b = Some ACTIVE_BRANCH_ID"
proof -
  let ?ab = "abandoned_intervals rs"
  have sub: "set (sweep ab qs) \<subseteq> set ab \<union> (\<lambda>(r, n). (n, r)) ` set qs" for ab qs
    by (induction ab qs rule: sweep.induct) auto
  from assms(3,4) obtain n r where nr: "(n, r) \<in> set ?ab" "parent_branch b = Some (branch_of_seq n ?ab)"
    by (auto simp: list_branches_def split: if_splits)
  then have "n < r" using sub [of "[]" "sort_key (\<lambda>(r, _). - r) rs"] assms(2) by (force simp: abandoned_intervals_def)
  then show ?thesis using nr fork_active [OF abandoned_apart [OF assms(1)] nr(1)]
    by (simp add: branch_of_seq_def tightest_none)
qed

subsection \<open>The checkpoint before\<close>

definition greatest :: "(int \<Rightarrow> bool) \<Rightarrow> int list \<Rightarrow> int option \<Rightarrow> bool" where
  "greatest ok cand m \<longleftrightarrow>
     (case m of
        None \<Rightarrow> \<forall>c\<in>set cand. \<not> ok c
      | Some x \<Rightarrow> x \<in> set cand \<and> ok x \<and> (\<forall>c\<in>set cand. ok c \<longrightarrow> c \<le> x))"

lemma best_below_greatest: "greatest (\<lambda>s. s < cutoff \<and> on s) cand (best_below on cutoff None cand)"
proof -
  have "\<forall>m. greatest (\<lambda>s. s < cutoff \<and> on s) pre m \<longrightarrow>
      greatest (\<lambda>s. s < cutoff \<and> on s) (pre @ cand) (best_below on cutoff m cand)" for pre
  proof (induction cand arbitrary: pre)
    case (Cons s cand)
    show ?case
    proof (intro allI impI)
      fix m
      assume g: "greatest (\<lambda>s. s < cutoff \<and> on s) pre m"
      let ?m = "if s < cutoff \<and> on s \<and> (case m of None \<Rightarrow> True | Some x \<Rightarrow> x < s) then Some s else m"
      have "greatest (\<lambda>s. s < cutoff \<and> on s) (pre @ [s]) ?m"
        using g by (cases m) (auto simp: greatest_def)
      then have "greatest (\<lambda>s. s < cutoff \<and> on s) ((pre @ [s]) @ cand) (best_below on cutoff ?m cand)"
        using Cons.IH [of "pre @ [s]"] by blast
      then show "greatest (\<lambda>s. s < cutoff \<and> on s) (pre @ s # cand) (best_below on cutoff m (s # cand))"
        by (simp add: best_below_def)
    qed
  qed (simp add: best_below_def)
  from this [of "[]"] show ?thesis by (simp add: greatest_def)
qed

lemma root_of_branches: "branch_by_id (list_branches h ab) ACTIVE_BRANCH_ID = Some b \<Longrightarrow> \<forall>p\<in>set ab. snd p \<noteq> 0 \<Longrightarrow> parent_branch b = None"
  by (fastforce simp: branch_by_id_def list_branches_def ACTIVE_BRANCH_ID_def split: if_splits dest!: map_of_SomeD)

text \<open>On the active timeline the checkpoint before a position is the right one: it is the greatest of the
  candidates below the position that lie in the history of the position, and there is none only when
  no candidate does.\<close>

theorem active_predecessor_is_greatest:
  assumes "distinct (map fst rs)" and "\<forall>p\<in>set rs. 0 < fst p \<and> fst p \<le> h" and "target \<le> h"
    and "is_active (abandoned_intervals rs) target"
  shows "greatest (\<lambda>s. s < target \<and> history rs h s) cand (lineage_predecessor h (abandoned_intervals rs) cand target)"
proof -
  let ?ab = "abandoned_intervals rs"
  have sub: "set (sweep ab qs) \<subseteq> set ab \<union> (\<lambda>(r, n). (n, r)) ` set qs" for ab qs
    by (induction ab qs rule: sweep.induct) auto
  have nz: "\<forall>p\<in>set ?ab. snd p \<noteq> 0"
    using sub [of "[]" "sort_key (\<lambda>(r, _). - r) rs"] assms(2) by (force simp: abandoned_intervals_def)
  have cur: "branch_of_seq target ?ab = ACTIVE_BRANCH_ID" using assms(4) branch_active_iff [OF nz] by (simp add: is_active_def)
  have g: "greatest (\<lambda>s. s < target \<and> branch_of_seq s ?ab = ACTIVE_BRANCH_ID) cand
      (best_below (\<lambda>s. branch_of_seq s ?ab = ACTIVE_BRANCH_ID) target None cand)"
    by (rule best_below_greatest)
  have e: "s < target \<and> branch_of_seq s ?ab = ACTIVE_BRANCH_ID \<longleftrightarrow> s < target \<and> history rs h s" for s
    using branch_active_iff [OF nz] active_history_lemma [OF assms(1), of h s] assms(2,3) by (auto simp: is_active_def)
  have "lineage_predecessor h ?ab cand target =
      (if cand = [] then None else best_below (\<lambda>s. branch_of_seq s ?ab = ACTIVE_BRANCH_ID) target None cand)"
    unfolding lineage_predecessor_def cur
    by (subst lineage_walk.simps) (auto simp: Let_def split: option.split dest: root_of_branches [OF _ nz])
  then show ?thesis using g unfolding e by (auto simp: greatest_def best_below_def)
qed

text \<open>On an abandoned branch it can be the wrong one: after going back from 4 to 2, then from 9 to 1, the
  checkpoint before position 6 is said to be 4, a turn that had been undone before 6 was reached;
  the history of 6 goes through 2 and not through 4.\<close>

theorem nested_predecessor_wrong:
  "lineage_predecessor 10 (abandoned_intervals [(5, 2), (10, 1)]) [2, 4] 6 = Some 4
    \<and> \<not> history [(5, 2), (10, 1)] 6 4 \<and> history [(5, 2), (10, 1)] 6 2"
proof -
  have "lineage_predecessor 10 (abandoned_intervals [(5, 2), (10, 1)]) [2, 4] 6 = Some 4"
    by (simp add: lineage_predecessor_def abandoned_intervals_def branch_of_seq_def list_branches_def ACTIVE_BRANCH_ID_def
      branch_by_id_def best_below_def lineage_walk.simps)
  moreover have "\<not> history [(5, 2), (10, 1)] 6 4"
    using history_sides [of "[(5, 2), (10, 1)]" 6 4 5 2] by auto
  moreover have "history [(5, 2), (10, 1)] 6 5" by (rule history_walk) auto
  then have "history [(5, 2), (10, 1)] 6 2" using history.Back by (fastforce simp: came_from_def)
  ultimately show ?thesis by blast
qed

end
