(* ===== verification/Pitr.thy ===== *)
theory Pitr
  imports RewindFacts
begin

section \<open>Reconstruction of a point in time\<close>

text \<open>
  A generation and the active entries after it give the state that replaying the whole history of the
  point gives; rewinding, truncation and generations cut on branches that are now abandoned change
  nothing about that.
\<close>

subsection \<open>Histories are chains\<close>

lemma history_first: "history rs h s \<Longrightarrow> s = h \<or> history rs (came_from rs h) s"
  by (induction rule: history.induct) (auto intro: history.intros)

lemma history_linear: "history rs h a \<Longrightarrow> history rs h b \<Longrightarrow> history rs a b \<or> history rs b a"
proof (induction arbitrary: b rule: history.induct)
  case (Back a)
  from Back.IH [OF Back.prems] show ?case
  proof
    assume "history rs a b"
    then show ?thesis using history_first history.intros by metis
  next
    assume "history rs b a"
    then show ?thesis using history.Back by blast
  qed
qed simp

lemma history_through: "history rs h q \<Longrightarrow> s \<le> q \<Longrightarrow> history rs h s \<longleftrightarrow> history rs q s"
  using history_linear [of rs h q s] history_le [of rs s q] history_trans [of rs q s h] by fastforce

subsection \<open>Generations\<close>

definition as_of :: "entry list \<Rightarrow> (int \<times> int) list \<Rightarrow> int \<Rightarrow> int \<Rightarrow> entry list" where
  "as_of es rs h target = filter (\<lambda>e. entry_seq e \<le> target \<and> history rs h (entry_seq e)) es"

text \<open>
  A generation cut at a position holds what the history of that position gives.  Later records do not
  change the history of a position, so this stays true once it is.
\<close>

definition generation_ok :: "entry list \<Rightarrow> (int \<times> int) list \<Rightarrow> string \<Rightarrow> string \<Rightarrow> int \<Rightarrow> pyval dict \<Rightarrow> bool" where
  "generation_ok es rs agent sid q p \<longleftrightarrow>
     (\<exists>u. load_dict agent sid p = Inr u \<and> agent_name u = agent \<and> session_id u = sid \<and> applied_seq u = q
       \<and> erase (apply_events (as_of es rs q q) (empty_snapshot agent sid)) = Inr (at_seq 0 u))"

definition store_ok :: "entry list \<Rightarrow> (int \<times> int) list \<Rightarrow> string \<Rightarrow> string \<Rightarrow> generation_store \<Rightarrow> bool" where
  "store_ok es rs agent sid st \<longleftrightarrow> (\<forall>q p. map_of st q = Some p \<longrightarrow> 0 \<le> q \<and> generation_ok es rs agent sid q p)"

lemma later_records_keep: 
  assumes "\<forall>p\<in>set rs. fst p < r" and "q < r"
  shows "as_of es (rs @ [(r, n)]) q q = as_of es rs q q"
proof -
  have "history (rs @ [(r, n)]) q s \<longleftrightarrow> history rs q s" for s
    using assms(2) by (intro history_cong) (auto simp: came_from_old)
  then show ?thesis by (simp add: as_of_def)
qed

text \<open>Replay of a numbered log in two parts.\<close>

lemma split_log:
  "numbered es \<Longrightarrow> filter p es = filter (\<lambda>e. p e \<and> entry_seq e \<le> q) es @ filter (\<lambda>e. p e \<and> q < entry_seq e) es"
proof (induction es)
  case (Cons e es)
  have n: "numbered es" "\<forall>d\<in>set es. entry_seq e < entry_seq d" using Cons.prems by (auto simp: numbered_def)
  show ?case
  proof (cases "entry_seq e \<le> q")
    case True
    then show ?thesis using Cons.IH [OF n(1)] by auto
  next
    case False
    then have "filter (\<lambda>e. p e \<and> entry_seq e \<le> q) es = []" using n(2) by (fastforce simp: filter_empty_conv)
    then show ?thesis using Cons.IH [OF n(1)] False by auto
  qed
qed simp

lemma erase_play: "numbered es \<Longrightarrow> erase (apply_events es s) = erase (play (filter (\<lambda>e. applied_seq s < entry_seq e \<and> own s e) es) s)"
  using apply_events_play [of es s] by simp

lemma play_erased:
  assumes "at_seq 0 t = at_seq 0 u"
  shows "erase (play es t) = erase (play es u)"
proof -
  have "erase (play es t) = erase (play es (at_seq 0 t))" by (simp add: play_at_seq)
  also have "\<dots> = erase (play es u)" unfolding assms by (simp add: play_at_seq)
  finally show ?thesis .
qed

lemma generation_delta:
  assumes "numbered es" and "\<forall>e\<in>set es. 0 < entry_seq e" and "generation_ok es rs agent sid q p" and "0 \<le> q"
    and "history rs h q" and "q \<le> target" and u: "load_dict agent sid p = Inr u"
    and ds: "ds = filter (\<lambda>e. q < entry_seq e \<and> entry_seq e \<le> target \<and> history rs h (entry_seq e)) es"
  shows "applied_seq u = q" and "erase (apply_events ds u) = erase (apply_events (as_of es rs h target) (empty_snapshot agent sid))"
proof -
  let ?s = "empty_snapshot agent sid"
  have g: "agent_name u = agent" "session_id u = sid" "applied_seq u = q"
    "erase (apply_events (as_of es rs q q) ?s) = Inr (at_seq 0 u)"
    using assms(3) u by (auto simp: generation_ok_def)
  show "applied_seq u = q" by (rule g(3))
  have own: "own u = own ?s" using g(1,2) by (simp add: own_def empty_snapshot_def fun_eq_iff)
  have num: "numbered ds" "numbered (as_of es rs h target)" "numbered (as_of es rs q q)"
    using numbered_filter [OF assms(1)] by (simp_all add: ds as_of_def)
  have pos: "applied_seq ?s = 0" by (simp add: empty_snapshot_def)
  let ?pre = "filter (own ?s) (as_of es rs q q)" and ?post = "filter (own ?s) ds"
  have full: "filter (\<lambda>e. applied_seq ?s < entry_seq e \<and> own ?s e) (as_of es rs h target) = ?pre @ ?post"
  proof -
    have "filter (\<lambda>e. applied_seq ?s < entry_seq e \<and> own ?s e) (as_of es rs h target)
        = filter (\<lambda>e. own ?s e \<and> entry_seq e \<le> target \<and> history rs h (entry_seq e)) es"
      unfolding as_of_def filter_filter pos by (rule filter_cong) (use assms(2) in auto)
    also have "\<dots> = filter (\<lambda>e. (own ?s e \<and> entry_seq e \<le> target \<and> history rs h (entry_seq e)) \<and> entry_seq e \<le> q) es
        @ filter (\<lambda>e. (own ?s e \<and> entry_seq e \<le> target \<and> history rs h (entry_seq e)) \<and> q < entry_seq e) es"
      by (rule split_log [OF assms(1)])
    also have "filter (\<lambda>e. (own ?s e \<and> entry_seq e \<le> target \<and> history rs h (entry_seq e)) \<and> entry_seq e \<le> q) es = ?pre"
      unfolding as_of_def filter_filter by (rule filter_cong) (use assms(6) history_through [OF assms(5)] in auto)
    also have "filter (\<lambda>e. (own ?s e \<and> entry_seq e \<le> target \<and> history rs h (entry_seq e)) \<and> q < entry_seq e) es = ?post"
      unfolding ds filter_filter by (rule filter_cong) auto
    finally show ?thesis .
  qed
  have "filter (\<lambda>e. applied_seq ?s < entry_seq e \<and> own ?s e) (as_of es rs q q) = ?pre"
    using assms(2) by (auto simp: pos as_of_def intro!: filter_cong)
  then have "erase (play ?pre ?s) = Inr (at_seq 0 u)" using erase_play [OF num(3), of ?s] g(4) by simp
  then obtain t where t: "play ?pre ?s = Inr t" "at_seq 0 t = at_seq 0 u" by (cases "play ?pre ?s") (auto simp: erase_def)
  have "filter (\<lambda>e. applied_seq u < entry_seq e \<and> own u e) ds = ?post"
    unfolding own g(3) by (auto simp: ds intro!: filter_cong)
  then have "erase (apply_events ds u) = erase (play ?post u)" using erase_play [OF num(1), of u] by simp
  also have "\<dots> = erase (play ?post t)" using play_erased [OF t(2)] by simp
  also have "\<dots> = erase (play (?pre @ ?post) ?s)" using t(1) by (simp add: play_append)
  also have "\<dots> = erase (apply_events (as_of es rs h target) ?s)" using erase_play [OF num(2), of ?s] full by simp
  finally show "erase (apply_events ds u) = erase (apply_events (as_of es rs h target) ?s)" .
qed

subsection \<open>Reconstruction\<close>

lemma chosen_generation:
  assumes "filter ok (rev (store_seqs st)) = q # qs"
  shows "q \<in> set (map fst st)" "ok q" "\<forall>x\<in>set (map fst st). ok x \<longrightarrow> x \<le> q"
proof -
  have m: "q \<in> set (filter ok (rev (store_seqs st)))" unfolding assms by simp
  then show "q \<in> set (map fst st)" "ok q" by (auto simp: store_seqs_def)
  have "sorted_wrt (\<ge>) (filter ok (rev (store_seqs st)))"
    by (simp add: store_seqs_def sorted_wrt_filter sorted_wrt_rev)
  then have le: "\<forall>x\<in>set qs. x \<le> q" unfolding assms by simp
  show "\<forall>x\<in>set (map fst st). ok x \<longrightarrow> x \<le> q"
  proof (intro ballI impI)
    fix x
    assume "x \<in> set (map fst st)" "ok x"
    then have "x \<in> set (filter ok (rev (store_seqs st)))" by (simp add: store_seqs_def)
    then show "x \<le> q" using le unfolding assms by auto
  qed
qed

lemma reconstruct_lemma:
  assumes "numbered es" and "\<forall>e\<in>set es. 0 < entry_seq e \<and> entry_seq e \<le> h"
    and rs: "rs = records_for_scope sc recs" and "distinct (map fst rs)" and "\<forall>p\<in>set rs. fst p \<le> h" and "target \<le> h"
    and "holds wl (filter keep es)" and "\<forall>e\<in>set es. low < entry_seq e \<longrightarrow> keep e"
    and "store_ok es rs agent sid st"
    and base: "low \<le> 0 \<or> (\<exists>q\<in>set (map fst st). low \<le> q \<and> q \<le> target \<and> history rs h q)"
  shows "erase (reconstruct st wl recs sc agent sid target) = erase (apply_events (as_of es rs h target) (empty_snapshot agent sid))"
proof -
  have act: "active_predicate recs sc x \<longleftrightarrow> history rs h x" if "x \<le> h" for x
    using active_history_lemma [OF assms(4,5) that] by (simp add: active_predicate_def rs)
  define delta where "delta q = filter (\<lambda>e. q < entry_seq e \<and> entry_seq e \<le> target \<and> history rs h (entry_seq e)) es" for q
  have wal: "filter (\<lambda>e. entry_seq e \<le> target \<and> active_predicate recs sc (entry_seq e)) (filter (\<lambda>e. q + 1 \<le> entry_seq e) (filter keep es))
      = delta q" if "low \<le> q" for q
    unfolding delta_def filter_filter by (rule filter_cong) (use assms(2,8) that act in fastforce)+
  have it: "iter_from wl (q + 1) = Inr (filter (\<lambda>e. q + 1 \<le> entry_seq e) (filter keep es))" for q
    by (rule holds_iter [OF assms(7)])
  let ?ok = "\<lambda>s. s \<le> target \<and> active_predicate recs sc s"
  show ?thesis
  proof (cases "filter ?ok (rev (store_seqs st))")
    case Nil
    have "\<not> (\<exists>q\<in>set (map fst st). q \<le> target \<and> history rs h q)"
    proof
      assume "\<exists>q\<in>set (map fst st). q \<le> target \<and> history rs h q"
      then obtain q where q: "q \<in> set (map fst st)" "q \<le> target" "history rs h q" by blast
      have "active_predicate recs sc q" using act [of q] q(2,3) assms(6) by linarith
      then have "q \<in> set (filter ?ok (rev (store_seqs st)))" using q(1,2) by (simp add: store_seqs_def)
      then show False unfolding Nil by simp
    qed
    then have low: "low \<le> 0" using base by blast
    have pos: "applied_seq (empty_snapshot agent sid) = 0" by (simp add: empty_snapshot_def)
    have "delta 0 = as_of es rs h target"
      unfolding delta_def as_of_def by (rule filter_cong) (use assms(2) in auto)
    then show ?thesis using Nil it [of 0] wal [OF low] by (simp add: reconstruct_def Let_def pos)
  next
    case (Cons q qs)
    note c = chosen_generation [OF Cons]
    then obtain p where p: "map_of st q = Some p" by (metis map_of_eq_None_iff not_None_eq set_map)
    have q: "q \<le> target" "history rs h q" using c(2) act assms(6) by auto
    have "0 \<le> q" and gen: "generation_ok es rs agent sid q p" using assms(9) p by (auto simp: store_ok_def)
    then obtain u where u: "load_dict agent sid p = Inr u" by (auto simp: generation_ok_def)
    have low: "low \<le> q"
    proof (cases "low \<le> 0")
      case False
      then obtain x where "x \<in> set (map fst st)" "low \<le> x" "x \<le> target" "history rs h x" using base by blast
      then show ?thesis using c(3) act assms(6) by fastforce
    qed (use \<open>0 \<le> q\<close> in simp)
    have pos: "\<forall>e\<in>set es. 0 < entry_seq e" using assms(2) by blast
    note d = generation_delta [OF assms(1) pos gen \<open>0 \<le> q\<close> q(2,1) u delta_def]
    show ?thesis using Cons u d it [of q] wal [OF low] p by (simp add: reconstruct_def Let_def load_generation_def)
  qed
qed


subsection \<open>Scopes\<close>

lemma records_append: "records_for_scope sc (xs @ ys) = records_for_scope sc xs @ records_for_scope sc ys"
  by (simp add: records_for_scope_def)

lemma scope_value_inj: "scope_value a = scope_value b \<longleftrightarrow> a = b"
  by (cases a; cases b) (auto simp: scope_value_def)


end
