(* ===== verification/JournalCases.thy ===== *)
theory JournalCases
  imports Pitr
begin

section \<open>Snapshots, journal and rewinding on concrete sessions\<close>

text \<open>Instances of the properties, and what replay makes of a chain.\<close>

subsection \<open>A log with a rewind\<close>

text \<open>
  Two messages for \<open>ann\<close>, a rewind to the first, and a third message: the second is abandoned.
\<close>

definition rewind_fields :: "int \<Rightarrow> entry" where
  "rewind_fields n = [(''target_n'', VInt n), (''supersedes'', VNone)]"

definition put_entry :: "int \<Rightarrow> string \<Rightarrow> entry" where
  "put_entry q msg = make_entry q ''t'' ''inbox_put'' (put_to ''ann'' msg)"

definition past :: "entry list" where
  "past = [put_entry 1 ''m1'', put_entry 2 ''m2'', make_entry 3 ''t'' REWIND_KIND (rewind_fields 1), put_entry 4 ''m3'']"

definition put_log :: "string \<Rightarrow> state_log \<Rightarrow> state_log" where
  "put_log msg wl = snd (append_entry ''inbox_put'' (put_to ''ann'' msg) ''t'' wl)"

definition past_log :: state_log where
  "past_log = put_log ''m3'' (snd (append_entry REWIND_KIND (rewind_fields 1) ''t'' (put_log ''m2'' (put_log ''m1'' log0))))"

definition first_message :: agent_snapshot where
  "first_message = (empty_snapshot ''ann'' ''main'')\<lparr>applied_seq := 1,
     inbox := [VDict [(''id'', VStr ''m1''), (''kind'', VStr ''user''), (''payload'', VDict [])]]\<rparr>"

lemma put_to_ok: "job_ok (AppendJob ''inbox_put'' (put_to ''ann'' ''m1''))" "job_ok (AppendJob ''inbox_put'' (put_to ''ann'' ''m2''))"
  "job_ok (AppendJob ''inbox_put'' (put_to ''ann'' ''m3''))" "job_ok (AppendJob REWIND_KIND (rewind_fields 1))"
  by code_simp+

lemma put_log_holds:
  assumes "holds wl es" and "job_ok (AppendJob ''inbox_put'' (put_to ''ann'' msg))"
    and "fst (append_entry ''inbox_put'' (put_to ''ann'' msg) ''t'' wl) = Inr q"
  shows "holds (put_log msg wl) (es @ [put_entry q msg])"
  using append_runs(2) [OF assms] by (simp add: put_log_def put_entry_def)

lemma past_log_holds: "holds past_log past"
proof -
  have "fst (append_entry ''inbox_put'' (put_to ''ann'' ''m1'') ''t'' log0) = Inr 1" by code_simp
  note h1 = put_log_holds [OF log0_holds put_to_ok(1) this]
  have "fst (append_entry ''inbox_put'' (put_to ''ann'' ''m2'') ''t'' (put_log ''m1'' log0)) = Inr 2" by code_simp
  note h2 = put_log_holds [OF h1 put_to_ok(2) this]
  have "fst (append_entry REWIND_KIND (rewind_fields 1) ''t'' (put_log ''m2'' (put_log ''m1'' log0))) = Inr 3" by code_simp
  note h3 = append_runs(2) [OF h2 put_to_ok(4) this]
  have "fst (append_entry ''inbox_put'' (put_to ''ann'' ''m3'') ''t''
      (snd (append_entry REWIND_KIND (rewind_fields 1) ''t'' (put_log ''m2'' (put_log ''m1'' log0))))) = Inr 4" by code_simp
  note h4 = put_log_holds [OF h3 put_to_ok(3) this]
  then show ?thesis by (simp add: past_log_def past_def)
qed

lemma past_seqs: "map entry_seq past = [1, 2, 3, 4]" "\<forall>e\<in>set past. seq_of e \<noteq> None"
proof -
  show "map entry_seq past = [1, 2, 3, 4]" by code_simp
  have "list_all (\<lambda>e. seq_of e \<noteq> None) past" by code_simp
  then show "\<forall>e\<in>set past. seq_of e \<noteq> None" by (simp add: list_all_iff)
qed

lemma past_numbered: "numbered past"
  using past_seqs by (simp add: numbered_def)

subsection \<open>Snapshots\<close>

theorem snapshot_roundtrip_witness:
  "load_snapshot ''ann'' ''other'' (Some (serialize first_message)) = Inr first_message"
proof -
  have "json_ok (VDict (to_payload first_message))" "utf8_ok (serialize first_message)" "agent_name first_message = ''ann''"
    by code_simp+
  then show ?thesis using snapshot_roundtrip [of first_message "''other''"] by simp
qed

theorem recovery_exact_witness:
  "erase (apply_events (filter (\<lambda>e. 1 < entry_seq e) ([put_entry 1 ''m1''] @ [put_entry 2 ''m2''])) (at_seq 1 first_message))
    = erase (apply_events ([put_entry 1 ''m1''] @ [put_entry 2 ''m2'']) (empty_snapshot ''ann'' ''main''))"
proof (rule recovery_exact)
  show "numbered ([put_entry 1 ''m1''] @ [put_entry 2 ''m2''])"
    using past_numbered by (simp add: past_def numbered_def)
  show "apply_events [put_entry 1 ''m1''] (empty_snapshot ''ann'' ''main'') = Inr first_message" by code_simp
  show "applied_seq (empty_snapshot ''ann'' ''main'') \<le> 1" by code_simp
  have "entry_seq (put_entry 1 ''m1'') = 1" "entry_seq (put_entry 2 ''m2'') = 2" by code_simp+
  then show "\<forall>e\<in>set [put_entry 1 ''m1'']. own (empty_snapshot ''ann'' ''main'') e \<longrightarrow> entry_seq e \<le> 1"
    and "\<forall>e\<in>set [put_entry 2 ''m2'']. own (empty_snapshot ''ann'' ''main'') e \<longrightarrow> 1 < entry_seq e"
    and "\<forall>e\<in>set ([put_entry 1 ''m1''] @ [put_entry 2 ''m2'']). 1 < entry_seq e \<longrightarrow> 1 < entry_seq e" by simp_all
qed

subsection \<open>The journal\<close>

definition ann_journal :: journal where
  "ann_journal = \<lparr>has_log = True, journal_agent = ''ann'', journal_session = ''main'', live_object = 0,
     live = empty_snapshot ''ann'' ''main'', snapshot_interval = 20, appends_since = 0, jobs = [], wal = log0,
     snapshot_file = Some (to_payload (empty_snapshot ''ann'' ''main'')), generations = []\<rparr>"

lemma ann_started: "started ann_journal"
proof -
  have "holds (wal ann_journal) []" using log0_holds by (simp add: ann_journal_def)
  then show ?thesis by (auto simp: started_def ann_journal_def empty_snapshot_def log0_def intro!: exI [of _ "[]"])
qed

definition ann_put :: journal where
  "ann_put = append_inbox ''m1'' ''user'' [] ann_journal"



subsection \<open>What replay makes of a chain\<close>

definition chain_fields :: "pyval dict" where
  "chain_fields = register_fields (VDict [(''agent_name'', VStr ''bob''), (''session_id'', VStr ''main'')]) 1 (VStr ''do'') [VStr ''cy'']
     VNone (VStr ''10:00'')"

definition ann_chain :: "journal snap" where
  "ann_chain = rbind (mutate (ChainRegister ''c1'' chain_fields) ann_journal)
     (mutate (ChainUpdate ''c1'' [(''waiting_on'', VList [])]))"

text \<open>A field of the session's only chain, in memory and as recovered.\<close>

definition chain_get :: "string \<Rightarrow> agent_snapshot \<Rightarrow> pyval option" where
  "chain_get k s = (case dget (pending_chains s) ''c1'' of Some (VDict d) \<Rightarrow> dget d k | _ \<Rightarrow> None)"

text \<open>A chain does not survive a restart as it was: after a chain is registered and updated and the worker
  has written both entries, the snapshot in memory has the time of registration and no entry time,
  but what a restart recovers has lost the time of registration and carries the time of the update's
  entry as a field of the chain.\<close>

theorem chain_changes_on_recovery:
  "case ann_chain of
     Inl _ \<Rightarrow> False
   | Inr j \<Rightarrow>
       (let k = run_job ''t2'' (run_job ''t1'' j) in
        jobs k = [] \<and> chain_get ''registered_at'' (live k) = Some (VStr ''10:00'') \<and> chain_get ''ts'' (live k) = None
        \<and> (case recover k of
             Inl _ \<Rightarrow> False
           | Inr s \<Rightarrow> chain_get ''registered_at'' s = None \<and> chain_get ''ts'' s = Some (VStr ''t2'')))"
  by code_simp

subsection \<open>Rewinding\<close>

theorem active_is_history_witness:
  "is_active (abandoned_intervals [(3, 1)]) 2 \<longleftrightarrow> history [(3, 1)] 4 2"
  by (rule active_is_history) simp_all

theorem checkout_activates_history_witness:
  "is_active (abandoned_intervals ([(3, 1)] @ [(5, 2)])) 2 \<longleftrightarrow> 5 \<le> (2 :: int) \<or> history [(3, 1)] 2 2"
  by (rule checkout_activates_history [of _ _ _ 6]) simp_all

theorem branches_never_nest_witness:
  "\<exists>b\<in>set (list_branches 4 (abandoned_intervals [(3, 1)])). branch_id b = 3 \<and> parent_branch b = Some ACTIVE_BRANCH_ID"
proof -
  let ?b = "\<lparr>branch_id = 3, fork_point = 1, head_seq = 2, parent_branch = Some 0, branch_active = False\<rparr>"
  have m: "?b \<in> set (list_branches 4 (abandoned_intervals [(3, 1)]))"
    by (simp add: list_branches_def abandoned_intervals_def branch_of_seq_def ACTIVE_BRANCH_ID_def)
  from branches_never_nest [OF _ _ m] have "parent_branch ?b = Some ACTIVE_BRANCH_ID" by simp
  then show ?thesis using m by force
qed

theorem active_predecessor_is_greatest_witness:
  "greatest (\<lambda>s. s < 4 \<and> history [(3, 1)] 4 s) [1, 2] (lineage_predecessor 4 (abandoned_intervals [(3, 1)]) [1, 2] 4)"
  by (rule active_predecessor_is_greatest) (simp_all add: abandoned_intervals_def is_active_def within_any_def)

definition first_generation :: generation_store where
  "first_generation = [(1, to_payload first_message)]"

lemma first_generation_ok: "store_ok past [(3, 1)] ''ann'' ''main'' first_generation"
proof -
  have "history [(3, 1)] 1 1" by (rule history.Here)
  then have "as_of past [(3, 1)] 1 1 = [put_entry 1 ''m1'']" using past_seqs(1) by (auto simp: as_of_def past_def)
  moreover have "erase (apply_events [put_entry 1 ''m1''] (empty_snapshot ''ann'' ''main'')) = Inr (at_seq 0 first_message)"
    and "load_dict ''ann'' ''main'' (to_payload first_message) = Inr first_message"
    and "agent_name first_message = ''ann''" "session_id first_message = ''main''" "applied_seq first_message = 1" by code_simp+
  ultimately have "generation_ok past [(3, 1)] ''ann'' ''main'' 1 (to_payload first_message)"
    unfolding generation_ok_def by simp
  then show ?thesis by (simp add: store_ok_def first_generation_def)
qed



end
