(* ===== verification/Worker.thy ===== *)
theory Worker
  imports WalCases
begin

section \<open>The durability worker\<close>

text \<open>
  \<open>src/reyn/core/events/durability_worker.py\<close>: one worker runs the durable writes of a process in the
  order they were submitted and tries a write again when the operating system refuses it.  A write
  is a function of the number of the attempt, which stands for the time and the disk it meets.
\<close>

subsection \<open>Writes and attempts\<close>

datatype write_exc = WriteOSError | WriteError

type_synonym 's attempt = "nat \<Rightarrow> 's \<Rightarrow> write_exc option \<times> 's"

function run_with_retry :: "nat \<Rightarrow> nat \<Rightarrow> 's attempt \<Rightarrow> 's \<Rightarrow> write_exc option \<times> 's" where
  "run_with_retry max_attempts i w s =
     (case w i s of
        (Some WriteOSError, s') \<Rightarrow>
          if i + 1 \<ge> max_attempts then (Some WriteOSError, s') else run_with_retry max_attempts (i + 1) w s'
      | r \<Rightarrow> r)"
  by pat_completeness auto
termination
  by (relation "measure (\<lambda>(n, i, _). n - i)") auto

declare run_with_retry.simps [simp del]

subsection \<open>The queue\<close>

text \<open>
  An item is a write and whether a caller awaits it.  A burst of the drainer leaves the answers to
  the callers in order, whether a write nobody awaits has failed for good, and the state.
\<close>

type_synonym 's item = "'s attempt \<times> bool"
type_synonym 's burst = "write_exc option list \<times> bool \<times> 's"

record 's worker =
  max_write_attempts :: nat
  on_drain_start :: "('s \<Rightarrow> 's) option"
  on_drain_end :: "'s attempt option"
  queue :: "'s item list"
  durability_failed :: bool

definition submit :: "'s attempt \<Rightarrow> 's worker \<Rightarrow> 's worker" where
  "submit w wk = wk\<lparr>queue := queue wk @ [(w, True)]\<rparr>"

definition submit_nowait :: "'s attempt \<Rightarrow> 's worker \<Rightarrow> 's worker" where
  "submit_nowait w wk = wk\<lparr>queue := queue wk @ [(w, False)]\<rparr>"

definition settle_item :: "nat \<Rightarrow> 's item \<Rightarrow> 's burst \<Rightarrow> 's burst" where
  "settle_item n it b =
     (case (it, b) of ((w, awaited), (answers, failed, s)) \<Rightarrow>
        (case run_with_retry n 0 w s of
           (None, s') \<Rightarrow> (if awaited then answers @ [None] else answers, failed, s')
         | (Some e, s') \<Rightarrow> if awaited then (answers @ [Some e], failed, s') else (answers, True, s')))"

text \<open>The loop: the job that ends a burst is queued while the last item still counts as unfinished.\<close>

function drain_loop :: "nat \<Rightarrow> 's attempt option \<Rightarrow> bool \<Rightarrow> 's item list \<Rightarrow> 's burst \<Rightarrow> 's burst" where
  "drain_loop n fin enqueued q b =
     (case q of
        [] \<Rightarrow> (case fin of
            Some h \<Rightarrow> if enqueued then b else drain_loop n fin True [(h, False)] b
          | None \<Rightarrow> b)
      | it # q' \<Rightarrow>
          (case fin of
             Some h \<Rightarrow>
               if \<not> enqueued \<and> q' = [] then drain_loop n fin True [(h, False)] (settle_item n it b)
               else drain_loop n fin enqueued q' (settle_item n it b)
           | None \<Rightarrow> drain_loop n fin enqueued q' (settle_item n it b)))"
  by pat_completeness auto
termination
  by (relation "measure (\<lambda>(n, fin, enqueued, q, _). length q + (if enqueued then 0 else 2))") auto

declare drain_loop.simps [simp del]

definition flush :: "'s worker \<Rightarrow> 's \<Rightarrow> write_exc option list \<times> 's worker \<times> 's" where
  "flush wk s =
     (let s0 = (case on_drain_start wk of None \<Rightarrow> s | Some f \<Rightarrow> f s);
          (answers, failed, s1) = drain_loop (max_write_attempts wk) (on_drain_end wk) False (queue wk) ([], durability_failed wk, s0) in
      (answers, wk\<lparr>queue := [], durability_failed := failed\<rparr>, s1))"

lemma drain_step:
  assumes "fin = None \<or> enqueued"
  shows "drain_loop n fin enqueued [] b = b"
    and "drain_loop n fin enqueued (it # q) b = drain_loop n fin enqueued q (settle_item n it b)"
  using assms by (subst drain_loop.simps, auto split: option.split)+

lemma drain_enqueued: "fin = None \<or> enqueued \<Longrightarrow> drain_loop n fin enqueued q b = fold (settle_item n) q b"
  by (induction q arbitrary: b) (simp_all add: drain_step)

lemma drain_burst: "drain_loop n (Some h) False q b = fold (settle_item n) (q @ [(h, False)]) b"
proof (induction q arbitrary: b)
  case Nil
  then show ?case by (subst drain_loop.simps) (simp add: drain_enqueued)
next
  case (Cons it q)
  then show ?case by (subst drain_loop.simps) (auto simp: drain_enqueued)
qed

text \<open>The worker runs what was submitted in that order, each write until it ends or its attempts are
  used up, and then, exactly once and last, the job that ends the burst, also when the burst is empty;
  a write that fails for good stops none of the others, its caller is told, and without a caller the
  failure is latched.\<close>

theorem flush_runs_in_order:
  "flush wk s =
     (let s0 = (case on_drain_start wk of None \<Rightarrow> s | Some f \<Rightarrow> f s);
          (answers, failed, s1) = fold (settle_item (max_write_attempts wk))
            (queue wk @ (case on_drain_end wk of None \<Rightarrow> [] | Some h \<Rightarrow> [(h, False)])) ([], durability_failed wk, s0) in
      (answers, wk\<lparr>queue := [], durability_failed := failed\<rparr>, s1))"
  by (cases "on_drain_end wk") (simp_all add: flush_def drain_enqueued drain_burst)

subsection \<open>The write of an entry\<close>

text \<open>
  What the disk does to one attempt: it takes the line; it does not open the file; or it fails after
  some of the bytes are in the file, which the failure does not take back.
\<close>

datatype disk = Synced | Refused | FailedAfter nat

definition wal_write :: "string \<Rightarrow> entry \<Rightarrow> (nat \<Rightarrow> string) \<Rightarrow> (nat \<Rightarrow> disk) \<Rightarrow> state_log attempt" where
  "wal_write kind flds clock disk i wl =
     (case begin_write kind flds (clock i) wl of
        (Inl _, wl') \<Rightarrow> (Some WriteError, wl')
      | (Inr q, wl') \<Rightarrow>
          (case disk i of
             Synced \<Rightarrow> (None, finish_write q wl')
           | Refused \<Rightarrow> (Some WriteOSError, wl'\<lparr>wal_file := wal_file wl, inflight := None\<rparr>)
           | FailedAfter k \<Rightarrow>
               (Some WriteOSError, wl'\<lparr>inflight := None,
                  wal_file := Some (file_bytes wl @ take k (wal_line (make_entry q (clock i) kind flds)))\<rparr>)))"

text \<open>Whether the line of an entry can be written at all.\<close>

definition printable :: "int \<Rightarrow> string \<Rightarrow> string \<Rightarrow> entry \<Rightarrow> bool" where
  "printable q ts kind flds \<longleftrightarrow>
     dumpable (VDict (make_entry q ts kind flds)) \<and> utf8_ok (json_dumps (VDict (make_entry q ts kind flds)))"

lemma begin_printable:
  "printable (counter wl + 1) ts kind flds \<Longrightarrow> begin_write kind flds ts wl =
     (Inr (counter wl + 1), wl\<lparr>counter := counter wl + 1, last_assigned := counter wl + 1, inflight := Some (counter wl + 1),
        wal_file := Some (file_bytes wl @ wal_line (make_entry (counter wl + 1) ts kind flds))\<rparr>)"
  by (simp add: begin_write_def printable_def Let_def)

lemma wal_write_refused:
  assumes "holds wl es" and "printable (counter wl + 1) (clock i) kind flds" and "disk i \<in> {Refused, FailedAfter 0}"
  obtains wl' where "wal_write kind flds clock disk i wl = (Some WriteOSError, wl')" "holds wl' es" "counter wl' = counter wl + 1"
proof
  let ?wl = "snd (wal_write kind flds clock disk i wl)"
  show "wal_write kind flds clock disk i wl = (Some WriteOSError, ?wl)" "counter ?wl = counter wl + 1"
    using assms(3) by (auto simp: wal_write_def begin_printable [where kind = kind, OF assms(2)])
  show "holds ?wl es"
    using assms(1,3) by (auto simp: wal_write_def begin_printable [where kind = kind, OF assms(2)] holds_def file_bytes_def)
qed

lemma retry_lemma:
  assumes "json_ok (VDict flds)" and "plain flds"
  shows "holds wl es \<Longrightarrow> i + n < max_attempts \<Longrightarrow> \<forall>k<n. disk (i + k) \<in> {Refused, FailedAfter 0} \<Longrightarrow> disk (i + n) = Synced \<Longrightarrow>
    \<forall>k\<le>n. printable (counter wl + int k + 1) (clock (i + k)) kind flds \<Longrightarrow>
    \<exists>wl'. run_with_retry max_attempts i (wal_write kind flds clock disk) wl = (None, wl')
      \<and> holds wl' (es @ [make_entry (counter wl + int n + 1) (clock (i + n)) kind flds])
      \<and> counter wl' = counter wl + int n + 1 \<and> last_durable wl' = counter wl + int n + 1"
proof (induction n arbitrary: i wl)
  case 0
  have p: "printable (counter wl + 1) (clock i) kind flds" using 0(5) by simp
  note b = begin_printable [OF p]
  have "wal_write kind flds clock disk i wl = (None, finish_write (counter wl + 1) (snd (begin_write kind flds (clock i) wl)))"
    using 0(4) by (simp add: wal_write_def b)
  moreover have "holds (finish_write (counter wl + 1) (snd (begin_write kind flds (clock i) wl)))
      (es @ [make_entry (counter wl + 1) (clock i) kind flds])"
    using finish_holds [OF 0(1) assms b] by (simp add: b)
  ultimately show ?case by (subst run_with_retry.simps) (simp add: b finish_write_def)
next
  case (Suc n)
  have p: "printable (counter wl + 1) (clock i) kind flds" using Suc.prems(5) by (metis add.right_neutral int_ops(1) le0)
  have d: "disk i \<in> {Refused, FailedAfter 0}" using Suc.prems(3) by (metis add.right_neutral zero_less_Suc)
  obtain w where w: "wal_write kind flds clock disk i wl = (Some WriteOSError, w)" "holds w es" "counter w = counter wl + 1"
    by (rule wal_write_refused [where clock = clock and disk = disk and i = i, OF Suc.prems(1) p d])
  have later: "printable (counter w + int k + 1) (clock (i + 1 + k)) kind flds" if "k \<le> n" for k
    using Suc.prems(5) [rule_format, of "Suc k"] that by (simp add: w(3) algebra_simps)
  have "\<forall>k<n. disk (i + 1 + k) \<in> {Refused, FailedAfter 0}" using Suc.prems(3) by auto
  with Suc.IH [OF w(2), of "i + 1"] Suc.prems(2,4) later obtain wl' where
    "run_with_retry max_attempts (i + 1) (wal_write kind flds clock disk) w = (None, wl')"
    "holds wl' (es @ [make_entry (counter w + int n + 1) (clock (i + 1 + n)) kind flds])"
    "counter wl' = counter w + int n + 1" "last_durable wl' = counter w + int n + 1" by auto
  then show ?case using w(1,3) Suc.prems(2) by (subst run_with_retry.simps) (simp add: algebra_simps)
qed

text \<open>C16: A write that is tried again writes its entry once: as long as the failed attempts left no byte in the
  file, the attempt that succeeds adds exactly one entry to what every reader sees, acknowledged under
  a number that counts the failed attempts too.\<close>

theorem retry_appends_once:
  assumes "holds wl es" and "json_ok (VDict flds)" and "plain flds" and "n < max_attempts"
    and "\<forall>k<n. disk k \<in> {Refused, FailedAfter 0}" and "disk n = Synced"
    and "\<forall>k\<le>n. printable (counter wl + int k + 1) (clock k) kind flds"
  shows "\<exists>wl'. run_with_retry max_attempts 0 (wal_write kind flds clock disk) wl = (None, wl')
    \<and> holds wl' (es @ [make_entry (counter wl + int n + 1) (clock n) kind flds])
    \<and> counter wl' = counter wl + int n + 1 \<and> last_durable wl' = counter wl + int n + 1"
  using retry_lemma [OF assms(2,3,1), of 0 n max_attempts disk clock kind] assms by simp

theorem retry_appends_once_witness:
  "\<exists>wl'. run_with_retry 5 0 (wal_write ''inbox_put'' (put_fields ''m2'') (\<lambda>_. ''t'') (\<lambda>k. if k < 2 then Refused else Synced)) log1 = (None, wl')
    \<and> holds wl' ([entry1] @ [make_entry (1 + int 2 + 1) ''t'' ''inbox_put'' (put_fields ''m2'')])"
proof -
  have c: "counter log1 = 1" by code_simp
  have p: "printable 2 ''t'' ''inbox_put'' (put_fields ''m2'')" "printable 3 ''t'' ''inbox_put'' (put_fields ''m2'')"
    "printable 4 ''t'' ''inbox_put'' (put_fields ''m2'')" by code_simp+
  have "printable (counter log1 + int k + 1) ''t'' ''inbox_put'' (put_fields ''m2'')" if "k \<le> 2" for k :: nat
  proof -
    have "k = 0 \<or> k = 1 \<or> k = 2" using that by auto
    then show ?thesis using p by (auto simp: c)
  qed
  then show ?thesis
    using retry_appends_once [OF log1_holds put_fields_ok(2) put_fields_seq, of 2 5 "\<lambda>k. if k < 2 then Refused else Synced" "\<lambda>_. ''t''" "''inbox_put''"]
    by (auto simp: c)
qed

subsection \<open>Attempts that leave bytes behind\<close>

definition entry2_again :: entry where "entry2_again = make_entry 3 ''t'' ''inbox_put'' (put_fields ''m2'')"

definition retried :: "nat \<Rightarrow> write_exc option \<times> state_log" where
  "retried k = run_with_retry 5 0
     (wal_write ''inbox_put'' (put_fields ''m2'') (\<lambda>_. ''t'') (\<lambda>i. if i = 0 then FailedAfter k else Synced)) log1"

lemma retried_file:
  "retried k = (None, \<lparr>wal_file = Some (file_of [entry1] @ take k (wal_line entry2) @ wal_line entry2_again), wal_inode = 0,
     counter = 3, last_assigned = 3, last_durable = 3, inflight = None, stats = no_stats\<rparr>)"
proof -
  have l: "log1 = \<lparr>wal_file = Some (wal_line entry1), wal_inode = 0, counter = 1, last_assigned = 1, last_durable = 1, inflight = None,
      stats = no_stats\<rparr>" by code_simp
  have p: "printable 2 ''t'' ''inbox_put'' (put_fields ''m2'')" "printable 3 ''t'' ''inbox_put'' (put_fields ''m2'')" by code_simp+
  have "wal_write ''inbox_put'' (put_fields ''m2'') (\<lambda>_. ''t'') (\<lambda>i. if i = 0 then FailedAfter k else Synced) 0 log1 =
      (Some WriteOSError, \<lparr>wal_file = Some (wal_line entry1 @ take k (wal_line entry2)), wal_inode = 0, counter = 2, last_assigned = 2,
        last_durable = 1, inflight = None, stats = no_stats\<rparr>)"
    using p(1) by (simp add: wal_write_def begin_printable l entry2_def file_bytes_def wal_line_text)
  then show ?thesis using p(2)
    by (simp add: retried_def run_with_retry.simps wal_write_def begin_printable finish_write_def file_bytes_def entry2_again_def wal_line_text)
qed


end
