(* ===== verification/IsoTime.thy ===== *)
theory IsoTime
  imports Prelude
begin

section \<open>Points in time and their text\<close>

text \<open>
  What the services use of Python's \<open>datetime\<close>: aware times in UTC, counted in microseconds since
  1970, and the text \<open>isoformat\<close> writes and \<open>fromisoformat\<close> reads.  Times before 1970 do not occur,
  and a time after the year 9999 does not exist in Python.
\<close>

subsection \<open>The calendar\<close>

definition leap :: "nat \<Rightarrow> bool" where
  "leap y \<longleftrightarrow> y mod 4 = 0 \<and> (y mod 100 \<noteq> 0 \<or> y mod 400 = 0)"

definition year_days :: "nat \<Rightarrow> nat" where
  "year_days y = (if leap y then 366 else 365)"

definition month_lengths :: "nat \<Rightarrow> nat list" where
  "month_lengths y = [31, if leap y then 29 else 28, 31, 30, 31, 30, 31, 31, 30, 31, 30, 31]"

function find_year :: "nat \<Rightarrow> nat \<Rightarrow> nat \<times> nat" where
  "find_year y d = (if d < year_days y then (y, d) else find_year (y + 1) (d - year_days y))"
  by pat_completeness auto
termination
  by (relation "measure snd") (auto simp: year_days_def split: if_splits)

declare find_year.simps [simp del]

fun find_month :: "nat list \<Rightarrow> nat \<Rightarrow> nat \<times> nat" where
  "find_month [] d = (0, d)"
| "find_month (n # ns) d = (if d < n then (0, d) else (case find_month ns (d - n) of (m, r) \<Rightarrow> (m + 1, r)))"

definition days_from :: "nat \<Rightarrow> nat \<Rightarrow> nat" where
  "days_from y z = sum_list (map year_days [y..<z])"

lemma find_year_days:
  "find_year y d = (z, r) \<Longrightarrow> y \<le> z \<and> r < year_days z \<and> days_from y z + r = d"
proof (induction y d rule: find_year.induct)
  case (1 y d)
  show ?case
  proof (cases "d < year_days y")
    case True
    then show ?thesis using "1.prems" by (simp add: find_year.simps [of y] days_from_def)
  next
    case False
    then have "find_year (y + 1) (d - year_days y) = (z, r)" using "1.prems" by (simp add: find_year.simps [of y])
    from "1.IH" [OF False this] have z: "y + 1 \<le> z" "r < year_days z" "days_from (y + 1) z + r = d - year_days y" by auto
    have "days_from y z = year_days y + days_from (y + 1) z" using z(1) by (simp add: days_from_def upt_rec)
    then show ?thesis using z False by simp
  qed
qed

lemma find_month_days:
  "find_month ns d = (m, r) \<Longrightarrow> d < sum_list ns \<Longrightarrow> m < length ns \<and> r < ns ! m \<and> sum_list (take m ns) + r = d"
proof (induction ns arbitrary: d m r)
  case (Cons n ns)
  show ?case
  proof (cases "d < n")
    case False
    then obtain k where k: "find_month ns (d - n) = (k, r)" "m = k + 1" using Cons.prems(1) by (auto split: prod.splits)
    have "d - n < sum_list ns" using Cons.prems(2) False by simp
    from Cons.IH [OF k(1) this] False show ?thesis unfolding k(2) by auto
  qed (use Cons.prems in auto)
qed simp

lemma month_sum: "sum_list (month_lengths y) = year_days y"
  by (simp add: month_lengths_def year_days_def)

subsection \<open>Digits\<close>

fun pad :: "nat \<Rightarrow> nat \<Rightarrow> string" where
  "pad 0 n = []"
| "pad (Suc k) n = pad k (n div 10) @ [digit_char (n mod 10)]"

lemma pad_length [simp]: "length (pad k n) = k"
  by (induction k arbitrary: n) auto

lemma str_nat_snoc: "str_nat (s @ [c]) = 10 * str_nat s + digit_val c"
  by (simp add: str_nat_def)

lemma str_nat_pad: "n < 10 ^ k \<Longrightarrow> str_nat (pad k n) = n"
proof (induction k arbitrary: n)
  case (Suc k)
  then have "n div 10 < 10 ^ k" by (simp add: less_mult_imp_div_less mult.commute)
  then show ?case using Suc.IH [of "n div 10"] by (simp add: str_nat_snoc)
qed (simp add: str_nat_def)

subsection \<open>The text of a time\<close>

definition day_us :: nat where "day_us = 86400000000"

definition representable :: "nat \<Rightarrow> bool" where
  "representable t \<longleftrightarrow> fst (find_year 1970 (t div day_us)) < 10000"

definition isoformat :: "nat \<Rightarrow> string" where
  "isoformat t =
     (let (y, yd) = find_year 1970 (t div day_us); (m, d) = find_month (month_lengths y) yd;
          us = t mod day_us; s = us div 1000000; frac = us mod 1000000 in
      pad 4 y @ ''-'' @ pad 2 (m + 1) @ ''-'' @ pad 2 (d + 1) @ ''T'' @
      pad 2 (s div 3600) @ '':'' @ pad 2 (s div 60 mod 60) @ '':'' @ pad 2 (s mod 60) @
      (if frac = 0 then [] else ''.'' @ pad 6 frac) @ ''+00:00'')"

definition part :: "nat \<Rightarrow> nat \<Rightarrow> string \<Rightarrow> nat" where
  "part i k s = str_nat (take k (drop i s))"

definition read_fields :: "string \<Rightarrow> nat" where
  "read_fields s =
     (let y = part 0 4 s; m = part 5 2 s - 1; d = part 8 2 s - 1 in
      (days_from 1970 y + sum_list (take m (month_lengths y)) + d) * day_us
      + ((part 11 2 s * 60 + part 14 2 s) * 60 + part 17 2 s) * 1000000
      + (if length s = 32 then part 20 6 s else 0))"

text \<open>\<open>None\<close>: a text \<open>isoformat\<close> does not write.\<close>

definition fromisoformat :: "string \<Rightarrow> nat option" where
  "fromisoformat s = (let t = read_fields s in if representable t \<and> isoformat t = s then Some t else None)"

lemma fields_read:
  assumes "y < 10000" and "m < 99" and "d < 99" and "h < 100" and "mi < 100" and "se < 100" and "f < 1000000"
    and s: "s = pad 4 y @ ''-'' @ pad 2 (m + 1) @ ''-'' @ pad 2 (d + 1) @ ''T'' @
      pad 2 h @ '':'' @ pad 2 mi @ '':'' @ pad 2 se @ (if f = 0 then [] else ''.'' @ pad 6 f) @ ''+00:00''"
  shows "read_fields s = (days_from 1970 y + sum_list (take m (month_lengths y)) + d) * day_us
    + ((h * 60 + mi) * 60 + se) * 1000000 + f"
proof -
  have two: "str_nat (pad 2 n) = n" if "n < 100" for n using str_nat_pad [of n 2] that by simp
  have "part 0 4 s = y" using str_nat_pad [of y 4] assms(1) by (simp add: part_def s)
  moreover have "part 5 2 s = m + 1" "part 8 2 s = d + 1" "part 11 2 s = h" "part 14 2 s = mi" "part 17 2 s = se"
    using assms(2-6) by (simp_all add: part_def s two)
  moreover have "(if length s = 32 then part 20 6 s else 0) = f"
    using str_nat_pad [of f 6] assms(7) by (simp add: part_def s)
  ultimately show ?thesis by (simp add: read_fields_def Let_def)
qed

lemma read_isoformat:
  assumes "representable t"
  shows "read_fields (isoformat t) = t"
proof -
  obtain y yd where y: "find_year 1970 (t div day_us) = (y, yd)" by (cases "find_year 1970 (t div day_us)")
  obtain m d where m: "find_month (month_lengths y) yd = (m, d)" by (cases "find_month (month_lengths y) yd")
  note yy = find_year_days [OF y]
  have "yd < sum_list (month_lengths y)" using yy by (simp add: month_sum)
  note mm = find_month_days [OF m this]
  have "m < 12" using mm by (simp add: month_lengths_def)
  moreover have "d < 31"
  proof -
    have "\<forall>n\<in>set (month_lengths y). n \<le> 31" by (simp add: month_lengths_def)
    then have "month_lengths y ! m \<le> 31" using mm nth_mem by blast
    then show ?thesis using mm by linarith
  qed
  moreover have "y < 10000" using assms by (simp add: representable_def y)
  moreover define us where "us = t mod day_us"
  moreover define s where "s = us div 1000000"
  have "us < day_us" by (simp add: us_def day_us_def)
  then have "s < 86400" by (simp add: s_def day_us_def less_mult_imp_div_less)
  then have hour: "s div 3600 < 100" using less_mult_imp_div_less [of s 24 3600] by simp
  have "s div 60 mod 60 < 60" "s mod 60 < 60" "us mod 1000000 < 1000000" by simp_all
  then have small: "s div 60 mod 60 < 100" "s mod 60 < 100" "us mod 1000000 < 1000000" by linarith+
  have iso: "isoformat t = pad 4 y @ ''-'' @ pad 2 (m + 1) @ ''-'' @ pad 2 (d + 1) @ ''T'' @ pad 2 (s div 3600) @ '':'' @
      pad 2 (s div 60 mod 60) @ '':'' @ pad 2 (s mod 60) @ (if us mod 1000000 = 0 then [] else ''.'' @ pad 6 (us mod 1000000)) @ ''+00:00''"
    by (simp add: isoformat_def y m Let_def s_def us_def)
  ultimately have "read_fields (isoformat t) = (days_from 1970 y + sum_list (take m (month_lengths y)) + d) * day_us
      + ((s div 3600 * 60 + s div 60 mod 60) * 60 + s mod 60) * 1000000 + us mod 1000000"
    by (intro fields_read [OF _ _ _ hour small iso]) simp_all
  moreover have "days_from 1970 y + sum_list (take m (month_lengths y)) + d = t div day_us" using yy mm by simp
  moreover have "(s div 3600 * 60 + s div 60 mod 60) * 60 + s mod 60 = s"
  proof -
    have "s div 3600 = s div 60 div 60" by (simp add: div_mult2_eq [symmetric])
    then have "s div 3600 * 60 + s div 60 mod 60 = s div 60" by simp
    then show ?thesis by simp
  qed
  moreover have "t div day_us * day_us + (s * 1000000 + us mod 1000000) = t" by (simp add: s_def us_def)
  ultimately show ?thesis by simp
qed

lemma iso_roundtrip: "representable t \<Longrightarrow> fromisoformat (isoformat t) = Some t"
  by (simp add: fromisoformat_def read_isoformat)

end
