(* ===== verification/Chains.thy ===== *)
theory Chains
  imports IsoTime JournalRun
begin

section \<open>Pending chains and their deadlines\<close>

text \<open>
  \<open>src/reyn/runtime/services/chain_manager.py\<close>: the requests an agent has passed on, or the tasks it
  waits for, each with a watchdog that fires at a deadline.  Every change goes through the journal, so
  that the chains and their deadlines come back after a restart; what belongs to the process (the
  status and the hook that cancels a task) does not.  Times are microseconds; a set of names is a
  sorted list.  A stored value that no code writes gives \<open>ChainOutside\<close>, and an operation that raises
  returns the exception without a state.
\<close>

datatype chain_exc =
    ChainKeyError string
  | ChainTypeError
  | ChainAttributeError
  | ChainOverflowError
  | ChainNotImplemented string
  | ChainCallback
  | ChainJournal snap_exc
  | ChainOutside

record requester =
  requester_agent :: string
  requester_session :: string

datatype run_status = Running | InputRequired | Completed | Failed | Cancelled

record pending_chain =
  pc_id :: string
  pc_requester :: requester
  origin_depth :: int
  original_request :: string
  waiting_on :: "string list"
  pc_kind :: "string option"
  status :: run_status
  cancel_hook :: "nat option"
  arm_at :: "nat option"
  registered_at :: "nat option"
  cancel_requested_at :: "nat option"

text \<open>A watchdog: when it was started and how long it sleeps.\<close>

record watchdog =
  started_at :: nat
  sleeps :: int

record chain_manager =
  chain_timeout :: int
  max_hop_depth :: int
  chains :: "(string \<times> pending_chain) list"
  timers :: "(string \<times> watchdog) list"

type_synonym chain_state = "chain_manager \<times> journal"

subsection \<open>Values\<close>

fun insert_name :: "string \<Rightarrow> string list \<Rightarrow> string list" where
  "insert_name x [] = [x]"
| "insert_name x (y # ys) = (if x = y then y # ys else if str_less x y then x # y # ys else y # insert_name x ys)"

definition name_set :: "string list \<Rightarrow> string list" where
  "name_set xs = foldr insert_name xs []"

definition requester_value :: "requester \<Rightarrow> pyval" where
  "requester_value r = VDict [(''agent_name'', VStr (requester_agent r)), (''session_id'', VStr (requester_session r))]"

definition names_value :: "string list \<Rightarrow> pyval" where
  "names_value xs = VList (map VStr xs)"

definition kind_value :: "string option \<Rightarrow> pyval" where
  "kind_value k = (case k of None \<Rightarrow> VNone | Some s \<Rightarrow> VStr s)"

definition time_value :: "nat \<Rightarrow> pyval" where
  "time_value t = VStr (isoformat t)"

definition journalled :: "journal snap \<Rightarrow> (journal \<Rightarrow> 'a) \<Rightarrow> chain_exc + 'a" where
  "journalled r f = (case r of Inl e \<Rightarrow> Inl (ChainJournal e) | Inr j \<Rightarrow> Inr (f j))"

subsection \<open>Registering and updating\<close>

definition chain_register ::
  "nat \<Rightarrow> string \<Rightarrow> int \<Rightarrow> string \<Rightarrow> string option \<Rightarrow> string list \<Rightarrow> requester option \<Rightarrow> int \<Rightarrow> string option \<Rightarrow> nat option
    \<Rightarrow> chain_state \<Rightarrow> chain_exc + pending_chain \<times> chain_state" where
  "chain_register now cid depth txt sender names req odepth knd hook st =
     (case st of (m, j) \<Rightarrow>
       let r = (case req of
               Some r \<Rightarrow> r
             | None \<Rightarrow> \<lparr>requester_agent = (case sender of Some s \<Rightarrow> s | None \<Rightarrow> ''''), requester_session = ''main''\<rparr>);
           c = \<lparr>pc_id = cid, pc_requester = r, origin_depth = (if odepth \<noteq> 0 then odepth else depth),
             original_request = txt, waiting_on = name_set names, pc_kind = knd, status = Running, cancel_hook = hook,
             arm_at = None, registered_at = Some now, cancel_requested_at = None\<rparr>;
           flds = register_fields (requester_value r) (origin_depth c) (VStr txt) (map VStr (waiting_on c)) (kind_value knd)
             (time_value now) in
       journalled (record_chain_register cid flds j) (\<lambda>j'. (c, m\<lparr>chains := dset cid c (chains m)\<rparr>, j')))"

text \<open>\<open>update\<close>: the attributes callers may set, and one that a chain does not have, which is passed over.\<close>

datatype chain_attr = WaitingOn "string list" | OriginDepth int | OriginalRequest string | NoAttribute string

fun set_attr :: "chain_attr \<Rightarrow> pending_chain \<Rightarrow> pending_chain" where
  "set_attr (WaitingOn xs) c = c\<lparr>waiting_on := name_set xs\<rparr>"
| "set_attr (OriginDepth n) c = c\<lparr>origin_depth := n\<rparr>"
| "set_attr (OriginalRequest s) c = c\<lparr>original_request := s\<rparr>"
| "set_attr (NoAttribute k) c = c"

fun attr_field :: "chain_attr \<Rightarrow> pyval dict" where
  "attr_field (WaitingOn xs) = [(''waiting_on'', names_value (name_set xs))]"
| "attr_field (OriginDepth n) = [(''origin_depth'', VInt n)]"
| "attr_field (OriginalRequest s) = [(''original_request'', VStr s)]"
| "attr_field (NoAttribute k) = []"

definition chain_update :: "string \<Rightarrow> chain_attr list \<Rightarrow> chain_state \<Rightarrow> chain_exc + chain_state" where
  "chain_update cid attrs st =
     (case st of (m, j) \<Rightarrow>
       case dget (chains m) cid of
         None \<Rightarrow> Inr (m, j)
       | Some c \<Rightarrow>
           (let m' = m\<lparr>chains := dset cid (fold set_attr attrs c) (chains m)\<rparr>; flds = concat (map attr_field attrs) in
            if flds = [] then Inr (m', j) else journalled (record_chain_update cid flds j) (\<lambda>j'. (m', j'))))"

definition mark_cancel_requested :: "nat \<Rightarrow> string \<Rightarrow> chain_state \<Rightarrow> chain_exc + chain_state" where
  "mark_cancel_requested now cid st =
     (case st of (m, j) \<Rightarrow>
       case dget (chains m) cid of
         None \<Rightarrow> Inr (m, j)
       | Some c \<Rightarrow>
           journalled (record_chain_update cid [(''cancel_requested_at'', time_value now)] j)
             (\<lambda>j'. (m\<lparr>chains := dset cid (c\<lparr>cancel_requested_at := Some now\<rparr>) (chains m)\<rparr>, j')))"

subsection \<open>Ending a chain\<close>

definition cancel_timeout :: "string \<Rightarrow> chain_manager \<Rightarrow> chain_manager" where
  "cancel_timeout cid m = m\<lparr>timers := AList.delete cid (timers m)\<rparr>"

definition chain_resolve :: "string \<Rightarrow> chain_state \<Rightarrow> pending_chain option \<times> chain_state" where
  "chain_resolve cid st =
     (case st of (m, j) \<Rightarrow>
       (dget (chains m) cid, cancel_timeout cid (m\<lparr>chains := AList.delete cid (chains m)\<rparr>), record_chain_resolve cid j))"

datatype disposition = Drop | Deliver | Launch string

text \<open>\<open>settle\<close>: \<open>callback\<close> is what the awaited callback raised, \<open>launcher\<close> whether pipelines can be launched.\<close>

definition chain_settle ::
  "disposition \<Rightarrow> bool \<Rightarrow> chain_exc option \<Rightarrow> string \<Rightarrow> chain_state \<Rightarrow> chain_exc + pending_chain option \<times> chain_state" where
  "chain_settle d launcher callback cid st =
     (case d of
        Drop \<Rightarrow> Inr (chain_resolve cid st)
      | Deliver \<Rightarrow> (case callback of Some e \<Rightarrow> Inl e | None \<Rightarrow> Inr (chain_resolve cid st))
      | Launch p \<Rightarrow>
          if \<not> launcher then Inl (ChainNotImplemented p)
          else (case callback of Some e \<Rightarrow> Inl e | None \<Rightarrow> Inr (chain_resolve cid st)))"

definition fire_timeout :: "string \<Rightarrow> chain_state \<Rightarrow> pending_chain option \<times> chain_state" where
  "fire_timeout cid st =
     (case st of (m, j) \<Rightarrow>
       (dget (chains m) cid, m\<lparr>chains := AList.delete cid (chains m), timers := AList.delete cid (timers m)\<rparr>,
        record_chain_timeout_fired cid j))"

subsection \<open>Watchdogs\<close>

definition start_watchdog :: "nat \<Rightarrow> int \<Rightarrow> string \<Rightarrow> chain_manager \<Rightarrow> chain_manager" where
  "start_watchdog now duration cid m =
     m\<lparr>timers := dset cid \<lparr>started_at = now, sleeps = duration\<rparr> (AList.delete cid (timers m))\<rparr>"

definition arm_timeout :: "nat \<Rightarrow> string \<Rightarrow> chain_state \<Rightarrow> chain_exc + chain_state" where
  "arm_timeout now cid st =
     (case st of (m, j) \<Rightarrow>
       if chain_timeout m \<le> 0 then Inr (m, j)
       else
         (let due = now + nat (chain_timeout m) in
          if \<not> representable due then Inl ChainOverflowError
          else (case dget (chains m) cid of
              None \<Rightarrow> Inr (start_watchdog now (chain_timeout m) cid m, j)
            | Some c \<Rightarrow>
                journalled (record_chain_update cid [(''arm_at'', time_value due)] j)
                  (\<lambda>j'. (start_watchdog now (chain_timeout m) cid
                     (m\<lparr>chains := dset cid (c\<lparr>arm_at := Some due\<rparr>) (chains m)\<rparr>), j')))))"

definition cancel_and_join_timers :: "chain_manager \<Rightarrow> chain_manager" where
  "cancel_and_join_timers m = m\<lparr>timers := []\<rparr>"

definition chain_reset :: "chain_manager \<Rightarrow> chain_manager" where
  "chain_reset m = (cancel_and_join_timers m)\<lparr>chains := []\<rparr>"

text \<open>A watchdog wakes: whether it calls the callback that fires the timeout.\<close>

definition watchdog_wakes :: "string \<Rightarrow> chain_manager \<Rightarrow> bool \<times> chain_manager" where
  "watchdog_wakes cid m =
     (if has_key (chains m) cid then (True, m) else (False, m\<lparr>timers := AList.delete cid (timers m)\<rparr>))"

subsection \<open>Restoring\<close>

definition text_of :: "pyval \<Rightarrow> chain_exc + string" where
  "text_of v = (case v of VStr s \<Rightarrow> Inr s | _ \<Rightarrow> Inl ChainOutside)"

definition stored_item :: "pyval dict \<Rightarrow> string \<Rightarrow> chain_exc + pyval" where
  "stored_item d k = (case dget d k of None \<Rightarrow> Inl (ChainKeyError k) | Some v \<Rightarrow> Inr v)"

definition stored_requester :: "pyval dict \<Rightarrow> chain_exc + requester" where
  "stored_requester d =
     (case dget_or d ''requester'' VNone of
        VNone \<Rightarrow>
          rbind (text_of (dget_or d ''origin_agent'' (VStr ''''))) (\<lambda>a.
          rbind (text_of (or_else (dget_or d ''origin_sid'' VNone) (VStr ''main''))) (\<lambda>s.
            Inr \<lparr>requester_agent = a, requester_session = s\<rparr>))
      | VDict r \<Rightarrow>
          rbind (rbind (stored_item r ''agent_name'') text_of) (\<lambda>a.
          rbind (rbind (stored_item r ''session_id'') text_of) (\<lambda>s.
            Inr \<lparr>requester_agent = a, requester_session = s\<rparr>))
      | VStr _ \<Rightarrow> Inl ChainTypeError
      | VList _ \<Rightarrow> Inl ChainTypeError
      | _ \<Rightarrow> Inl ChainTypeError)"

definition stored_time :: "pyval dict \<Rightarrow> string \<Rightarrow> chain_exc + nat option" where
  "stored_time d k =
     (let raw = dget_or d k VNone in
      if \<not> truthy raw then Inr None
      else (case raw of
          VStr s \<Rightarrow> (case fromisoformat s of None \<Rightarrow> Inl ChainOutside | Some t \<Rightarrow> Inr (Some t))
        | _ \<Rightarrow> Inl ChainTypeError))"

definition stored_names :: "pyval dict \<Rightarrow> chain_exc + string list" where
  "stored_names d =
     (case dget_or d ''waiting_on'' (VList []) of
        VList xs \<Rightarrow> rbind (traverse text_of xs) (\<lambda>ns. Inr (name_set ns))
      | _ \<Rightarrow> Inl ChainOutside)"

definition stored_kind :: "pyval dict \<Rightarrow> chain_exc + string option" where
  "stored_kind d = (case dget_or d ''task_kind'' VNone of VNone \<Rightarrow> Inr None | v \<Rightarrow> rbind (text_of v) (\<lambda>s. Inr (Some s)))"

definition stored_depth :: "pyval dict \<Rightarrow> chain_exc + int" where
  "stored_depth d =
     rbind (stored_item d ''origin_depth'') (\<lambda>v. case py_int v of Inl e \<Rightarrow> Inl (ChainJournal e) | Inr n \<Rightarrow> Inr n)"

definition restore_chain :: "pyval \<Rightarrow> chain_exc + pending_chain" where
  "restore_chain v =
     (case v of
        VDict d \<Rightarrow>
          rbind (stored_requester d) (\<lambda>r.
          rbind (stored_time d ''arm_at'') (\<lambda>arm.
          rbind (stored_time d ''registered_at'') (\<lambda>reg.
          rbind (stored_time d ''cancel_requested_at'') (\<lambda>req.
          rbind (rbind (stored_item d ''chain_id'') text_of) (\<lambda>cid.
          rbind (stored_depth d) (\<lambda>n.
          rbind (rbind (stored_item d ''original_request'') text_of) (\<lambda>txt.
          rbind (stored_names d) (\<lambda>ws.
          rbind (stored_kind d) (\<lambda>knd.
            Inr \<lparr>pc_id = cid, pc_requester = r, origin_depth = n, original_request = txt, waiting_on = ws, pc_kind = knd,
              status = Running, cancel_hook = None, arm_at = arm, registered_at = reg, cancel_requested_at = req\<rparr>)))))))))
      | _ \<Rightarrow> Inl ChainAttributeError)"

definition rearm :: "nat \<Rightarrow> string \<Rightarrow> pending_chain \<Rightarrow> chain_manager \<Rightarrow> chain_manager" where
  "rearm now cid c m =
     (if chain_timeout m \<le> 0 then m
      else start_watchdog now
        (case arm_at c of Some due \<Rightarrow> max 0 (int due - int now) | None \<Rightarrow> chain_timeout m) cid m)"

fun restore_chains :: "nat \<Rightarrow> (string \<times> pyval) list \<Rightarrow> chain_manager \<Rightarrow> chain_exc + chain_manager" where
  "restore_chains now [] m = Inr m"
| "restore_chains now ((cid, v) # ps) m =
     rbind (restore_chain v) (\<lambda>c. restore_chains now ps (rearm now cid c (m\<lparr>chains := dset cid c (chains m)\<rparr>)))"

definition chain_restore :: "nat \<Rightarrow> chain_state \<Rightarrow> chain_exc + chain_manager" where
  "chain_restore now st = (case st of (m, j) \<Rightarrow> restore_chains now (pending_chains (live j)) m)"

end
