(* ===== verification/ChainFacts.thy ===== *)
theory ChainFacts
  imports Chains
begin

section \<open>Chains come back\<close>

text \<open>
  Manager and mirror stay in step: what the journal keeps of every pending chain reads back as the
  chain, under every operation, so that restoring gives the chains and their deadlines.
\<close>

subsection \<open>Sets of names\<close>

lemma insert_name_set [simp]: "set (insert_name x xs) = insert x (set xs)"
  by (induction xs) auto

lemma insert_name_sorted: "sorted_wrt str_less xs \<Longrightarrow> sorted_wrt str_less (insert_name x xs)"
proof (induction xs)
  case (Cons y ys)
  consider "x = y" | "x \<noteq> y" "str_less x y" | "x \<noteq> y" "\<not> str_less x y" "str_less y x" using str_less_linear by blast
  then show ?case
  proof cases
    case 2
    then have "\<forall>z\<in>set ys. str_less x z" using Cons.prems str_less_trans by auto
    then show ?thesis using 2 Cons.prems by simp
  next
    case 3
    then show ?thesis using Cons by simp
  qed (use Cons.prems in simp)
qed simp

lemma name_set_sorted: "sorted_wrt str_less (name_set xs)"
  by (induction xs) (simp_all add: name_set_def insert_name_sorted)

lemma insert_first: "\<forall>y\<in>set xs. str_less x y \<Longrightarrow> insert_name x xs = x # xs"
  by (cases xs) auto

lemma name_set_id: "sorted_wrt str_less xs \<Longrightarrow> name_set xs = xs"
  by (induction xs) (simp_all add: name_set_def insert_first)

lemma name_set_twice [simp]: "name_set (name_set xs) = name_set xs"
  by (rule name_set_id) (rule name_set_sorted)

subsection \<open>Fields of a stored chain\<close>

lemma texts_of [simp]: "traverse text_of (map VStr xs) = Inr xs"
  by (induction xs) (simp_all add: text_of_def)

lemma iso_nonempty [simp]: "isoformat t \<noteq> []"
  by (simp add: isoformat_def Let_def split: prod.split)

lemma dget_or_dset: "dget_or (dset k v d) l w = (if k = l then v else dget_or d l w)"
  by (simp add: dget_or_def dget_dset)

lemma stored_dset:
  "k \<notin> {''requester'', ''origin_agent'', ''origin_sid''} \<Longrightarrow> stored_requester (dset k v d) = stored_requester d"
  "k \<noteq> l \<Longrightarrow> stored_time (dset k v d) l = stored_time d l"
  "k \<noteq> l \<Longrightarrow> stored_item (dset k v d) l = stored_item d l"
  "k \<noteq> ''waiting_on'' \<Longrightarrow> stored_names (dset k v d) = stored_names d"
  "k \<noteq> ''task_kind'' \<Longrightarrow> stored_kind (dset k v d) = stored_kind d"
  "k \<noteq> ''origin_depth'' \<Longrightarrow> stored_depth (dset k v d) = stored_depth d"
proof -
  assume "k \<notin> {''requester'', ''origin_agent'', ''origin_sid''}"
  then have "dget_or (dset k v d) ''requester'' w = dget_or d ''requester'' w" "dget_or (dset k v d) ''origin_agent'' w = dget_or d ''origin_agent'' w"
    "dget_or (dset k v d) ''origin_sid'' w = dget_or d ''origin_sid'' w" for w by (simp_all add: dget_or_dset)
  then show "stored_requester (dset k v d) = stored_requester d" unfolding stored_requester_def by presburger
qed (simp_all add: stored_time_def stored_item_def stored_names_def stored_kind_def stored_depth_def dget_or_dset dget_dset)

lemma stored_same:
  "representable t \<Longrightarrow> stored_time (dset k (time_value t) d) k = Inr (Some t)"
  "stored_item (dset k v d) k = Inr v"
  "stored_names (dset ''waiting_on'' (names_value (name_set xs)) d) = Inr (name_set xs)"
  "stored_depth (dset ''origin_depth'' (VInt n) d) = Inr n"
  by (simp_all add: stored_time_def stored_item_def stored_names_def stored_depth_def dget_or_def dget_dset time_value_def
    names_value_def iso_roundtrip)

lemma restore_changed:
  assumes "restore_chain (VDict d) = Inr c"
  shows "representable t \<Longrightarrow> restore_chain (VDict (dset ''arm_at'' (time_value t) d)) = Inr (c\<lparr>arm_at := Some t\<rparr>)"
    and "representable t \<Longrightarrow> restore_chain (VDict (dset ''cancel_requested_at'' (time_value t) d)) = Inr (c\<lparr>cancel_requested_at := Some t\<rparr>)"
    and "restore_chain (VDict (dset ''waiting_on'' (names_value (name_set xs)) d)) = Inr (c\<lparr>waiting_on := name_set xs\<rparr>)"
    and "restore_chain (VDict (dset ''origin_depth'' (VInt n) d)) = Inr (c\<lparr>origin_depth := n\<rparr>)"
    and "restore_chain (VDict (dset ''original_request'' (VStr s) d)) = Inr (c\<lparr>original_request := s\<rparr>)"
  using assms by (auto simp: restore_chain_def stored_dset stored_same text_of_def)

lemma restore_registered:
  assumes "representable now"
  shows "restore_chain (VDict (dmerge [(''chain_id'', VStr cid)]
      (register_fields (requester_value r) n (VStr txt) (map VStr (name_set xs)) (kind_value k) (time_value now))))
    = Inr \<lparr>pc_id = cid, pc_requester = r, origin_depth = n, original_request = txt, waiting_on = name_set xs, pc_kind = k,
        status = Running, cancel_hook = None, arm_at = None, registered_at = Some now, cancel_requested_at = None\<rparr>"
proof -
  have "dmerge [(''chain_id'', VStr cid)]
      (register_fields (requester_value r) n (VStr txt) (map VStr (name_set xs)) (kind_value k) (time_value now)) =
    [(''chain_id'', VStr cid), (''requester'', requester_value r), (''origin_depth'', VInt n), (''original_request'', VStr txt),
     (''waiting_on'', VList (map VStr (name_set xs))), (''task_kind'', kind_value k), (''registered_at'', time_value now)]"
    by (simp add: dmerge_def register_fields_def)
  then show ?thesis using assms
    by (simp add: restore_chain_def stored_requester_def stored_time_def stored_item_def stored_names_def stored_kind_def
      stored_depth_def dget_or_def requester_value_def kind_value_def time_value_def text_of_def iso_roundtrip split: option.split)
qed

subsection \<open>The manager and the mirror\<close>

definition remembered :: "pending_chain \<Rightarrow> pending_chain" where
  "remembered c = c\<lparr>status := Running, cancel_hook := None\<rparr>"

definition chain_kept :: "string \<times> pending_chain \<Rightarrow> string \<times> pyval \<Rightarrow> bool" where
  "chain_kept p q \<longleftrightarrow> fst p = fst q \<and> restore_chain (snd q) = Inr (remembered (snd p))"

definition in_step :: "chain_state \<Rightarrow> bool" where
  "in_step st \<longleftrightarrow> (case st of (m, j) \<Rightarrow>
     has_log j \<and> distinct (map fst (chains m)) \<and> list_all2 chain_kept (chains m) (pending_chains (live j)))"

lemma chain_kept_pair [simp]: "chain_kept (k, c) (l, v) \<longleftrightarrow> k = l \<and> restore_chain v = Inr (remembered c)"
  by (simp add: chain_kept_def)

lemma kept_dset:
  "list_all2 chain_kept ps qs \<Longrightarrow> restore_chain v = Inr (remembered c) \<Longrightarrow> list_all2 chain_kept (dset k c ps) (dset k v qs)"
  by (induction rule: list_all2_induct) auto

lemma kept_delete: "list_all2 chain_kept ps qs \<Longrightarrow> list_all2 chain_kept (AList.delete k ps) (AList.delete k qs)"
  by (induction rule: list_all2_induct) auto

lemma kept_get:
  "list_all2 chain_kept ps qs \<Longrightarrow> dget ps k = Some c \<Longrightarrow> \<exists>v. dget qs k = Some v \<and> restore_chain v = Inr (remembered c)"
  by (induction rule: list_all2_induct) (auto split: if_splits)

lemma restored_dict: "restore_chain v = Inr c \<Longrightarrow> \<exists>d. v = VDict d"
  by (cases v) (simp_all add: restore_chain_def)

lemma recorded [simp]: "live (record_mutation k f s j) = s" "has_log (record_mutation k f s j) = has_log j"
  by (simp_all add: record_mutation_def save_nowait_def wal_append_nowait_def)

text \<open>What an update of one stored chain does to manager and mirror.\<close>

lemma update_in_step:
  assumes s: "in_step (m, j)" and c: "dget (chains m) cid = Some c"
    and f: "\<And>d. restore_chain (VDict d) = Inr (remembered c) \<Longrightarrow>
      \<exists>d'. set_fields flds (VDict d) = Inr (VDict d') \<and> restore_chain (VDict d') = Inr (remembered c')"
  obtains j' where "record_chain_update cid flds j = Inr j'" "in_step (m\<lparr>chains := dset cid c' (chains m)\<rparr>, j')"
proof -
  have k: "list_all2 chain_kept (chains m) (pending_chains (live j))" "has_log j" "distinct (map fst (chains m))"
    using s by (simp_all add: in_step_def)
  obtain d where d: "dget (pending_chains (live j)) cid = Some (VDict d)" "restore_chain (VDict d) = Inr (remembered c)"
    using kept_get [OF k(1) c] restored_dict by blast
  from f [OF d(2)] obtain d' where d': "set_fields flds (VDict d) = Inr (VDict d')" "restore_chain (VDict d') = Inr (remembered c')"
    by blast
  let ?s = "(live j)\<lparr>pending_chains := dset cid (VDict d') (pending_chains (live j))\<rparr>"
  let ?j = "record_mutation ''chain_update'' (agent_field j # (''chain_id'', VStr cid) # flds) ?s j"
  have "record_chain_update cid flds j = Inr ?j"
    using k(2) d(1) d'(1) by (simp add: record_chain_update_def dget_or_def Let_def)
  moreover have "in_step (m\<lparr>chains := dset cid c' (chains m)\<rparr>, ?j)"
    using k kept_dset [OF k(1) d'(2)] by (simp add: in_step_def AList.distinct_update)
  ultimately show thesis by (rule that)
qed

lemma set_attrs:
  "restore_chain (VDict d) = Inr (remembered c) \<Longrightarrow>
    \<exists>d'. set_fields (concat (map attr_field attrs)) (VDict d) = Inr (VDict d')
      \<and> restore_chain (VDict d') = Inr (remembered (fold set_attr attrs c))"
proof (induction attrs arbitrary: d c)
  case (Cons a attrs)
  note r = restore_changed [OF Cons.prems]
  show ?case
  proof (cases a)
    case (WaitingOn xs)
    have "restore_chain (VDict (dset ''waiting_on'' (names_value (name_set xs)) d)) = Inr (remembered (set_attr a c))"
      using r(3) by (simp add: WaitingOn remembered_def)
    from Cons.IH [OF this] show ?thesis by (simp add: WaitingOn names_value_def)
  next
    case (OriginDepth n)
    have "restore_chain (VDict (dset ''origin_depth'' (VInt n) d)) = Inr (remembered (set_attr a c))"
      using r(4) by (simp add: OriginDepth remembered_def)
    from Cons.IH [OF this] show ?thesis by (simp add: OriginDepth)
  next
    case (OriginalRequest s)
    have "restore_chain (VDict (dset ''original_request'' (VStr s) d)) = Inr (remembered (set_attr a c))"
      using r(5) by (simp add: OriginalRequest remembered_def)
    from Cons.IH [OF this] show ?thesis by (simp add: OriginalRequest)
  qed (use Cons in simp)
qed simp

lemma set_time:
  assumes "representable t" and "restore_chain (VDict d) = Inr (remembered c)"
  shows "\<exists>d'. set_fields [(''arm_at'', time_value t)] (VDict d) = Inr (VDict d') \<and> restore_chain (VDict d') = Inr (remembered (c\<lparr>arm_at := Some t\<rparr>))"
    and "\<exists>d'. set_fields [(''cancel_requested_at'', time_value t)] (VDict d) = Inr (VDict d')
      \<and> restore_chain (VDict d') = Inr (remembered (c\<lparr>cancel_requested_at := Some t\<rparr>))"
  using restore_changed(1,2) [OF assms(2,1)] by (simp_all add: remembered_def)

lemma drop_in_step:
  assumes "in_step (m, j)" and "chains m' = AList.delete cid (chains m)" and "has_log j'"
    and "pending_chains (live j') = AList.delete cid (pending_chains (live j))"
  shows "in_step (m', j')"
  using assms kept_delete by (auto simp: in_step_def AList.distinct_delete)

subsection \<open>Operations\<close>

datatype chain_op =
    Registers nat string int string "string option" "string list" "requester option" int "string option" "nat option"
  | Updates string "chain_attr list"
  | Marks nat string
  | Resolves string
  | Settles disposition bool "chain_exc option" string
  | Fires string
  | Arms nat string
  | Cancels string
  | Wakes string
  | Joins

fun run_chain_op :: "chain_op \<Rightarrow> chain_state \<Rightarrow> chain_exc + chain_state" where
  "run_chain_op (Registers now cid depth txt sender names req odepth knd hook) st =
     map_sum id snd (chain_register now cid depth txt sender names req odepth knd hook st)"
| "run_chain_op (Updates cid attrs) st = chain_update cid attrs st"
| "run_chain_op (Marks now cid) st = mark_cancel_requested now cid st"
| "run_chain_op (Resolves cid) st = Inr (snd (chain_resolve cid st))"
| "run_chain_op (Settles d launcher callback cid) st = map_sum id snd (chain_settle d launcher callback cid st)"
| "run_chain_op (Fires cid) st = Inr (snd (fire_timeout cid st))"
| "run_chain_op (Arms now cid) st = arm_timeout now cid st"
| "run_chain_op (Cancels cid) st = Inr (cancel_timeout cid (fst st), snd st)"
| "run_chain_op (Wakes cid) st = Inr (snd (watchdog_wakes cid (fst st)), snd st)"
| "run_chain_op Joins st = Inr (cancel_and_join_timers (fst st), snd st)"

fun run_chain_ops :: "chain_op list \<Rightarrow> chain_state \<Rightarrow> chain_exc + chain_state" where
  "run_chain_ops [] st = Inr st"
| "run_chain_ops (x # xs) st = rbind (run_chain_op x st) (run_chain_ops xs)"

text \<open>The clock gives times Python can represent.\<close>

fun clock_ok :: "chain_op \<Rightarrow> bool" where
  "clock_ok (Registers now cid depth txt sender names req odepth knd hook) = representable now"
| "clock_ok (Marks now cid) = representable now"
| "clock_ok _ = True"

lemma register_in_step:
  assumes "in_step (m, j)" and "representable now"
  shows "\<exists>c j'. chain_register now cid depth txt sender names req odepth knd hook (m, j) = Inr (c, m\<lparr>chains := dset cid c (chains m)\<rparr>, j')
    \<and> arm_at c = None \<and> in_step (m\<lparr>chains := dset cid c (chains m)\<rparr>, j')"
proof -
  define r where "r = (case req of Some r \<Rightarrow> r
    | None \<Rightarrow> \<lparr>requester_agent = (case sender of Some s \<Rightarrow> s | None \<Rightarrow> ''''), requester_session = ''main''\<rparr>)"
  define n where "n = (if odepth \<noteq> 0 then odepth else depth)"
  define c where "c = \<lparr>pc_id = cid, pc_requester = r, origin_depth = n, original_request = txt, waiting_on = name_set names, pc_kind = knd,
    status = Running, cancel_hook = hook, arm_at = None, registered_at = Some now, cancel_requested_at = None\<rparr>"
  let ?fs = "register_fields (requester_value r) n (VStr txt) (map VStr (name_set names)) (kind_value knd) (time_value now)"
  let ?v = "VDict (dmerge [(''chain_id'', VStr cid)] ?fs)"
  let ?j = "record_mutation ''chain_register'' (agent_field j # (''chain_id'', VStr cid) # ?fs)
    ((live j)\<lparr>pending_chains := dset cid ?v (pending_chains (live j))\<rparr>) j"
  have k: "list_all2 chain_kept (chains m) (pending_chains (live j))" "has_log j" "distinct (map fst (chains m))"
    using assms(1) by (simp_all add: in_step_def)
  have "traverse chain_field ?fs = Inr ?fs" by (simp add: register_fields_def chain_field_def)
  then have "record_chain_register cid ?fs j = Inr ?j" using k(2) by (simp add: record_chain_register_def Let_def)
  then have "chain_register now cid depth txt sender names req odepth knd hook (m, j) = Inr (c, m\<lparr>chains := dset cid c (chains m)\<rparr>, ?j)"
    by (simp add: chain_register_def journalled_def Let_def c_def n_def r_def)
  moreover have "restore_chain ?v = Inr (remembered c)" using restore_registered [OF assms(2)] by (simp add: c_def remembered_def)
  then have "in_step (m\<lparr>chains := dset cid c (chains m)\<rparr>, ?j)"
    using k kept_dset [OF k(1)] by (simp add: in_step_def AList.distinct_update)
  ultimately show ?thesis by (auto simp: c_def)
qed

lemma no_fields: "concat (map attr_field attrs) = [] \<Longrightarrow> fold set_attr attrs c = c"
proof (induction attrs)
  case (Cons a attrs)
  then show ?case by (cases a) simp_all
qed simp

lemma dget_delete: "dget (AList.delete k d) l = (if k = l then None else dget d l)"
  by (induction d) auto

lemma dget_none: "k \<notin> fst ` set d \<Longrightarrow> dget d k = None"
  by (induction d) auto

lemma dset_same: "dget ps k = Some c \<Longrightarrow> dset k c ps = ps"
  by (induction ps) (auto split: if_splits)

lemma update_keeps:
  assumes "in_step (m, j)"
  shows "\<exists>m' j'. chain_update cid attrs (m, j) = Inr (m', j') \<and> chain_timeout m' = chain_timeout m \<and> in_step (m', j')"
proof (cases "dget (chains m) cid")
  case (Some c)
  from update_in_step [OF assms Some set_attrs] obtain j' where
    j': "record_chain_update cid (concat (map attr_field attrs)) j = Inr j'"
      "in_step (m\<lparr>chains := dset cid (fold set_attr attrs c) (chains m)\<rparr>, j')" by blast
  show ?thesis
  proof (cases "concat (map attr_field attrs) = []")
    case True
    then have "chain_update cid attrs (m, j) = Inr (m, j)"
      using Some no_fields [OF True] dset_same [OF Some] by (simp add: chain_update_def Let_def)
    then show ?thesis using assms by simp
  next
    case False
    then have "chain_update cid attrs (m, j) = Inr (m\<lparr>chains := dset cid (fold set_attr attrs c) (chains m)\<rparr>, j')"
      using Some j'(1) unfolding chain_update_def Let_def journalled_def prod.case by (simp only: option.case if_False sum.case)
    then show ?thesis using j'(2) by simp
  qed
qed (use assms in \<open>simp add: chain_update_def\<close>)

lemma mark_keeps:
  assumes "in_step (m, j)" and "representable now"
  shows "\<exists>m' j'. mark_cancel_requested now cid (m, j) = Inr (m', j') \<and> chain_timeout m' = chain_timeout m \<and> in_step (m', j')"
proof (cases "dget (chains m) cid")
  case (Some c)
  from update_in_step [OF assms(1) Some set_time(2) [OF assms(2)]] obtain j' where
    "record_chain_update cid [(''cancel_requested_at'', time_value now)] j = Inr j'"
    "in_step (m\<lparr>chains := dset cid (c\<lparr>cancel_requested_at := Some now\<rparr>) (chains m)\<rparr>, j')" by blast
  then show ?thesis using Some by (simp add: mark_cancel_requested_def journalled_def)
qed (use assms in \<open>simp add: mark_cancel_requested_def\<close>)

lemma in_step_timers: "chains m' = chains m \<Longrightarrow> in_step (m', j) = in_step (m, j)"
  by (simp add: in_step_def)

lemma started [simp]:
  "chains (start_watchdog now w cid m) = chains m" "chain_timeout (start_watchdog now w cid m) = chain_timeout m"
  "dget (timers (start_watchdog now w cid m)) k = (if k = cid then Some \<lparr>started_at = now, sleeps = w\<rparr> else dget (timers m) k)"
  by (simp_all add: start_watchdog_def dget_dset dget_delete)

lemma arm_on:
  assumes "in_step (m, j)" and "0 < chain_timeout m" and "dget (chains m) cid = Some c" and "representable (now + nat (chain_timeout m))"
  obtains j' m' where "m' = m\<lparr>chains := dset cid (c\<lparr>arm_at := Some (now + nat (chain_timeout m))\<rparr>) (chains m)\<rparr>"
    "arm_timeout now cid (m, j) = Inr (start_watchdog now (chain_timeout m) cid m', j')" "in_step (m', j')"
proof -
  from update_in_step [OF assms(1,3) set_time(1) [OF assms(4)]] obtain j' where
    "record_chain_update cid [(''arm_at'', time_value (now + nat (chain_timeout m)))] j = Inr j'"
    "in_step (m\<lparr>chains := dset cid (c\<lparr>arm_at := Some (now + nat (chain_timeout m))\<rparr>) (chains m)\<rparr>, j')" by blast
  then show thesis using assms(2-4) by (intro that) (simp_all add: arm_timeout_def Let_def journalled_def)
qed

lemma arm_keeps:
  assumes "in_step (m, j)" and "arm_timeout now cid (m, j) = Inr (m', j')"
  shows "chain_timeout m' = chain_timeout m \<and> in_step (m', j')"
proof (cases "0 < chain_timeout m \<and> representable (now + nat (chain_timeout m))")
  case True
  show ?thesis
  proof (cases "dget (chains m) cid")
    case None
    then have "arm_timeout now cid (m, j) = Inr (start_watchdog now (chain_timeout m) cid m, j)"
      using True by (simp add: arm_timeout_def Let_def)
    then show ?thesis using assms in_step_timers [of "start_watchdog now (chain_timeout m) cid m" m] by simp
  next
    case (Some c)
    obtain n i where ni: "n = m\<lparr>chains := dset cid (c\<lparr>arm_at := Some (now + nat (chain_timeout m))\<rparr>) (chains m)\<rparr>"
      "arm_timeout now cid (m, j) = Inr (start_watchdog now (chain_timeout m) cid n, i)" "in_step (n, i)"
      using arm_on [OF assms(1) _ Some] True by blast
    then show ?thesis using assms(2) in_step_timers [of "start_watchdog now (chain_timeout m) cid n" n i] by simp
  qed
qed (use assms in \<open>auto simp: arm_timeout_def Let_def split: if_splits\<close>)

lemma resolve_keeps:
  assumes "in_step (m, j)"
  shows "in_step (snd (chain_resolve cid (m, j)))" "in_step (snd (fire_timeout cid (m, j)))"
    "chain_timeout (fst (snd (chain_resolve cid (m, j)))) = chain_timeout m" "chain_timeout (fst (snd (fire_timeout cid (m, j)))) = chain_timeout m"
proof -
  have "has_log j" using assms by (simp add: in_step_def)
  then show "in_step (snd (chain_resolve cid (m, j)))" "in_step (snd (fire_timeout cid (m, j)))"
    using drop_in_step [OF assms]
    by (simp_all add: chain_resolve_def fire_timeout_def cancel_timeout_def record_chain_resolve_def record_chain_timeout_fired_def
      chain_dropped_def Let_def)
qed (simp_all add: chain_resolve_def fire_timeout_def cancel_timeout_def)

lemma settle_keeps:
  assumes "in_step (m, j)" and "chain_settle d launcher callback cid (m, j) = Inr (c, m', j')"
  shows "chain_timeout m' = chain_timeout m \<and> in_step (m', j')"
proof -
  have "chain_resolve cid (m, j) = (c, m', j')" using assms(2) by (auto simp: chain_settle_def split: disposition.splits option.splits if_splits)
  then show ?thesis using resolve_keeps(1,3) [OF assms(1), of cid] by simp
qed

lemma op_keeps:
  assumes "in_step st" and "clock_ok x" and "run_chain_op x st = Inr st'"
  shows "chain_timeout (fst st') = chain_timeout (fst st) \<and> in_step st'"
proof -
  obtain m j m' j' where st: "st = (m, j)" "st' = (m', j')" by (cases st, cases st') auto
  note k = assms(1) [unfolded st(1)] and r = assms(3) [unfolded st]
  show ?thesis
  proof (cases x)
    case (Registers now cid depth tx sender names req odepth knd hook)
    then show ?thesis using register_in_step [OF k, of now cid depth tx sender names req odepth knd hook] r assms(2) st by auto
  next
    case (Updates cid attrs)
    then show ?thesis using update_keeps [OF k, of cid attrs] r st by auto
  next
    case (Marks now cid)
    then show ?thesis using mark_keeps [OF k, of now cid] r st assms(2) by auto
  next
    case (Resolves cid)
    then show ?thesis using resolve_keeps(1,3) [OF k, of cid] r st by auto
  next
    case (Settles d launcher callback cid)
    then obtain c where "chain_settle d launcher callback cid (m, j) = Inr (c, m', j')"
      using r by (cases "chain_settle d launcher callback cid (m, j)") auto
    then show ?thesis using settle_keeps [OF k] st by simp
  next
    case (Fires cid)
    then show ?thesis using resolve_keeps(2,4) [OF k, of cid] r st by auto
  next
    case (Arms now cid)
    then show ?thesis using arm_keeps [OF k] r st by auto
  next
    case (Cancels cid)
    then show ?thesis using k r st by (auto simp: cancel_timeout_def in_step_def)
  next
    case (Wakes cid)
    then show ?thesis using k r st by (auto simp: watchdog_wakes_def in_step_def)
  next
    case Joins
    then show ?thesis using k r st by (auto simp: cancel_and_join_timers_def in_step_def)
  qed
qed

lemma ops_keep:
  "in_step st \<Longrightarrow> list_all clock_ok xs \<Longrightarrow> run_chain_ops xs st = Inr st' \<Longrightarrow>
    chain_timeout (fst st') = chain_timeout (fst st) \<and> in_step st'"
proof (induction xs arbitrary: st)
  case (Cons x xs)
  then obtain st1 where r: "run_chain_op x st = Inr st1" "run_chain_ops xs st1 = Inr st'"
    by (cases "run_chain_op x st") (auto simp: rbind_def)
  from op_keeps [OF Cons.prems(1) _ r(1)] Cons.prems(2) have "chain_timeout (fst st1) = chain_timeout (fst st)" "in_step st1" by auto
  then show ?case using Cons.IH r(2) Cons.prems(2) by auto
qed simp

subsection \<open>Restoring\<close>

text \<open>The watchdog a chain gets when it is restored.\<close>

definition rewatch :: "nat \<Rightarrow> int \<Rightarrow> pending_chain \<Rightarrow> watchdog" where
  "rewatch now full c =
     \<lparr>started_at = now, sleeps = (case arm_at c of Some due \<Rightarrow> max 0 (int due - int now) | None \<Rightarrow> full)\<rparr>"

lemma rearmed [simp]:
  "chains (rearm now cid c m) = chains m" "chain_timeout (rearm now cid c m) = chain_timeout m"
  "dget (timers (rearm now cid c m)) k =
    (if 0 < chain_timeout m \<and> k = cid then Some (rewatch now (chain_timeout m) c) else dget (timers m) k)"
  by (auto simp: rearm_def rewatch_def split: option.split)

lemma dset_appended: "k \<notin> fst ` set ps \<Longrightarrow> dset k v ps = ps @ [(k, v)]"
  by (induction ps) auto

lemma restore_all:
  assumes "list_all2 chain_kept ps qs" and "distinct (map fst ps)" and "fst ` set ps \<inter> fst ` set (chains m) = {}"
  shows "\<exists>m'. restore_chains now qs m = Inr m' \<and> chains m' = chains m @ map (\<lambda>(k, c). (k, remembered c)) ps
    \<and> (\<forall>k. dget (timers m') k = (case dget ps k of
        Some c \<Rightarrow> if 0 < chain_timeout m then Some (rewatch now (chain_timeout m) c) else dget (timers m) k
      | None \<Rightarrow> dget (timers m) k))"
  using assms
proof (induction arbitrary: m rule: list_all2_induct)
  case (Cons p ps q qs)
  obtain k c v where pq: "p = (k, c)" "q = (k, v)" "restore_chain v = Inr (remembered c)"
    using Cons.hyps(1) by (cases p, cases q) auto
  let ?m = "rearm now k (remembered c) (m\<lparr>chains := dset k (remembered c) (chains m)\<rparr>)"
  have n: "dset k (remembered c) (chains m) = chains m @ [(k, remembered c)]" using Cons.prems(2) pq by (auto intro: dset_appended)
  have w: "rewatch now t (remembered c) = rewatch now t c" for t by (simp add: rewatch_def remembered_def)
  have g: "dget ps k = None" using Cons.prems(1) pq by (auto simp: dget_none)
  from Cons.IH [of ?m] Cons.prems obtain m' where "restore_chains now qs ?m = Inr m'"
    "chains m' = chains ?m @ map (\<lambda>(k, c). (k, remembered c)) ps"
    "\<forall>l. dget (timers m') l = (case dget ps l of
        Some c \<Rightarrow> if 0 < chain_timeout ?m then Some (rewatch now (chain_timeout ?m) c) else dget (timers ?m) l
      | None \<Rightarrow> dget (timers ?m) l)"
    unfolding pq(1) by (auto simp: n image_iff)
  then show ?case using pq(3) g by (auto simp: pq(1,2) n w split: option.split)
qed simp

lemma reset_fields [simp]: "chains (chain_reset m) = []" "timers (chain_reset m) = []" "chain_timeout (chain_reset m) = chain_timeout m"
  by (simp_all add: chain_reset_def cancel_and_join_timers_def)

lemma restore_in_step:
  assumes "in_step (m, j)"
  shows "\<exists>m'. chain_restore now (chain_reset m, j) = Inr m' \<and> chains m' = map (\<lambda>(k, c). (k, remembered c)) (chains m)
    \<and> (\<forall>k. dget (timers m') k = (if 0 < chain_timeout m then map_option (rewatch now (chain_timeout m)) (dget (chains m) k) else None))"
proof -
  have "list_all2 chain_kept (chains m) (pending_chains (live j))" "distinct (map fst (chains m))"
    using assms by (simp_all add: in_step_def)
  note all = restore_all [OF this, of "chain_reset m" now, unfolded reset_fields map_of.simps]
  then obtain m' where m': "chain_restore now (chain_reset m, j) = Inr m'"
    "chains m' = map (\<lambda>(k, c). (k, remembered c)) (chains m)"
    "\<forall>k. dget (timers m') k = (case dget (chains m) k of
        Some c \<Rightarrow> if 0 < chain_timeout m then Some (rewatch now (chain_timeout m) c) else None | None \<Rightarrow> None)"
    by (auto simp: chain_restore_def)
  then have "dget (timers m') k = (if 0 < chain_timeout m then map_option (rewatch now (chain_timeout m)) (dget (chains m) k) else None)" for k
    by (cases "dget (chains m) k") simp_all
  then show ?thesis using m' by blast
qed

text \<open>A manager without chains, on a session that has a log.\<close>

definition chains_fresh :: "chain_state \<Rightarrow> bool" where
  "chains_fresh st \<longleftrightarrow> has_log (snd st) \<and> chains (fst st) = [] \<and> pending_chains (live (snd st)) = []"

lemma fresh_in_step: "chains_fresh st \<Longrightarrow> in_step st"
  by (cases st) (simp add: chains_fresh_def in_step_def)

text \<open>C15: After any operations on a chain manager that started empty, resetting it and restoring it from the
  session's snapshot in memory brings every pending chain back, in order and with every field but what belongs to the process (the status
  is running again and the cancel hook is gone), and gives each, when timeouts are on, one watchdog:
  for what is left until the deadline it was armed with, or for the whole timeout if it never was.\<close>

theorem chains_restored:
  assumes "chains_fresh st" and "list_all clock_ok xs" and "run_chain_ops xs st = Inr (m, j)"
  shows "\<exists>m'. chain_restore now (chain_reset m, j) = Inr m' \<and> chains m' = map (\<lambda>(k, c). (k, remembered c)) (chains m)
    \<and> (\<forall>k. dget (timers m') k = (if 0 < chain_timeout m then map_option (rewatch now (chain_timeout m)) (dget (chains m) k) else None))"
  using ops_keep [OF fresh_in_step [OF assms(1)] assms(2,3)] by (intro restore_in_step) simp

definition ends_at :: "watchdog \<Rightarrow> int" where
  "ends_at w = int (started_at w) + sleeps w"

text \<open>C14: Restoring neither extends nor loses a deadline: when a pending chain is armed, its watchdog ends after
  the timeout, and the watchdog it has after being restored at any time ends at that same deadline, or at
  once if the deadline has passed.\<close>

theorem deadline_kept:
  assumes "chains_fresh st" and "list_all clock_ok xs" and "run_chain_ops xs st = Inr (m, j)"
    and "dget (chains m) k = Some c" and "0 < chain_timeout m" and "representable (t + nat (chain_timeout m))"
  shows "\<exists>m1 j1 m2 w1 w2. arm_timeout t k (m, j) = Inr (m1, j1) \<and> chain_restore now (chain_reset m1, j1) = Inr m2
    \<and> dget (timers m1) k = Some w1 \<and> ends_at w1 = int t + chain_timeout m
    \<and> dget (timers m2) k = Some w2 \<and> ends_at w2 = max (int now) (ends_at w1)"
proof -
  have s: "in_step (m, j)" using ops_keep [OF fresh_in_step [OF assms(1)] assms(2,3)] by simp
  from arm_on [OF s assms(5,4,6)] obtain j1 n where n: "n = m\<lparr>chains := dset k (c\<lparr>arm_at := Some (t + nat (chain_timeout m))\<rparr>) (chains m)\<rparr>"
    "arm_timeout t k (m, j) = Inr (start_watchdog t (chain_timeout m) k n, j1)" "in_step (n, j1)" by blast
  let ?m1 = "start_watchdog t (chain_timeout m) k n"
  define w1 w2 where "w1 = \<lparr>started_at = t, sleeps = chain_timeout m\<rparr>"
    and "w2 = rewatch now (chain_timeout m) (c\<lparr>arm_at := Some (t + nat (chain_timeout m))\<rparr>)"
  have "in_step (?m1, j1)" using n(3) in_step_timers [of ?m1 n j1] by simp
  from restore_in_step [OF this, of now] obtain m2 where m2: "chain_restore now (chain_reset ?m1, j1) = Inr m2"
    "\<forall>l. dget (timers m2) l = (if 0 < chain_timeout ?m1 then map_option (rewatch now (chain_timeout ?m1)) (dget (chains ?m1) l) else None)"
    by (elim exE conjE) (rule that)
  have w: "dget (timers m2) k = Some w2" using assms(5) by (simp add: m2(2) n(1) w2_def)
  have e: "dget (timers ?m1) k = Some w1" "ends_at w1 = int t + chain_timeout m" "ends_at w2 = max (int now) (ends_at w1)"
    using assms(5) by (simp_all add: w1_def w2_def ends_at_def rewatch_def max_def)
  show ?thesis by (intro exI conjI) (rule n(2) m2(1) e w)+
qed

subsection \<open>A concrete run\<close>

definition quiet_journal :: journal where
  "quiet_journal = \<lparr>has_log = True, journal_agent = ''ann'', journal_session = ''main'', live_object = 0,
     live = empty_snapshot ''ann'' ''main'', snapshot_interval = 20, appends_since = 0, jobs = [],
     wal = \<lparr>wal_file = None, wal_inode = 0, counter = 0, last_assigned = 0, last_durable = 0, inflight = None, stats = no_stats\<rparr>, snapshot_file = None, generations = []\<rparr>"

definition quiet_manager :: chain_manager where
  "quiet_manager = \<lparr>chain_timeout = 60000000, max_hop_depth = 3, chains = [], timers = []\<rparr>"

definition ask_bob :: "chain_op list" where
  "ask_bob = [Registers 1000 ''c1'' 1 ''do'' (Some ''eve'') [''cy'', ''bob''] None 0 None (Some 7), Updates ''c1'' [WaitingOn [''cy'']],
     Arms 2000 ''c1'', Registers 3000 ''c2'' 0 ''go'' None [] None 2 (Some ''prompt'') None]"

definition asked :: chain_state where
  "asked = (case run_chain_ops ask_bob (quiet_manager, quiet_journal) of Inr st \<Rightarrow> st | Inl _ \<Rightarrow> (quiet_manager, quiet_journal))"

lemma early [simp]: "representable 1000" "representable 3000" "representable 60002000" "representable 60004000"
  by (simp_all add: representable_def day_us_def find_year.simps year_days_def)

lemma ask_bob_result:
  "case run_chain_ops ask_bob (quiet_manager, quiet_journal) of
     Inl e \<Rightarrow> False
   | Inr st \<Rightarrow> map fst (chains (fst st)) = [''c1'', ''c2''] \<and> map_option arm_at (dget (chains (fst st)) ''c1'') = Some (Some 60002000)
       \<and> chain_timeout (fst st) = 60000000"
  by (simp add: ask_bob_def quiet_manager_def quiet_journal_def chain_register_def journalled_def record_chain_register_def
    record_chain_update_def chain_update_def arm_timeout_def dget_or_def register_fields_def chain_field_def names_value_def empty_snapshot_def Let_def)

lemma asked_run: "run_chain_ops ask_bob (quiet_manager, quiet_journal) = Inr asked"
  using ask_bob_result by (simp add: asked_def split: sum.splits)

lemma quiet_fresh: "chains_fresh (quiet_manager, quiet_journal)"
  by (simp add: chains_fresh_def quiet_manager_def quiet_journal_def empty_snapshot_def)

lemma ask_bob_clock: "list_all clock_ok ask_bob"
  by (simp add: ask_bob_def)

lemma asked_chains:
  "map fst (chains (fst asked)) = [''c1'', ''c2'']" "map_option arm_at (dget (chains (fst asked)) ''c1'') = Some (Some 60002000)"
  "chain_timeout (fst asked) = 60000000"
  using ask_bob_result unfolding asked_run sum.case by blast+

theorem chains_restored_witness:
  "\<exists>m'. chain_restore 50000000 (chain_reset (fst asked), snd asked) = Inr m'
    \<and> map fst (chains m') = [''c1'', ''c2'']
    \<and> dget (timers m') ''c1'' = Some \<lparr>started_at = 50000000, sleeps = 10002000\<rparr>"
proof -
  have "run_chain_ops ask_bob (quiet_manager, quiet_journal) = Inr (fst asked, snd asked)" using asked_run by simp
  from chains_restored [OF quiet_fresh ask_bob_clock this, of 50000000] obtain m' where
    m': "chain_restore 50000000 (chain_reset (fst asked), snd asked) = Inr m'"
    "chains m' = map (\<lambda>(k, c). (k, remembered c)) (chains (fst asked))"
    "dget (timers m') ''c1'' = map_option (rewatch 50000000 60000000) (dget (chains (fst asked)) ''c1'')"
    using asked_chains(3) by auto
  have "map fst (chains m') = map fst (chains (fst asked))" using m'(2) by (simp add: case_prod_beta comp_def)
  moreover obtain c where "dget (chains (fst asked)) ''c1'' = Some c" "arm_at c = Some 60002000" using asked_chains(2) by auto
  ultimately show ?thesis using m' asked_chains(1) by (simp add: rewatch_def)
qed

theorem deadline_kept_witness:
  "\<exists>m1 j1 m2 w1 w2. arm_timeout 4000 ''c2'' asked = Inr (m1, j1) \<and> chain_restore 70000000 (chain_reset m1, j1) = Inr m2
    \<and> dget (timers m1) ''c2'' = Some w1 \<and> ends_at w1 = 60004000
    \<and> dget (timers m2) ''c2'' = Some w2 \<and> ends_at w2 = 70000000"
proof -
  have r: "run_chain_ops ask_bob (quiet_manager, quiet_journal) = Inr (fst asked, snd asked)" using asked_run by simp
  have "representable (4000 + nat 60000000)" by simp
  moreover obtain c where "dget (chains (fst asked)) ''c2'' = Some c"
    using asked_chains(1) by (cases "dget (chains (fst asked)) ''c2''") (auto simp: map_of_eq_None_iff image_iff)
  ultimately show ?thesis using deadline_kept [OF quiet_fresh ask_bob_clock r, of "''c2''" c 4000 70000000] asked_chains(3) by auto
qed

end
