(* ===== verification/Permissions.thy ===== *)
theory Permissions
  imports PyValue
begin

section \<open>Permissions and their narrowing\<close>

text \<open>
  \<open>src/reyn/security/permissions/effective.py\<close> and \<open>capability_profile.py\<close>: what an actor may do is what
  every layer allows.  Profiles narrow the tools, servers and visible categories of a session; several
  of them compose, and a session that is spawned inherits the narrowing of its parent.  A frozenset is
  a set, an exception of the profile loader a constructor.
\<close>

subsection \<open>Layers\<close>

datatype axis = FILE_READ | FILE_WRITE | NETWORK_HOST | SUBPROCESS | MCP | SECRET_WRITE | ENV | ENV_EXPAND | TOOL

record narrowing_origin =
  origin_label :: string
  origin_cause :: string
  lifts_when :: string

datatype contextual = Contextual
  (tool_allow: "string set option") (tool_deny: "string set")
  (mcp_allow: "string set option") (mcp_deny: "string set")
  (term_origin: "narrowing_origin option") (composed_from: "contextual list")

record permission_decl =
  decl_mcp :: "string list"
  http_get :: "string dict list"
  secret_write :: "string list"
  env_expand :: "string list"
  subprocess :: bool
  decl_env :: "string list"

record sandbox_policy =
  deny_subprocess :: bool
  env_deny_names :: "string list"
  network :: bool

record capability_profile =
  profile_name :: string
  profile_description :: string
  categories :: "string list option"
  prof_tool_allow :: "string list option"
  prof_tool_deny :: "string list"
  prof_mcp_allow :: "string list option"
  prof_mcp_deny :: "string list"

text \<open>
  The scopes are the file scopes that were resolved from the configuration, as predicates on a path;
  \<open>approved\<close> is the callback for what was approved at start or in the configuration.
\<close>

record file_scopes =
  in_read :: "string \<Rightarrow> bool"
  in_write :: "string \<Rightarrow> bool"

definition agent_layer :: "permission_decl \<Rightarrow> (axis \<Rightarrow> string \<Rightarrow> bool) \<Rightarrow> file_scopes \<Rightarrow> axis \<Rightarrow> string \<Rightarrow> bool" where
  "agent_layer d approved fs ax v =
     (case ax of
        FILE_READ \<Rightarrow> in_read fs v \<or> approved ax v
      | FILE_WRITE \<Rightarrow> in_write fs v \<or> approved ax v
      | NETWORK_HOST \<Rightarrow> list_ex (\<lambda>e. dget e ''host'' = Some v \<or> dget e ''host'' = Some ''*'') (http_get d) \<or> approved ax v
      | MCP \<Rightarrow> List.member (decl_mcp d) v
      | SECRET_WRITE \<Rightarrow> List.member (secret_write d) v \<or> List.member (secret_write d) ''*'' \<or> approved ax v
      | ENV_EXPAND \<Rightarrow> List.member (env_expand d) v \<or> List.member (env_expand d) ''*'' \<or> approved ax v
      | SUBPROCESS \<Rightarrow> subprocess d
      | ENV \<Rightarrow> decl_env d = [] \<or> List.member (decl_env d) v
      | TOOL \<Rightarrow> True)"

definition sandbox_layer :: "sandbox_policy option \<Rightarrow> axis \<Rightarrow> string \<Rightarrow> bool" where
  "sandbox_layer p ax v =
     (case p of
        None \<Rightarrow> True
      | Some p \<Rightarrow>
          (case ax of
             SUBPROCESS \<Rightarrow> \<not> deny_subprocess p
           | ENV \<Rightarrow> \<not> List.member (env_deny_names p) v
           | NETWORK_HOST \<Rightarrow> network p
           | _ \<Rightarrow> True))"

definition profile_layer :: "capability_profile option \<Rightarrow> axis \<Rightarrow> string \<Rightarrow> bool" where
  "profile_layer sp ax v =
     (case sp of
        None \<Rightarrow> True
      | Some sp \<Rightarrow> (if ax = MCP then (case prof_mcp_allow sp of None \<Rightarrow> True | Some xs \<Rightarrow> List.member xs v) else True))"

fun in_allow :: "string set option \<Rightarrow> string \<Rightarrow> bool" where
  "in_allow None v = True"
| "in_allow (Some A) v \<longleftrightarrow> v \<in> A"

definition contextual_layer :: "contextual option \<Rightarrow> axis \<Rightarrow> string \<Rightarrow> bool" where
  "contextual_layer c ax v =
     (case c of
        None \<Rightarrow> True
      | Some c \<Rightarrow>
          (case ax of
             TOOL \<Rightarrow> in_allow (tool_allow c) v \<and> v \<notin> tool_deny c
           | MCP \<Rightarrow> in_allow (mcp_allow c) v \<and> v \<notin> mcp_deny c
           | _ \<Rightarrow> True))"

type_synonym layer = "axis \<Rightarrow> string \<Rightarrow> bool"

definition effective_allows :: "layer list \<Rightarrow> axis \<Rightarrow> string \<Rightarrow> bool" where
  "effective_allows layers ax v = list_all (\<lambda>l. l ax v) layers"

definition effective_of ::
  "permission_decl \<Rightarrow> sandbox_policy option \<Rightarrow> capability_profile option \<Rightarrow> (axis \<Rightarrow> string \<Rightarrow> bool) \<Rightarrow> file_scopes \<Rightarrow> layer list" where
  "effective_of d p prof approved fs = [agent_layer d approved fs, sandbox_layer p, profile_layer prof]"

subsection \<open>Why something is denied\<close>

definition gate_tool_name :: "string \<Rightarrow> pyval dict \<Rightarrow> pyval" where
  "gate_tool_name name args =
     (if name = ''invoke_action'' then (case dget args ''action_name'' of None \<Rightarrow> VNone | Some v \<Rightarrow> v) else VStr name)"

definition tool_contextually_denied :: "contextual option \<Rightarrow> string \<Rightarrow> bool" where
  "tool_contextually_denied c name = (case c of None \<Rightarrow> False | Some _ \<Rightarrow> \<not> contextual_layer c TOOL name)"

definition narrowing_terms :: "contextual \<Rightarrow> contextual list" where
  "narrowing_terms c = (if composed_from c = [] then [c] else composed_from c)"

definition attribute_deny :: "contextual option \<Rightarrow> axis \<Rightarrow> string \<Rightarrow> narrowing_origin option" where
  "attribute_deny c ax v =
     (case c of
        None \<Rightarrow> None
      | Some c \<Rightarrow>
          (case find (\<lambda>t. \<not> contextual_layer (Some t) ax v) (narrowing_terms c) of
             None \<Rightarrow> None
           | Some t \<Rightarrow> term_origin t))"

definition explain :: "narrowing_origin \<Rightarrow> string" where
  "explain r = origin_label r @ ''. Cause: '' @ origin_cause r @ ''. Lifts when: '' @ lifts_when r"

subsection \<open>Profiles\<close>

definition CATEGORIES :: "string list" where
  "CATEGORIES = [''multi_agent'', ''mcp'', ''file'', ''web'', ''memory_operation'', ''reyn_repo'', ''exec'', ''skill_management'',
     ''pipeline'', ''pipeline_management'', ''task'', ''presentation_management'', ''plugin_management'', ''knowledge'',
     ''embedding'', ''hooks'']"

definition RENAMED_TOOL_NAMES :: "string list" where
  "RENAMED_TOOL_NAMES = [''agent_spawn'', ''session_spawn'', ''topology_create'']"

datatype profile_exc = RenamedToolName string string | ProfileTypeError

definition as_tuple :: "pyval \<Rightarrow> string list option" where
  "as_tuple v = (case v of VNone \<Rightarrow> None | VList xs \<Rightarrow> Some (map py_str xs) | _ \<Rightarrow> Some [py_str v])"

definition check_no_renamed :: "string \<Rightarrow> string list \<Rightarrow> profile_exc + unit" where
  "check_no_renamed ax names =
     (case find (\<lambda>n. List.member RENAMED_TOOL_NAMES n) names of None \<Rightarrow> Inr () | Some n \<Rightarrow> Inl (RenamedToolName ax n))"

definition tuple_at :: "pyval dict \<Rightarrow> string \<Rightarrow> string list option" where
  "tuple_at d k = (case dget d k of None \<Rightarrow> None | Some v \<Rightarrow> as_tuple v)"

definition or_empty_tuple :: "string list option \<Rightarrow> string list" where
  "or_empty_tuple x = (case x of None \<Rightarrow> [] | Some xs \<Rightarrow> xs)"

text \<open>The body of a profile file is what the YAML loader gives; \<open>stem\<close> is the name of the file.\<close>

definition load_profile :: "string \<Rightarrow> pyval \<Rightarrow> profile_exc + capability_profile" where
  "load_profile stem body =
     (let d = (case body of VDict d \<Rightarrow> d | _ \<Rightarrow> []);
          ta = tuple_at d ''tool_allow''; td = or_empty_tuple (tuple_at d ''tool_deny'') in
      rbind (check_no_renamed ''tool_allow'' (or_empty_tuple ta)) (\<lambda>_.
      rbind (check_no_renamed ''tool_deny'' td) (\<lambda>_.
        Inr \<lparr>profile_name = (case dget d ''name'' of None \<Rightarrow> stem | Some v \<Rightarrow> py_str v),
          profile_description = (case dget d ''description'' of None \<Rightarrow> [] | Some v \<Rightarrow> if truthy v then py_str v else []),
          categories = tuple_at d ''categories'', prof_tool_allow = ta, prof_tool_deny = td,
          prof_mcp_allow = tuple_at d ''mcp_allow'', prof_mcp_deny = or_empty_tuple (tuple_at d ''mcp_deny'')\<rparr>)))"

type_synonym resolved = "contextual \<times> string set"

definition resolve_profile :: "capability_profile \<Rightarrow> narrowing_origin option \<Rightarrow> resolved" where
  "resolve_profile p orig =
     (Contextual (map_option set (prof_tool_allow p)) (set (prof_tool_deny p)) (map_option set (prof_mcp_allow p))
        (set (prof_mcp_deny p)) orig [],
      case categories p of None \<Rightarrow> {} | Some cs \<Rightarrow> set CATEGORIES - set cs)"

definition compose_allow :: "(contextual \<Rightarrow> string set option) \<Rightarrow> contextual list \<Rightarrow> string set option" where
  "compose_allow allow cs = (case List.map_filter allow cs of [] \<Rightarrow> None | s # ss \<Rightarrow> Some (fold (\<inter>) ss s))"

definition compose_resolved :: "resolved list \<Rightarrow> resolved" where
  "compose_resolved rs =
     (let cs = map fst rs in
      (Contextual (compose_allow tool_allow cs) (fold (\<lambda>c d. d \<union> tool_deny c) cs {})
         (compose_allow mcp_allow cs) (fold (\<lambda>c d. d \<union> mcp_deny c) cs {}) None (concat (map narrowing_terms cs)),
       fold (\<lambda>r e. e \<union> snd r) rs {}))"

definition profile_permits :: "capability_profile \<Rightarrow> string \<Rightarrow> bool" where
  "profile_permits p tool \<longleftrightarrow>
     (case prof_tool_allow p of None \<Rightarrow> True | Some xs \<Rightarrow> List.member xs tool) \<and> \<not> List.member (prof_tool_deny p) tool"

subsection \<open>Inherited narrowing\<close>

definition NARROWING_ALLOW_KEYS :: "string list" where
  "NARROWING_ALLOW_KEYS = [''tool_allow'', ''mcp_allow'', ''categories'']"

definition NARROWING_DENY_KEYS :: "string list" where
  "NARROWING_DENY_KEYS = [''tool_deny'', ''mcp_deny'']"

definition strs :: "string list \<Rightarrow> pyval" where
  "strs xs = VList (map VStr xs)"

definition compose_key :: "pyval dict \<Rightarrow> string \<Rightarrow> pyval \<Rightarrow> profile_exc + pyval" where
  "compose_key parent k v =
     (if List.member NARROWING_DENY_KEYS k then
        (let base = or_empty_tuple (tuple_at parent k); extra = or_empty_tuple (as_tuple v) in
         Inr (strs (base @ filter (\<lambda>x. \<not> List.member base x) extra)))
      else if List.member NARROWING_ALLOW_KEYS k then
        (case (tuple_at parent k, as_tuple v) of
           (None, None) \<Rightarrow> Inl ProfileTypeError
         | (None, Some theirs) \<Rightarrow> Inr (strs theirs)
         | (Some mine, None) \<Rightarrow> Inr (strs mine)
         | (Some mine, Some theirs) \<Rightarrow> Inr (strs (filter (List.member mine) theirs)))
      else Inr v)"

fun compose_items :: "pyval dict \<Rightarrow> pyval dict \<Rightarrow> pyval dict \<Rightarrow> profile_exc + pyval dict" where
  "compose_items parent out [] = Inr out"
| "compose_items parent out ((k, v) # items) =
     rbind (compose_key parent k v) (\<lambda>w. compose_items parent (dset k w out) items)"

definition compose_narrowing :: "pyval dict option \<Rightarrow> pyval dict option \<Rightarrow> profile_exc + pyval dict option" where
  "compose_narrowing parent child =
     (let p = (case parent of None \<Rightarrow> [] | Some d \<Rightarrow> d); c = (case child of None \<Rightarrow> [] | Some d \<Rightarrow> d) in
      if p = [] then Inr (if c = [] then None else Some c)
      else if c = [] then Inr (Some p)
      else rbind (compose_items p p c) (\<lambda>out. Inr (Some out)))"

subsection \<open>Narrowing a spawned session\<close>

text \<open>
  A session's narrowing is a mapping in the \<open>config.yaml\<close> of the session
  (\<open>_persist_session_narrowing\<close>, \<open>per_session_narrowing\<close> and \<open>_load_per_session_capability_profile\<close> of
  \<open>src/reyn/runtime/registry.py\<close>); a file that cannot be loaded is passed over.  The worker of an
  agent step is born under what \<open>_build_agent_step_narrowing\<close> of \<open>src/reyn/runtime/session_api.py\<close> gives.
\<close>

definition session_config :: "string \<Rightarrow> pyval dict \<Rightarrow> pyval dict" where
  "session_config sid nw = dmerge [(''name'', VStr (''_session_'' @ sid))] nw"

definition per_session_narrowing :: "pyval dict option \<Rightarrow> pyval dict option" where
  "per_session_narrowing config =
     (case config of
        None \<Rightarrow> None
      | Some d \<Rightarrow> (let n = filter (\<lambda>(k, _). k \<noteq> ''name'') d in if n = [] then None else Some n))"

definition load_session_profile :: "pyval dict option \<Rightarrow> capability_profile option" where
  "load_session_profile config =
     (case config of
        None \<Rightarrow> None
      | Some d \<Rightarrow> (case load_profile ''config'' (VDict d) of Inl _ \<Rightarrow> None | Inr p \<Rightarrow> Some p))"

text \<open>\<open>spawn_session\<close> with a narrowing the caller asks for: the configuration of the child.\<close>

definition spawn_config :: "string \<Rightarrow> pyval dict option \<Rightarrow> pyval dict option \<Rightarrow> profile_exc + pyval dict option" where
  "spawn_config sid parent asked =
     rbind (compose_narrowing (per_session_narrowing parent) asked) (\<lambda>n. Inr (map_option (session_config sid) n))"

definition DELEGATION_DENY_TOOLS :: "string list" where
  "DELEGATION_DENY_TOOLS = [''run_pipeline'', ''hooks_add'']"

definition agent_step_narrowing :: "string list option \<Rightarrow> pyval dict option \<Rightarrow> profile_exc + pyval dict option" where
  "agent_step_narrowing capabilities parent =
     compose_narrowing parent
       (Some ((''tool_deny'', strs DELEGATION_DENY_TOOLS)
          # (case capabilities of None \<Rightarrow> [] | Some cs \<Rightarrow> [(''tool_allow'', strs cs)])))"

end
