(* ===== verification/Orgs.thy ===== *)
theory Orgs
  imports Permissions "HOL-Library.Char_ord" "HOL-Library.List_Lexorder"
begin

section \<open>Organisations of agents\<close>

text \<open>
  Who may send to whom (\<open>src/reyn/runtime/topology.py\<close> and the topologies of
  \<open>src/reyn/runtime/registry.py\<close>), who spawned whom, and the narrowing an agent is under because of
  both.  The agents on disk are the sorted list of names with the marker of archived ones; the texts of an
  origin are an argument, what a profile file holds is one of three cases.
\<close>

subsection \<open>Topologies\<close>

record topology =
  topo_name :: string
  topo_kind :: string
  members :: "string list"
  leader :: "string option"
  created_at :: string
  topo_profiles :: "string dict"

datatype topology_reason =
    ReservedName | InvalidName | InvalidKind | DuplicateMembers | ProfilesOfNonMembers | NoLeader | LeaderNotMember
  | LeaderOfNonTeam | AlreadyMember | NotMember | RemovesLeader | AutoManaged | UnknownAgent string

datatype topology_exc =
    TopologyValueError topology_reason
  | TopologyNotFound string
  | TopologyExists string

definition KINDS :: "string list" where
  "KINDS = [''network'', ''team'', ''pipeline'']"

definition name_char :: "char \<Rightarrow> bool" where
  "name_char c \<longleftrightarrow> (CHR ''a'' \<le> c \<and> c \<le> CHR ''z'') \<or> (CHR ''0'' \<le> c \<and> c \<le> CHR ''9'')"

text \<open>The dollar of a pattern also matches before a newline at the end.\<close>

definition name_matches :: "string \<Rightarrow> bool" where
  "name_matches s =
     (let s = (if s \<noteq> [] \<and> last s = CHR 0x0A then butlast s else s) in
      s \<noteq> [] \<and> name_char (hd s) \<and> length s \<le> 32 \<and> list_all (\<lambda>c. name_char c \<or> c = CHR ''_'' \<or> c = CHR ''-'') (tl s))"

definition validate_topology_name :: "string \<Rightarrow> topology_exc + unit" where
  "validate_topology_name s =
     (if s = ''default'' then Inl (TopologyValueError ReservedName)
      else if \<not> name_matches s then Inl (TopologyValueError InvalidName) else Inr ())"

text \<open>\<open>__post_init__\<close>: what every topology that is constructed has passed.\<close>

definition make_topology :: "topology \<Rightarrow> topology_exc + topology" where
  "make_topology t =
     (if topo_kind t \<notin> set KINDS then Inl (TopologyValueError InvalidKind)
      else if \<not> distinct (members t) then Inl (TopologyValueError DuplicateMembers)
      else if \<not> list_all (\<lambda>m. m \<in> set (members t)) (dkeys (topo_profiles t)) then Inl (TopologyValueError ProfilesOfNonMembers)
      else if topo_kind t = ''team'' then
        (case leader t of
           None \<Rightarrow> Inl (TopologyValueError NoLeader)
         | Some l \<Rightarrow> if l \<notin> set (members t) then Inl (TopologyValueError LeaderNotMember) else Inr t)
      else if leader t \<noteq> None then Inl (TopologyValueError LeaderOfNonTeam)
      else Inr t)"

fun index_of :: "string list \<Rightarrow> string \<Rightarrow> nat" where
  "index_of [] x = 0"
| "index_of (y # ys) x = (if x = y then 0 else Suc (index_of ys x))"

definition can_send :: "topology \<Rightarrow> string \<Rightarrow> string \<Rightarrow> bool" where
  "can_send t a b =
     (if a = b then False
      else if a \<notin> set (members t) \<or> b \<notin> set (members t) then False
      else if topo_kind t = ''network'' then True
      else if topo_kind t = ''team'' then leader t = Some a \<or> leader t = Some b
      else if topo_kind t = ''pipeline'' then index_of (members t) b = index_of (members t) a + 1
      else False)"

definition topology_edges :: "topology \<Rightarrow> (string \<times> string) list" where
  "topology_edges t = [(a, b). a \<leftarrow> members t, b \<leftarrow> members t, can_send t a b]"

definition profile_for :: "topology \<Rightarrow> string \<Rightarrow> string option" where
  "profile_for t m = dget (topo_profiles t) m"

definition without_profile :: "string \<Rightarrow> string dict \<Rightarrow> string dict" where
  "without_profile a d = filter (\<lambda>(m, _). m \<noteq> a) d"

definition with_member_added :: "string \<Rightarrow> topology \<Rightarrow> topology_exc + topology" where
  "with_member_added a t =
     (if a \<in> set (members t) then Inl (TopologyValueError AlreadyMember)
      else make_topology (t\<lparr>members := members t @ [a]\<rparr>))"

definition with_member_removed :: "string \<Rightarrow> topology \<Rightarrow> topology_exc + topology" where
  "with_member_removed a t =
     (if a \<notin> set (members t) then Inl (TopologyValueError NotMember)
      else if topo_kind t = ''team'' \<and> leader t = Some a then Inl (TopologyValueError RemovesLeader)
      else make_topology (t\<lparr>members := filter (\<lambda>m. m \<noteq> a) (members t), topo_profiles := without_profile a (topo_profiles t)\<rparr>))"

subsection \<open>The topologies of the registry\<close>

record org =
  agents :: "(string \<times> bool) list"
  topologies :: "topology dict"

definition agent_exists :: "org \<Rightarrow> string \<Rightarrow> bool" where
  "agent_exists g a \<longleftrightarrow> dget (agents g) a \<noteq> None"

definition is_archived :: "org \<Rightarrow> string \<Rightarrow> bool" where
  "is_archived g a \<longleftrightarrow> dget (agents g) a = Some True"

definition list_active_names :: "org \<Rightarrow> string list" where
  "list_active_names g = filter (\<lambda>n. \<not> is_archived g n) (map fst (agents g))"

definition affiliated_agents :: "org \<Rightarrow> string list" where
  "affiliated_agents g = concat (map (members \<circ> snd) (topologies g))"

definition DEFAULT_TOPOLOGY_NAME :: string where
  "DEFAULT_TOPOLOGY_NAME = ''_default''"

definition default_topology :: "org \<Rightarrow> topology" where
  "default_topology g =
     \<lparr>topo_name = DEFAULT_TOPOLOGY_NAME, topo_kind = ''network'',
       members = filter (\<lambda>n. n \<notin> set (affiliated_agents g)) (list_active_names g),
       leader = None, created_at = [], topo_profiles = []\<rparr>"

definition list_topologies :: "org \<Rightarrow> topology list" where
  "list_topologies g = List.map_filter (dget (topologies g)) (sort (dkeys (topologies g))) @ [default_topology g]"

definition get_topology :: "org \<Rightarrow> string \<Rightarrow> topology_exc + topology" where
  "get_topology g name =
     (if name = DEFAULT_TOPOLOGY_NAME then Inr (default_topology g)
      else (case dget (topologies g) name of None \<Rightarrow> Inl (TopologyNotFound name) | Some t \<Rightarrow> Inr t))"

definition topologies_for_agent :: "org \<Rightarrow> string \<Rightarrow> topology list" where
  "topologies_for_agent g a = filter (\<lambda>t. a \<in> set (members t)) (list_topologies g)"

definition permit :: "org \<Rightarrow> string \<Rightarrow> string \<Rightarrow> bool" where
  "permit g a b =
     (if a = b then False
      else if is_archived g a \<or> is_archived g b then False
      else list_ex (\<lambda>t. can_send t a b)
        (filter (\<lambda>t. a \<in> set (members t) \<and> b \<in> set (members t)) (map snd (topologies g) @ [default_topology g])))"

definition add_topology :: "topology \<Rightarrow> org \<Rightarrow> topology_exc + org" where
  "add_topology t g =
     (if topo_name t = DEFAULT_TOPOLOGY_NAME then Inl (TopologyValueError AutoManaged)
      else rbind (validate_topology_name (topo_name t)) (\<lambda>_.
        if has_key (topologies g) (topo_name t) then Inl (TopologyExists (topo_name t))
        else (case find (\<lambda>m. \<not> agent_exists g m) (members t) of
            Some m \<Rightarrow> Inl (TopologyValueError (UnknownAgent m))
          | None \<Rightarrow> Inr (g\<lparr>topologies := dset (topo_name t) t (topologies g)\<rparr>))))"

definition remove_topology :: "string \<Rightarrow> org \<Rightarrow> topology_exc + org" where
  "remove_topology name g =
     (if name = DEFAULT_TOPOLOGY_NAME then Inl (TopologyValueError AutoManaged)
      else if \<not> has_key (topologies g) name then Inl (TopologyNotFound name)
      else Inr (g\<lparr>topologies := AList.delete name (topologies g)\<rparr>))"

definition add_member :: "string \<Rightarrow> string \<Rightarrow> org \<Rightarrow> topology_exc + org" where
  "add_member name a g =
     (if name = DEFAULT_TOPOLOGY_NAME then Inl (TopologyValueError AutoManaged)
      else rbind (get_topology g name) (\<lambda>t.
        if \<not> agent_exists g a then Inl (TopologyValueError (UnknownAgent a))
        else rbind (with_member_added a t) (\<lambda>t'. Inr (g\<lparr>topologies := dset name t' (topologies g)\<rparr>))))"

definition remove_member :: "string \<Rightarrow> string \<Rightarrow> org \<Rightarrow> topology_exc + org" where
  "remove_member name a g =
     (if name = DEFAULT_TOPOLOGY_NAME then Inl (TopologyValueError AutoManaged)
      else rbind (get_topology g name) (\<lambda>t.
        rbind (with_member_removed a t) (\<lambda>t'. Inr (g\<lparr>topologies := dset name t' (topologies g)\<rparr>))))"

text \<open>\<open>_cascade_agent_removal\<close>, one topology after the other; the changes are what is then logged.\<close>

definition cascade_one :: "string \<Rightarrow> string \<Rightarrow> org \<times> (string \<times> topology option) list \<Rightarrow> topology_exc + org \<times> (string \<times> topology option) list" where
  "cascade_one a name st =
     (case st of (g, changes) \<Rightarrow>
       case dget (topologies g) name of
         None \<Rightarrow> Inr (g, changes)
       | Some t \<Rightarrow>
           if a \<notin> set (members t) then Inr (g, changes)
           else if topo_kind t = ''team'' \<and> leader t = Some a \<or> filter (\<lambda>m. m \<noteq> a) (members t) = [] then
             rbind (remove_topology name g) (\<lambda>g'. Inr (g', changes @ [(name, None)]))
           else
             rbind (make_topology (t\<lparr>members := filter (\<lambda>m. m \<noteq> a) (members t), topo_profiles := without_profile a (topo_profiles t)\<rparr>))
               (\<lambda>t'. Inr (g\<lparr>topologies := dset name t' (topologies g)\<rparr>, changes @ [(name, Some t')])))"

fun cascade_names :: "string \<Rightarrow> string list \<Rightarrow> org \<times> (string \<times> topology option) list \<Rightarrow> topology_exc + org \<times> (string \<times> topology option) list" where
  "cascade_names a [] st = Inr st"
| "cascade_names a (n # ns) st = rbind (cascade_one a n st) (cascade_names a ns)"

definition cascade_agent_removal :: "string \<Rightarrow> org \<Rightarrow> topology_exc + org \<times> (string \<times> topology option) list" where
  "cascade_agent_removal a g = cascade_names a (dkeys (topologies g)) (g, [])"

end
