(* ===== verification/Lineage.thy ===== *)
theory Lineage
  imports Orgs
begin

section \<open>Spawned agents and what caps them\<close>

text \<open>
  \<open>resolved_profile_for\<close> and the spawn lineage of \<open>src/reyn/runtime/registry.py\<close>: the narrowing an agent
  is under is composed of the profiles its topologies bind it to, the floor of delegates, the narrowing
  of the session and what its parent is under.  The identity of an agent is that of its directory.
\<close>

type_synonym identity = "int \<times> int option"

datatype profile_file = NoFile | Malformed | Parsed capability_profile

text \<open>Why a term is there; the texts that explain it are an argument.\<close>

datatype term_reason =
    ProfileMissing string string
  | ProfileMalformed string string
  | ProfileBound string string
  | UnboundDelegate
  | PerSession
  | ParentGone string

record world =
  the_org :: org
  profile_files :: "string \<Rightarrow> profile_file"
  delegate_file :: profile_file
  capability_default :: string
  constructing_as_delegate :: bool
  session_configs :: "string \<Rightarrow> string \<Rightarrow> pyval dict option"
  spawn_lineage :: "(string \<times> identity option) dict"
  identities :: "string \<Rightarrow> identity option"
  texts :: "term_reason \<Rightarrow> narrowing_origin"

subsection \<open>The delegate floor\<close>

definition FLOORED_TOOLS :: "string list" where
  "FLOORED_TOOLS = [''create_topology'', ''exec'', ''forget_memory'', ''mcp_install_local'', ''mcp_install_package'',
     ''mcp_install_registry'', ''pipeline_install_local'', ''pipeline_install_source'', ''remember_agent'', ''remember_shared'',
     ''run_pipeline'', ''run_prompt'', ''send_to_session'', ''skill_install_local'', ''skill_install_source'', ''spawn_agent'',
     ''spawn_session'']"

definition builtin_delegate_profile :: capability_profile where
  "builtin_delegate_profile =
     \<lparr>profile_name = ''_delegate'',
       profile_description = ''auto-applied to an unbound delegate under delegation.capability_default=deny (#2081)'',
       categories = None, prof_tool_allow = None, prof_tool_deny = FLOORED_TOOLS, prof_mcp_allow = None, prof_mcp_deny = []\<rparr>"

definition load_delegate_profile :: "world \<Rightarrow> capability_profile" where
  "load_delegate_profile w = (case delegate_file w of Parsed p \<Rightarrow> p | _ \<Rightarrow> builtin_delegate_profile)"

definition floor_term :: "world \<Rightarrow> term_reason \<Rightarrow> resolved" where
  "floor_term w r = resolve_profile (load_delegate_profile w) (Some (texts w r))"

subsection \<open>The narrowing of an agent\<close>

definition topology_term :: "world \<Rightarrow> string \<Rightarrow> topology \<Rightarrow> resolved list" where
  "topology_term w a t =
     (case profile_for t a of
        None \<Rightarrow> []
      | Some n \<Rightarrow>
          if n = [] then []
          else (case profile_files w n of
              NoFile \<Rightarrow> [floor_term w (ProfileMissing (topo_name t) n)]
            | Malformed \<Rightarrow> [floor_term w (ProfileMalformed (topo_name t) n)]
            | Parsed p \<Rightarrow> [resolve_profile p (Some (texts w (ProfileBound (topo_name t) n)))]))"

definition topology_terms :: "world \<Rightarrow> string \<Rightarrow> resolved list" where
  "topology_terms w a = concat (map (topology_term w a) (topologies_for_agent (the_org w) a))"

definition delegate_terms :: "world \<Rightarrow> bool option \<Rightarrow> resolved list" where
  "delegate_terms w is_delegate =
     (if (case is_delegate of None \<Rightarrow> constructing_as_delegate w | Some b \<Rightarrow> b) \<and> capability_default w = ''deny''
      then [floor_term w UnboundDelegate] else [])"

definition session_terms :: "world \<Rightarrow> string \<Rightarrow> string option \<Rightarrow> resolved list" where
  "session_terms w a sid =
     (case sid of
        None \<Rightarrow> []
      | Some s \<Rightarrow>
          (case load_session_profile (session_configs w a s) of
             None \<Rightarrow> []
           | Some p \<Rightarrow> [resolve_profile p (Some (texts w PerSession))]))"

definition stale :: "world \<Rightarrow> string \<times> identity option \<Rightarrow> bool" where
  "stale w e = (case e of (parent, frozen) \<Rightarrow> frozen \<noteq> None \<and> identities w parent \<noteq> frozen)"

definition composed :: "resolved list \<Rightarrow> contextual option \<times> string set" where
  "composed rs = (if rs = [] then (None, {}) else (case compose_resolved rs of (c, e) \<Rightarrow> (Some c, e)))"

fun term_of :: "contextual option \<times> string set \<Rightarrow> resolved list" where
  "term_of (None, e) = []"
| "term_of (Some c, e) = [(c, e)]"

text \<open>A parent is resolved like its child; \<open>None\<close> when the chain of parents is longer than the bound.\<close>

fun resolved_profile_for ::
  "nat \<Rightarrow> world \<Rightarrow> string \<Rightarrow> bool option \<Rightarrow> string option \<Rightarrow> (contextual option \<times> string set) option" where
  "resolved_profile_for 0 w a is_delegate sid = None"
| "resolved_profile_for (Suc n) w a is_delegate sid =
     (let bound = topology_terms w a;
          own = (if bound = [] then delegate_terms w is_delegate else bound) @ session_terms w a sid in
      case dget (spawn_lineage w) a of
        None \<Rightarrow> Some (composed own)
      | Some (parent, frozen) \<Rightarrow>
          if stale w (parent, frozen) \<or> identities w parent = None then Some (composed (own @ [floor_term w (ParentGone parent)]))
          else (case resolved_profile_for n w parent None None of
              None \<Rightarrow> None
            | Some r \<Rightarrow> Some (composed (own @ term_of r))))"

subsection \<open>The lineage\<close>

datatype lineage_exc = SelfLink | ImmutableEdge string | LineageCycle

lemma card_shrinks: "x \<in> A - set seen \<Longrightarrow> finite A \<Longrightarrow> card (A - set (x # seen)) < card (A - set seen)"
  by (rule psubset_card_mono) auto

text \<open>The walk from a cursor to the root; it visits no name twice.\<close>

function reaches :: "(string \<times> identity option) dict \<Rightarrow> string list \<Rightarrow> string \<Rightarrow> string \<Rightarrow> bool" where
  "reaches l seen child cursor =
     (if cursor \<in> set seen then False
      else if cursor = child then True
      else (case dget l cursor of None \<Rightarrow> False | Some e \<Rightarrow> reaches l (cursor # seen) child (fst e)))"
  by pat_completeness auto
termination
proof (relation "measure (\<lambda>(l, seen, _). card (set (dkeys l) - set seen))")
  fix l :: "(string \<times> identity option) dict" and seen child cursor e
  assume "cursor \<notin> set seen" "dget l cursor = Some e"
  then have "cursor \<in> set (dkeys l) - set seen" by (auto simp: dkeys_def dest: map_of_SomeD intro: image_eqI [where x = "(cursor, e)"])
  then show "((l, cursor # seen, child, fst e), (l, seen, child, cursor)) \<in> measure (\<lambda>(l, seen, _). card (set (dkeys l) - set seen))"
    using card_shrinks [of cursor "set (dkeys l)" seen] by simp
qed simp

declare reaches.simps [simp del]

definition record_spawn_lineage :: "string \<Rightarrow> string \<Rightarrow> world \<Rightarrow> lineage_exc + world" where
  "record_spawn_lineage child parent w =
     (let link = (if reaches (spawn_lineage w) [] child parent then Inl LineageCycle
          else Inr (w\<lparr>spawn_lineage := dset child (parent, identities w parent) (spawn_lineage w)\<rparr>)) in
      if child = parent then Inl SelfLink
      else (case dget (spawn_lineage w) child of
          None \<Rightarrow> link
        | Some (p, _) \<Rightarrow> if p \<noteq> parent then Inl (ImmutableEdge p) else link))"

definition INVALIDATED :: identity where
  "INVALIDATED = (-1, None)"

text \<open>What purging an agent does to the edges that name it as the parent.\<close>

definition invalidate_edges :: "string \<Rightarrow> world \<Rightarrow> world" where
  "invalidate_edges name w =
     w\<lparr>spawn_lineage := map (\<lambda>(c, p, s). if p = name then (c, p, Some INVALIDATED) else (c, p, s)) (spawn_lineage w)\<rparr>"

text \<open>The registry of a new process: what it has of the lineage is empty.\<close>

definition restarted :: "world \<Rightarrow> world" where
  "restarted w = w\<lparr>spawn_lineage := [], constructing_as_delegate := False\<rparr>"

definition parents_in :: "world \<Rightarrow> string set" where
  "parents_in w = fst ` snd ` set (spawn_lineage w)"

lemma parent_shrinks:
  "dget (spawn_lineage w) c = Some (p, s) \<Longrightarrow> p \<notin> set seen \<Longrightarrow>
    card (parents_in w - set (p # seen)) < card (parents_in w - set seen)"
  by (rule card_shrinks) (force simp: parents_in_def dest: map_of_SomeD)+

function descends :: "world \<Rightarrow> string list \<Rightarrow> string \<Rightarrow> string \<Rightarrow> bool" where
  "descends w seen cursor ancestor =
     (case dget (spawn_lineage w) cursor of
        None \<Rightarrow> False
      | Some (p, s) \<Rightarrow>
          if stale w (p, s) then False
          else if p = ancestor then True
          else if p \<in> set seen then False
          else descends w (p # seen) p ancestor)"
  by pat_completeness auto
termination
  by (relation "measure (\<lambda>(w, seen, c, _). card (parents_in w - set seen))") (use parent_shrinks in auto)

declare descends.simps [simp del]

definition is_spawn_descendant :: "world \<Rightarrow> string \<Rightarrow> string \<Rightarrow> bool" where
  "is_spawn_descendant w a ancestor = (if a = ancestor then True else descends w [] a ancestor)"

function depth_from :: "world \<Rightarrow> string list \<Rightarrow> nat \<Rightarrow> string \<Rightarrow> nat" where
  "depth_from w seen depth cursor =
     (case dget (spawn_lineage w) cursor of
        None \<Rightarrow> depth
      | Some (p, s) \<Rightarrow>
          if stale w (p, s) then depth
          else if p \<in> set seen then depth
          else depth_from w (p # seen) (depth + 1) p)"
  by pat_completeness auto
termination
  by (relation "measure (\<lambda>(w, seen, d, c). card (parents_in w - set seen))") (use parent_shrinks in auto)

declare depth_from.simps [simp del]

definition spawn_depth :: "world \<Rightarrow> string \<Rightarrow> nat" where
  "spawn_depth w a = depth_from w [] 0 a"

definition spawn_child_count :: "world \<Rightarrow> string \<Rightarrow> nat" where
  "spawn_child_count w parent =
     length (filter (\<lambda>(_, p, s). p = parent \<and> (s = None \<or> s = identities w parent)) (spawn_lineage w))"

end
