(* ===== verification/PermFacts.thy ===== *)
theory PermFacts
  imports Permissions
begin

section \<open>Narrowing only narrows\<close>

text \<open>
  What profiles compose to, whom a denial names, and what a spawned session inherits, also where it
  inherits nothing.
\<close>

abbreviation denies :: "contextual \<Rightarrow> axis \<Rightarrow> string \<Rightarrow> bool" where
  "denies c ax v \<equiv> \<not> contextual_layer (Some c) ax v"

lemma member_iff [simp]: "List.member xs x \<longleftrightarrow> x \<in> set xs"
  by (simp add: List.member_iff)

subsection \<open>Composition\<close>

text \<open>What the code relies on of a composition: it allows what all of its terms allow.\<close>

locale conjunction =
  fixes meet :: "'r list \<Rightarrow> 'q" and allows :: "'r \<Rightarrow> 'v \<Rightarrow> bool" and allowed :: "'q \<Rightarrow> 'v \<Rightarrow> bool"
  assumes exact: "allowed (meet rs) v \<longleftrightarrow> (\<forall>r\<in>set rs. allows r v)"
begin

lemma term_caps: "r \<in> set rs \<Longrightarrow> \<not> allows r v \<Longrightarrow> \<not> allowed (meet rs) v"
  by (auto simp: exact)

lemma never_widens: "set rs \<subseteq> set ss \<Longrightarrow> allowed (meet ss) v \<Longrightarrow> allowed (meet rs) v"
  by (auto simp: exact)

end

lemma in_inter: "v \<in> fold (\<inter>) ss s \<longleftrightarrow> v \<in> s \<and> (\<forall>t\<in>set ss. v \<in> t)"
  by (induction ss arbitrary: s) auto

lemma in_union: "v \<in> fold (\<lambda>x d. d \<union> f x) xs s \<longleftrightarrow> v \<in> s \<or> (\<exists>x\<in>set xs. v \<in> f x)"
  by (induction xs arbitrary: s) auto

lemma map_filter_set: "set (List.map_filter f xs) = {y. \<exists>x\<in>set xs. f x = Some y}"
  by (induction xs) (auto simp: List.map_filter_simps split: option.splits)

lemma in_compose_allow: "in_allow (compose_allow f cs) v \<longleftrightarrow> (\<forall>c\<in>set cs. in_allow (f c) v)"
proof -
  have a: "in_allow x v \<longleftrightarrow> (\<forall>A. x = Some A \<longrightarrow> v \<in> A)" for x by (cases x) auto
  have m: "(\<forall>c\<in>set cs. in_allow (f c) v) \<longleftrightarrow> (\<forall>A\<in>set (List.map_filter f cs). v \<in> A)"
    by (auto simp: a map_filter_set)
  show ?thesis
  proof (cases "List.map_filter f cs")
    case Nil
    then show ?thesis using m by (simp add: compose_allow_def)
  next
    case (Cons s ss)
    then show ?thesis using m by (simp add: compose_allow_def in_inter)
  qed
qed

lemma composed_layer:
  "contextual_layer (Some (fst (compose_resolved rs))) ax v \<longleftrightarrow> (\<forall>r\<in>set rs. contextual_layer (Some (fst r)) ax v)"
  by (cases ax) (auto simp: contextual_layer_def compose_resolved_def Let_def in_compose_allow in_union)

text \<open>C24: Composing narrowings is their conjunction: the composition allows a value on an axis exactly when each
  of them does, and hides a category exactly when one of them does; no order of composition and no
  further profile can give back what one of them denies.\<close>

theorem composed_is_conjunction:
  "(contextual_layer (Some (fst (compose_resolved rs))) ax v \<longleftrightarrow> (\<forall>r\<in>set rs. contextual_layer (Some (fst r)) ax v))
    \<and> (k \<in> snd (compose_resolved rs) \<longleftrightarrow> (\<exists>r\<in>set rs. k \<in> snd r))"
  by (simp add: composed_layer) (simp add: compose_resolved_def in_union Let_def)

lemma composed_is_conjunction_witness:
  "\<not> contextual_layer (Some (fst (compose_resolved [(Contextual None {} None {} None [], {}), (Contextual None {''exec''} None {} None [], {''mcp''})])))
      TOOL ''exec''
    \<and> ''mcp'' \<in> snd (compose_resolved [(Contextual None {} None {} None [], {}), (Contextual None {''exec''} None {} None [], {''mcp''})])"
  using composed_is_conjunction
      [of "[(Contextual None {} None {} None [], {}), (Contextual None {''exec''} None {} None [], {''mcp''})]" TOOL "''exec''" "''mcp''"]
  by (simp add: contextual_layer_def)

subsection \<open>Attribution\<close>

text \<open>A narrowing built by resolving profiles and composing the results.\<close>

inductive built :: "contextual \<Rightarrow> bool" where
  Resolved: "built (fst (resolve_profile p (Some orig)))"
| Composed: "\<forall>r\<in>set rs. built (fst r) \<Longrightarrow> rs \<noteq> [] \<Longrightarrow> built (fst (compose_resolved rs))"

lemma built_terms:
  "built c \<Longrightarrow> narrowing_terms c \<noteq> [] \<and> (\<forall>t\<in>set (narrowing_terms c). term_origin t \<noteq> None)
    \<and> (\<forall>ax v. contextual_layer (Some c) ax v \<longleftrightarrow> (\<forall>t\<in>set (narrowing_terms c). contextual_layer (Some t) ax v))"
proof (induction rule: built.induct)
  case (Resolved p orig)
  then show ?case by (simp add: narrowing_terms_def resolve_profile_def)
next
  case (Composed rs)
  have t: "composed_from (fst (compose_resolved rs)) = concat (map (narrowing_terms \<circ> fst) rs)"
    by (simp add: compose_resolved_def Let_def)
  obtain r0 where r0: "r0 \<in> set rs" using Composed(2) by (cases rs) auto
  then have ne: "\<exists>r\<in>set rs. narrowing_terms (fst r) \<noteq> []" using bspec [OF Composed(1) r0] by blast
  then have some: "concat (map (narrowing_terms \<circ> fst) rs) \<noteq> []" by auto
  then have n: "narrowing_terms (fst (compose_resolved rs)) = concat (map (narrowing_terms \<circ> fst) rs)"
    by (subst narrowing_terms_def) (simp only: t if_False)
  have i: "narrowing_terms (fst r) \<noteq> []" "\<forall>t\<in>set (narrowing_terms (fst r)). term_origin t \<noteq> None"
      "contextual_layer (Some (fst r)) ax v \<longleftrightarrow> (\<forall>t\<in>set (narrowing_terms (fst r)). contextual_layer (Some t) ax v)"
    if "r \<in> set rs" for r ax v using bspec [OF Composed(1) that] by simp_all
  have "(\<forall>t\<in>set (concat (map (narrowing_terms \<circ> fst) rs)). contextual_layer (Some t) ax v)
      \<longleftrightarrow> (\<forall>r\<in>set rs. \<forall>t\<in>set (narrowing_terms (fst r)). contextual_layer (Some t) ax v)" for ax v by simp
  moreover have "\<forall>t\<in>set (concat (map (narrowing_terms \<circ> fst) rs)). term_origin t \<noteq> None" using i(2) by fastforce
  ultimately show ?case unfolding n composed_layer using i(3) some by simp
qed

text \<open>C26: A denial names the narrowing that fired: for a narrowing that was built from resolved profiles, a
  value is denied exactly when an origin is reported, and then it is the origin of the first of the
  composed terms that rejects the value.\<close>

theorem denial_attributed:
  assumes "built c"
  shows "(denies c ax v \<longleftrightarrow> attribute_deny (Some c) ax v \<noteq> None)
    \<and> (\<forall>r. attribute_deny (Some c) ax v = Some r \<longrightarrow>
        (\<exists>before t after. narrowing_terms c = before @ t # after \<and> term_origin t = Some r \<and> denies t ax v
          \<and> (\<forall>u\<in>set before. \<not> denies u ax v)))"
proof (cases "find (\<lambda>t. denies t ax v) (narrowing_terms c)")
  case None
  then have "attribute_deny (Some c) ax v = None" by (simp only: attribute_deny_def option.case)
  moreover have "\<forall>t\<in>set (narrowing_terms c). \<not> denies t ax v" using None by (auto simp: find_None_iff)
  ultimately show ?thesis using built_terms [OF assms] by simp
next
  case (Some t)
  then have attr: "attribute_deny (Some c) ax v = term_origin t" by (simp only: attribute_deny_def option.case)
  from Some obtain i where i: "i < length (narrowing_terms c)" "denies (narrowing_terms c ! i) ax v" "t = narrowing_terms c ! i"
    "\<forall>j<i. \<not> denies (narrowing_terms c ! j) ax v" by (auto simp: find_Some_iff)
  let ?ts = "narrowing_terms c"
  have "?ts = take i ?ts @ t # drop (Suc i) ?ts" using i(1,3) by (simp add: id_take_nth_drop)
  moreover have "\<forall>u\<in>set (take i ?ts). \<not> denies u ax v" using i(1,4) by (auto simp: in_set_conv_nth)
  moreover have "denies t ax v" "t \<in> set ?ts" using i by auto
  ultimately show ?thesis using built_terms [OF assms] attr by auto
qed

subsection \<open>Inheritance\<close>

lemma as_tuple_strs [simp]: "as_tuple (strs xs) = Some xs"
  by (simp add: as_tuple_def strs_def comp_def)

lemma no_renamed_iff [simp]: "check_no_renamed ax ns = Inr u \<longleftrightarrow> (\<forall>n\<in>set ns. n \<notin> set RENAMED_TOOL_NAMES)"
proof (cases "find (\<lambda>n. n \<in> set RENAMED_TOOL_NAMES) ns")
  case None
  then have "check_no_renamed ax ns = Inr ()" by (simp only: check_no_renamed_def option.case member_iff)
  then show ?thesis using None by (auto simp: find_None_iff)
next
  case (Some n)
  then have "n \<in> set ns" "n \<in> set RENAMED_TOOL_NAMES" by (auto simp: find_Some_iff)
  then show ?thesis using Some by (auto simp: check_no_renamed_def)
qed

lemma load_iff:
  "load_profile stem (VDict d) = Inr P \<longleftrightarrow>
     (\<forall>n\<in>set (or_empty_tuple (tuple_at d ''tool_allow'')). n \<notin> set RENAMED_TOOL_NAMES)
     \<and> (\<forall>n\<in>set (or_empty_tuple (tuple_at d ''tool_deny'')). n \<notin> set RENAMED_TOOL_NAMES)
     \<and> P = \<lparr>profile_name = (case dget d ''name'' of None \<Rightarrow> stem | Some v \<Rightarrow> py_str v),
          profile_description = (case dget d ''description'' of None \<Rightarrow> [] | Some v \<Rightarrow> if truthy v then py_str v else []),
          categories = tuple_at d ''categories'', prof_tool_allow = tuple_at d ''tool_allow'',
          prof_tool_deny = or_empty_tuple (tuple_at d ''tool_deny''),
          prof_mcp_allow = tuple_at d ''mcp_allow'', prof_mcp_deny = or_empty_tuple (tuple_at d ''mcp_deny'')\<rparr>"
  by (auto simp: load_profile_def Let_def)

lemma composed_items:
  "compose_items p out cs = Inr n \<Longrightarrow> distinct (map fst cs) \<Longrightarrow>
    (case dget cs k of None \<Rightarrow> dget n k = dget out k | Some v \<Rightarrow> \<exists>w. compose_key p k v = Inr w \<and> dget n k = Some w)"
proof (induction cs arbitrary: out)
  case (Cons kv cs)
  obtain l v where kv: "kv = (l, v)" by (cases kv)
  with Cons.prems(1) obtain w where w: "compose_key p l v = Inr w" "compose_items p (dset l w out) cs = Inr n" by auto
  note ih = Cons.IH [OF w(2)]
  show ?case
  proof (cases "k = l")
    case True
    then have "dget cs k = None" using Cons.prems(2) kv by (auto simp: map_of_eq_None_iff)
    then show ?thesis using ih Cons.prems(2) True kv w(1) by simp
  next
    case False
    then show ?thesis using ih Cons.prems(2) kv by (cases "dget cs k") auto
  qed
qed simp

definition meet :: "string set option \<Rightarrow> string set option \<Rightarrow> string set option" where
  "meet x y = (case x of None \<Rightarrow> y | Some A \<Rightarrow> (case y of None \<Rightarrow> Some A | Some B \<Rightarrow> Some (A \<inter> B)))"

lemma in_meet [simp]: "in_allow (meet x y) v \<longleftrightarrow> in_allow x v \<and> in_allow y v"
  by (cases x; cases y) (auto simp: meet_def)

lemma composed_deny:
  assumes "compose_items p p c = Inr n" and "distinct (map fst c)" and "k \<in> set NARROWING_DENY_KEYS"
  shows "set (or_empty_tuple (tuple_at n k)) = set (or_empty_tuple (tuple_at p k)) \<union> set (or_empty_tuple (tuple_at c k))"
proof (cases "dget c k")
  case None
  then show ?thesis using composed_items [OF assms(1,2), of k] by (simp add: tuple_at_def or_empty_tuple_def)
next
  case (Some v)
  then obtain w where "compose_key p k v = Inr w" "dget n k = Some w" using composed_items [OF assms(1,2), of k] by auto
  then show ?thesis using Some assms(3) by (auto simp: tuple_at_def compose_key_def or_empty_tuple_def Let_def)
qed

lemma composed_allow:
  assumes "compose_items p p c = Inr n" and "distinct (map fst c)" and "k \<in> set NARROWING_ALLOW_KEYS"
  shows "map_option set (tuple_at n k) = meet (map_option set (tuple_at p k)) (map_option set (tuple_at c k))"
proof (cases "dget c k")
  case None
  then have "dget n k = dget p k" using composed_items [OF assms(1,2), of k] by simp
  then show ?thesis using None by (simp add: tuple_at_def meet_def split: option.split)
next
  case (Some v)
  then obtain w where w: "compose_key p k v = Inr w" "dget n k = Some w" using composed_items [OF assms(1,2), of k] by auto
  have "k \<notin> set NARROWING_DENY_KEYS" using assms(3) by (auto simp: NARROWING_ALLOW_KEYS_def NARROWING_DENY_KEYS_def)
  then show ?thesis using Some w assms(3)
    by (cases "tuple_at p k"; cases "as_tuple v") (auto simp: tuple_at_def [of n] tuple_at_def [of c] compose_key_def meet_def)
qed

lemma narrowing_layers:
  "contextual_layer (Some (fst (resolve_profile P r))) ax v \<longleftrightarrow>
     (case ax of
        TOOL \<Rightarrow> in_allow (map_option set (prof_tool_allow P)) v \<and> v \<notin> set (prof_tool_deny P)
      | MCP \<Rightarrow> in_allow (map_option set (prof_mcp_allow P)) v \<and> v \<notin> set (prof_mcp_deny P)
      | _ \<Rightarrow> True)"
  by (cases ax) (simp_all add: contextual_layer_def resolve_profile_def)

lemma tool_layer:
  "contextual_layer (Some (fst (resolve_profile P r))) TOOL v \<longleftrightarrow>
     in_allow (map_option set (prof_tool_allow P)) v \<and> v \<notin> set (prof_tool_deny P)"
  by (simp add: narrowing_layers)

lemma hidden_meet:
  "meet (map_option set a) (map_option set b) = map_option set c \<Longrightarrow>
    (case c of None \<Rightarrow> {} | Some cs \<Rightarrow> set CATEGORIES - set cs)
      = (case a of None \<Rightarrow> {} | Some cs \<Rightarrow> set CATEGORIES - set cs) \<union> (case b of None \<Rightarrow> {} | Some cs \<Rightarrow> set CATEGORIES - set cs)"
  by (cases a; cases b; cases c) (auto simp: meet_def)

lemma allow_names:
  "map_option set z = meet (map_option set x) (map_option set y) \<Longrightarrow>
    set (or_empty_tuple z) \<subseteq> set (or_empty_tuple x) \<union> set (or_empty_tuple y)"
  by (cases x; cases y; cases z) (auto simp: meet_def or_empty_tuple_def)

lemma compose_cases:
  assumes "compose_narrowing (Some p) (Some c) = Inr (Some n)"
  obtains "p = []" "n = c" | "c = []" "n = p" | "compose_items p p c = Inr n"
  using assms by (auto simp: compose_narrowing_def Let_def split: if_splits)

text \<open>Keywise, the composed mapping holds the unions of the denials and the meets of the allow lists.\<close>

lemma composed_keys:
  assumes "compose_narrowing (Some p) (Some c) = Inr (Some n)" and "distinct (map fst c)"
  shows "k \<in> set NARROWING_DENY_KEYS \<Longrightarrow>
      set (or_empty_tuple (tuple_at n k)) = set (or_empty_tuple (tuple_at p k)) \<union> set (or_empty_tuple (tuple_at c k))"
    and "k \<in> set NARROWING_ALLOW_KEYS \<Longrightarrow>
      map_option set (tuple_at n k) = meet (map_option set (tuple_at p k)) (map_option set (tuple_at c k))"
proof -
  have e: "tuple_at [] k = None" by (simp add: tuple_at_def)
  have m: "meet None x = x" "meet x None = x" for x by (simp_all add: meet_def split: option.split)
  show "k \<in> set NARROWING_DENY_KEYS \<Longrightarrow> set (or_empty_tuple (tuple_at n k)) = set (or_empty_tuple (tuple_at p k)) \<union> set (or_empty_tuple (tuple_at c k))"
    using compose_cases [OF assms(1)] composed_deny [OF _ assms(2)] e by (metis Un_empty_left Un_empty_right empty_set option.case(1) or_empty_tuple_def)
  show "k \<in> set NARROWING_ALLOW_KEYS \<Longrightarrow> map_option set (tuple_at n k) = meet (map_option set (tuple_at p k)) (map_option set (tuple_at c k))"
    using compose_cases [OF assms(1)] composed_allow [OF _ assms(2)] e m by (metis option.map(1))
qed

lemma inherited:
  assumes "compose_narrowing (Some p) (Some c) = Inr (Some n)" and "distinct (map fst c)"
    and "load_profile s1 (VDict p) = Inr P" and "load_profile s2 (VDict c) = Inr C"
  shows "\<exists>N. load_profile stem (VDict n) = Inr N
    \<and> (\<forall>ax v. contextual_layer (Some (fst (resolve_profile N r))) ax v \<longleftrightarrow>
        contextual_layer (Some (fst (resolve_profile P r1))) ax v \<and> contextual_layer (Some (fst (resolve_profile C r2))) ax v)
    \<and> snd (resolve_profile N r) = snd (resolve_profile P r1) \<union> snd (resolve_profile C r2)"
proof -
  note a = composed_keys(2) [OF assms(1,2)] and d = composed_keys(1) [OF assms(1,2)]
  have ta: "map_option set (tuple_at n ''tool_allow'') = meet (map_option set (tuple_at p ''tool_allow'')) (map_option set (tuple_at c ''tool_allow''))"
    and ma: "map_option set (tuple_at n ''mcp_allow'') = meet (map_option set (tuple_at p ''mcp_allow'')) (map_option set (tuple_at c ''mcp_allow''))"
    and ca: "map_option set (tuple_at n ''categories'') = meet (map_option set (tuple_at p ''categories'')) (map_option set (tuple_at c ''categories''))"
    by (rule a, simp add: NARROWING_ALLOW_KEYS_def)+
  have td: "set (or_empty_tuple (tuple_at n ''tool_deny'')) = set (or_empty_tuple (tuple_at p ''tool_deny'')) \<union> set (or_empty_tuple (tuple_at c ''tool_deny''))"
    and md: "set (or_empty_tuple (tuple_at n ''mcp_deny'')) = set (or_empty_tuple (tuple_at p ''mcp_deny'')) \<union> set (or_empty_tuple (tuple_at c ''mcp_deny''))"
    by (rule d, simp add: NARROWING_DENY_KEYS_def)+
  note P = assms(3) [unfolded load_iff] and C = assms(4) [unfolded load_iff]
  have names: "\<forall>x\<in>set (or_empty_tuple (tuple_at n ''tool_allow'')). x \<notin> set RENAMED_TOOL_NAMES"
    "\<forall>x\<in>set (or_empty_tuple (tuple_at n ''tool_deny'')). x \<notin> set RENAMED_TOOL_NAMES"
    using P C allow_names [OF ta] td by auto
  then obtain N where N: "load_profile stem (VDict n) = Inr N" by (auto simp: load_iff)
  note Ns = N [unfolded load_iff]
  have "contextual_layer (Some (fst (resolve_profile N r))) ax v \<longleftrightarrow>
      contextual_layer (Some (fst (resolve_profile P r1))) ax v \<and> contextual_layer (Some (fst (resolve_profile C r2))) ax v" for ax v
    using Ns P C ta ma td md by (cases ax) (auto simp: narrowing_layers)
  moreover have "snd (resolve_profile N r) = snd (resolve_profile P r1) \<union> snd (resolve_profile C r2)"
    using Ns P C hidden_meet [OF ca [symmetric]] by (simp add: resolve_profile_def)
  ultimately show ?thesis using N by blast
qed

text \<open>C25: A spawned session inherits exactly: the mapping composed from the parent's narrowing and the one that is
  asked for can be loaded whenever both can, and the narrowing it resolves to allows what both allow
  and hides what either hides.\<close>

theorem inherited_narrowing:
  assumes "compose_narrowing (Some p) (Some c) = Inr (Some n)" and "distinct (map fst c)"
    and "load_profile s1 (VDict p) = Inr P" and "load_profile s2 (VDict c) = Inr C"
  shows "\<exists>N. load_profile stem (VDict n) = Inr N
    \<and> (\<forall>ax v. contextual_layer (Some (fst (resolve_profile N r))) ax v \<longleftrightarrow>
        contextual_layer (Some (fst (resolve_profile P r1))) ax v \<and> contextual_layer (Some (fst (resolve_profile C r2))) ax v)
    \<and> snd (resolve_profile N r) = snd (resolve_profile P r1) \<union> snd (resolve_profile C r2)"
  by (rule inherited [OF assms])

text \<open>The worker of an agent step.\<close>

definition worker_mapping :: "string list option \<Rightarrow> pyval dict" where
  "worker_mapping caps = (''tool_deny'', strs DELEGATION_DENY_TOOLS) # (case caps of None \<Rightarrow> [] | Some cs \<Rightarrow> [(''tool_allow'', strs cs)])"

lemma worker_tuples [simp]:
  "tuple_at (worker_mapping caps) ''tool_deny'' = Some DELEGATION_DENY_TOOLS"
  "tuple_at (worker_mapping caps) ''tool_allow'' = caps"
  by (simp_all add: worker_mapping_def tuple_at_def split: option.split)

lemma worker_composes: "\<exists>n. compose_narrowing (Some p) (Some (worker_mapping caps)) = Inr (Some n)"
proof (cases "p = []")
  case False
  have k: "\<exists>w. compose_key p k v = Inr w" if "(k, v) \<in> set (worker_mapping caps)" for k v
    using that by (auto simp: worker_mapping_def compose_key_def NARROWING_DENY_KEYS_def NARROWING_ALLOW_KEYS_def Let_def
      split: option.splits)
  have "(\<And>k v. (k, v) \<in> set cs \<Longrightarrow> \<exists>w. compose_key p k v = Inr w) \<Longrightarrow> \<exists>n. compose_items p out cs = Inr n" for out cs
  proof (induction cs arbitrary: out)
    case (Cons kv cs)
    obtain l v where kv: "kv = (l, v)" by (cases kv)
    with Cons.prems obtain w where "compose_key p l v = Inr w" by auto
    then show ?case using Cons.IH [of "dset l w out"] Cons.prems kv by auto
  qed simp
  from this [of "worker_mapping caps" p] k obtain n where "compose_items p p (worker_mapping caps) = Inr n" by blast
  then have "compose_narrowing (Some p) (Some (worker_mapping caps)) = Inr (Some n)"
    using False by (simp add: compose_narrowing_def Let_def worker_mapping_def)
  then show ?thesis by blast
qed (simp add: compose_narrowing_def worker_mapping_def)


subsection \<open>A way out of the narrowing\<close>

lemma dget_rev_distinct: "distinct (map fst e) \<Longrightarrow> dget (rev e) k = dget e k"
  using dget_rev [of e k] by (simp add: dkeys_def)

lemma composed_distinct:
  "compose_items p out cs = Inr n \<Longrightarrow> distinct (map fst out) \<Longrightarrow> distinct (map fst n)"
  by (induction cs arbitrary: out) (auto simp: AList.distinct_update)

lemma dget_without: "k \<noteq> l \<Longrightarrow> dget (filter (\<lambda>(m, _). m \<noteq> l) d) k = dget d k"
  by (induction d) auto

text \<open>A session escapes its narrowing through a child: whatever narrowing a session is under, a child that is
  asked for with a denial of a name that has been replaced is given a configuration that contains all
  of the denials and cannot be loaded, and a configuration that cannot be loaded narrows nothing.\<close>

theorem renamed_name_escapes:
  assumes "distinct (map fst d)"
  shows "\<exists>n. spawn_config sid (Some d) (Some [(''tool_deny'', strs [''agent_spawn''])]) = Inr (Some n)
    \<and> set (or_empty_tuple (tuple_at d ''tool_deny'')) \<subseteq> set (or_empty_tuple (tuple_at n ''tool_deny''))
    \<and> load_session_profile (Some n) = None"
proof -
  let ?p = "filter (\<lambda>(k, _). k \<noteq> ''name'') d" and ?c = "[(''tool_deny'', strs [''agent_spawn''])]"
  have dp: "distinct (map fst ?p)" using assms by (auto intro: distinct_map_filter)
  have tp: "tuple_at ?p ''tool_deny'' = tuple_at d ''tool_deny''" by (simp add: tuple_at_def dget_without)
  obtain m where m: "compose_narrowing (per_session_narrowing (Some d)) (Some ?c) = Inr (Some m)" "distinct (map fst m)"
    "set (or_empty_tuple (tuple_at m ''tool_deny'')) = set (or_empty_tuple (tuple_at d ''tool_deny'')) \<union> {''agent_spawn''}"
  proof (cases "?p = []")
    case True
    then have "or_empty_tuple (tuple_at d ''tool_deny'') = []" using tp unfolding True by (simp add: tuple_at_def or_empty_tuple_def)
    moreover have "compose_narrowing (per_session_narrowing (Some d)) (Some ?c) = Inr (Some ?c)"
      unfolding per_session_narrowing_def option.case True by (simp add: compose_narrowing_def)
    ultimately show ?thesis by (intro that [of ?c]) (simp_all add: tuple_at_def [of ?c] or_empty_tuple_def [of "Some _"])
  next
    case False
    obtain w where "compose_key ?p ''tool_deny'' (strs [''agent_spawn'']) = Inr w"
      by (simp add: compose_key_def NARROWING_DENY_KEYS_def Let_def)
    then have i: "compose_items ?p ?p ?c = Inr (dset ''tool_deny'' w ?p)" by simp
    then have cn: "compose_narrowing (Some ?p) (Some ?c) = Inr (Some (dset ''tool_deny'' w ?p))"
      using False by (simp add: compose_narrowing_def Let_def)
    have "set (or_empty_tuple (tuple_at (dset ''tool_deny'' w ?p) ''tool_deny'')) = set (or_empty_tuple (tuple_at d ''tool_deny'')) \<union> {''agent_spawn''}"
      using composed_keys(1) [OF cn, of "''tool_deny''"] by (simp add: NARROWING_DENY_KEYS_def tp tuple_at_def [of ?c] or_empty_tuple_def)
    moreover have "per_session_narrowing (Some d) = Some ?p"
      unfolding per_session_narrowing_def option.case Let_def using False by (rule if_not_P)
    ultimately show ?thesis using cn composed_distinct [OF i dp] by (intro that) simp_all
  qed
  let ?n = "session_config sid m"
  have t: "tuple_at ?n ''tool_deny'' = tuple_at m ''tool_deny''"
    by (simp add: session_config_def tuple_at_def dget_dmerge dget_rev_distinct [OF m(2)] split: option.split)
  have "\<not> (\<forall>x\<in>set (or_empty_tuple (tuple_at ?n ''tool_deny'')). x \<notin> set RENAMED_TOOL_NAMES)"
    unfolding t m(3) by (simp add: RENAMED_TOOL_NAMES_def)
  then have "load_profile ''config'' (VDict ?n) \<noteq> Inr P" for P by (simp add: load_iff)
  then have "load_session_profile (Some ?n) = None"
    by (cases "load_profile ''config'' (VDict ?n)") (auto simp: load_session_profile_def)
  moreover have "spawn_config sid (Some d) (Some ?c) = Inr (Some ?n)" using m(1) by (simp add: spawn_config_def)
  ultimately show ?thesis using t m(3) by (intro exI [of _ ?n]) auto
qed

text \<open>An allow list of \<open>null\<close> under a parent that has none raises: there is nothing to make a list of.\<close>

theorem null_allow_raises:
  "compose_narrowing (Some [(''tool_deny'', strs [''exec''])]) (Some [(''tool_allow'', VNone)]) = Inl ProfileTypeError"
  by (simp add: compose_narrowing_def compose_key_def tuple_at_def as_tuple_def NARROWING_ALLOW_KEYS_def NARROWING_DENY_KEYS_def)

subsection \<open>A concrete session\<close>

definition no_exec :: "pyval dict" where
  "no_exec = [(''name'', VStr ''_session_1''), (''tool_deny'', strs [''exec'']), (''tool_allow'', strs [''exec'', ''web_search'', ''read_file''])]"

definition only_read :: "pyval dict" where
  "only_read = [(''tool_allow'', strs [''read_file'', ''delete_file'']), (''tool_deny'', strs [''run_prompt''])]"

definition some_origin :: narrowing_origin where
  "some_origin = \<lparr>origin_label = ''topology'', origin_cause = ''declared'', lifts_when = ''edited''\<rparr>"

lemma loads:
  "\<exists>P. load_profile ''config'' (VDict no_exec) = Inr P \<and> prof_tool_allow P = Some [''exec'', ''web_search'', ''read_file''] \<and> prof_tool_deny P = [''exec'']"
  "\<exists>P. load_profile ''config'' (VDict only_read) = Inr P \<and> prof_tool_allow P = Some [''read_file'', ''delete_file''] \<and> prof_tool_deny P = [''run_prompt'']"
  by (simp_all add: load_iff no_exec_def only_read_def tuple_at_def or_empty_tuple_def RENAMED_TOOL_NAMES_def)

theorem inherited_narrowing_witness:
  "\<exists>n N. compose_narrowing (Some no_exec) (Some only_read) = Inr (Some n) \<and> load_profile ''config'' (VDict n) = Inr N
    \<and> contextual_layer (Some (fst (resolve_profile N None))) TOOL ''read_file''
    \<and> denies (fst (resolve_profile N None)) TOOL ''web_search'' \<and> denies (fst (resolve_profile N None)) TOOL ''delete_file''"
proof -
  obtain P C where P: "load_profile ''config'' (VDict no_exec) = Inr P" "prof_tool_allow P = Some [''exec'', ''web_search'', ''read_file'']" "prof_tool_deny P = [''exec'']"
    and C: "load_profile ''config'' (VDict only_read) = Inr C" "prof_tool_allow C = Some [''read_file'', ''delete_file'']" "prof_tool_deny C = [''run_prompt'']"
    using loads by blast
  have "\<exists>n. compose_narrowing (Some no_exec) (Some only_read) = Inr (Some n)"
    by (simp add: compose_narrowing_def compose_key_def no_exec_def only_read_def tuple_at_def NARROWING_ALLOW_KEYS_def NARROWING_DENY_KEYS_def Let_def)
  then obtain n where n: "compose_narrowing (Some no_exec) (Some only_read) = Inr (Some n)" by blast
  have "distinct (map fst only_read)" by (simp add: only_read_def)
  from inherited_narrowing [OF n this P(1) C(1), of "''config''" None None None] show ?thesis
    using n P(2,3) C(2,3) by (auto simp: tool_layer [of P] tool_layer [of C])
qed


theorem renamed_name_escapes_witness:
  "\<exists>n. spawn_config ''2'' (Some no_exec) (Some [(''tool_deny'', strs [''agent_spawn''])]) = Inr (Some n)
    \<and> ''exec'' \<in> set (or_empty_tuple (tuple_at n ''tool_deny'')) \<and> load_session_profile (Some n) = None"
proof -
  have "distinct (map fst no_exec)" "''exec'' \<in> set (or_empty_tuple (tuple_at no_exec ''tool_deny''))"
    by (simp_all add: no_exec_def tuple_at_def or_empty_tuple_def)
  then show ?thesis using renamed_name_escapes [of no_exec "''2''"] by blast
qed

theorem denial_attributed_witness:
  "\<exists>c. built c \<and> attribute_deny (Some c) TOOL ''exec'' = Some some_origin"
proof -
  obtain P :: capability_profile where P: "prof_tool_deny P = [''exec'']" using loads(1) by auto
  let ?c = "fst (resolve_profile P (Some some_origin))"
  have b: "built ?c" by (rule built.Resolved)
  have "denies ?c TOOL ''exec''" using P by (simp add: narrowing_layers)
  with denial_attributed [OF b, of TOOL "''exec''"] obtain r where r: "attribute_deny (Some ?c) TOOL ''exec'' = Some r" by auto
  with denial_attributed [OF b, of TOOL "''exec''"] obtain before t after where
    "narrowing_terms ?c = before @ t # after" "term_origin t = Some r" by blast
  moreover have "narrowing_terms ?c = [?c]" "term_origin ?c = Some some_origin" by (simp_all add: narrowing_terms_def resolve_profile_def)
  ultimately have "r = some_origin" by (cases before) auto
  then show ?thesis using b r by blast
qed

end
