(* ===== verification/LineageFacts.thy ===== *)
theory LineageFacts
  imports Lineage PermFacts
begin

section \<open>No agent exceeds the agents it descends from\<close>

text \<open>
  The spawn lineage never closes a cycle, so the narrowing of an agent is always found; what it is narrowed
  to lies within what each of its living ancestors is narrowed to; and where the lineage is gone, it
  does not.
\<close>

subsection \<open>The lineage as a relation\<close>

definition lineage :: "world \<Rightarrow> (string \<times> string) set" where
  "lineage w = {(c, p). \<exists>s. dget (spawn_lineage w) c = Some (p, s)}"

lemma lineage_edge: "dget (spawn_lineage w) c = Some (p, s) \<Longrightarrow> (c, p) \<in> lineage w"
  by (auto simp: lineage_def)

lemma lineage_down: "(c, p) \<in> lineage w \<Longrightarrow> (c, q) \<in> lineage w \<Longrightarrow> p = q"
  by (auto simp: lineage_def)

lemma lineage_finite: "finite (lineage w)"
proof (rule finite_subset)
  show "lineage w \<subseteq> (\<lambda>(c, p, s). (c, p)) ` set (spawn_lineage w)"
    by (force simp: lineage_def dest: map_of_SomeD)
qed simp

lemma lineage_card: "card (lineage w) \<le> length (spawn_lineage w)"
proof -
  have "lineage w \<subseteq> set (map (\<lambda>(c, p, s). (c, p)) (spawn_lineage w))"
    by (force simp: lineage_def dest: map_of_SomeD)
  then have "card (lineage w) \<le> card (set (map (\<lambda>(c, p, s). (c, p)) (spawn_lineage w)))" by (rule card_mono [rotated]) simp
  also have "\<dots> \<le> length (spawn_lineage w)" using card_length by (metis length_map)
  finally show ?thesis .
qed

lemma reaches_ancestor:
  assumes "acyclic (lineage w)" "(p, c) \<in> (lineage w)\<^sup>*"
  shows "\<forall>s\<in>set seen. (s, p) \<in> (lineage w)\<^sup>+ \<Longrightarrow> reaches (spawn_lineage w) seen c p"
  using assms(2)
proof (induction arbitrary: seen rule: converse_rtrancl_induct)
  case base
  then show ?case using assms(1) by (subst reaches.simps) (auto simp: acyclic_def)
next
  case (step x y)
  then obtain s where e: "dget (spawn_lineage w) x = Some (y, s)" by (auto simp: lineage_def)
  have "\<forall>s\<in>set (x # seen). (s, y) \<in> (lineage w)\<^sup>+" using step.prems step.hyps(1) by auto
  then have "reaches (spawn_lineage w) (x # seen) c y" by (rule step.IH)
  moreover have "x \<notin> set seen" using step.prems assms(1) by (auto simp: acyclic_def)
  ultimately show ?case using e by (subst reaches.simps) simp
qed

lemma link_recorded:
  "record_spawn_lineage c p w = Inr w' \<Longrightarrow> c \<noteq> p \<and> \<not> reaches (spawn_lineage w) [] c p
    \<and> spawn_lineage w' = dset c (p, identities w p) (spawn_lineage w)"
  by (auto simp: record_spawn_lineage_def Let_def split: if_splits option.splits)

lemma lineage_recorded: "record_spawn_lineage c p w = Inr w' \<Longrightarrow> lineage w' \<subseteq> insert (c, p) (lineage w)"
  by (drule link_recorded) (auto simp: lineage_def update_conv' split: if_splits)

lemma dget_invalidated:
  "dget (spawn_lineage (invalidate_edges n w)) c
    = map_option (\<lambda>(p, s). if p = n then (p, Some INVALIDATED) else (p, s)) (dget (spawn_lineage w) c)"
proof -
  have "dget (map (\<lambda>(c, p, s). if p = n then (c, p, Some INVALIDATED) else (c, p, s)) l) c
      = map_option (\<lambda>(p, s). if p = n then (p, Some INVALIDATED) else (p, s)) (dget l c)" for l
    by (induction l) auto
  then show ?thesis by (simp add: invalidate_edges_def)
qed

lemma lineage_invalidated: "lineage (invalidate_edges n w) = lineage w"
proof -
  have "(\<exists>s. dget (spawn_lineage (invalidate_edges n w)) c = Some (p, s)) \<longleftrightarrow> (\<exists>s. dget (spawn_lineage w) c = Some (p, s))" for c p
    by (cases "dget (spawn_lineage w) c") (auto simp: dget_invalidated split: if_splits)
  then show ?thesis by (simp add: lineage_def)
qed

subsection \<open>The lineages that arise\<close>

inductive grown :: "world \<Rightarrow> bool" where
  Start: "spawn_lineage w = [] \<Longrightarrow> grown w"
| Spawn: "grown w \<Longrightarrow> record_spawn_lineage c p w = Inr w' \<Longrightarrow> grown w'"
| Purge: "grown w \<Longrightarrow> grown (invalidate_edges n w)"
| Change: "grown w \<Longrightarrow> spawn_lineage w' = spawn_lineage w \<Longrightarrow> grown w'"

lemma grown_acyclic: "grown w \<Longrightarrow> acyclic (lineage w)"
proof (induction rule: grown.induct)
  case (Spawn w c p w')
  have "(p, c) \<notin> (lineage w)\<^sup>*" using reaches_ancestor [OF Spawn.IH, of p c "[]"] link_recorded [OF Spawn.hyps(2)] by auto
  then have "acyclic (insert (c, p) (lineage w))" using Spawn.IH by (simp add: acyclic_insert)
  then show ?case using lineage_recorded [OF Spawn.hyps(2)] by (rule acyclic_subset)
qed (auto simp: lineage_def lineage_invalidated [unfolded lineage_def] acyclic_def)

subsection \<open>The bound on the chain of parents\<close>

definition own_terms :: "world \<Rightarrow> string \<Rightarrow> bool option \<Rightarrow> string option \<Rightarrow> resolved list" where
  "own_terms w a d sid = (if topology_terms w a = [] then delegate_terms w d else topology_terms w a) @ session_terms w a sid"

lemma resolved_Suc:
  "resolved_profile_for (Suc n) w a d sid =
     (case dget (spawn_lineage w) a of
        None \<Rightarrow> Some (composed (own_terms w a d sid))
      | Some (p, s) \<Rightarrow>
          if stale w (p, s) \<or> identities w p = None then Some (composed (own_terms w a d sid @ [floor_term w (ParentGone p)]))
          else map_option (\<lambda>r. composed (own_terms w a d sid @ term_of r)) (resolved_profile_for n w p None None))"
  by (simp add: Let_def own_terms_def map_option_case split: option.split)

declare resolved_profile_for.simps(2) [simp del]

definition above :: "world \<Rightarrow> string \<Rightarrow> (string \<times> string) set" where
  "above w a = {e \<in> lineage w. (a, fst e) \<in> (lineage w)\<^sup>*}"

lemma above_shrinks:
  assumes "acyclic (lineage w)" "(a, p) \<in> lineage w"
  shows "card (above w p) < card (above w a)"
proof (rule psubset_card_mono)
  show "finite (above w a)" using lineage_finite by (auto simp: above_def)
  have "(a, p) \<notin> above w p" using assms by (auto simp: above_def acyclic_def dest: rtrancl_into_trancl2)
  moreover have "(a, p) \<in> above w a" using assms(2) by (auto simp: above_def)
  moreover have "above w p \<subseteq> above w a" using assms(2) by (auto simp: above_def intro: converse_rtrancl_into_rtrancl)
  ultimately show "above w p \<subset> above w a" by blast
qed

lemma resolved_enough:
  "acyclic (lineage w) \<Longrightarrow> card (above w a) < n \<Longrightarrow> resolved_profile_for n w a d sid \<noteq> None"
proof (induction n arbitrary: a d sid)
  case (Suc n)
  have "resolved_profile_for n w p None None \<noteq> None" if "dget (spawn_lineage w) a = Some (p, s)" for p s
    using above_shrinks [OF Suc.prems(1) lineage_edge [OF that]] Suc.prems by (intro Suc.IH) auto
  then show ?case by (auto simp: resolved_Suc split: option.splits)
qed simp


subsection \<open>Within every ancestor\<close>

lemma composed_allows: "contextual_layer (fst (composed rs)) ax v \<longleftrightarrow> (\<forall>r\<in>set rs. contextual_layer (Some (fst r)) ax v)"
proof (cases "rs = []")
  case False
  then have "fst (composed rs) = Some (fst (compose_resolved rs))" by (simp add: composed_def split: prod.split)
  then show ?thesis by (simp add: composed_layer)
qed (simp add: composed_def contextual_layer_def)

lemma composed_hides: "k \<in> snd (composed rs) \<longleftrightarrow> (\<exists>r\<in>set rs. k \<in> snd r)"
  by (auto simp: composed_def compose_resolved_def in_union Let_def)

interpretation composition: conjunction composed "\<lambda>r (ax, v). contextual_layer (Some (fst r)) ax v" "\<lambda>q (ax, v). contextual_layer (fst q) ax v"
  by unfold_locales (simp add: composed_allows split: prod.split)

definition capped :: "contextual option \<times> string set \<Rightarrow> contextual option \<times> string set \<Rightarrow> bool" where
  "capped r q \<longleftrightarrow> (\<forall>ax v. contextual_layer (fst r) ax v \<longrightarrow> contextual_layer (fst q) ax v) \<and> snd q \<subseteq> snd r"

lemma capped_refl [simp]: "capped r r"
  by (simp add: capped_def)

lemma capped_trans: "capped r q \<Longrightarrow> capped q p \<Longrightarrow> capped r p"
  by (auto simp: capped_def)

text \<open>What is under no narrowing hides nothing.\<close>

lemma composed_proper: "fst (composed rs) = None \<Longrightarrow> snd (composed rs) = {}"
  by (auto simp: composed_def split: if_splits prod.splits)

lemma composed_capped:
  "fst r = None \<longrightarrow> snd r = {} \<Longrightarrow> capped (composed (own @ term_of r)) r"
  by (cases r rule: term_of.cases) (auto simp: capped_def composed_allows composed_hides contextual_layer_def [of None])

lemma resolved_proper: "resolved_profile_for n w a d sid = Some r \<Longrightarrow> fst r = None \<longrightarrow> snd r = {}"
  by (cases n) (auto simp: resolved_Suc composed_proper split: option.splits if_splits)

lemma resolved_more:
  "resolved_profile_for n w a d sid = Some r \<Longrightarrow> n \<le> m \<Longrightarrow> resolved_profile_for m w a d sid = Some r"
proof (induction n arbitrary: m a d sid r)
  case (Suc n)
  from Suc.prems(2) obtain k where m: "m = Suc k" "n \<le> k" by (cases m) auto
  note up = Suc.IH [OF _ m(2)]
  show ?case
  proof (cases "dget (spawn_lineage w) a")
    case None
    then show ?thesis using Suc.prems(1) by (simp add: m resolved_Suc)
  next
    case (Some e)
    then show ?thesis using Suc.prems(1) up by (cases e) (auto simp: m resolved_Suc split: if_splits)
  qed
qed simp

lemma resolved_same:
  "resolved_profile_for n w a d sid = Some r \<Longrightarrow> resolved_profile_for m w a d sid = Some q \<Longrightarrow> q = r"
  using resolved_more [of n w a d sid r m] resolved_more [of m w a d sid q n] by (cases "n \<le> m") auto

lemma resolved_parent:
  assumes "resolved_profile_for n w a d sid = Some r" "dget (spawn_lineage w) a = Some (p, Some s)" "identities w p = Some s"
  obtains m q where "n = Suc m" "resolved_profile_for m w p None None = Some q" "capped r q"
proof -
  obtain m where n: "n = Suc m" using assms(1) by (cases n) auto
  then obtain q where "resolved_profile_for m w p None None = Some q"
      "r = composed (own_terms w a d sid @ term_of q)"
    using assms by (auto simp: resolved_Suc stale_def)
  then show ?thesis using that [OF n, of q] composed_capped [OF resolved_proper] by blast
qed

text \<open>Every link froze an identity.\<close>

definition frozen :: "world \<Rightarrow> bool" where
  "frozen w \<longleftrightarrow> (\<forall>(c, p, s)\<in>set (spawn_lineage w). s \<noteq> None)"

lemma frozen_link: "frozen w \<Longrightarrow> dget (spawn_lineage w) c = Some (p, s) \<Longrightarrow> \<exists>i. s = Some i"
  by (force simp: frozen_def dest: map_of_SomeD)

lemma descends_capped:
  "descends w seen a anc \<Longrightarrow> frozen w \<Longrightarrow> resolved_profile_for n w a d sid = Some r \<Longrightarrow>
    resolved_profile_for m w anc None None = Some q \<Longrightarrow> capped r q"
proof (induction w seen a anc arbitrary: n d sid r rule: descends.induct)
  case (1 w seen a anc)
  obtain p s where e: "dget (spawn_lineage w) a = Some (p, s)" and live: "\<not> stale w (p, s)"
    and up: "p = anc \<or> p \<noteq> anc \<and> p \<notin> set seen \<and> descends w (p # seen) p anc"
    using 1(2) by (subst (asm) descends.simps) (auto split: option.splits if_splits)
  then obtain i where s: "s = Some i" "identities w p = Some i" using frozen_link [OF 1(3) e] by (auto simp: stale_def)
  from resolved_parent [OF 1(4) e [unfolded s(1)] s(2)] obtain k t
    where t: "resolved_profile_for k w p None None = Some t" "capped r t" by metis
  show ?case
  proof (cases "p = anc")
    case True
    then show ?thesis using resolved_same [OF t(1)] 1(5) t(2) by blast
  next
    case False
    then have "capped t q" using up 1(1) [OF e refl live] 1(3,5) t(1) by blast
    then show ?thesis using capped_trans t(2) by blast
  qed
qed

text \<open>C6: A spawned agent never exceeds an agent it descends from: whatever profile it is bound to and whatever its
  session adds, a value the ancestor is denied is denied to it on every axis, and a category hidden from
  the ancestor is hidden from it.\<close>

theorem spawned_within_ancestor:
  assumes "is_spawn_descendant w a anc" "a \<noteq> anc" "frozen w"
    and "resolved_profile_for n w a is_delegate sid = Some (c, e)"
    and "resolved_profile_for m w anc None None = Some (pc, pe)"
  shows "(\<forall>ax v. contextual_layer c ax v \<longrightarrow> contextual_layer pc ax v) \<and> pe \<subseteq> e"
  using descends_capped [of w "[]" a anc n is_delegate sid "(c, e)" m "(pc, pe)"] assms
  by (simp add: is_spawn_descendant_def capped_def)

subsection \<open>What cannot be found\<close>

lemma own_terms_composed:
  assumes "resolved_profile_for n w a d sid = Some r"
  shows "\<exists>ts. r = composed (own_terms w a d sid @ ts)
    \<and> (\<forall>p s. dget (spawn_lineage w) a = Some (p, s) \<longrightarrow> stale w (p, s) \<or> identities w p = None
        \<longrightarrow> floor_term w (ParentGone p) \<in> set ts)"
proof -
  obtain m where n: "n = Suc m" using assms by (cases n) auto
  show ?thesis
  proof (cases "dget (spawn_lineage w) a")
    case None
    then show ?thesis using assms by (intro exI [of _ "[]"]) (simp add: n resolved_Suc)
  next
    case (Some e)
    then show ?thesis using assms by (cases e) (auto simp: n resolved_Suc split: if_splits)
  qed
qed

lemma bound_terms_own: "set (topology_terms w a) \<subseteq> set (own_terms w a d sid)"
  by (auto simp: own_terms_def)

lemma floored_denied: "ax = TOOL \<Longrightarrow> v \<in> set (prof_tool_deny (load_delegate_profile w)) \<Longrightarrow> \<not> contextual_layer (Some (fst (floor_term w r))) ax v"
  by (simp add: floor_term_def resolve_profile_def contextual_layer_def)

text \<open>C8: What should narrow an agent and cannot be found narrows it to the floor of delegates: if the profile a
  topology binds it to is missing or malformed, or the agent that spawned it is gone or its name is
  another's, every tool the floor denies is denied to it.\<close>

theorem unresolvable_fails_closed:
  assumes "resolved_profile_for n w a is_delegate sid = Some (c, e)"
    and "(\<exists>t\<in>set (topologies_for_agent (the_org w) a). \<exists>p. profile_for t a = Some p \<and> p \<noteq> []
        \<and> (profile_files w p = NoFile \<or> profile_files w p = Malformed))
      \<or> (\<exists>p s. dget (spawn_lineage w) a = Some (p, s) \<and> (stale w (p, s) \<or> identities w p = None))"
    and "v \<in> set (prof_tool_deny (load_delegate_profile w))"
  shows "\<not> contextual_layer c TOOL v"
proof -
  from own_terms_composed [OF assms(1)] bound_terms_own obtain rs where rs: "(c, e) = composed rs" "set (topology_terms w a) \<subseteq> set rs"
    "\<forall>p s. dget (spawn_lineage w) a = Some (p, s) \<longrightarrow> stale w (p, s) \<or> identities w p = None \<longrightarrow> floor_term w (ParentGone p) \<in> set rs"
    by fastforce
  have "\<exists>r. floor_term w r \<in> set rs"
    using assms(2)
  proof
    assume "\<exists>t\<in>set (topologies_for_agent (the_org w) a). \<exists>p. profile_for t a = Some p \<and> p \<noteq> []
        \<and> (profile_files w p = NoFile \<or> profile_files w p = Malformed)"
    then obtain t p where t: "t \<in> set (topologies_for_agent (the_org w) a)" "profile_for t a = Some p" "p \<noteq> []"
      "profile_files w p = NoFile \<or> profile_files w p = Malformed" by blast
    then have "\<exists>r. topology_term w a t = [floor_term w r]" by (auto simp: topology_term_def)
    then show ?thesis using t(1) rs(2) by (fastforce simp: topology_terms_def)
  qed (use rs(3) in blast)
  then obtain r where "floor_term w r \<in> set rs" by blast
  then show ?thesis
    using composition.term_caps [of "floor_term w r" rs "(TOOL, v)"] floored_denied [OF refl assms(3)] rs(1) by (simp add: prod_eq_iff)
qed

end
