(* ===== verification/OrgFacts.thy ===== *)
theory OrgFacts
  imports Orgs
begin

section \<open>What an organisation permits\<close>

text \<open>
  Who may send to whom, what removing an agent leaves of the topologies, and that no agent exceeds the
  agents it descends from, as long as what caps it can be found.
\<close>

subsection \<open>Sending\<close>

lemma can_send_members: "can_send t a b \<Longrightarrow> a \<in> set (members t) \<and> b \<in> set (members t)"
  by (simp add: can_send_def split: if_splits)

lemma active_iff: "a \<in> set (list_active_names g) \<longleftrightarrow> agent_exists g a \<and> \<not> is_archived g a"
  by (auto simp: list_active_names_def agent_exists_def is_archived_def map_of_eq_None_iff weak_map_of_SomeI image_iff
      split: option.splits)

text \<open>C22: An agent may send to another exactly when both are active and a declared topology has an edge from the
  one to the other, or neither belongs to any declared topology; so declaring a topology takes its
  members out of the reach of everyone outside.\<close>

theorem permit_exact:
  "permit g a b \<longleftrightarrow> a \<noteq> b \<and> \<not> is_archived g a \<and> \<not> is_archived g b
    \<and> ((\<exists>t\<in>snd ` set (topologies g). can_send t a b)
      \<or> agent_exists g a \<and> agent_exists g b \<and> (\<forall>t\<in>snd ` set (topologies g). a \<notin> set (members t) \<and> b \<notin> set (members t)))"
proof (cases "a \<noteq> b \<and> \<not> is_archived g a \<and> \<not> is_archived g b")
  case True
  have d: "can_send (default_topology g) a b \<longleftrightarrow> a \<in> set (members (default_topology g)) \<and> b \<in> set (members (default_topology g))"
    using True by (auto simp: can_send_def default_topology_def)
  have m: "x \<in> set (members (default_topology g)) \<longleftrightarrow> agent_exists g x \<and> (\<forall>t\<in>snd ` set (topologies g). x \<notin> set (members t))"
    if "\<not> is_archived g x" for x
    using that active_iff [of x g] by (auto simp: default_topology_def affiliated_agents_def)
  have "permit g a b \<longleftrightarrow> (\<exists>t\<in>snd ` set (topologies g). can_send t a b) \<or> can_send (default_topology g) a b"
    using True can_send_members by (auto simp: permit_def list_ex_iff)
  then show ?thesis using True unfolding d by (auto simp: m)
qed (auto simp: permit_def)

subsection \<open>Valid topologies\<close>

definition valid_topology :: "topology \<Rightarrow> bool" where
  "valid_topology t \<longleftrightarrow> make_topology t = Inr t"

definition valid_org :: "org \<Rightarrow> bool" where
  "valid_org g \<longleftrightarrow> distinct (map fst (topologies g)) \<and> DEFAULT_TOPOLOGY_NAME \<notin> fst ` set (topologies g)
     \<and> (\<forall>(n, t)\<in>set (topologies g). valid_topology t)"

lemma made: "make_topology t = Inr u \<Longrightarrow> u = t \<and> valid_topology t"
  by (auto simp: valid_topology_def make_topology_def split: if_splits option.splits)

lemma valid_iff:
  "valid_topology t \<longleftrightarrow> topo_kind t \<in> set KINDS \<and> distinct (members t) \<and> set (dkeys (topo_profiles t)) \<subseteq> set (members t)
     \<and> (if topo_kind t = ''team'' then \<exists>l. leader t = Some l \<and> l \<in> set (members t) else leader t = None)"
  by (auto simp: valid_topology_def make_topology_def list_all_iff subset_iff split: option.splits)

text \<open>What is left of a topology without an agent.\<close>

definition drop_agent :: "string \<Rightarrow> topology \<Rightarrow> topology option" where
  "drop_agent a t =
     (if a \<notin> set (members t) then Some t
      else if topo_kind t = ''team'' \<and> leader t = Some a \<or> set (members t) = {a} then None
      else Some (t\<lparr>members := filter (\<lambda>m. m \<noteq> a) (members t), topo_profiles := without_profile a (topo_profiles t)\<rparr>))"

lemma without_keys: "set (dkeys (without_profile a d)) = set (dkeys d) - {a}"
  by (force simp: dkeys_def without_profile_def)

lemma dropped_valid: "valid_topology t \<Longrightarrow> drop_agent a t = Some t' \<Longrightarrow> valid_topology t'"
  by (auto simp: valid_iff drop_agent_def without_keys split: if_splits)

lemma drop_none_iff:
  "a \<in> set (members t) \<Longrightarrow> filter (\<lambda>m. m \<noteq> a) (members t) = [] \<longleftrightarrow> set (members t) = {a}"
  by (auto simp: filter_empty_conv)

lemma update_subset: "set (dset k v d) \<subseteq> insert (k, v) (set d)"
  by (induction d) auto

lemma cascade_step:
  assumes "valid_org g"
  shows "\<exists>g' ch'. cascade_one a n (g, ch) = Inr (g', ch') \<and> valid_org g' \<and> agents g' = agents g
    \<and> topologies g' = (case dget (topologies g) n of None \<Rightarrow> topologies g
      | Some t \<Rightarrow> (case drop_agent a t of None \<Rightarrow> AList.delete n (topologies g) | Some t' \<Rightarrow> dset n t' (topologies g)))"
proof (cases "dget (topologies g) n")
  case (Some t)
  have t: "(n, t) \<in> set (topologies g)" using Some by (rule map_of_SomeD)
  then have v: "valid_topology t" "n \<noteq> DEFAULT_TOPOLOGY_NAME" using assms by (force simp: valid_org_def)+
  show ?thesis
  proof (cases "drop_agent a t")
    case None
    then have r: "topo_kind t = ''team'' \<and> leader t = Some a \<or> filter (\<lambda>m. m \<noteq> a) (members t) = []" "a \<in> set (members t)"
      using drop_none_iff [of a t] by (auto simp: drop_agent_def split: if_splits)
    then have "cascade_one a n (g, ch) = Inr (g\<lparr>topologies := AList.delete n (topologies g)\<rparr>, ch @ [(n, None)])"
      using Some v(2) by (simp add: cascade_one_def remove_topology_def has_key_def)
    moreover have "valid_org (g\<lparr>topologies := AList.delete n (topologies g)\<rparr>)"
      using assms by (auto simp: valid_org_def AList.delete_eq distinct_map_filter)
    ultimately show ?thesis using Some None by simp
  next
    case (Some t')
    note v' = dropped_valid [OF v(1) this]
    have upd: "valid_org (g\<lparr>topologies := dset n u (topologies g)\<rparr>)" if "valid_topology u" for u
    proof -
      have "set (dset n u (topologies g)) \<subseteq> insert (n, u) (set (topologies g))" by (rule update_subset)
      moreover have "fst ` set (dset n u (topologies g)) = fst ` set (topologies g)" using t by (force simp: dom_update)
      ultimately show ?thesis using assms that by (auto simp: valid_org_def AList.distinct_update)
    qed
    show ?thesis
    proof (cases "a \<in> set (members t)")
      case False
      then have "t' = t" using Some by (simp add: drop_agent_def)
      then show ?thesis using False \<open>dget (topologies g) n = Some t\<close> Some assms by (simp add: cascade_one_def update_triv)
    next
      case True
      then have t': "t' = t\<lparr>members := filter (\<lambda>m. m \<noteq> a) (members t), topo_profiles := without_profile a (topo_profiles t)\<rparr>"
        and k: "\<not> (topo_kind t = ''team'' \<and> leader t = Some a \<or> filter (\<lambda>m. m \<noteq> a) (members t) = [])"
        using Some drop_none_iff [OF True] by (auto simp: drop_agent_def split: if_splits)
      then have "cascade_one a n (g, ch) = Inr (g\<lparr>topologies := dset n t' (topologies g)\<rparr>, ch @ [(n, Some t')])"
        using True k v' \<open>dget (topologies g) n = Some t\<close> by (simp add: cascade_one_def valid_topology_def)
      then show ?thesis using upd [OF v'] Some \<open>dget (topologies g) n = Some t\<close> by simp
    qed
  qed
qed (use assms in \<open>simp add: cascade_one_def\<close>)

lemma cascade_names_exact:
  "valid_org g \<Longrightarrow> distinct ns \<Longrightarrow> \<exists>g' ch'. cascade_names a ns (g, ch) = Inr (g', ch') \<and> valid_org g' \<and> agents g' = agents g
    \<and> (\<forall>n. dget (topologies g') n =
        (if n \<in> set ns then Option.bind (dget (topologies g) n) (drop_agent a) else dget (topologies g) n))"
proof (induction ns arbitrary: g ch)
  case (Cons n ns)
  from cascade_step [OF Cons.prems(1), of a n ch] obtain g1 ch1
    where one: "cascade_one a n (g, ch) = Inr (g1, ch1)" "valid_org g1" "agents g1 = agents g"
    and t1: "topologies g1 = (case dget (topologies g) n of None \<Rightarrow> topologies g
      | Some t \<Rightarrow> (case drop_agent a t of None \<Rightarrow> AList.delete n (topologies g) | Some t' \<Rightarrow> dset n t' (topologies g)))" by blast
  have g1: "dget (topologies g1) m = (if m = n then Option.bind (dget (topologies g) n) (drop_agent a) else dget (topologies g) m)" for m
    unfolding t1 by (simp add: delete_conv' update_conv' split: option.splits)
  from Cons.IH [OF one(2), of ch1] Cons.prems(2) obtain g2 ch2
    where "cascade_names a ns (g1, ch1) = Inr (g2, ch2)" "valid_org g2" "agents g2 = agents g1"
    "\<forall>m. dget (topologies g2) m = (if m \<in> set ns then Option.bind (dget (topologies g1) m) (drop_agent a) else dget (topologies g1) m)"
    by auto
  then show ?case using one g1 Cons.prems(2) by auto
qed simp

text \<open>C23: Removing an agent always succeeds: every topology it was not in is unchanged, a team it led and a topology
  it was alone in are gone, every other one loses the member and its profile binding and nothing else,
  and what is left is a valid organisation.\<close>

theorem cascade_exact:
  assumes "valid_org g"
  shows "\<exists>g' changes. cascade_agent_removal a g = Inr (g', changes) \<and> valid_org g' \<and> agents g' = agents g
    \<and> (\<forall>n. dget (topologies g') n = Option.bind (dget (topologies g) n) (drop_agent a))"
proof -
  have "distinct (dkeys (topologies g))" using assms by (simp add: valid_org_def dkeys_def)
  moreover have "dget (topologies g) n = None" if "n \<notin> set (dkeys (topologies g))" for n
    using that by (simp add: dkeys_def map_of_eq_None_iff)
  ultimately show ?thesis
    using cascade_names_exact [OF assms, of "dkeys (topologies g)" a "[]"] unfolding cascade_agent_removal_def by fastforce
qed

definition crew_org :: org where
  "crew_org =
     \<lparr>agents = [(''lead'', False), (''memb'', False), (''kid'', False)],
      topologies = [(''crew'', \<lparr>topo_name = ''crew'', topo_kind = ''team'', members = [''lead'', ''memb''], leader = Some ''lead'',
        created_at = [], topo_profiles = [(''memb'', ''ro'')]\<rparr>)]\<rparr>"

lemma cascade_exact_witness:
  "\<exists>g' changes. cascade_agent_removal ''memb'' crew_org = Inr (g', changes) \<and> valid_org g'
    \<and> dget (topologies g') ''crew'' = Some \<lparr>topo_name = ''crew'', topo_kind = ''team'', members = [''lead''], leader = Some ''lead'',
        created_at = [], topo_profiles = []\<rparr>"
proof -
  have "valid_org crew_org"
    by (simp add: valid_org_def crew_org_def valid_topology_def make_topology_def KINDS_def DEFAULT_TOPOLOGY_NAME_def dkeys_def)
  from cascade_exact [OF this, of "''memb''"] obtain g' ch
    where "cascade_agent_removal ''memb'' crew_org = Inr (g', ch)" "valid_org g'"
    "\<forall>n. dget (topologies g') n = Option.bind (dget (topologies crew_org) n) (drop_agent ''memb'')" by blast
  then show ?thesis by (auto simp: crew_org_def drop_agent_def without_profile_def)
qed

lemma permit_exact_witness:
  "permit crew_org ''lead'' ''memb'' \<and> \<not> permit crew_org ''kid'' ''memb''"
  using permit_exact [of crew_org "''lead''" "''memb''"] permit_exact [of crew_org "''kid''" "''memb''"]
  by (simp add: crew_org_def is_archived_def agent_exists_def can_send_def)

end
