(* ===== verification/LineageCases.thy ===== *)
theory LineageCases
  imports LineageFacts OrgFacts
begin

section \<open>Where the cap of a spawned agent is lost\<close>

text \<open>
  A team whose member is bound to a profile that denies \<open>exec\<close>, and an agent that member spawned: the
  general theorems at this organisation, and two ways its narrowings disappear.
\<close>

definition read_only :: capability_profile where
  "read_only = \<lparr>profile_name = ''ro'', profile_description = [], categories = None, prof_tool_allow = None,
     prof_tool_deny = [''exec''], prof_mcp_allow = None, prof_mcp_deny = []\<rparr>"

definition no_text :: narrowing_origin where
  "no_text = \<lparr>origin_label = [], origin_cause = [], lifts_when = []\<rparr>"

definition crew :: "profile_file \<Rightarrow> world" where
  "crew f = \<lparr>the_org = crew_org, profile_files = (\<lambda>_. f), delegate_file = NoFile, capability_default = ''allow'',
     constructing_as_delegate = False, session_configs = (\<lambda>_ _. None),
     spawn_lineage = [(''kid'', ''memb'', Some (7, None))], identities = (\<lambda>_. Some (7, None)), texts = (\<lambda>_. no_text)\<rparr>"

lemmas crew_defs = crew_def crew_org_def resolved_Suc own_terms_def topology_terms_def topologies_for_agent_def list_topologies_def
  default_topology_def affiliated_agents_def list_active_names_def is_archived_def topology_term_def profile_for_def
  delegate_terms_def session_terms_def stale_def dkeys_def List.map_filter_simps DEFAULT_TOPOLOGY_NAME_def

lemma crew_terms:
  "topology_terms (crew f) ''kid'' = []"
  "topology_terms (crew f) ''memb'' = (case f of
     NoFile \<Rightarrow> [floor_term (crew f) (ProfileMissing ''crew'' ''ro'')]
   | Malformed \<Rightarrow> [floor_term (crew f) (ProfileMalformed ''crew'' ''ro'')]
   | Parsed p \<Rightarrow> [resolve_profile p (Some no_text)])"
  by (simp_all add: crew_defs split: profile_file.split)

lemma crew_fields [simp]:
  "spawn_lineage (crew f) = [(''kid'', ''memb'', Some (7, None))]" "identities (crew f) = (\<lambda>_. Some (7, None))"
  "delegate_terms (crew f) d = []" "session_terms (crew f) a sid = []" "load_delegate_profile (crew f) = builtin_delegate_profile"
  by (simp_all add: crew_def delegate_terms_def session_terms_def load_delegate_profile_def load_session_profile_def split: option.split)

lemma crew_denied:
  "\<not> contextual_layer (fst (composed [floor_term (crew f) r])) TOOL ''exec''"
  "\<not> contextual_layer (fst (composed [resolve_profile read_only (Some no_text)])) TOOL ''exec''"
  unfolding composed_allows
  by (simp_all add: floor_term_def resolve_profile_def contextual_layer_def builtin_delegate_profile_def FLOORED_TOOLS_def read_only_def)

lemma crew_resolved:
  "resolved_profile_for (Suc 0) (crew (Parsed read_only)) ''memb'' None None = Some (composed [resolve_profile read_only (Some no_text)])"
  "resolved_profile_for (Suc (Suc 0)) (crew (Parsed read_only)) ''kid'' None None
     = Some (composed (term_of (composed [resolve_profile read_only (Some no_text)])))"
  "resolved_profile_for (Suc 0) (crew NoFile) ''memb'' None None = Some (composed [floor_term (crew NoFile) (ProfileMissing ''crew'' ''ro'')])"
  by (simp_all add: resolved_Suc own_terms_def crew_terms stale_def)


lemma spawned_within_ancestor_witness:
  "\<exists>c e. resolved_profile_for (Suc (Suc 0)) (crew (Parsed read_only)) ''kid'' None None = Some (c, e)
    \<and> \<not> contextual_layer c TOOL ''exec''"
proof -
  let ?w = "crew (Parsed read_only)"
  obtain c e where k: "resolved_profile_for (Suc (Suc 0)) ?w ''kid'' None None = Some (c, e)" using crew_resolved(2) by (metis surj_pair)
  obtain pc pe where p: "composed [resolve_profile read_only (Some no_text)] = (pc, pe)" by (metis surj_pair)
  have "is_spawn_descendant ?w ''kid'' ''memb''"
    by (simp add: is_spawn_descendant_def descends.simps [of ?w "[]"] stale_def)
  moreover have "frozen ?w" by (simp add: frozen_def)
  moreover have "resolved_profile_for (Suc 0) ?w ''memb'' None None = Some (pc, pe)" using crew_resolved(1) p by simp
  ultimately have "\<forall>ax v. contextual_layer c ax v \<longrightarrow> contextual_layer pc ax v"
    using spawned_within_ancestor [of ?w "''kid''" "''memb''" _ None None c e _ pc pe] k by simp
  then show ?thesis using k crew_denied(2) p by fastforce
qed

lemma unresolvable_fails_closed_witness:
  "\<exists>c e. resolved_profile_for (Suc 0) (crew NoFile) ''memb'' None None = Some (c, e) \<and> \<not> contextual_layer c TOOL ''exec''"
proof -
  let ?w = "crew NoFile"
  obtain c e where k: "resolved_profile_for (Suc 0) ?w ''memb'' None None = Some (c, e)" using crew_resolved(3) by (metis surj_pair)
  have "\<exists>t\<in>set (topologies_for_agent (the_org ?w) ''memb''). \<exists>p. profile_for t ''memb'' = Some p \<and> p \<noteq> []
      \<and> (profile_files ?w p = NoFile \<or> profile_files ?w p = Malformed)"
    by (simp add: crew_defs)
  moreover have "''exec'' \<in> set (prof_tool_deny (load_delegate_profile ?w))" by (simp add: builtin_delegate_profile_def FLOORED_TOOLS_def)
  ultimately have "\<not> contextual_layer c TOOL ''exec''"
    using unresolvable_fails_closed [OF k, of "''exec''"] by blast
  then show ?thesis using k by blast
qed

subsection \<open>Where it is lost\<close>

text \<open>The cap of a spawned agent does not survive a restart: the agent a member spawned is denied what the member
  is denied, and in the next process, which starts with an empty lineage, it is under no narrowing at all.\<close>

theorem restart_uncaps:
  "(\<exists>c e. resolved_profile_for (Suc (Suc 0)) (crew (Parsed read_only)) ''kid'' None None = Some (c, e)
      \<and> \<not> contextual_layer c TOOL ''exec'')
    \<and> resolved_profile_for (Suc n) (restarted (crew (Parsed read_only))) ''kid'' None None = Some (None, {})"
proof -
  have kid: "\<not> contextual_layer (fst (composed (term_of (composed [resolve_profile read_only (Some no_text)])))) TOOL ''exec''"
    using composed_capped [of "composed [resolve_profile read_only (Some no_text)]" "[]"] composed_proper crew_denied(2)
    by (auto simp: capped_def)
  have "topology_terms (restarted (crew f)) ''kid'' = []" for f by (simp add: crew_defs restarted_def)
  moreover have "delegate_terms (restarted (crew f)) None = []" "session_terms (restarted (crew f)) a None = []" for f a
    by (simp_all add: crew_def restarted_def delegate_terms_def session_terms_def)
  moreover have "spawn_lineage (restarted (crew f)) = []" for f by (simp add: restarted_def)
  ultimately have "resolved_profile_for (Suc n) (restarted (crew f)) ''kid'' None None = Some (None, {})" for f
    by (simp add: resolved_Suc own_terms_def composed_def)
  then show ?thesis using crew_resolved(2) kid by (metis prod.collapse)
qed

text \<open>Removing the leader of a team gives the other members back what their profiles in the team denied them,
  since the team is removed with the bindings it holds.\<close>

theorem leader_loss_uncaps:
  "(\<exists>c e. resolved_profile_for (Suc 0) (crew (Parsed read_only)) ''memb'' None None = Some (c, e)
      \<and> \<not> contextual_layer c TOOL ''exec'')
    \<and> (\<exists>g' changes. cascade_agent_removal ''lead'' crew_org = Inr (g', changes)
      \<and> resolved_profile_for (Suc n) ((crew (Parsed read_only))\<lparr>the_org := g'\<rparr>) ''memb'' None None = Some (None, {}))"
proof -
  let ?g = "crew_org\<lparr>topologies := []\<rparr>"
  have "cascade_agent_removal ''lead'' crew_org = Inr (?g, [(''crew'', None)])"
    by (simp add: cascade_agent_removal_def crew_org_def dkeys_def cascade_one_def remove_topology_def has_key_def DEFAULT_TOPOLOGY_NAME_def)
  moreover have "topology_terms (crew f\<lparr>the_org := ?g\<rparr>) ''memb'' = []" for f by (simp add: crew_defs)
  moreover have "delegate_terms (crew f\<lparr>the_org := ?g\<rparr>) None = []" "session_terms (crew f\<lparr>the_org := ?g\<rparr>) a None = []" for f a
    by (simp_all add: crew_def delegate_terms_def session_terms_def)
  ultimately have "\<exists>g' changes. cascade_agent_removal ''lead'' crew_org = Inr (g', changes)
      \<and> resolved_profile_for (Suc n) ((crew (Parsed read_only))\<lparr>the_org := g'\<rparr>) ''memb'' None None = Some (None, {})"
    by (simp add: resolved_Suc own_terms_def composed_def)
  then show ?thesis using crew_resolved(1) crew_denied(2) by (metis prod.collapse)
qed

text \<open>An agent that is purged leaves its own link behind: the name, spawned again by another agent, is refused.\<close>

theorem purge_keeps_own_edge:
  assumes "dget (spawn_lineage w) b = Some (a, s)" "c \<noteq> a" "c \<noteq> b" "a \<noteq> b"
  shows "record_spawn_lineage b c (invalidate_edges b w) = Inl (ImmutableEdge a)"
proof -
  have "dget (spawn_lineage (invalidate_edges b w)) b = Some (a, s)" using assms(1,4) by (simp add: dget_invalidated)
  then show ?thesis unfolding record_spawn_lineage_def Let_def using assms(2,3) by simp
qed

end
