(* ===== verification/Spec2Isabelle.thy ===== *)
theory Spec2Isabelle
  imports ExprParse SchemaSem Serde Canonical ExecLimits ParsedRun Analyzer JournalCases Worker ChainFacts LineageCases
begin

text \<open>
  A verification of three parts of the agent system under \<open>src/reyn\<close>: the pipeline engine, which loads,
  checks and runs declarative workflows of tools and agents and resumes them after a crash, and the
  durable state of sessions, which is a write-ahead log, snapshots that are mirrored in memory, and a
  history that can be rewound, and the narrowing of what agents may do, by profiles, by the topologies
  they are in and by the agents that spawned them.

  \<^bold>\<open>The program.\<close>  A pipeline is written in YAML.  The loader (\<open>data/pipelines/registry.py\<close>) reads the files
  of the configuration, the parser (\<open>core/pipeline/parser.py\<close>) turns their documents into steps and
  schemas, which go into two registries (\<open>core/pipeline/registry.py\<close>, \<open>core/pipeline/schema.py\<close>), and the
  executor (\<open>core/pipeline/executor.py\<close>) runs the steps.  Steps compute with an expression language
  (\<open>core/pipeline/expr.py\<close>); what tools answer is brought to one shape (\<open>core/offload/canonical.py\<close>); after
  each step a generation of the run is recorded (\<open>core/events/pipeline_recovery.py\<close>), and a crashed run
  is taken up from the last one, with its pipeline decoded from a work order (\<open>core/pipeline/serde.py\<close>).
  A session's state is changed only through its journal (\<open>runtime/services/snapshot_journal.py\<close>), which
  queues an entry of the log and mirrors the change in a snapshot (\<open>core/events/agent_snapshot.py\<close>).  One
  worker (\<open>core/events/durability_worker.py\<close>) runs the queue: it numbers and writes the entries of the log
  (\<open>core/events/state_log.py\<close>) and writes captured snapshots, stamped with the last number.  At the next
  start the snapshots are loaded and the log is replayed onto them; the log is cut at a floor all
  sessions have passed (\<open>core/events/retention.py\<close>, \<open>runtime/registry.py\<close>).  Going back in time appends a
  record (\<open>core/events/snapshot_generations.py\<close>) from which the active part of the history is derived.
  Pending requests and their deadlines (\<open>runtime/services/chain_manager.py\<close>) live in the journal.
  What an actor may do is what every layer allows (\<open>security/permissions/effective.py\<close>).  One of the layers
  is the narrowing of its session, composed (\<open>security/permissions/capability_profile.py\<close>) of the profiles its
  topologies (\<open>runtime/topology.py\<close>) bind it to, of the narrowing it was spawned with and inherits
  (\<open>runtime/session_api.py\<close>), and of all its parent is under (\<open>runtime/registry.py\<close>).

  \<^bold>\<open>The theories.\<close>
  \<^item> Shared: \<open>Prelude\<close> (results as sums, dictionaries, strings), \<open>PyFloat\<close>, \<open>PyValue\<close>, \<open>PyJson\<close>, \<open>JsonDump\<close> and
    \<open>IsoTime\<close> (what the code uses of Python's numbers, values, \<open>json\<close> and \<open>datetime\<close>).
  \<^item> Expressions: \<open>Expr\<close> (\<open>evaluate\<close>), \<open>ExprParse\<close> (tokenizer and parser).  The parser answers every text with
    a well-formed tree or its own error; evaluation raises what it documents, and two more.
  \<^item> Schemas: \<open>Schema\<close> (\<open>SchemaRegistry\<close>, \<open>validate\<close>, \<open>to_json_schema\<close>, \<open>resolve_path\<close>), \<open>SchemaSem\<close> (their meaning).
    The cycle search is exact, registration is atomic, validation decides conformance.
  \<^item> Steps and registries: \<open>Steps\<close>; work orders: \<open>Serde\<close>; tool results: \<open>Canonical\<close>.
  \<^item> The executor: \<open>ExecState\<close> (\<open>_RunDeps\<close>, budgets, recorders, snapshots), \<open>Executor\<close> (one definition per
    runner), \<open>ExecFacts\<close> and \<open>ExecInv\<close> (a logic of runners and what every run keeps), \<open>ExecRun\<close> (consistent
    generations), \<open>ExecResume\<close> (a resumed run is the run), \<open>ExecFuel\<close> (termination), \<open>ExecLimits\<close> (where resuming
    differs; error policies).
  \<^item> The language: \<open>DslParser\<close>, \<open>DslFacts\<close> (soundness and completeness of the parser), \<open>Loader\<close>, \<open>Analyzer\<close>, and
    \<open>ParsedRun\<close> (a loaded pipeline never fails for a reason visible in its text).
  \<^item> The log: \<open>Wal\<close> (\<open>StateLog\<close> and \<open>WalTailReader\<close> on bytes), \<open>WalFacts\<close> (crash at any byte), \<open>WalScan\<close> (opening and
    truncating), \<open>WalReader\<close> (the resumable reader refines a full scan), \<open>WalCases\<close> (files it mishandles),
    \<open>Worker\<close> (order, retries).
  \<^item> Sessions: \<open>AgentSnap\<close>, \<open>SnapFacts\<close>, \<open>Journal\<close>, \<open>JournalFacts\<close>, \<open>JournalRun\<close> (the mirror is the replay), \<open>Crash\<close> (a
    crash between any two steps), \<open>Retention\<close> (restart of all sessions from a truncated log), \<open>JournalCases\<close>,
    \<open>Chains\<close> and \<open>ChainFacts\<close> (chains and deadlines come back).
  \<^item> Time travel: \<open>Rewind\<close>, \<open>RewindFacts\<close> (active positions are the history of the head), \<open>Pitr\<close> (reconstruction
    from a generation equals replay of the history; scoped rewinds are private).
  \<^item> Permissions: \<open>Permissions\<close> (layers, profiles, \<open>compose_resolved\<close>, \<open>compose_narrowing_mappings\<close>), \<open>PermFacts\<close>
    (composition is conjunction, denials are attributed, what a spawned session inherits).
  \<^item> Organisations: \<open>Orgs\<close> (\<open>Topology\<close> and the topologies of the registry), \<open>OrgFacts\<close> (who may send, what removing an
    agent leaves), \<open>Lineage\<close> (\<open>resolved_profile_for\<close>, the spawn lineage), \<open>LineageFacts\<close> (no agent exceeds those it
    descends from, and what cannot be found narrows to a floor), \<open>LineageCases\<close> (where the cap is lost).

  \<^bold>\<open>Interfaces.\<close>  What one part may rely on of another is a locale, interpreted on the model: \<open>token_parser\<close> and
  \<open>expr_parser\<close> for the nested parsers, \<open>ref_visit\<close> for the visitor of the cycle search, \<open>name_registry\<close> for the
  registries, \<open>conjunction\<close> for what a composition of narrowings allows, and for the dispatcher that runners of compound steps call \<open>step_runner\<close>, \<open>resumable_runner\<close>,
  \<open>approximation\<close> and \<open>static_safe\<close>.

  \<^bold>\<open>How the code is rendered.\<close>
  \<^item> Strings are the bytes of their UTF-8 form; digits and white space are the ASCII ones.  Integers are
    unbounded, floats are IEEE doubles held as rationals.  A dictionary is an association list in order
    of insertion; a set of names is a sorted list.
  \<^item> An exception is the left side of a sum and names the check that raised it, not its text.  Where the
    code would carry on with a value of a type no model type has room for, the result is a constructor
    of its own (\<open>DslOutside\<close>, \<open>SerdeOutside\<close>, \<open>SnapOutside\<close>, \<open>ChainOutside\<close>), so that no theorem hides it.
  \<^item> A run of a pipeline passes its state along, with the world of tools and spawned sessions as a type
    variable and what the run asks of it as functions; the order in which concurrent items of a
    fan-out finish is a schedule argument.  A log read gives all entries or the exception that stops it.
    A job of the worker is one step, except that a write is two, with the entry in flight between them;
    the identity of a file, the time and what the disk does to an attempt are arguments.  Dictionaries
    handed to the queue are not changed afterwards.  Times are microseconds since 1970.
  \<^item> A narrowing holds sets, as frozensets are; a mapping that is inherited holds Python values in order.
    Which paths a file scope contains, what was approved, the text that explains an origin, the contents
    of profile files and the identity of an agent's directory are arguments.

  \<^bold>\<open>Recursion.\<close>  All definitions are total.  \<open>dispatch\<close> bounds the nesting of steps at run time and answers
  \<open>Diverge\<close>, which no handler catches, when the bound is exceeded: more fuel never changes an answer, every
  pipeline with an acyclic call graph has enough from some bound on, and one that calls itself never has.
  The decoder of JSON and the expression parser get fuel from the length of their input, which is
  proved to be enough; the tail scan doubles its window until it covers the file.  The walks of the
  spawn lineage remember the names they have seen; the narrowing of an agent asks for that of its
  parent, to a depth that is an argument, and one more than the number of links is proved to be enough.

  \<^bold>\<open>Not modelled.\<close>  Resolution of file paths and the approvals that are kept on disk, the rebuilding of
  the spawn lineage by a rewind, mappers of particular tools, observers and metrics, anchors, the parts of sessions and
  of their registry that start, attach and schedule coroutines, cancellation of the worker's drainer,
  and file paths of work orders.  The router loop, compaction, the language model and protocol
  clients, the sandboxes, and the user interfaces talk to networks, operating systems and third-party
  packages in every function; what could be stated of them is what those do.
\<close>

end
